(* ===== verification/Nachos_Prelude.thy ===== *)
theory Nachos_Prelude
  imports Main "HOL-Library.Word" "HOL-Library.Signed_Division"
begin

text \<open>
  Shared ground of the development: the result type that makes every \<open>ASSERT\<close>, \<open>Abort\<close>,
  halt and wild memory access of the C++ code a value, bounds-checked array access,
  counted loops, the rounding divisions of \<open>lib/utility.h\<close>, the little-endian byte
  representation of 16 and 32 bit integers, and the generic lemmas on them.

  The host is the 32 bit little-endian machine of \<open>build.linux/Makefile\<close> (\<open>-m32\<close>):
  \<open>int\<close> and \<open>unsigned\<close> are 32 bits wide, \<open>char\<close> is a signed byte.
\<close>

unbundle bit_operations_syntax

named_theorems c_simps \<open>rewriting of the sequencing and checking combinators\<close>
named_theorems c_elims \<open>inversion of successful runs of the combinators\<close>

section \<open>Machine types\<close>

type_synonym byte = "8 word"
type_synonym short = "16 word"
type_synonym i32 = "32 word"

section \<open>Faults and results\<close>

text \<open>
  \<open>Abort\<close> is a failed \<open>ASSERT\<close> or \<open>ASSERTNOTREACHED\<close> (\<open>lib/debug.h\<close>, which calls
  \<open>Abort()\<close>); \<open>Halt\<close> is \<open>Interrupt::Halt\<close>, after which nothing of the kernel runs;
  \<open>WildAccess\<close> is an access through a null pointer or outside an array, which C++ leaves
  undefined and the model never gives a value; \<open>ArithTrap\<close> is the quotient \<open>INT_MIN / -1\<close>,
  undefined in C++ and a processor trap on the x86 host; \<open>Diverges\<close> is a loop that never ends
  (a walk along a cyclic list), or one that did not end within the fuel of the model where a
  definition takes fuel.
\<close>

datatype fault = Abort | Halt | WildAccess | ArithTrap | Diverges

type_synonym 'a result = "fault + 'a"

definition rbind :: "'a result \<Rightarrow> ('a \<Rightarrow> 'b result) \<Rightarrow> 'b result" where
  "rbind m k = (case m of Inl e \<Rightarrow> Inl e | Inr x \<Rightarrow> k x)"

definition require :: "bool \<Rightarrow> 'a result \<Rightarrow> 'a result" where
  "require c k = (if c then k else Inl Abort)"

lemma rbind_Inl [simp, c_simps]: "rbind (Inl e) k = Inl e"
  by (simp add: rbind_def)

lemma rbind_Inr [simp, c_simps]: "rbind (Inr x) k = k x"
  by (simp add: rbind_def)

lemma require_True [simp, c_simps]: "require True k = k"
  by (simp add: require_def)

lemma require_False [simp, c_simps]: "require False k = Inl Abort"
  by (simp add: require_def)

lemma require_eq_Inr [c_simps]: "require c k = Inr x \<longleftrightarrow> c \<and> k = Inr x"
  by (simp add: require_def)

lemma rbind_eq_Inr [c_simps]: "rbind m k = Inr y \<longleftrightarrow> (\<exists>x. m = Inr x \<and> k x = Inr y)"
  by (auto simp: rbind_def split: sum.splits)

lemma rbind_InrE [c_elims]:
  assumes "rbind m k = Inr y"
  obtains x where "m = Inr x" and "k x = Inr y"
  using assms by (auto simp: rbind_eq_Inr)

lemma rbind_assoc: "rbind (rbind m k) l = rbind m (\<lambda>x. rbind (k x) l)"
  by (simp add: rbind_def split: sum.splits)

lemma rbind_cong [fundef_cong]:
  assumes "m = m'" and "\<And>x. m' = Inr x \<Longrightarrow> k x = k' x"
  shows "rbind m k = rbind m' k'"
  using assms by (simp add: rbind_def split: sum.splits)

section \<open>Runs that keep to a set of faults\<close>

text \<open>
  \<open>safe F P r\<close>: the run \<open>r\<close> ends with a result that satisfies \<open>P\<close>, or with a fault of \<open>F\<close>. The rules
  follow the combinators, as those of a Hoare logic do.
\<close>

definition safe :: "fault set \<Rightarrow> ('a \<Rightarrow> bool) \<Rightarrow> 'a result \<Rightarrow> bool" where
  "safe F P r = (case r of Inl f \<Rightarrow> f \<in> F | Inr x \<Rightarrow> P x)"

lemma safe_simps [simp]: "safe F P (Inl f) \<longleftrightarrow> f \<in> F" "safe F P (Inr x) \<longleftrightarrow> P x"
  by (simp_all add: safe_def)

lemma safe_rbind: "safe F P m \<Longrightarrow> (\<And>x. P x \<Longrightarrow> safe F Q (k x)) \<Longrightarrow> safe F Q (rbind m k)"
  by (cases m) simp_all

lemma safe_mono: "safe F P r \<Longrightarrow> F \<subseteq> G \<Longrightarrow> (\<And>x. P x \<Longrightarrow> Q x) \<Longrightarrow> safe G Q r"
  by (auto simp: safe_def split: sum.splits)

lemma safe_weaken: "safe F P r \<Longrightarrow> F \<subseteq> G \<Longrightarrow> safe G P r"
  by (rule safe_mono)

lemma safe_require: "(c \<Longrightarrow> safe F P r) \<Longrightarrow> (\<not> c \<Longrightarrow> Abort \<in> F) \<Longrightarrow> safe F P (require c r)"
  by (cases c) simp_all

lemma safe_if: "(c \<Longrightarrow> safe F P a) \<Longrightarrow> (\<not> c \<Longrightarrow> safe F P b) \<Longrightarrow> safe F P (if c then a else b)"
  by simp

lemma safe_ex: "\<exists>x. r = Inr x \<and> P x \<Longrightarrow> safe F P r"
  by auto

lemma safe_emptyD: "safe {} P r \<Longrightarrow> \<exists>x. r = Inr x \<and> P x"
  by (cases r) simp_all

section \<open>Arrays\<close>

text \<open>Reading or writing outside an array is \<open>WildAccess\<close>.\<close>

definition arr_get :: "'a list \<Rightarrow> int \<Rightarrow> 'a result" where
  "arr_get xs i = (if 0 \<le> i \<and> i < int (length xs) then Inr (xs ! nat i) else Inl WildAccess)"

definition arr_set :: "'a list \<Rightarrow> int \<Rightarrow> 'a \<Rightarrow> 'a list result" where
  "arr_set xs i v =
     (if 0 \<le> i \<and> i < int (length xs) then Inr (xs[nat i := v]) else Inl WildAccess)"

lemma arr_get_ok [simp]: "0 \<le> i \<Longrightarrow> i < int (length xs) \<Longrightarrow> arr_get xs i = Inr (xs ! nat i)"
  by (simp add: arr_get_def)

lemma arr_set_ok [simp]: "0 \<le> i \<Longrightarrow> i < int (length xs) \<Longrightarrow> arr_set xs i v = Inr (xs[nat i := v])"
  by (simp add: arr_set_def)

lemma arr_get_Inr [c_simps]:
  "arr_get xs i = Inr x \<longleftrightarrow> 0 \<le> i \<and> i < int (length xs) \<and> x = xs ! nat i"
  by (auto simp: arr_get_def)

lemma arr_set_Inr [c_simps]:
  "arr_set xs i v = Inr ys \<longleftrightarrow> 0 \<le> i \<and> i < int (length xs) \<and> ys = xs[nat i := v]"
  by (auto simp: arr_set_def)

section \<open>Counted loops\<close>

text \<open>
  \<open>for (i = 0; i < n; i++) body\<close>, where the body threads a state and may stop with a
  fault: the body is run on the indices in order.
\<close>

primrec rfold :: "('a \<Rightarrow> 's \<Rightarrow> 's result) \<Rightarrow> 'a list \<Rightarrow> 's \<Rightarrow> 's result" where
  "rfold f [] s = Inr s"
| "rfold f (x # xs) s = rbind (f x s) (rfold f xs)"

definition for_upto :: "int \<Rightarrow> (int \<Rightarrow> 's \<Rightarrow> 's result) \<Rightarrow> 's \<Rightarrow> 's result" where
  "for_upto n body s = rfold (\<lambda>i. body (int i)) [0..<nat n] s"

lemma rfold_append: "rfold f (xs @ ys) s = rbind (rfold f xs s) (rfold f ys)"
  by (induction xs arbitrary: s) (simp_all add: rbind_assoc [symmetric] rbind_def split: sum.splits)

lemma for_upto_0 [simp]: "n \<le> 0 \<Longrightarrow> for_upto n body s = Inr s"
  by (simp add: for_upto_def)

lemma for_upto_Suc:
  assumes "0 \<le> n"
  shows "for_upto (n + 1) body s = rbind (for_upto n body s) (body n)"
proof -
  have "[0..<nat (n + 1)] = [0..<nat n] @ [nat n]"
    using assms by (simp add: nat_add_distrib)
  moreover have "rfold (\<lambda>i. body (int i)) [nat n] = body n"
    using assms by (auto simp: fun_eq_iff rbind_def split: sum.splits)
  ultimately show ?thesis
    by (simp add: for_upto_def rfold_append)
qed

text \<open>
  The loop rule: an invariant indexed by the counter, established at 0 and carried by every
  iteration, holds when the loop is done, and the loop runs to its end.
\<close>

lemma for_upto_rule:
  assumes init: "P 0 s"
    and step: "\<And>i t. 0 \<le> i \<Longrightarrow> i < n \<Longrightarrow> P i t \<Longrightarrow> \<exists>t'. body i t = Inr t' \<and> P (i + 1) t'"
    and n: "0 \<le> n"
  shows "\<exists>t. for_upto n body s = Inr t \<and> P n t"
proof -
  have "k \<le> nat n \<Longrightarrow> \<exists>t. for_upto (int k) body s = Inr t \<and> P (int k) t" for k
  proof (induction k)
    case 0
    then show ?case using init by simp
  next
    case (Suc k)
    then obtain t where t: "for_upto (int k) body s = Inr t" "P (int k) t" by auto
    then obtain t' where "body (int k) t = Inr t'" "P (int k + 1) t'"
      using step [of "int k" t] Suc.prems n by (fastforce simp: le_nat_iff)
    then show ?case
      using for_upto_Suc [of "int k" body s] t by (auto simp: add.commute)
  qed
  from this [of "nat n"] show ?thesis using n by simp
qed

lemma for_upto_fault:
  assumes "0 \<le> k" and "k < n" and "for_upto k body s = Inr t" and "body k t = Inl e"
  shows "for_upto n body s = Inl e"
proof -
  have "[0..<nat n] = [0..<nat k] @ nat k # [Suc (nat k)..<nat n]"
    using assms(1,2) upt_add_eq_append [of 0 "nat k" "nat n - nat k"] by (simp add: upt_conv_Cons)
  then show ?thesis using assms by (simp add: for_upto_def rfold_append)
qed

lemma take_Suc_update: "i < length xs \<Longrightarrow> take (Suc i) (xs[i := v]) = take i xs @ [v]"
  by (simp add: take_Suc_conv_app_nth)

lemma int_range_Suc: "0 \<le> (i::int) \<Longrightarrow> {0..<i + 1} = insert i {0..<i}"
  by auto

section \<open>Rounding divisions (lib/utility.h)\<close>

definition divRoundDown :: "int \<Rightarrow> int \<Rightarrow> int" where
  "divRoundDown n s = n sdiv s"

definition divRoundUp :: "int \<Rightarrow> int \<Rightarrow> int" where
  "divRoundUp n s = n sdiv s + (if n smod s > 0 then 1 else 0)"

lemma sdiv_nonneg: "0 \<le> (n::int) \<Longrightarrow> 0 < s \<Longrightarrow> n sdiv s = n div s"
  by (cases "n = 0") (simp_all add: signed_divide_int_def)

lemma smod_nonneg: "0 \<le> (n::int) \<Longrightarrow> 0 < s \<Longrightarrow> n smod s = n mod s"
  by (cases "n = 0") (simp_all add: signed_modulo_int_def)

lemma divRoundDown_nonneg: "0 \<le> n \<Longrightarrow> 0 < s \<Longrightarrow> divRoundDown n s = n div s"
  by (simp add: divRoundDown_def sdiv_nonneg)

lemma divRoundUp_nonneg: "0 \<le> n \<Longrightarrow> 0 < s \<Longrightarrow> divRoundUp n s = (n + s - 1) div s"
proof -
  assume n: "0 \<le> n" and s: "0 < s"
  have e: "n + s - 1 = (n mod s + s - 1) + s * (n div s)" by simp
  have "(n + s - 1) div s = (n mod s + s - 1) div s + n div s"
    unfolding e using s by (subst div_mult_self2) auto
  moreover have "(n mod s + s - 1) div s = (if n mod s > 0 then 1 else 0)"
  proof (cases "n mod s > 0")
    case True
    have "n mod s + s - 1 = (n mod s - 1) + s" by simp
    then have "(n mod s + s - 1) div s = (n mod s - 1) div s + 1"
      using s by (metis div_add_self2 less_irrefl)
    moreover have "(n mod s - 1) div s = 0"
      using True s pos_mod_bound [OF s, of n] by (intro div_pos_pos_trivial) linarith+
    ultimately show ?thesis using True by simp
  next
    case False
    then have "n mod s = 0" using s pos_mod_sign [of s n] by linarith
    then show ?thesis using s by simp
  qed
  ultimately show ?thesis
    using n s by (simp add: divRoundUp_def sdiv_nonneg smod_nonneg)
qed

text \<open>\<open>divRoundUp\<close> is the least number of blocks of size \<open>s\<close> that hold \<open>n\<close> units.\<close>

lemma divRoundUp_bounds:
  assumes "0 \<le> n" and "0 < s"
  shows "n \<le> divRoundUp n s * s" and "divRoundUp n s * s < n + s" and "0 \<le> divRoundUp n s"
proof -
  let ?q = "(n + s - 1) div s"
  have eq: "?q * s + (n + s - 1) mod s = n + s - 1" by simp
  have m: "0 \<le> (n + s - 1) mod s" "(n + s - 1) mod s < s" using assms(2) by auto
  have q: "divRoundUp n s = ?q" using assms by (simp add: divRoundUp_nonneg)
  show "n \<le> divRoundUp n s * s" using eq m unfolding q by linarith
  show "divRoundUp n s * s < n + s" using eq m unfolding q by linarith
  show "0 \<le> divRoundUp n s"
    unfolding q using assms by (simp add: pos_imp_zdiv_nonneg_iff)
qed

lemma divRoundUp_div_less:
  assumes "0 \<le> i" and "i < n" and "0 < s"
  shows "i div s < divRoundUp n s"
proof -
  have "i < divRoundUp n s * s"
    using divRoundUp_bounds(1) [of n s] assms by linarith
  moreover have "i div s * s \<le> i"
    using div_mult_mod_eq [of i s] pos_mod_sign [OF assms(3), of i] by linarith
  ultimately show ?thesis
    using assms(3) by (metis le_less_trans mult_less_cancel_right_pos)
qed


section \<open>Little-endian words in byte arrays\<close>

definition le_short :: "byte \<Rightarrow> byte \<Rightarrow> short" where
  "le_short b0 b1 = ucast b0 OR push_bit 8 (ucast b1)"

definition le_word :: "byte \<Rightarrow> byte \<Rightarrow> byte \<Rightarrow> byte \<Rightarrow> i32" where
  "le_word b0 b1 b2 b3 =
     ucast b0 OR push_bit 8 (ucast b1) OR push_bit 16 (ucast b2) OR push_bit 24 (ucast b3)"

definition byte_of :: "nat \<Rightarrow> 'a::len word \<Rightarrow> byte" where
  "byte_of k w = ucast (drop_bit (8 * k) w)"

lemma bit_byte_of: "bit (byte_of k w) n \<longleftrightarrow> n < 8 \<and> bit w (8 * k + n)"
  by (auto simp: byte_of_def bit_simps)

lemma bit_le_word:
  "bit (le_word b0 b1 b2 b3) n \<longleftrightarrow>
     (if n < 8 then bit b0 n else if n < 16 then bit b1 (n - 8)
      else if n < 24 then bit b2 (n - 16) else n < 32 \<and> bit b3 (n - 24))"
  by (auto simp: le_word_def bit_simps dest: bit_imp_le_length)

lemma bit_le_short:
  "bit (le_short b0 b1) n \<longleftrightarrow> (if n < 8 then bit b0 n else n < 16 \<and> bit b1 (n - 8))"
  by (auto simp: le_short_def bit_simps dest: bit_imp_le_length)

lemma le_word_byte_of [simp]: "le_word (byte_of 0 w) (byte_of 1 w) (byte_of 2 w) (byte_of 3 w) = w"
  by (rule bit_word_eqI) (auto simp: bit_le_word bit_byte_of)

lemma le_short_byte_of [simp]: "le_short (byte_of 0 w) (byte_of 1 w) = w"
  by (rule bit_word_eqI) (auto simp: bit_le_short bit_byte_of)

lemma byte_of_le_word [simp]:
  "byte_of 0 (le_word b0 b1 b2 b3) = b0" "byte_of (Suc 0) (le_word b0 b1 b2 b3) = b1"
  "byte_of 2 (le_word b0 b1 b2 b3) = b2" "byte_of 3 (le_word b0 b1 b2 b3) = b3"
  by (rule bit_word_eqI, simp add: bit_byte_of bit_le_word)+

text \<open>A run of 32 bit words as the bytes of a file or a disk sector, and back.\<close>

fun word_bytes :: "i32 list \<Rightarrow> byte list" where
  "word_bytes [] = []"
| "word_bytes (w # ws) = byte_of 0 w # byte_of 1 w # byte_of 2 w # byte_of 3 w # word_bytes ws"

fun bytes_words :: "byte list \<Rightarrow> i32 list" where
  "bytes_words (b0 # b1 # b2 # b3 # bs) = le_word b0 b1 b2 b3 # bytes_words bs"
| "bytes_words _ = []"

lemma length_word_bytes [simp]: "length (word_bytes ws) = 4 * length ws"
  by (induction ws) auto

lemma bytes_words_word_bytes [simp]: "bytes_words (word_bytes ws) = ws"
  by (induction ws) (auto simp flip: One_nat_def)

lemma bytes_words_append [simp]: "bytes_words (word_bytes ws @ bs) = ws @ bytes_words bs"
  by (induction ws) (auto simp flip: One_nat_def)

lemma word_bytes_append [simp]: "word_bytes (us @ ws) = word_bytes us @ word_bytes ws"
  by (induction us) auto

lemma length_bytes_words: "length (bytes_words bs) = length bs div 4"
  by (induction bs rule: bytes_words.induct) auto

lemma mod_Suc_Suc_Suc4: "Suc (Suc (Suc (Suc n))) mod 4 = n mod 4"
  by presburger

lemma word_bytes_bytes_words: "4 dvd length bs \<Longrightarrow> word_bytes (bytes_words bs) = bs"
proof (induction bs rule: bytes_words.induct)
  case (1 b0 b1 b2 b3 bs)
  then have "4 dvd length bs" by (simp add: dvd_eq_mod_eq_0 mod_Suc_Suc_Suc4)
  with 1 show ?case by simp
qed (auto dest: dvd_imp_le)

end
