(* ===== verification/Lib_List.thy ===== *)
theory Lib_List
  imports Nachos_Prelude
begin

text \<open>
  \<open>lib/list.h\<close> and \<open>lib/list.cc\<close>: the singly linked lists of the kernel. The list elements live
  in an explicit store of cells, so that \<open>first\<close>, \<open>last\<close> and \<open>next\<close> are pointers as in the code;
  the null pointer is address 0. The theory shows that a list in the store behaves as the
  sequence of its items: \<open>list_Append\<close>, \<open>list_RemoveFront\<close>, \<open>list_Remove\<close> and \<open>list_Insert\<close> are
  the operations on sequences, which the other components of the model use.
\<close>

section \<open>List elements and the store\<close>

record 'a ListElement =
  item :: 'a
  "next" :: nat

record 'a store =
  cells :: "nat \<rightharpoonup> 'a ListElement"
  brk :: nat

record List =
  first :: nat
  last_elt :: nat
  numInList :: int

abbreviation (input) NULL :: nat where "NULL \<equiv> 0"

definition deref :: "nat \<Rightarrow> 'a store \<Rightarrow> 'a ListElement result" where
  "deref p s = (case cells s p of None \<Rightarrow> Inl WildAccess | Some c \<Rightarrow> Inr c)"

text \<open>\<open>new ListElement(itm)\<close> returns an address that is not in use.\<close>

definition ListElement_new :: "'a \<Rightarrow> 'a store \<Rightarrow> nat \<times> 'a store" where
  "ListElement_new itm s =
     (brk s, s\<lparr>cells := (cells s)(brk s \<mapsto> \<lparr>item = itm, next = NULL\<rparr>), brk := brk s + 1\<rparr>)"

definition set_next :: "nat \<Rightarrow> nat \<Rightarrow> 'a store \<Rightarrow> 'a store result" where
  "set_next p q s = rbind (deref p s) (\<lambda>c. Inr (s\<lparr>cells := (cells s)(p \<mapsto> c\<lparr>next := q\<rparr>)\<rparr>))"

definition free :: "nat \<Rightarrow> 'a store \<Rightarrow> 'a store" where
  "free p s = s\<lparr>cells := (cells s)(p := None)\<rparr>"

section \<open>The operations of List\<close>

definition List_new :: List where
  "List_new = \<lparr>first = NULL, last_elt = NULL, numInList = 0\<rparr>"

definition List_IsEmpty :: "List \<Rightarrow> bool" where
  "List_IsEmpty l \<longleftrightarrow> numInList l = 0"

definition List_NumInList :: "List \<Rightarrow> int" where
  "List_NumInList l = numInList l"

definition List_Front :: "List \<Rightarrow> 'a store \<Rightarrow> 'a result" where
  "List_Front l s = rbind (deref (first l) s) (\<lambda>c. Inr (item c))"

text \<open>
  The walks along \<open>next\<close>. A walk of more cells than were ever allocated has met a cell twice and
  never ends: the counter starts at the number of addresses in use.
\<close>

primrec List_IsInList_loop :: "nat \<Rightarrow> 'a store \<Rightarrow> nat \<Rightarrow> 'a \<Rightarrow> bool result" where
  "List_IsInList_loop 0 s ptr x = Inl Diverges"
| "List_IsInList_loop (Suc n) s ptr x =
     (if ptr = NULL then Inr False
      else rbind (deref ptr s) (\<lambda>c.
        if x = item c then Inr True else List_IsInList_loop n s (next c) x))"

definition List_IsInList :: "'a \<Rightarrow> List \<Rightarrow> 'a store \<Rightarrow> bool result" where
  "List_IsInList x l s = List_IsInList_loop (Suc (brk s)) s (first l) x"

definition List_Append :: "'a \<Rightarrow> List \<times> 'a store \<Rightarrow> (List \<times> 'a store) result" where
  "List_Append x = (\<lambda>(l, s).
     let (element, s1) = ListElement_new x s in
     rbind (List_IsInList x l s1) (\<lambda>b. require (\<not> b)
    (rbind (if List_IsEmpty l then Inr (l\<lparr>first := element, last_elt := element\<rparr>, s1)
            else rbind (set_next (last_elt l) element s1) (\<lambda>s2. Inr (l\<lparr>last_elt := element\<rparr>, s2)))
      (\<lambda>(l1, s2).
        let l2 = l1\<lparr>numInList := numInList l1 + 1\<rparr> in
        rbind (List_IsInList x l2 s2) (\<lambda>b. require b (Inr (l2, s2)))))))"

definition List_Prepend :: "'a \<Rightarrow> List \<times> 'a store \<Rightarrow> (List \<times> 'a store) result" where
  "List_Prepend x = (\<lambda>(l, s).
     let (element, s1) = ListElement_new x s in
     rbind (List_IsInList x l s1) (\<lambda>b. require (\<not> b)
    (rbind (if List_IsEmpty l then Inr (l\<lparr>first := element, last_elt := element\<rparr>, s1)
            else rbind (set_next element (first l) s1) (\<lambda>s2. Inr (l\<lparr>first := element\<rparr>, s2)))
      (\<lambda>(l1, s2).
        let l2 = l1\<lparr>numInList := numInList l1 + 1\<rparr> in
        rbind (List_IsInList x l2 s2) (\<lambda>b. require b (Inr (l2, s2)))))))"

definition List_RemoveFront :: "List \<times> 'a store \<Rightarrow> ('a \<times> List \<times> 'a store) result" where
  "List_RemoveFront = (\<lambda>(l, s).
     require (\<not> List_IsEmpty l)
    (rbind (deref (first l) s) (\<lambda>c.
       let thing = item c;
           l1 = (if first l = last_elt l then l\<lparr>first := NULL, last_elt := NULL\<rparr> else l\<lparr>first := next c\<rparr>)
       in Inr (thing, l1\<lparr>numInList := numInList l1 - 1\<rparr>, free (first l) s))))"

text \<open>The search loop of \<open>Remove\<close>; \<open>None\<close> is the end of the list without a match.\<close>

primrec List_Remove_loop ::
  "nat \<Rightarrow> 'a \<Rightarrow> nat \<Rightarrow> nat \<Rightarrow> List \<times> 'a store \<Rightarrow> (List \<times> 'a store) option result" where
  "List_Remove_loop 0 x prev ptr ls = Inl Diverges"
| "List_Remove_loop (Suc n) x prev ptr ls =
     (if ptr = NULL then Inr None
      else rbind (deref ptr (snd ls)) (\<lambda>c.
        if x = item c then
          rbind (set_next prev (next c) (snd ls)) (\<lambda>s1.
            let l = fst ls; l1 = (if next c = NULL then l\<lparr>last_elt := prev\<rparr> else l) in
            Inr (Some (l1\<lparr>numInList := numInList l1 - 1\<rparr>, free ptr s1)))
        else List_Remove_loop n x ptr (next c) ls))"

definition List_Remove :: "'a \<Rightarrow> List \<times> 'a store \<Rightarrow> (List \<times> 'a store) result" where
  "List_Remove x = (\<lambda>(l, s).
     rbind (List_IsInList x l s) (\<lambda>b. require b
    (rbind (deref (first l) s) (\<lambda>c.
     rbind (if x = item c then
              rbind (List_RemoveFront (l, s)) (\<lambda>(removed, ls). require (x = removed) (Inr ls))
            else
              rbind (List_Remove_loop (Suc (brk s)) x (first l) (next c) (l, s)) (\<lambda>r.
                case r of None \<Rightarrow> Inl Abort | Some ls \<Rightarrow> Inr ls))
       (\<lambda>(l1, s1). rbind (List_IsInList x l1 s1) (\<lambda>b. require (\<not> b) (Inr (l1, s1))))))))"

text \<open>\<open>Apply\<close>, with the effect of the function on some state \<open>'s\<close>; \<open>ListIterator\<close> walks the same way.\<close>

primrec List_Apply_loop :: "nat \<Rightarrow> ('a \<Rightarrow> 's \<Rightarrow> 's) \<Rightarrow> 'a store \<Rightarrow> nat \<Rightarrow> 's \<Rightarrow> 's result" where
  "List_Apply_loop 0 f s ptr st = Inl Diverges"
| "List_Apply_loop (Suc n) f s ptr st =
     (if ptr = NULL then Inr st
      else rbind (deref ptr s) (\<lambda>c. List_Apply_loop n f s (next c) (f (item c) st)))"

definition List_Apply :: "('a \<Rightarrow> 's \<Rightarrow> 's) \<Rightarrow> List \<Rightarrow> 'a store \<Rightarrow> 's \<Rightarrow> 's result" where
  "List_Apply f l s st = List_Apply_loop (Suc (brk s)) f s (first l) st"

section \<open>SortedList\<close>

text \<open>
  The search loop of \<open>Insert\<close>: \<open>None\<close> when the item belongs at the end; otherwise the store with
  the new element linked in after \<open>ptr\<close>.
\<close>

primrec SortedList_Insert_loop ::
  "nat \<Rightarrow> ('a \<Rightarrow> 'a \<Rightarrow> int) \<Rightarrow> 'a \<Rightarrow> nat \<Rightarrow> nat \<Rightarrow> 'a store \<Rightarrow> 'a store option result" where
  "SortedList_Insert_loop 0 compare x element ptr s = Inl Diverges"
| "SortedList_Insert_loop (Suc n) compare x element ptr s =
     rbind (deref ptr s) (\<lambda>c.
       if next c = NULL then Inr None
       else rbind (deref (next c) s) (\<lambda>d.
         if compare x (item d) < 0 then
           rbind (set_next element (next c) s) (\<lambda>s1.
           rbind (set_next ptr element s1) (\<lambda>s2. Inr (Some s2)))
         else SortedList_Insert_loop n compare x element (next c) s))"

text \<open>The end of \<open>Insert\<close>, which the early return of the loop skips.\<close>

definition SortedList_Insert_end :: "'a \<Rightarrow> List \<Rightarrow> 'a store \<Rightarrow> (List \<times> 'a store) result" where
  "SortedList_Insert_end x l s =
     (let l1 = l\<lparr>numInList := numInList l + 1\<rparr> in
      rbind (List_IsInList x l1 s) (\<lambda>b. require b (Inr (l1, s))))"

definition SortedList_Insert :: "('a \<Rightarrow> 'a \<Rightarrow> int) \<Rightarrow> 'a \<Rightarrow> List \<times> 'a store \<Rightarrow> (List \<times> 'a store) result" where
  "SortedList_Insert compare x = (\<lambda>(l, s).
     let (element, s1) = ListElement_new x s in
     rbind (List_IsInList x l s1) (\<lambda>b. require (\<not> b)
      (if List_IsEmpty l then SortedList_Insert_end x (l\<lparr>first := element, last_elt := element\<rparr>) s1
       else rbind (deref (first l) s1) (\<lambda>c.
         if compare x (item c) < 0 then
           rbind (set_next element (first l) s1) (\<lambda>s2. SortedList_Insert_end x (l\<lparr>first := element\<rparr>) s2)
         else
           rbind (SortedList_Insert_loop (Suc (brk s1)) compare x element (first l) s1) (\<lambda>r.
             case r of
               Some s2 \<Rightarrow> Inr (l\<lparr>numInList := numInList l + 1\<rparr>, s2)
             | None \<Rightarrow>
                 rbind (set_next (last_elt l) element s1) (\<lambda>s2. SortedList_Insert_end x (l\<lparr>last_elt := element\<rparr>) s2))))))"

section \<open>Sanity checks and self tests\<close>

text \<open>The counting loop of \<open>SanityCheck\<close> ends because of its own assertion.\<close>

function List_SanityCheck_loop :: "nat \<Rightarrow> int \<Rightarrow> int \<Rightarrow> 'a store \<Rightarrow> nat \<Rightarrow> int result" where
  "List_SanityCheck_loop lst num numFound s ptr =
     (if ptr = lst then Inr numFound
      else if numFound + 1 \<le> num
        then rbind (deref ptr s) (\<lambda>c. List_SanityCheck_loop lst num (numFound + 1) s (next c))
        else Inl Abort)"
  by pat_completeness auto
termination by (relation "measure (\<lambda>(lst, num, numFound, s, ptr). nat (num - numFound))") auto

definition List_SanityCheck :: "List \<Rightarrow> 'a store \<Rightarrow> unit result" where
  "List_SanityCheck l s =
     (if first l = NULL then require (numInList l = 0 \<and> last_elt l = NULL) (Inr ())
      else if first l = last_elt l then
        require (numInList l = 1) (rbind (deref (last_elt l) s) (\<lambda>c. require (next c = NULL) (Inr ())))
      else
        rbind (List_SanityCheck_loop (last_elt l) (numInList l) 1 s (first l)) (\<lambda>numFound.
          require (numFound = numInList l)
            (rbind (deref (last_elt l) s) (\<lambda>c. require (next c = NULL) (Inr ())))))"

primrec SortedList_SanityCheck_loop ::
  "nat \<Rightarrow> ('a \<Rightarrow> 'a \<Rightarrow> int) \<Rightarrow> 'a store \<Rightarrow> 'a \<Rightarrow> nat \<Rightarrow> unit result" where
  "SortedList_SanityCheck_loop 0 compare s prev ptr = Inl Diverges"
| "SortedList_SanityCheck_loop (Suc n) compare s prev ptr =
     (if ptr = NULL then Inr ()
      else rbind (deref ptr s) (\<lambda>c. require (compare prev (item c) \<le> 0)
        (SortedList_SanityCheck_loop n compare s (item c) (next c))))"

definition SortedList_SanityCheck :: "('a \<Rightarrow> 'a \<Rightarrow> int) \<Rightarrow> List \<Rightarrow> 'a store \<Rightarrow> unit result" where
  "SortedList_SanityCheck compare l s =
     rbind (List_SanityCheck l s) (\<lambda>_.
       if first l \<noteq> last_elt l then
         rbind (deref (first l) s) (\<lambda>c.
           SortedList_SanityCheck_loop (Suc (brk s)) compare s (item c) (next c))
       else Inr ())"

text \<open>
  \<open>List::SelfTest\<close> calls \<open>Append\<close> and \<open>SanityCheck\<close> as virtual functions: on a sorted list these
  are \<open>Insert\<close> and the check of \<open>SortedList\<close>, so both are arguments. The iterator taken at the
  start points to \<open>first\<close>; its loop must not be entered.
\<close>

definition List_SelfTest ::
  "('a \<Rightarrow> List \<times> 'a store \<Rightarrow> (List \<times> 'a store) result) \<Rightarrow> (List \<Rightarrow> 'a store \<Rightarrow> unit result) \<Rightarrow>
   'a list \<Rightarrow> List \<times> 'a store \<Rightarrow> (List \<times> 'a store) result" where
  "List_SelfTest app sanity p = (\<lambda>(l, s).
     rbind (sanity l s) (\<lambda>_.
     require (List_IsEmpty l \<and> first l = NULL)
    (rbind (rfold (\<lambda>x ls. rbind (app x ls) (\<lambda>(l1, s1).
              rbind (List_IsInList x l1 s1) (\<lambda>b.
                require b (require (\<not> List_IsEmpty l1) (Inr (l1, s1)))))) p (l, s)) (\<lambda>(l2, s2).
     rbind (sanity l2 s2) (\<lambda>_.
     rbind (rfold (\<lambda>x ls. rbind (List_Remove x ls) (\<lambda>(l1, s1).
              rbind (List_IsInList x l1 s1) (\<lambda>b. require (\<not> b) (Inr (l1, s1))))) p (l2, s2)) (\<lambda>(l3, s3).
     require (List_IsEmpty l3) (rbind (sanity l3 s3) (\<lambda>_. Inr (l3, s3)))))))))"

text \<open>\<open>SortedList::SelfTest\<close>: the drained items \<open>q\<close> are collected in order.\<close>

primrec SortedList_drain :: "nat \<Rightarrow> List \<times> 'a store \<Rightarrow> ('a list \<times> List \<times> 'a store) result" where
  "SortedList_drain 0 ls = Inr ([], ls)"
| "SortedList_drain (Suc n) ls =
     rbind (List_RemoveFront ls) (\<lambda>(x, l1, s1).
     rbind (List_IsInList x l1 s1) (\<lambda>b. require (\<not> b)
    (rbind (SortedList_drain n (l1, s1)) (\<lambda>(q, ls2). Inr (x # q, ls2)))))"

definition SortedList_SelfTest ::
  "('a \<Rightarrow> 'a \<Rightarrow> int) \<Rightarrow> 'a list \<Rightarrow> List \<times> 'a store \<Rightarrow> (List \<times> 'a store) result" where
  "SortedList_SelfTest compare p ls =
     rbind (List_SelfTest (SortedList_Insert compare) (SortedList_SanityCheck compare) p ls) (\<lambda>ls1.
     rbind (rfold (\<lambda>x ls. rbind (SortedList_Insert compare x ls) (\<lambda>(l1, s1).
              rbind (List_IsInList x l1 s1) (\<lambda>b. require b (Inr (l1, s1))))) p ls1) (\<lambda>(l2, s2).
     rbind (SortedList_SanityCheck compare l2 s2) (\<lambda>_.
     rbind (SortedList_drain (length p) (l2, s2)) (\<lambda>(q, l3, s3).
     require (List_IsEmpty l3)
    (require (list_all (\<lambda>i. compare (q ! i) (q ! (i + 1)) \<le> 0) [0..<length p - 1])
    (rbind (SortedList_SanityCheck compare l3 s3) (\<lambda>_. Inr (l3, s3))))))))"


section \<open>List segments\<close>

text \<open>
  \<open>seg s p es q\<close>: following \<open>next\<close> from \<open>p\<close> passes through the elements \<open>es\<close> (address and item)
  and arrives at \<open>q\<close>. \<open>List_rep es (l, s)\<close>: the list \<open>l\<close> consists of the elements \<open>es\<close>.
\<close>

primrec seg :: "'a store \<Rightarrow> nat \<Rightarrow> (nat \<times> 'a) list \<Rightarrow> nat \<Rightarrow> bool" where
  "seg s p [] q \<longleftrightarrow> p = q"
| "seg s p (e # es) q \<longleftrightarrow>
     p = fst e \<and> p \<noteq> NULL \<and> (\<exists>r. cells s p = Some \<lparr>item = snd e, next = r\<rparr> \<and> seg s r es q)"

definition store_ok :: "'a store \<Rightarrow> bool" where
  "store_ok s \<longleftrightarrow> 0 < brk s \<and> cells s NULL = None \<and> (\<forall>a. brk s \<le> a \<longrightarrow> cells s a = None)"

definition List_rep :: "(nat \<times> 'a) list \<Rightarrow> List \<times> 'a store \<Rightarrow> bool" where
  "List_rep es ls \<longleftrightarrow> store_ok (snd ls) \<and> seg (snd ls) (first (fst ls)) es NULL \<and>
     last_elt (fst ls) = (if es = [] then NULL else fst (List.last es)) \<and>
     numInList (fst ls) = int (length es)"

lemma seg_append: "seg s p (es @ fs) q \<longleftrightarrow> (\<exists>r. seg s p es r \<and> seg s r fs q)"
  by (induction es arbitrary: p) auto

lemma seg_frame: "(\<And>a. a \<in> fst ` set es \<Longrightarrow> cells s' a = cells s a) \<Longrightarrow> seg s' p es q = seg s p es q"
  by (induction es arbitrary: p) auto

lemma seg_upd [simp]: "a \<notin> fst ` set es \<Longrightarrow> seg (s\<lparr>cells := (cells s)(a := c)\<rparr>) p es q = seg s p es q"
  by (rule seg_frame) (metis fun_upd_apply store.select_convs(1) store.surjective store.update_convs(1))

lemma seg_alloc: "seg s p es q \<Longrightarrow> a \<in> fst ` set es \<Longrightarrow> cells s a \<noteq> None \<and> a \<noteq> NULL"
  by (induction es arbitrary: p) auto

lemma seg_det: "seg s p es NULL \<Longrightarrow> seg s p fs NULL \<Longrightarrow> es = fs"
proof (induction es arbitrary: p fs)
  case Nil
  then show ?case by (cases fs) auto
next
  case (Cons e es)
  then obtain f fs' where fs: "fs = f # fs'" by (cases fs) auto
  with Cons have "es = fs'" by auto
  moreover have "fst e = fst f" "snd e = snd f" using Cons.prems fs by auto
  ultimately show ?case using fs by (simp add: prod_eq_iff)
qed

lemma seg_distinct: "seg s p es NULL \<Longrightarrow> distinct (map fst es)"
proof (induction es arbitrary: p)
  case (Cons e es)
  then obtain r where r: "seg s r es NULL" "p = fst e" by auto
  have "fst e \<notin> set (map fst es)"
  proof
    assume "fst e \<in> set (map fst es)"
    then obtain y where "(fst e, y) \<in> set es" by force
    then obtain us vs where es: "es = us @ (fst e, y) # vs" by (auto dest: split_list)
    then have "seg s (fst e) ((fst e, y) # vs) NULL" using r(1) by (auto simp: seg_append)
    then have "(fst e, y) # vs = e # es" using seg_det Cons.prems r(2) by blast
    then have "length (e # es) = Suc (length vs)" by (metis length_Cons)
    then show False using es by simp
  qed
  with Cons.IH [OF r(1)] show ?case by simp
qed simp

lemma store_ok_less: "store_ok s \<Longrightarrow> cells s a \<noteq> None \<Longrightarrow> a < brk s"
  by (meson not_le store_ok_def)

lemma seg_length:
  assumes "seg s p es NULL" and "store_ok s"
  shows "length es < brk s"
proof -
  have "fst ` set es \<subseteq> {1..<brk s}"
  proof
    fix a assume "a \<in> fst ` set es"
    then have "cells s a \<noteq> None" "a \<noteq> NULL" using seg_alloc [OF assms(1)] by auto
    then show "a \<in> {1..<brk s}" using store_ok_less [OF assms(2)] by simp
  qed
  then have "card (fst ` set es) \<le> card {1..<brk s}" by (intro card_mono) auto
  moreover have "card (fst ` set es) = length es"
    using seg_distinct [OF assms(1)] by (metis distinct_card length_map set_map)
  ultimately show ?thesis using assms(2) by (auto simp: store_ok_def)
qed

lemma deref_Some [simp]: "cells s p = Some c \<Longrightarrow> deref p s = Inr c"
  by (simp add: deref_def)

lemma IsInList_seg: "seg s p es NULL \<Longrightarrow> length es < n \<Longrightarrow> List_IsInList_loop n s p x = Inr (x \<in> snd ` set es)"
  by (induction es arbitrary: p n) (auto simp: less_Suc_eq_0_disj gr0_conv_Suc Suc_less_eq2)

lemma List_repD:
  assumes "List_rep es (l, s)"
  shows "store_ok s" "seg s (first l) es NULL" "length es < Suc (brk s)" "distinct (map fst es)"
    "last_elt l = (if es = [] then NULL else fst (List.last es))" "numInList l = int (length es)"
    "a \<in> fst ` set es \<Longrightarrow> cells s a \<noteq> None \<and> a \<noteq> NULL \<and> a < brk s"
proof -
  show r: "store_ok s" "seg s (first l) es NULL" 
    "last_elt l = (if es = [] then NULL else fst (List.last es))" "numInList l = int (length es)"
    using assms by (simp_all add: List_rep_def)
  show "length es < Suc (brk s)" "distinct (map fst es)"
    using seg_length [OF r(2,1)] seg_distinct [OF r(2)] by simp_all
  show "a \<in> fst ` set es \<Longrightarrow> cells s a \<noteq> None \<and> a \<noteq> NULL \<and> a < brk s"
    using seg_alloc [OF r(2), of a] store_ok_less [OF r(1), of a] by blast
qed

lemma IsInList_rep: "List_rep es (l, s) \<Longrightarrow> List_IsInList x l s = Inr (x \<in> snd ` set es)"
  unfolding List_IsInList_def by (rule IsInList_seg) (auto dest: List_repD)

text \<open>What an operation on one list leaves alone: the cells of every other list.\<close>

definition frame :: "(nat \<times> 'a) list \<Rightarrow> 'a store \<Rightarrow> 'a store \<Rightarrow> bool" where
  "frame es s s' \<longleftrightarrow> brk s \<le> brk s' \<and> (\<forall>a. a \<notin> fst ` set es \<and> a < brk s \<longrightarrow> cells s' a = cells s a)"

lemma List_rep_new:
  assumes "List_rep es (l, s)" and "ListElement_new x s = (a, s1)"
  shows "List_rep es (l, s1)" and "a \<noteq> NULL" and "a \<notin> fst ` set es" and "brk s1 = Suc a" and "a = brk s"
    and "cells s1 a = Some \<lparr>item = x, next = NULL\<rparr>" and "frame es s s1"
    and "store_ok s1"
proof -
  note r = List_repD [OF assms(1)]
  have e: "a = brk s" "s1 = s\<lparr>cells := (cells s)(brk s \<mapsto> \<lparr>item = x, next = NULL\<rparr>), brk := brk s + 1\<rparr>"
    using assms(2) by (auto simp: ListElement_new_def)
  show "a \<noteq> NULL" "brk s1 = Suc a" "a = brk s" "cells s1 a = Some \<lparr>item = x, next = NULL\<rparr>" "frame es s s1" "store_ok s1"
    using e r(1) by (auto simp: store_ok_def frame_def)
  show "a \<notin> fst ` set es" using r(7) e by auto
  then have "seg s1 p es q = seg s p es q" for p q
    using e by (intro seg_frame) force
  then show "List_rep es (l, s1)"
    using r \<open>store_ok s1\<close> by (simp add: List_rep_def)
qed

text \<open>Linking a fresh cell in behind the last one.\<close>

lemma seg_snoc:
  assumes "seg s p es NULL" and "es \<noteq> []" and "a \<notin> fst ` set es" and "a \<noteq> NULL"
    and "cells s a = Some \<lparr>item = x, next = NULL\<rparr>"
  shows "\<exists>s2. set_next (fst (List.last es)) a s = Inr s2 \<and> seg s2 p (es @ [(a, x)]) NULL \<and>
    brk s2 = brk s \<and> (\<forall>b. b \<noteq> fst (List.last es) \<longrightarrow> cells s2 b = cells s b) \<and>
    cells s2 (fst (List.last es)) \<noteq> None"
proof -
  obtain us e where es: "es = us @ [e]" using assms(2) by (metis append_butlast_last_id)
  have d: "distinct (map fst es)" using seg_distinct [OF assms(1)] .
  have u: "seg s p us (fst e)" "fst e \<noteq> NULL" "cells s (fst e) = Some \<lparr>item = snd e, next = NULL\<rparr>"
    using assms(1) by (auto simp: es seg_append)
  let ?s2 = "s\<lparr>cells := (cells s)(fst e \<mapsto> \<lparr>item = snd e, next = a\<rparr>)\<rparr>"
  have "seg ?s2 p us (fst e) = seg s p us (fst e)"
    using d by (intro seg_upd) (simp add: es)
  then have "seg ?s2 p (es @ [(a, x)]) NULL"
    using u assms(3-5) by (auto simp: es seg_append)
  moreover have "set_next (fst e) a s = Inr ?s2" using u by (simp add: set_next_def)
  ultimately show ?thesis by (auto simp: es)
qed

lemma List_rep_snoc:
  assumes "List_rep es (l, s)" and "ListElement_new x s = (a, s1)" and "es \<noteq> []"
  shows "\<exists>s2. set_next (last_elt l) a s1 = Inr s2 \<and> frame es s s2 \<and>
    List_rep (es @ [(a, x)]) (l\<lparr>last_elt := a, numInList := numInList l + 1\<rparr>, s2)"
proof -
  note n = List_rep_new [OF assms(1,2)]
  note r = List_repD [OF n(1)]
  obtain s2 where s2: "set_next (fst (List.last es)) a s1 = Inr s2" "seg s2 (first l) (es @ [(a, x)]) NULL"
    "brk s2 = brk s1" "\<forall>b. b \<noteq> fst (List.last es) \<longrightarrow> cells s2 b = cells s1 b"
    using seg_snoc [OF r(2) assms(3) n(3,2,6)] by blast
  have le: "fst (List.last es) \<in> fst ` set es" using assms(3) by simp
  then have "fst (List.last es) \<noteq> NULL" "fst (List.last es) < brk s1" using r(7) by auto
  then have "store_ok s2" using n(8) s2(3,4) by (auto simp: store_ok_def)
  moreover have "frame es s s2"
    using n(7) s2(3,4) le unfolding frame_def by metis
  ultimately show ?thesis
    using s2 assms(3) r by (intro exI [of _ s2]) (simp add: List_rep_def)
qed

lemma List_Append_rep:
  assumes "List_rep es (l, s)"
  shows "if x \<in> snd ` set es then List_Append x (l, s) = Inl Abort
    else \<exists>l' s' a. List_Append x (l, s) = Inr (l', s') \<and> List_rep (es @ [(a, x)]) (l', s') \<and>
      brk s \<le> a \<and> frame es s s'"
proof -
  obtain a s1 where new: "ListElement_new x s = (a, s1)" by fastforce
  note n = List_rep_new [OF assms new]
  note r = List_repD [OF n(1)]
  note i = IsInList_rep [OF n(1), of x]
  show ?thesis
  proof (cases "x \<in> snd ` set es")
    case True
    then show ?thesis using new i by (simp add: List_Append_def)
  next
    case out: False
    define l1 where "l1 = (if es = [] then l\<lparr>first := a, last_elt := a\<rparr> else l\<lparr>last_elt := a\<rparr>)"
    define l2 where "l2 = l1\<lparr>numInList := numInList l1 + 1\<rparr>"
    have "\<exists>s2. (if List_IsEmpty l then Inr (l\<lparr>first := a, last_elt := a\<rparr>, s1)
            else rbind (set_next (last_elt l) a s1) (\<lambda>s2. Inr (l\<lparr>last_elt := a\<rparr>, s2))) = Inr (l1, s2) \<and>
       List_rep (es @ [(a, x)]) (l2, s2) \<and> frame es s s2"
    proof (cases "es = []")
      case True
      then show ?thesis
        using n r by (intro exI [of _ s1]) (auto simp: List_IsEmpty_def List_rep_def l1_def l2_def)
    next
      case False
      then show ?thesis
        using List_rep_snoc [OF assms new False] r(6) by (auto simp: List_IsEmpty_def l1_def l2_def)
    qed
    then obtain s2 where s2: "(if List_IsEmpty l then Inr (l\<lparr>first := a, last_elt := a\<rparr>, s1)
            else rbind (set_next (last_elt l) a s1) (\<lambda>s2. Inr (l\<lparr>last_elt := a\<rparr>, s2))) = Inr (l1, s2)"
       "List_rep (es @ [(a, x)]) (l2, s2)" "frame es s s2" by blast
    have "List_Append x (l, s) = Inr (l2, s2)"
      using new i out s2(1) IsInList_rep [OF s2(2), of x]
      unfolding List_Append_def l2_def by (simp add: Let_def split del: if_split)
    then show ?thesis using out s2 n(5) by auto
  qed
qed

lemma List_Prepend_rep:
  assumes "List_rep es (l, s)"
  shows "if x \<in> snd ` set es then List_Prepend x (l, s) = Inl Abort
    else \<exists>l' s' a. List_Prepend x (l, s) = Inr (l', s') \<and> List_rep ((a, x) # es) (l', s') \<and>
      brk s \<le> a \<and> frame es s s'"
proof -
  obtain a s1 where new: "ListElement_new x s = (a, s1)" by fastforce
  note n = List_rep_new [OF assms new]
  note r = List_repD [OF n(1)]
  note i = IsInList_rep [OF n(1), of x]
  show ?thesis
  proof (cases "x \<in> snd ` set es")
    case True
    then show ?thesis using new i by (simp add: List_Prepend_def)
  next
    case out: False
    define l1 where "l1 = (if es = [] then l\<lparr>first := a, last_elt := a\<rparr> else l\<lparr>first := a\<rparr>)"
    define l2 where "l2 = l1\<lparr>numInList := numInList l1 + 1\<rparr>"
    define s2 where "s2 = (if es = [] then s1 else s1\<lparr>cells := (cells s1)(a \<mapsto> \<lparr>item = x, next = first l\<rparr>)\<rparr>)"
    have e: "(if List_IsEmpty l then Inr (l\<lparr>first := a, last_elt := a\<rparr>, s1)
            else rbind (set_next a (first l) s1) (\<lambda>s2. Inr (l\<lparr>first := a\<rparr>, s2))) = Inr (l1, s2)"
      using r(6) n(6) by (auto simp: List_IsEmpty_def l1_def s2_def set_next_def)
    have "seg s2 (first l) es NULL" using r(2) n(3) by (auto simp: s2_def)
    moreover have "store_ok s2" "frame es s s2"
      using n(2,4,5,7,8) by (auto simp: s2_def store_ok_def frame_def)
    ultimately have rep: "List_rep ((a, x) # es) (l2, s2)"
      using r(2,5,6) n(2,6) unfolding List_rep_def by (auto simp: l2_def l1_def s2_def)
    have "List_Prepend x (l, s) = Inr (l2, s2)"
      using new i out e IsInList_rep [OF rep, of x]
      unfolding List_Prepend_def l2_def by (simp add: Let_def split del: if_split)
    then show ?thesis using out rep n(5) \<open>frame es s s2\<close> by auto
  qed
qed

lemma store_ok_free [simp]: "store_ok s \<Longrightarrow> store_ok (free a s)"
  by (simp add: store_ok_def free_def)

lemma frame_free: "a \<in> fst ` set es \<Longrightarrow> frame es s (free a s)"
  by (auto simp: frame_def free_def)

lemma List_RemoveFront_rep:
  assumes "List_rep es (l, s)"
  shows "case es of [] \<Rightarrow> List_RemoveFront (l, s) = Inl Abort
    | (a, x) # es' \<Rightarrow> \<exists>l' s'. List_RemoveFront (l, s) = Inr (x, l', s') \<and> List_rep es' (l', s') \<and>
        frame es s s' \<and> cells s' a = None"
proof (cases es)
  case Nil
  then show ?thesis using List_repD(6) [OF assms] by (simp add: List_RemoveFront_def List_IsEmpty_def)
next
  case (Cons e es')
  obtain a x where e: "e = (a, x)" by fastforce
  note r = List_repD [OF assms]
  obtain q where q: "first l = a" "cells s a = Some \<lparr>item = x, next = q\<rparr>" "seg s q es' NULL" "a \<noteq> NULL"
    using r(2) Cons e by auto
  have a: "a \<notin> fst ` set es'" using r(4) Cons e by simp
  have "a = last_elt l \<longleftrightarrow> es' = []"
    using r(5) Cons e a by (cases es' rule: rev_cases) auto
  then have "\<exists>l'. List_RemoveFront (l, s) = Inr (x, l', free a s) \<and> first l' = q \<and> numInList l' = int (length es') \<and>
      last_elt l' = (if es' = [] then NULL else fst (List.last es'))"
    using q r(5,6) Cons e by (auto simp: List_RemoveFront_def List_IsEmpty_def Let_def)
  then obtain l' where l': "List_RemoveFront (l, s) = Inr (x, l', free a s)" "first l' = q" "numInList l' = int (length es')"
      "last_elt l' = (if es' = [] then NULL else fst (List.last es'))" by blast
  have "seg (free a s) q es' NULL" using q(3) a by (simp add: free_def)
  then have "List_rep es' (l', free a s)" using l' r(1) by (simp add: List_rep_def)
  moreover have "frame es s (free a s)" using Cons e by (intro frame_free) simp
  moreover have "cells (free a s) a = None" by (simp add: free_def)
  ultimately show ?thesis using l' Cons e by auto
qed

text \<open>Unlinking the cell \<open>a\<close> behind the cell \<open>prev\<close>.\<close>

lemma seg_unlink:
  assumes "seg s p (us @ (prev, y) # (a, x) # vs) NULL"
  obtains q where "cells s a = Some \<lparr>item = x, next = q\<rparr>" and "a \<noteq> NULL" and "q = NULL \<longleftrightarrow> vs = []"
    and "set_next prev q s = Inr (s\<lparr>cells := (cells s)(prev \<mapsto> \<lparr>item = y, next = q\<rparr>)\<rparr>)"
    and "seg (free a (s\<lparr>cells := (cells s)(prev \<mapsto> \<lparr>item = y, next = q\<rparr>)\<rparr>)) p (us @ (prev, y) # vs) NULL"
proof -
  have d: "distinct (map fst (us @ (prev, y) # (a, x) # vs))" using seg_distinct [OF assms] .
  obtain q where q: "seg s p us prev" "prev \<noteq> NULL" "cells s prev = Some \<lparr>item = y, next = a\<rparr>" "a \<noteq> NULL"
    "cells s a = Some \<lparr>item = x, next = q\<rparr>" "seg s q vs NULL"
    using assms by (auto simp: seg_append)
  let ?s = "s\<lparr>cells := (cells s)(prev \<mapsto> \<lparr>item = y, next = q\<rparr>)\<rparr>"
  have "seg (free a ?s) p us prev = seg s p us prev" "seg (free a ?s) q vs NULL = seg s q vs NULL"
    unfolding free_def using d by (subst seg_upd, simp, subst seg_upd, simp, simp)+
  moreover have "q = NULL \<longleftrightarrow> vs = []" using q(6) by (cases vs) auto
  ultimately show ?thesis
    using q d by (intro that [of q]) (auto simp: set_next_def seg_append free_def)
qed

lemma Remove_loop_rep:
  assumes "List_rep (us @ (prev, y) # ws @ (a, x) # vs) (l, s)" and "x \<notin> snd ` set ws" and "length ws < n"
  shows "\<exists>l' s'. List_Remove_loop n x prev (fst (hd (ws @ [(a, x)]))) (l, s) = Inr (Some (l', s')) \<and>
    List_rep (us @ (prev, y) # ws @ vs) (l', s') \<and>
    frame (us @ (prev, y) # ws @ (a, x) # vs) s s' \<and> cells s' a = None"
  using assms
proof (induction ws arbitrary: us prev y n)
  case Nil
  then obtain n' where n: "n = Suc n'" by (cases n) auto
  note r = List_repD [OF Nil(1)]
  obtain q where q: "cells s a = Some \<lparr>item = x, next = q\<rparr>" "a \<noteq> NULL" "q = NULL \<longleftrightarrow> vs = []"
    "set_next prev q s = Inr (s\<lparr>cells := (cells s)(prev \<mapsto> \<lparr>item = y, next = q\<rparr>)\<rparr>)"
    "seg (free a (s\<lparr>cells := (cells s)(prev \<mapsto> \<lparr>item = y, next = q\<rparr>)\<rparr>)) (first l) (us @ (prev, y) # vs) NULL"
    using seg_unlink [of s "first l" us prev y a x vs] r(2) by auto
  let ?s = "free a (s\<lparr>cells := (cells s)(prev \<mapsto> \<lparr>item = y, next = q\<rparr>)\<rparr>)"
  let ?l = "(if vs = [] then l\<lparr>last_elt := prev\<rparr> else l)\<lparr>numInList := numInList l - 1\<rparr>"
  have prev: "prev < brk s" "prev \<noteq> NULL" using r(7) [of prev] by auto
  have "List_Remove_loop n x prev a (l, s) = Inr (Some (?l, ?s))"
    using q by (simp add: n Let_def)
  moreover have "store_ok ?s"
    using r(1) prev by (intro store_ok_free) (auto simp: store_ok_def)
  moreover have "frame (us @ (prev, y) # (a, x) # vs) s ?s"
    using r(7) by (auto simp: frame_def free_def)
  ultimately show ?case
    using q(5) r(5,6) by (auto simp: List_rep_def free_def)
next
  case (Cons w ws)
  then obtain n' where n: "n = Suc n'" by (cases n) auto
  obtain b z where w: "w = (b, z)" by fastforce
  have rep: "List_rep ((us @ [(prev, y)]) @ (b, z) # ws @ (a, x) # vs) (l, s)" using Cons.prems(1) w by simp
  have "x \<notin> snd ` set ws" "length ws < n'" using Cons.prems n by auto
  from Cons.IH [OF rep this] obtain l' s' where IH:
    "List_Remove_loop n' x b (fst (hd (ws @ [(a, x)]))) (l, s) = Inr (Some (l', s'))"
    "List_rep ((us @ [(prev, y)]) @ (b, z) # ws @ vs) (l', s')"
    "frame ((us @ [(prev, y)]) @ (b, z) # ws @ (a, x) # vs) s s'" "cells s' a = None" by blast
  have "seg s b ((b, z) # ws @ (a, x) # vs) NULL"
    using List_repD(2) [OF rep] by (auto simp: seg_append)
  then obtain q where q: "cells s b = Some \<lparr>item = z, next = q\<rparr>" "b \<noteq> NULL" "seg s q (ws @ (a, x) # vs) NULL"
    by auto
  then have "q = fst (hd (ws @ [(a, x)]))" by (cases ws) auto
  moreover have "x \<noteq> z" using Cons.prems(2) w by auto
  ultimately have "List_Remove_loop n x prev b (l, s) = Inr (Some (l', s'))"
    using q IH(1) by (simp add: n)
  then show ?case using IH(2-) w by auto
qed

lemma List_Remove_rep:
  assumes "List_rep es (l, s)" and "distinct (map snd es)"
  shows "if x \<notin> snd ` set es then List_Remove x (l, s) = Inl Abort
    else \<exists>es' l' s'. List_Remove x (l, s) = Inr (l', s') \<and> List_rep es' (l', s') \<and>
      map snd es' = remove1 x (map snd es) \<and> set es' \<subseteq> set es \<and> frame es s s'"
proof (cases "x \<in> snd ` set es")
  case False
  then show ?thesis using IsInList_rep [OF assms(1), of x] by (simp add: List_Remove_def)
next
  case True
  then obtain a where "(a, x) \<in> set es" by auto
  then obtain us vs where es: "es = us @ (a, x) # vs" by (auto dest: split_list)
  have x: "x \<notin> snd ` set us" "x \<notin> snd ` set vs" using assms(2) es by auto
  note isin = IsInList_rep [OF assms(1), of x]
  have rm: "remove1 x (map snd es) = map snd (us @ vs)"
    using x(1) by (simp add: es remove1_append image_iff flip: set_map)
  have step: "\<exists>l' s'. List_Remove x (l, s) = rbind (List_IsInList x l' s') (\<lambda>b. require (\<not> b) (Inr (l', s'))) \<and>
      List_rep (us @ vs) (l', s') \<and> frame es s s'"
  proof (cases us)
    case Nil
    then obtain l' s' where "List_RemoveFront (l, s) = Inr (x, l', s')" "List_rep vs (l', s')" "frame es s s'"
      using List_RemoveFront_rep [OF assms(1)] es by auto
    moreover obtain c where "deref (first l) s = Inr c" "item c = x"
      using List_repD(2) [OF assms(1)] es Nil by (auto simp: deref_def)
    ultimately show ?thesis using isin True Nil by (intro exI [of _ l'] exI [of _ s']) (simp add: List_Remove_def)
  next
    case (Cons u ws)
    obtain b y where u: "u = (b, y)" by fastforce
    have y: "x \<noteq> y" "x \<notin> snd ` set ws" using x Cons u by auto
    have "length ws < Suc (brk s)" using List_repD(3) [OF assms(1)] es Cons by simp
    moreover have "List_rep ([] @ (b, y) # ws @ (a, x) # vs) (l, s)" using assms(1) es Cons u by simp
    ultimately obtain l' s' where L: "List_Remove_loop (Suc (brk s)) x b (fst (hd (ws @ [(a, x)]))) (l, s) = Inr (Some (l', s'))"
      "List_rep (us @ vs) (l', s')" "frame es s s'"
      using Remove_loop_rep [of "[]" b y ws a x vs l s "Suc (brk s)"] y es Cons u by auto
    obtain q where q: "first l = b" "cells s b = Some \<lparr>item = y, next = q\<rparr>" "seg s q (ws @ (a, x) # vs) NULL"
      using List_repD(2) [OF assms(1)] es Cons u by auto
    have "q = fst (hd (ws @ [(a, x)]))" using q(3) by (cases ws) auto
    then show ?thesis
      using isin True q L y by (auto simp: List_Remove_def simp del: List_Remove_loop.simps)
  qed
  then obtain l' s' where l': "List_Remove x (l, s) = rbind (List_IsInList x l' s') (\<lambda>b. require (\<not> b) (Inr (l', s')))"
      "List_rep (us @ vs) (l', s')" "frame es s s'" by blast
  have "x \<notin> snd ` set (us @ vs)" using x by auto
  then have "List_Remove x (l, s) = Inr (l', s')" using l'(1) IsInList_rep [OF l'(2), of x] by simp
  then show ?thesis using True l'(2,3) rm es by (intro if_not_P [THEN iffD2]) auto
qed

section \<open>Sorted insertion\<close>

definition before :: "('a \<Rightarrow> 'a \<Rightarrow> int) \<Rightarrow> 'a \<Rightarrow> 'a list \<Rightarrow> 'a list" where
  "before compare x xs = takeWhile (\<lambda>y. \<not> compare x y < 0) xs"

definition after :: "('a \<Rightarrow> 'a \<Rightarrow> int) \<Rightarrow> 'a \<Rightarrow> 'a list \<Rightarrow> 'a list" where
  "after compare x xs = dropWhile (\<lambda>y. \<not> compare x y < 0) xs"

lemma seg_link:
  assumes "seg s p (us @ (b, y) # vs) NULL" and "a \<notin> fst ` set (us @ (b, y) # vs)" and "a \<noteq> NULL"
    and "cells s a = Some \<lparr>item = x, next = n\<rparr>" and "cells s b = Some \<lparr>item = y, next = q\<rparr>"
  shows "\<exists>s2. rbind (set_next a q s) (set_next b a) = Inr s2 \<and> seg s2 p (us @ (b, y) # (a, x) # vs) NULL \<and>
    brk s2 = brk s \<and> (\<forall>c. c \<noteq> a \<and> c \<noteq> b \<longrightarrow> cells s2 c = cells s c)"
proof -
  have d: "distinct (map fst (us @ (b, y) # vs))" using seg_distinct [OF assms(1)] .
  have q: "seg s p us b" "b \<noteq> NULL" "seg s q vs NULL"
    using assms(1,5) by (auto simp: seg_append)
  let ?s1 = "s\<lparr>cells := (cells s)(a \<mapsto> \<lparr>item = x, next = q\<rparr>)\<rparr>"
  let ?s2 = "?s1\<lparr>cells := (cells ?s1)(b \<mapsto> \<lparr>item = y, next = a\<rparr>)\<rparr>"
  have ab: "a \<noteq> b" using assms(2) by auto
  have "seg ?s2 p us b = seg s p us b" "seg ?s2 q vs NULL = seg s q vs NULL"
    using d assms(2) unfolding set_append image_Un by (subst seg_upd, simp, subst seg_upd, simp, simp)+
  moreover have "rbind (set_next a q s) (set_next b a) = Inr ?s2"
    using assms(4,5) ab by (simp add: set_next_def)
  ultimately show ?thesis using q assms(3) ab by (auto simp: seg_append)
qed

text \<open>
  The loop of \<open>Insert\<close> from the cell \<open>b\<close>: it passes the elements \<open>ws\<close> that are not greater, and
  links the new cell in before the first greater one, if there is one.
\<close>

lemma Insert_loop_rep:
  assumes "seg s p (us @ (b, y) # ws @ vs) NULL" and "list_all (\<lambda>e. \<not> compare x (snd e) < 0) ws"
    and "vs = [] \<or> compare x (snd (hd vs)) < 0" and "length ws < n"
    and "a \<notin> fst ` set (us @ (b, y) # ws @ vs)" and "a \<noteq> NULL"
    and "cells s a = Some \<lparr>item = x, next = NULL\<rparr>"
  shows "if vs = [] then SortedList_Insert_loop n compare x a b s = Inr None
    else \<exists>s2. SortedList_Insert_loop n compare x a b s = Inr (Some s2) \<and>
      seg s2 p (us @ (b, y) # ws @ (a, x) # vs) NULL \<and> brk s2 = brk s \<and>
      (\<forall>c. c \<noteq> a \<and> c \<notin> fst ` set (us @ (b, y) # ws) \<longrightarrow> cells s2 c = cells s c)"
  using assms
proof (induction ws arbitrary: us b y n)
  case Nil
  then obtain n' where n: "n = Suc n'" by (cases n) auto
  show ?case
  proof (cases vs)
    case vs: Nil
    then have "cells s b = Some \<lparr>item = y, next = NULL\<rparr>"
      using Nil.prems(1) by (auto simp: seg_append)
    then show ?thesis using vs by (simp add: n)
  next
    case (Cons v vs')
    obtain q where q: "cells s b = Some \<lparr>item = y, next = q\<rparr>" "q = fst v" "q \<noteq> NULL" "\<exists>r. cells s q = Some \<lparr>item = snd v, next = r\<rparr>"
      using Nil.prems(1) Cons by (auto simp: seg_append)
    obtain s2 where s2: "rbind (set_next a q s) (set_next b a) = Inr s2" "seg s2 p (us @ (b, y) # (a, x) # vs) NULL"
      "brk s2 = brk s" "\<forall>c. c \<noteq> a \<and> c \<noteq> b \<longrightarrow> cells s2 c = cells s c"
      using seg_link [of s p us b y vs a x NULL q] Nil.prems q(1) by auto
    then have "SortedList_Insert_loop n compare x a b s = Inr (Some s2)"
      using q Nil.prems(3) Cons by (auto simp: n rbind_eq_Inr)
    then show ?thesis using s2 Cons by auto
  qed
next
  case (Cons w ws)
  then obtain n' where n: "n = Suc n'" by (cases n) auto
  obtain c z where w: "w = (c, z)" by fastforce
  have b: "cells s b = Some \<lparr>item = y, next = c\<rparr>" "c \<noteq> NULL" "\<exists>r. cells s c = Some \<lparr>item = z, next = r\<rparr>"
    using Cons.prems(1) w by (auto simp: seg_append)
  have "SortedList_Insert_loop n compare x a b s = SortedList_Insert_loop n' compare x a c s"
    using b Cons.prems(2) w by (auto simp: n)
  then show ?case
    using Cons.IH [of "us @ [(b, y)]" c z n'] Cons.prems w n by auto
qed

lemma SortedList_Insert_rep:
  assumes "List_rep es (l, s)"
  shows "if x \<in> snd ` set es then SortedList_Insert compare x (l, s) = Inl Abort
    else \<exists>es' l' s'. SortedList_Insert compare x (l, s) = Inr (l', s') \<and> List_rep es' (l', s') \<and>
      map snd es' = before compare x (map snd es) @ x # after compare x (map snd es) \<and> frame es s s'"
proof -
  obtain a s1 where new: "ListElement_new x s = (a, s1)" by fastforce
  note n = List_rep_new [OF assms new]
  note r = List_repD [OF n(1)]
  note i = IsInList_rep [OF n(1), of x]
  show ?thesis
  proof (cases "x \<in> snd ` set es")
    case True
    then show ?thesis using new i by (simp add: SortedList_Insert_def Let_def)
  next
    case out: False
    define ws where "ws = takeWhile (\<lambda>e. \<not> compare x (snd e) < 0) es"
    define vs where "vs = dropWhile (\<lambda>e. \<not> compare x (snd e) < 0) es"
    have es: "es = ws @ vs" by (simp add: ws_def vs_def)
    have bef: "before compare x (map snd es) = map snd ws" "after compare x (map snd es) = map snd vs"
      by (simp_all add: before_def after_def ws_def vs_def takeWhile_map dropWhile_map comp_def)
    have vs: "vs = [] \<or> compare x (snd (hd vs)) < 0"
      unfolding vs_def using hd_dropWhile by blast
    have ws: "list_all (\<lambda>e. \<not> compare x (snd e) < 0) ws"
      unfolding ws_def list_all_iff by (auto dest: set_takeWhileD)
    have fin: "SortedList_Insert_end x l1 s2 = Inr (l1\<lparr>numInList := numInList l1 + 1\<rparr>, s2)"
      if "List_rep es' (l1\<lparr>numInList := numInList l1 + 1\<rparr>, s2)" "x \<in> snd ` set es'" for l1 s2 es'
      using IsInList_rep [OF that(1), of x] that(2) by (simp add: SortedList_Insert_end_def Let_def)
    have start: "SortedList_Insert compare x (l, s) =
      (if es = [] then SortedList_Insert_end x (l\<lparr>first := a, last_elt := a\<rparr>) s1
       else rbind (deref (first l) s1) (\<lambda>c.
         if compare x (item c) < 0 then
           rbind (set_next a (first l) s1) (\<lambda>s2. SortedList_Insert_end x (l\<lparr>first := a\<rparr>) s2)
         else
           rbind (SortedList_Insert_loop (Suc (brk s1)) compare x a (first l) s1) (\<lambda>r.
             case r of
               Some s2 \<Rightarrow> Inr (l\<lparr>numInList := numInList l + 1\<rparr>, s2)
             | None \<Rightarrow> rbind (set_next (last_elt l) a s1) (\<lambda>s2. SortedList_Insert_end x (l\<lparr>last_elt := a\<rparr>) s2))))"
      using new i out r(6) by (simp add: SortedList_Insert_def List_IsEmpty_def)
    have "\<exists>l' s'. SortedList_Insert compare x (l, s) = Inr (l', s') \<and> List_rep (ws @ (a, x) # vs) (l', s') \<and> frame es s s'"
    proof (cases ws)
      case nil: Nil
      define s2 where "s2 = (if es = [] then s1 else s1\<lparr>cells := (cells s1)(a \<mapsto> \<lparr>item = x, next = first l\<rparr>)\<rparr>)"
      define l2 where "l2 = (if es = [] then l\<lparr>first := a, last_elt := a\<rparr> else l\<lparr>first := a\<rparr>)"
      have "seg s2 (first l) es NULL" using r(2) n(3) by (auto simp: s2_def)
      moreover have sf: "store_ok s2" "frame es s s2"
        using n(2,4,5,7,8) by (auto simp: s2_def store_ok_def frame_def)
      ultimately have rep: "List_rep ((a, x) # es) (l2\<lparr>numInList := numInList l2 + 1\<rparr>, s2)"
        using r(2,5,6) n(2,6) unfolding List_rep_def by (auto simp: l2_def s2_def)
      have "\<exists>c. deref (first l) s1 = Inr c \<and> compare x (item c) < 0" if ne: "es \<noteq> []"
      proof -
        obtain v vs' where "es = v # vs'" using ne by (cases es) auto
        then show ?thesis using r(2) vs es nil by (auto simp: deref_def)
      qed
      then have "SortedList_Insert compare x (l, s) = SortedList_Insert_end x l2 s2"
        using start n(6) by (auto simp: l2_def s2_def set_next_def)
      also have "\<dots> = Inr (l2\<lparr>numInList := numInList l2 + 1\<rparr>, s2)" by (rule fin [OF rep]) simp
      finally show ?thesis using rep sf nil es by auto
    next
      case (Cons w ws')
      obtain b y where w: "w = (b, y)" by fastforce
      have fb: "first l = b" "\<exists>q. cells s1 b = Some \<lparr>item = y, next = q\<rparr>" "es \<noteq> []" "\<not> compare x y < 0"
        using r(2) ws es Cons w by auto
      have "seg s1 (first l) ([] @ (b, y) # ws' @ vs) NULL" "list_all (\<lambda>e. \<not> compare x (snd e) < 0) ws'"
        "length ws' < Suc (brk s1)" "a \<notin> fst ` set ([] @ (b, y) # ws' @ vs)"
        using r(2,3) ws n(3) es Cons w by auto
      note L = Insert_loop_rep [where us = "[]" and p = "first l" and ws = ws' and compare = compare and x = x, OF this(1,2) vs this(3,4) n(2,6)]
      have S: "SortedList_Insert compare x (l, s) = rbind (SortedList_Insert_loop (Suc (brk s1)) compare x a b s1) (\<lambda>r.
             case r of
               Some s2 \<Rightarrow> Inr (l\<lparr>numInList := numInList l + 1\<rparr>, s2)
             | None \<Rightarrow> rbind (set_next (last_elt l) a s1) (\<lambda>s2. SortedList_Insert_end x (l\<lparr>last_elt := a\<rparr>) s2))"
        using start fb by (auto simp del: SortedList_Insert_loop.simps)
      show ?thesis
      proof (cases "vs = []")
        case True
        obtain s2 where s2: "set_next (last_elt l) a s1 = Inr s2" "frame es s s2"
          "List_rep (es @ [(a, x)]) (l\<lparr>last_elt := a, numInList := numInList l + 1\<rparr>, s2)"
          using List_rep_snoc [OF assms new fb(3)] by blast
        have "SortedList_Insert_end x (l\<lparr>last_elt := a\<rparr>) s2 = Inr (l\<lparr>last_elt := a, numInList := numInList l + 1\<rparr>, s2)"
          using fin [of "es @ [(a, x)]" "l\<lparr>last_elt := a\<rparr>" s2] s2(3) by simp
        then show ?thesis using S L s2 True es by (simp del: SortedList_Insert_loop.simps)
      next
        case False
        then obtain s2 where s2: "SortedList_Insert_loop (Suc (brk s1)) compare x a b s1 = Inr (Some s2)"
            "seg s2 (first l) (ws @ (a, x) # vs) NULL" "brk s2 = brk s1"
            "\<forall>c. c \<noteq> a \<and> c \<notin> fst ` set ws \<longrightarrow> cells s2 c = cells s1 c"
          using L Cons w by (auto simp del: SortedList_Insert_loop.simps)
        have "\<forall>c \<in> insert a (fst ` set ws). c \<noteq> NULL \<and> c < brk s1"
          using r(7) n(2,4) es by auto
        then have "store_ok s2" using n(8) s2(3,4) unfolding store_ok_def by (metis insertI1 insertCI leD)
        moreover have "fst ` set ws \<subseteq> fst ` set es" using es by auto
        then have "frame es s s2"
          using n(7) s2(3,4) n(5) unfolding frame_def by (metis less_irrefl subsetD)
        ultimately show ?thesis
          using S s2 r(5,6) False es by (auto simp: List_rep_def simp del: SortedList_Insert_loop.simps)
      qed
    qed
    then obtain l' s' where "SortedList_Insert compare x (l, s) = Inr (l', s')"
        "List_rep (ws @ (a, x) # vs) (l', s')" "frame es s s'" by blast
    then show ?thesis
      using out bef by (intro if_not_P [THEN iffD2] exI [of _ "ws @ (a, x) # vs"] exI [of _ l'] exI [of _ s']) simp_all
  qed
qed

section \<open>The sequence operations\<close>

text \<open>What the operations do to the sequence of items, as the other components use them.\<close>

definition list_Append :: "'a \<Rightarrow> 'a list \<Rightarrow> 'a list result" where
  "list_Append x xs = require (x \<notin> set xs) (Inr (xs @ [x]))"

definition list_Prepend :: "'a \<Rightarrow> 'a list \<Rightarrow> 'a list result" where
  "list_Prepend x xs = require (x \<notin> set xs) (Inr (x # xs))"

definition list_RemoveFront :: "'a list \<Rightarrow> ('a \<times> 'a list) result" where
  "list_RemoveFront xs = require (xs \<noteq> []) (Inr (hd xs, tl xs))"

definition list_Remove :: "'a \<Rightarrow> 'a list \<Rightarrow> 'a list result" where
  "list_Remove x xs = require (x \<in> set xs) (Inr (remove1 x xs))"

definition list_Insert :: "('a \<Rightarrow> 'a \<Rightarrow> int) \<Rightarrow> 'a \<Rightarrow> 'a list \<Rightarrow> 'a list result" where
  "list_Insert compare x xs =
     require (x \<notin> set xs) (Inr (before compare x xs @ x # after compare x xs))"

text \<open>\<open>holds xs ls\<close>: the list \<open>ls\<close> in the store holds the items \<open>xs\<close>, without repetition.\<close>

definition holds :: "'a list \<Rightarrow> List \<times> 'a store \<Rightarrow> bool" where
  "holds xs ls \<longleftrightarrow> distinct xs \<and> (\<exists>es. map snd es = xs \<and> List_rep es ls)"

text \<open>\<open>refines_to P r q\<close>: the run \<open>r\<close> on the store and the run \<open>q\<close> on sequences fail together, or
  both succeed with results related by \<open>P\<close>.\<close>

definition refines_to :: "('b \<Rightarrow> 'c \<Rightarrow> bool) \<Rightarrow> 'b result \<Rightarrow> 'c result \<Rightarrow> bool" where
  "refines_to P r q \<longleftrightarrow>
     (case (r, q) of (Inl e, Inl f) \<Rightarrow> e = f | (Inr x, Inr y) \<Rightarrow> P x y | _ \<Rightarrow> False)"

lemma distinct_insert_between:
  "distinct xs \<Longrightarrow> x \<notin> set xs \<Longrightarrow> distinct (before compare x xs @ x # after compare x xs)"
proof -
  assume d: "distinct xs" and x: "x \<notin> set xs"
  have e: "before compare x xs @ after compare x xs = xs" by (simp add: before_def after_def)
  with d x have "distinct (before compare x xs @ after compare x xs)" "x \<notin> set (before compare x xs @ after compare x xs)"
    by simp_all
  then show ?thesis by auto
qed

lemma holds_Append: "holds xs ls \<Longrightarrow> refines_to (\<lambda>ls' xs'. holds xs' ls') (List_Append x ls) (list_Append x xs)"
proof -
  assume "holds xs ls"
  then obtain l s es where "ls = (l, s)" "map snd es = xs" "distinct xs" "List_rep es (l, s)"
    by (cases ls) (auto simp: holds_def)
  with List_Append_rep [of es l s x] show ?thesis
    by (fastforce simp: refines_to_def list_Append_def holds_def require_def split: if_splits)
qed

lemma holds_Prepend: "holds xs ls \<Longrightarrow> refines_to (\<lambda>ls' xs'. holds xs' ls') (List_Prepend x ls) (list_Prepend x xs)"
proof -
  assume "holds xs ls"
  then obtain l s es where "ls = (l, s)" "map snd es = xs" "distinct xs" "List_rep es (l, s)"
    by (cases ls) (auto simp: holds_def)
  with List_Prepend_rep [of es l s x] show ?thesis
    by (fastforce simp: refines_to_def list_Prepend_def holds_def require_def split: if_splits)
qed

lemma holds_RemoveFront:
  "holds xs ls \<Longrightarrow> refines_to (\<lambda>(x, ls') (y, xs'). x = y \<and> holds xs' ls') (List_RemoveFront ls) (list_RemoveFront xs)"
proof -
  assume "holds xs ls"
  then obtain l s es where "ls = (l, s)" "map snd es = xs" "distinct xs" "List_rep es (l, s)"
    by (cases ls) (auto simp: holds_def)
  with List_RemoveFront_rep [of es l s] show ?thesis
    by (cases es) (fastforce simp: refines_to_def list_RemoveFront_def holds_def require_def)+
qed

lemma holds_Remove: "holds xs ls \<Longrightarrow> refines_to (\<lambda>ls' xs'. holds xs' ls') (List_Remove x ls) (list_Remove x xs)"
proof -
  assume "holds xs ls"
  then obtain l s es where e: "ls = (l, s)" "map snd es = xs" "distinct xs" "List_rep es (l, s)"
    by (cases ls) (auto simp: holds_def)
  then have "snd ` set es = set xs" by (metis set_map)
  with e List_Remove_rep [of es l s x] show ?thesis
    by (auto simp: refines_to_def list_Remove_def holds_def require_def split: if_splits)
qed

lemma holds_Insert:
  "holds xs ls \<Longrightarrow> refines_to (\<lambda>ls' xs'. holds xs' ls') (SortedList_Insert compare x ls) (list_Insert compare x xs)"
proof -
  assume "holds xs ls"
  then obtain l s es where e: "ls = (l, s)" "map snd es = xs" "distinct xs" "List_rep es (l, s)"
    by (cases ls) (auto simp: holds_def)
  then have "snd ` set es = set xs" by (metis set_map)
  with e SortedList_Insert_rep [of es l s x compare] distinct_insert_between [of xs x compare] show ?thesis
    by (auto simp: refines_to_def list_Insert_def holds_def require_def split: if_splits)
qed

lemma holds_IsInList: "holds xs (l, s) \<Longrightarrow> List_IsInList x l s = Inr (x \<in> set xs)"
  using IsInList_rep by (auto simp: holds_def simp flip: set_map)

lemma holds_IsEmpty: "holds xs (l, s) \<Longrightarrow> List_IsEmpty l \<longleftrightarrow> xs = []"
  using List_repD(6) by (force simp: holds_def List_IsEmpty_def)

lemma holds_NumInList: "holds xs (l, s) \<Longrightarrow> List_NumInList l = int (length xs)"
  using List_repD(6) by (force simp: holds_def List_NumInList_def)

lemma holds_new: "store_ok s \<Longrightarrow> holds [] (List_new, s)"
  by (simp add: holds_def List_rep_def List_new_def)

section \<open>Sanity checks\<close>

lemma SanityCheck_loop_seg:
  "seg s p (ws @ e # vs) q \<Longrightarrow> fst e \<notin> fst ` set ws \<Longrightarrow> k + int (length ws) \<le> num \<Longrightarrow>
   List_SanityCheck_loop (fst e) num k s p = Inr (k + int (length ws))"
proof (induction ws arbitrary: p k)
  case Nil
  then show ?case by simp
next
  case (Cons w ws)
  then obtain r where r: "p = fst w" "cells s p = Some \<lparr>item = snd w, next = r\<rparr>" "seg s r (ws @ e # vs) q" by auto
  then show ?case using Cons.IH [OF r(3), of "k + 1"] Cons.prems by auto
qed

lemma List_SanityCheck_rep:
  assumes "List_rep es (l, s)"
  shows "List_SanityCheck l s = Inr ()"
proof (cases es rule: rev_cases)
  case Nil
  then show ?thesis using List_repD [OF assms] by (simp add: List_SanityCheck_def)
next
  case (snoc ws e)
  note r = List_repD [OF assms]
  have e: "last_elt l = fst e" "cells s (fst e) = Some \<lparr>item = snd e, next = NULL\<rparr>" "fst e \<noteq> NULL" "fst e \<notin> fst ` set ws"
    using r(2,4,5) snoc by (auto simp: seg_append)
  show ?thesis
  proof (cases ws)
    case Nil
    then show ?thesis using e r(2,6) snoc by (simp add: List_SanityCheck_def)
  next
    case (Cons w ws')
    have "first l \<noteq> NULL" "first l \<noteq> fst e" using r(2) e(4) snoc Cons by auto
    moreover have "List_SanityCheck_loop (fst e) (numInList l) 1 s (first l) = Inr (numInList l)"
      using SanityCheck_loop_seg [of s "first l" ws e "[]" NULL 1 "numInList l"] r(2,6) snoc e(4) by simp
    ultimately show ?thesis using e by (simp add: List_SanityCheck_def del: List_SanityCheck_loop.simps)
  qed
qed

lemma SortedList_SanityCheck_seg:
  "seg s p es NULL \<Longrightarrow> length es < n \<Longrightarrow> sorted_wrt (\<lambda>x y. compare x y \<le> 0) (x # map snd es) \<Longrightarrow>
   SortedList_SanityCheck_loop n compare s x p = Inr ()"
proof (induction es arbitrary: p n x)
  case Nil
  then show ?case by (cases n) auto
next
  case (Cons e es)
  then obtain n' where "n = Suc n'" by (cases n) auto
  with Cons show ?case by auto
qed

lemma SortedList_SanityCheck_rep:
  assumes "List_rep es (l, s)" and "sorted_wrt (\<lambda>x y. compare x y \<le> 0) (map snd es)"
  shows "SortedList_SanityCheck compare l s = Inr ()"
proof (cases es)
  case Nil
  then show ?thesis using assms(1) List_SanityCheck_rep [OF assms(1)]
    by (simp add: SortedList_SanityCheck_def List_rep_def)
next
  case (Cons e es')
  note r = List_repD [OF assms(1)]
  obtain q where q: "cells s (first l) = Some \<lparr>item = snd e, next = q\<rparr>" "seg s q es' NULL" using r(2) Cons by auto
  then show ?thesis
    using List_SanityCheck_rep [OF assms(1)] SortedList_SanityCheck_seg [OF q(2), of "Suc (brk s)" compare "snd e"]
      assms(2) r(3) Cons by (simp add: SortedList_SanityCheck_def del: SortedList_SanityCheck_loop.simps)
qed

lemma holds_SanityCheck: "holds xs (l, s) \<Longrightarrow> List_SanityCheck l s = Inr ()"
  using List_SanityCheck_rep by (auto simp: holds_def)

lemma holds_SortedList_SanityCheck:
  "holds xs (l, s) \<Longrightarrow> sorted_wrt (\<lambda>x y. compare x y \<le> 0) xs \<Longrightarrow> SortedList_SanityCheck compare l s = Inr ()"
  using SortedList_SanityCheck_rep by (auto simp: holds_def)

section \<open>Comparison functions and sorted insertion\<close>

text \<open>What \<open>SortedList\<close> relies on: its comparison function is a total order of the items.\<close>

locale comparison =
  fixes compare :: "'a \<Rightarrow> 'a \<Rightarrow> int"
  assumes compare_flip: "compare x y < 0 \<longleftrightarrow> 0 < compare y x"
    and compare_trans: "compare x y \<le> 0 \<Longrightarrow> compare y z \<le> 0 \<Longrightarrow> compare x z \<le> 0"
begin

abbreviation in_order :: "'a list \<Rightarrow> bool" where
  "in_order xs \<equiv> sorted_wrt (\<lambda>x y. compare x y \<le> 0) xs"

lemma in_order_insert:
  assumes "in_order xs"
  shows "in_order (before compare x xs @ x # after compare x xs)"
  using assms
proof (induction xs)
  case Nil
  then show ?case by (simp add: before_def after_def)
next
  case (Cons y ys)
  show ?case
  proof (cases "compare x y < 0")
    case True
    then have "compare x z \<le> 0" if "z \<in> set (y # ys)" for z
      using that Cons.prems compare_trans [of x y z] by auto
    then show ?thesis using True Cons.prems by (simp add: before_def after_def)
  next
    case False
    then have yx: "compare y x \<le> 0" using compare_flip [of x y] compare_flip [of y x] by linarith
    have "set (before compare x ys) \<subseteq> set ys" "set (after compare x ys) \<subseteq> set ys"
      unfolding before_def after_def by (auto dest: set_takeWhileD set_dropWhileD)
    then show ?thesis using False Cons yx by (auto simp: before_def after_def)
  qed
qed

lemma in_order_remove1: "in_order xs \<Longrightarrow> in_order (remove1 x xs)"
proof (induction xs)
  case (Cons y xs)
  then show ?case using set_remove1_subset [of x xs] by auto
qed simp

end

section \<open>The self tests\<close>

text \<open>
  \<open>List::SelfTest\<close> on a list whose \<open>Append\<close> places an item somewhere in the sequence and whose
  \<open>SanityCheck\<close> accepts the sequences so obtained (\<open>good\<close>).
\<close>

locale testable_list =
  fixes app :: "'a \<Rightarrow> List \<times> 'a store \<Rightarrow> (List \<times> 'a store) result"
    and sanity :: "List \<Rightarrow> 'a store \<Rightarrow> unit result"
    and place :: "'a \<Rightarrow> 'a list \<Rightarrow> 'a list" and good :: "'a list \<Rightarrow> bool"
  assumes app_place: "holds xs ls \<Longrightarrow> x \<notin> set xs \<Longrightarrow> \<exists>ls'. app x ls = Inr ls' \<and> holds (place x xs) ls'"
    and set_place: "set (place x xs) = insert x (set xs)"
    and good_place: "good xs \<Longrightarrow> good (place x xs)"
    and good_remove1: "good xs \<Longrightarrow> good (remove1 x xs)"
    and good_Nil: "good []"
    and sanity_good: "holds xs (l, s) \<Longrightarrow> good xs \<Longrightarrow> sanity l s = Inr ()"
begin

lemma append_all:
  assumes "holds xs ls" and "good xs" and "distinct p" and "set p \<inter> set xs = {}"
  shows "\<exists>ls' ys. rfold (\<lambda>x ls. rbind (app x ls) (\<lambda>(l1, s1).
              rbind (List_IsInList x l1 s1) (\<lambda>b.
                require b (require (\<not> List_IsEmpty l1) (Inr (l1, s1)))))) p ls = Inr ls' \<and>
    holds ys ls' \<and> good ys \<and> set ys = set xs \<union> set p"
  using assms
proof (induction p arbitrary: xs ls)
  case (Cons x p)
  then obtain l1 s1 where l1: "app x ls = Inr (l1, s1)" "holds (place x xs) (l1, s1)"
    using app_place [of xs ls x] by auto
  have "place x xs \<noteq> []" using set_place [of x xs] by auto
  then have step: "rbind (List_IsInList x l1 s1) (\<lambda>b. require b (require (\<not> List_IsEmpty l1) (Inr (l1, s1)))) = Inr (l1, s1)"
    using holds_IsInList [OF l1(2), of x] holds_IsEmpty [OF l1(2)] set_place [of x xs] by simp
  show ?case
    using Cons.IH [OF l1(2) good_place [OF Cons.prems(2)]] Cons.prems set_place [of x xs] l1(1) step by auto
qed auto

lemma remove_all:
  assumes "holds xs ls" and "good xs" and "set xs = set p" and "distinct p"
  shows "\<exists>ls'. rfold (\<lambda>x ls. rbind (List_Remove x ls) (\<lambda>(l1, s1).
              rbind (List_IsInList x l1 s1) (\<lambda>b. require (\<not> b) (Inr (l1, s1))))) p ls = Inr ls' \<and> holds [] ls'"
  using assms
proof (induction p arbitrary: xs ls)
  case Nil
  then show ?case by auto
next
  case (Cons x p)
  have x: "x \<in> set xs" and d: "distinct xs" using Cons.prems by (auto simp: holds_def)
  then obtain l1 s1 where l1: "List_Remove x ls = Inr (l1, s1)" "holds (remove1 x xs) (l1, s1)"
    using holds_Remove [OF Cons.prems(1), of x]
    by (auto simp: refines_to_def list_Remove_def split: sum.splits)
  have s: "set (remove1 x xs) = set p" "x \<notin> set (remove1 x xs)" using d Cons.prems by auto
  then show ?case
    using Cons.IH [OF l1(2) good_remove1 [OF Cons.prems(2)] s(1)] Cons.prems(4) l1
      holds_IsInList [OF l1(2), of x] by auto
qed

lemma SelfTest_passes:
  assumes "holds [] (l, s)" and "distinct p"
  shows "\<exists>ls'. List_SelfTest app sanity p (l, s) = Inr ls' \<and> holds [] ls'"
proof -
  obtain l2 s2 ys where a: "rfold (\<lambda>x ls. rbind (app x ls) (\<lambda>(l1, s1).
              rbind (List_IsInList x l1 s1) (\<lambda>b.
                require b (require (\<not> List_IsEmpty l1) (Inr (l1, s1)))))) p (l, s) = Inr (l2, s2)"
      "holds ys (l2, s2)" "good ys" "set ys = set p"
    using append_all [OF assms(1) good_Nil assms(2)] by auto
  obtain l3 s3 where b: "rfold (\<lambda>x ls. rbind (List_Remove x ls) (\<lambda>(l1, s1).
              rbind (List_IsInList x l1 s1) (\<lambda>b. require (\<not> b) (Inr (l1, s1))))) p (l2, s2) = Inr (l3, s3)"
      "holds [] (l3, s3)"
    using remove_all [OF a(2,3,4) assms(2)] by auto
  have "first l = NULL" using assms(1) by (auto simp: holds_def List_rep_def)
  then show ?thesis
    using sanity_good [OF assms(1) good_Nil] sanity_good [OF a(2,3)] sanity_good [OF b(2) good_Nil]
      holds_IsEmpty [OF assms(1)] holds_IsEmpty [OF b(2)] a(1) b by (simp add: List_SelfTest_def)
qed

end

lemma place_append: "holds xs ls \<Longrightarrow> x \<notin> set xs \<Longrightarrow> \<exists>ls'. List_Append x ls = Inr ls' \<and> holds (xs @ [x]) ls'"
  using holds_Append [of xs ls x] by (auto simp: refines_to_def list_Append_def split: sum.splits)

lemma place_insert:
  "holds xs ls \<Longrightarrow> x \<notin> set xs \<Longrightarrow>
   \<exists>ls'. SortedList_Insert compare x ls = Inr ls' \<and> holds (before compare x xs @ x # after compare x xs) ls'"
  using holds_Insert [of xs ls compare x] by (auto simp: refines_to_def list_Insert_def split: sum.splits)

lemma set_before_after: "set (before compare x xs @ x # after compare x xs) = insert x (set xs)"
proof -
  have "before compare x xs @ after compare x xs = xs" by (simp add: before_def after_def)
  then have "set (before compare x xs) \<union> set (after compare x xs) = set xs" by (metis set_append)
  then show ?thesis by auto
qed

interpretation plain: testable_list List_Append List_SanityCheck "\<lambda>x xs. xs @ [x]" "\<lambda>_. True"
  using place_append holds_SanityCheck by unfold_locales simp_all

context comparison
begin

sublocale sorted: testable_list "SortedList_Insert compare" "SortedList_SanityCheck compare"
  "\<lambda>x xs. before compare x xs @ x # after compare x xs" in_order
  using place_insert set_before_after in_order_insert in_order_remove1 holds_SortedList_SanityCheck
  by unfold_locales (simp_all del: set_append)

lemma insert_all:
  assumes "holds xs ls" and "in_order xs" and "distinct p" and "set p \<inter> set xs = {}"
  shows "\<exists>ls' ys. rfold (\<lambda>x ls. rbind (SortedList_Insert compare x ls) (\<lambda>(l1, s1).
              rbind (List_IsInList x l1 s1) (\<lambda>b. require b (Inr (l1, s1))))) p ls = Inr ls' \<and>
    holds ys ls' \<and> in_order ys \<and> length ys = length xs + length p \<and> set ys = set xs \<union> set p"
  using assms
proof (induction p arbitrary: xs ls)
  case (Cons x p)
  let ?ys = "before compare x xs @ x # after compare x xs"
  obtain l1 s1 where l1: "SortedList_Insert compare x ls = Inr (l1, s1)" "holds ?ys (l1, s1)"
    using place_insert [of xs ls x compare] Cons.prems by auto
  have step: "rbind (List_IsInList x l1 s1) (\<lambda>b. require b (Inr (l1, s1))) = Inr (l1, s1)"
    using holds_IsInList [OF l1(2), of x] by simp
  have "length ?ys = Suc (length xs)"
    by (metis add_Suc_right append_take_drop_id before_def after_def length_Cons length_append takeWhile_dropWhile_id)
  then show ?case
    using Cons.IH [OF l1(2) in_order_insert [OF Cons.prems(2)]] Cons.prems set_before_after [of compare x xs] l1(1) step
    by (auto simp del: set_append length_append)
qed auto

lemma drain:
  "holds xs ls \<Longrightarrow> length xs = n \<Longrightarrow> \<exists>ls'. SortedList_drain n ls = Inr (xs, ls') \<and> holds [] ls'"
proof (induction n arbitrary: xs ls)
  case (Suc n)
  then obtain x ys where xs: "xs = x # ys" by (cases xs) auto
  then obtain l1 s1 where l1: "List_RemoveFront ls = Inr (x, l1, s1)" "holds ys (l1, s1)"
    using holds_RemoveFront [OF Suc.prems(1)] by (auto simp: refines_to_def list_RemoveFront_def split: sum.splits)
  have "x \<notin> set ys" using Suc.prems(1) xs by (simp add: holds_def)
  then show ?case using Suc l1 xs holds_IsInList [OF l1(2), of x] by fastforce
qed auto

lemma SortedList_SelfTest_passes:
  assumes "holds [] (l, s)" and "distinct p"
  shows "\<exists>ls'. SortedList_SelfTest compare p (l, s) = Inr ls' \<and> holds [] ls'"
proof -
  obtain ls1 where a: "List_SelfTest (SortedList_Insert compare) (SortedList_SanityCheck compare) p (l, s) = Inr ls1"
      "holds [] ls1" using sorted.SelfTest_passes [OF assms] by blast
  obtain l2 s2 ys where b: "rfold (\<lambda>x ls. rbind (SortedList_Insert compare x ls) (\<lambda>(l1, s1).
              rbind (List_IsInList x l1 s1) (\<lambda>b. require b (Inr (l1, s1))))) p ls1 = Inr (l2, s2)"
      "holds ys (l2, s2)" "in_order ys" "length ys = length p"
    using insert_all [OF a(2) _ assms(2)] by auto
  obtain l3 s3 where c: "SortedList_drain (length p) (l2, s2) = Inr (ys, l3, s3)" "holds [] (l3, s3)"
    using drain [OF b(2,4)] by auto
  have "list_all (\<lambda>i. compare (ys ! i) (ys ! (i + 1)) \<le> 0) [0..<length p - 1]"
    using b(3,4) by (auto simp: list_all_iff sorted_wrt_iff_nth_less)
  then show ?thesis
    using a b c holds_SortedList_SanityCheck [OF b(2,3)] holds_SortedList_SanityCheck [OF c(2), of compare]
      holds_IsEmpty [OF c(2)]
    by (simp add: SortedList_SelfTest_def)
qed

end

text \<open>\<open>IntCompare\<close> of \<open>lib/libtest.cc\<close>, and the vector the lists are tested with.\<close>

definition IntCompare :: "int \<Rightarrow> int \<Rightarrow> int" where
  "IntCompare x y = (if x < y then - 1 else if x = y then 0 else 1)"

definition listTestVector :: "int list" where
  "listTestVector = [9, 5, 7]"

interpretation ic: comparison IntCompare
  by unfold_locales (auto simp: IntCompare_def split: if_splits)

section \<open>Properties\<close>

text \<open>
  C22: The linked lists of the kernel are sequences. On a list of distinct items in the store,
  \<open>Append\<close>, \<open>Prepend\<close>, \<open>RemoveFront\<close>, \<open>Remove\<close> and \<open>SortedList::Insert\<close> do to the pointer
  structure exactly what the operations on sequences do to the items, they fail an assertion
  exactly when those do, they never dereference a null or dangling pointer or loop, and the
  list stays a list of distinct items; the searches and counts agree too.
\<close>

theorem List_refines_sequence:
  assumes "holds xs (l, s)"
  shows "refines_to (\<lambda>ls' xs'. holds xs' ls') (List_Append x (l, s)) (list_Append x xs) \<and>
    refines_to (\<lambda>ls' xs'. holds xs' ls') (List_Prepend x (l, s)) (list_Prepend x xs) \<and>
    refines_to (\<lambda>(x, ls') (y, xs'). x = y \<and> holds xs' ls') (List_RemoveFront (l, s)) (list_RemoveFront xs) \<and>
    refines_to (\<lambda>ls' xs'. holds xs' ls') (List_Remove x (l, s)) (list_Remove x xs) \<and>
    refines_to (\<lambda>ls' xs'. holds xs' ls') (SortedList_Insert compare x (l, s)) (list_Insert compare x xs) \<and>
    List_IsInList x l s = Inr (x \<in> set xs) \<and> List_NumInList l = int (length xs) \<and>
    List_IsEmpty l = (xs = []) \<and> List_SanityCheck l s = Inr ()"
  using assms by (intro conjI holds_Append holds_Prepend holds_RemoveFront holds_Remove holds_Insert
      holds_IsInList holds_NumInList holds_IsEmpty holds_SanityCheck)

theorem List_refines_sequence_witness:
  "\<exists>ls. List_Append (9::int) (List_new, \<lparr>cells = (\<lambda>_. None), brk = 1\<rparr>) = Inr ls \<and> holds [9] ls"
proof -
  have "store_ok (\<lparr>cells = (\<lambda>_. None), brk = 1\<rparr> :: int store)" by (simp add: store_ok_def)
  from List_refines_sequence [OF holds_new [OF this], of 9 IntCompare, THEN conjunct1] show ?thesis
    by (auto simp: refines_to_def list_Append_def split: sum.splits)
qed

text \<open>
  Sorted insertion. Inserting into a list that is in the order of a comparison function
  keeps the order, adds the item and nothing else, and puts it behind the items that compare
  equal to it, so that equal items leave a sorted list in the order of their insertion.
\<close>

theorem SortedList_Insert_sorted:
  assumes "comparison compare" and "holds xs ls" and "sorted_wrt (\<lambda>x y. compare x y \<le> 0) xs" and "x \<notin> set xs"
  shows "\<exists>ls' us vs. SortedList_Insert compare x ls = Inr ls' \<and> holds (us @ x # vs) ls' \<and> xs = us @ vs \<and>
    sorted_wrt (\<lambda>x y. compare x y \<le> 0) (us @ x # vs) \<and>
    list_all (\<lambda>y. compare y x \<le> 0) us \<and> list_all (\<lambda>y. 0 < compare y x) vs"
proof -
  let ?us = "before compare x xs" and ?vs = "after compare x xs"
  obtain ls' where ls': "SortedList_Insert compare x ls = Inr ls'" "holds (?us @ x # ?vs) ls'"
    using place_insert [OF assms(2,4), of compare] by blast
  have flip: "compare y z < 0 \<longleftrightarrow> 0 < compare z y" for y z using comparison.compare_flip [OF assms(1)] .
  have xs: "xs = ?us @ ?vs" by (simp add: before_def after_def)
  have us: "list_all (\<lambda>y. compare y x \<le> 0) ?us"
    unfolding before_def list_all_iff using flip by (auto dest!: set_takeWhileD simp: not_less)
  have "0 < compare y x" if "y \<in> set ?vs" for y
  proof -
    obtain v vs where v: "?vs = v # vs" using \<open>y \<in> set ?vs\<close> by (cases ?vs) auto
    then have xv: "compare x v < 0" unfolding after_def by (simp add: dropWhile_eq_Cons_conv)
    have "y = v \<or> compare v y \<le> 0" using assms(3) xs v \<open>y \<in> set ?vs\<close> by (metis sorted_wrt_append sorted_wrt.simps(2) set_ConsD)
    then show ?thesis
    proof
      assume vy: "compare v y \<le> 0"
      show ?thesis
      proof (rule ccontr)
        assume "\<not> 0 < compare y x"
        then have "compare v x \<le> 0" using comparison.compare_trans [OF assms(1) vy, of x] by linarith
        then show False using xv flip [of x v] by linarith
      qed
    qed (use xv flip in simp)
  qed
  then have "list_all (\<lambda>y. 0 < compare y x) ?vs" by (simp add: list_all_iff)
  then show ?thesis
    using ls' xs us comparison.in_order_insert [OF assms(1,3), of x] by blast
qed

theorem SortedList_Insert_sorted_witness:
  "\<exists>ls' us vs. SortedList_Insert IntCompare 7 (projr (List_Append (9::int) (List_new, \<lparr>cells = (\<lambda>_. None), brk = 1\<rparr>))) = Inr ls' \<and>
    holds (us @ 7 # vs) ls' \<and> [9] = us @ vs \<and> sorted_wrt (\<lambda>x y. IntCompare x y \<le> 0) (us @ 7 # vs) \<and>
    list_all (\<lambda>y. IntCompare y 7 \<le> 0) us \<and> list_all (\<lambda>y. 0 < IntCompare y 7) vs"
proof (rule SortedList_Insert_sorted [OF ic.comparison_axioms])
  have "store_ok (\<lparr>cells = (\<lambda>_. None), brk = 1\<rparr> :: int store)" by (simp add: store_ok_def)
  from place_append [OF holds_new [OF this], of 9]
  show "holds [9] (projr (List_Append (9::int) (List_new, \<lparr>cells = (\<lambda>_. None), brk = 1\<rparr>)))" by auto
qed simp_all

text \<open>
  The self tests of \<open>lib/libtest.cc\<close> pass: on fresh lists in any legal store, none of the
  assertions of \<open>List::SelfTest\<close> and \<open>SortedList::SelfTest\<close> on the test vector fails, and both
  end with empty lists.
\<close>

theorem list_SelfTests_pass:
  assumes "store_ok s"
  shows "\<exists>ls1 ls2. List_SelfTest List_Append List_SanityCheck listTestVector (List_new, s) = Inr ls1 \<and>
    SortedList_SelfTest IntCompare listTestVector (List_new, s) = Inr ls2 \<and> holds [] ls1 \<and> holds [] ls2"
  using plain.SelfTest_passes [OF holds_new [OF assms], of listTestVector]
    ic.SortedList_SelfTest_passes [OF holds_new [OF assms], of listTestVector]
  by (auto simp: listTestVector_def)

theorem list_SelfTests_pass_witness:
  "\<exists>ls1 ls2. List_SelfTest List_Append List_SanityCheck listTestVector (List_new, \<lparr>cells = (\<lambda>_. None), brk = 1\<rparr>) = Inr ls1 \<and>
    SortedList_SelfTest IntCompare listTestVector (List_new, \<lparr>cells = (\<lambda>_. None), brk = 1\<rparr>) = Inr ls2 \<and>
    holds [] ls1 \<and> holds [] ls2"
  by (rule list_SelfTests_pass) (simp add: store_ok_def)

end
