(* ===== verification/Lib_Hash.thy ===== *)
theory Lib_Hash
  imports Lib_List
begin

text \<open>
  \<open>lib/hash.h\<close> and \<open>lib/hash.cc\<close>: the self-expanding hash table. A bucket is a \<open>List\<close>; the model
  uses the sequences that \<open>Lib_List\<close> shows the lists to be, with \<open>list_Append\<close>, \<open>list_RemoveFront\<close>
  and \<open>list_Remove\<close> for the calls. The table is shown to be a finite map from keys to items.
\<close>

section \<open>The table and its operations\<close>

record ('k, 'a) HashTable =
  buckets :: "'a list list"
  numBuckets :: int
  numItems :: int
  getKey :: "'a \<Rightarrow> 'k"
  hash :: "'k \<Rightarrow> i32"

definition InitialBuckets :: int where "InitialBuckets = 4"
definition ResizeRatio :: int where "ResizeRatio = 3"
definition IncreaseSizeBy :: int where "IncreaseSizeBy = 4"

definition InitBuckets :: "int \<Rightarrow> ('k, 'a) HashTable \<Rightarrow> ('k, 'a) HashTable" where
  "InitBuckets sz t = t\<lparr>numBuckets := sz, buckets := replicate (nat sz) []\<rparr>"

definition HashTable_new :: "('a \<Rightarrow> 'k) \<Rightarrow> ('k \<Rightarrow> i32) \<Rightarrow> ('k, 'a) HashTable" where
  "HashTable_new get hFunc =
     InitBuckets InitialBuckets
       \<lparr>buckets = [], numBuckets = 0, numItems = 0, getKey = get, hash = hFunc\<rparr>"

text \<open>\<open>HashValue\<close>: the remainder is taken of unsigned numbers; by zero it is a trap.\<close>

definition HashValue :: "'k \<Rightarrow> ('k, 'a) HashTable \<Rightarrow> int result" where
  "HashValue key t =
     (if numBuckets t = 0 then Inl ArithTrap
      else let result = uint (hash t key) mod numBuckets t in
        require (0 \<le> result \<and> result < numBuckets t) (Inr result))"

definition HashTable_IsEmpty :: "('k, 'a) HashTable \<Rightarrow> bool" where
  "HashTable_IsEmpty t \<longleftrightarrow> numItems t = 0"

definition FindInBucket :: "int \<Rightarrow> 'k \<Rightarrow> ('k, 'a) HashTable \<Rightarrow> 'a option result" where
  "FindInBucket bucket key t =
     rbind (arr_get (buckets t) bucket) (\<lambda>b. Inr (List.find (\<lambda>x. key = getKey t x) b))"

definition HashTable_Find :: "'k \<Rightarrow> ('k, 'a) HashTable \<Rightarrow> 'a option result" where
  "HashTable_Find key t = rbind (HashValue key t) (\<lambda>bucket. FindInBucket bucket key t)"

definition IsInTable :: "'k \<Rightarrow> ('k, 'a) HashTable \<Rightarrow> bool result" where
  "IsInTable key t = rbind (HashTable_Find key t) (\<lambda>r. Inr (r \<noteq> None))"

text \<open>\<open>buckets[HashValue(getKey(item))]->Append(item)\<close>.\<close>

definition bucket_Append :: "'a \<Rightarrow> ('k, 'a) HashTable \<Rightarrow> ('k, 'a) HashTable result" where
  "bucket_Append x t =
     rbind (HashValue (getKey t x) t) (\<lambda>i.
     rbind (arr_get (buckets t) i) (\<lambda>b.
     rbind (list_Append x b) (\<lambda>b'.
     rbind (arr_set (buckets t) i b') (\<lambda>bs. Inr (t\<lparr>buckets := bs\<rparr>)))))"

definition bucket_check :: "int \<Rightarrow> 'a \<Rightarrow> ('k, 'a) HashTable \<Rightarrow> unit result" where
  "bucket_check i x t = rbind (HashValue (getKey t x) t) (\<lambda>j. require (i = j) (Inr ()))"

definition HashTable_SanityCheck :: "('k, 'a) HashTable \<Rightarrow> unit result" where
  "HashTable_SanityCheck t =
     rbind (for_upto (numBuckets t) (\<lambda>i numFound.
              rbind (arr_get (buckets t) i) (\<lambda>b.
              rbind (rfold (\<lambda>x _. bucket_check i x t) b ()) (\<lambda>_.
                Inr (numFound + int (length b))))) 0)
       (\<lambda>numFound. require (numItems t = numFound) (Inr ()))"

text \<open>
  The loop of \<open>ReHash\<close> that empties one bucket of the old table: \<open>RemoveFront\<close> takes the items
  in order until the bucket is empty.
\<close>

primrec ReHash_bucket :: "'a list \<Rightarrow> ('k, 'a) HashTable \<Rightarrow> ('k, 'a) HashTable result" where
  "ReHash_bucket [] t = Inr t"
| "ReHash_bucket (x # b) t = rbind (bucket_Append x t) (ReHash_bucket b)"

definition ReHash :: "('k, 'a) HashTable \<Rightarrow> ('k, 'a) HashTable result" where
  "ReHash t =
     rbind (HashTable_SanityCheck t) (\<lambda>_.
     let oldTable = buckets t; t0 = InitBuckets (numBuckets t * IncreaseSizeBy) t in
     rbind (for_upto (numBuckets t) (\<lambda>i t'.
              rbind (arr_get oldTable i) (\<lambda>b. ReHash_bucket b t')) t0) (\<lambda>t1.
     rbind (HashTable_SanityCheck t1) (\<lambda>_. Inr t1)))"

definition HashTable_Insert :: "'a \<Rightarrow> ('k, 'a) HashTable \<Rightarrow> ('k, 'a) HashTable result" where
  "HashTable_Insert x t =
     (let key = getKey t x in
      rbind (IsInTable key t) (\<lambda>b. require (\<not> b)
     (rbind (if numBuckets t = 0 then Inl ArithTrap
             else if numItems t sdiv numBuckets t \<ge> ResizeRatio then ReHash t else Inr t) (\<lambda>t1.
      rbind (bucket_Append x t1) (\<lambda>t2.
      let t3 = t2\<lparr>numItems := numItems t2 + 1\<rparr> in
      rbind (IsInTable key t3) (\<lambda>b. require b (Inr t3)))))))"

definition HashTable_Remove :: "'k \<Rightarrow> ('k, 'a) HashTable \<Rightarrow> ('a \<times> ('k, 'a) HashTable) result" where
  "HashTable_Remove key t =
     rbind (HashValue key t) (\<lambda>bucket.
     rbind (FindInBucket bucket key t) (\<lambda>found.
       case found of
         None \<Rightarrow> Inl Abort
       | Some x \<Rightarrow>
           rbind (arr_get (buckets t) bucket) (\<lambda>b.
           rbind (list_Remove x b) (\<lambda>b'.
           rbind (arr_set (buckets t) bucket b') (\<lambda>bs.
           let t1 = t\<lparr>buckets := bs, numItems := numItems t - 1\<rparr> in
           rbind (IsInTable key t1) (\<lambda>b. require (\<not> b) (Inr (x, t1))))))))"

definition HashTable_Apply :: "('a \<Rightarrow> 's \<Rightarrow> 's) \<Rightarrow> ('k, 'a) HashTable \<Rightarrow> 's \<Rightarrow> 's result" where
  "HashTable_Apply f t st =
     for_upto (numBuckets t) (\<lambda>i st'. rbind (arr_get (buckets t) i) (\<lambda>b. Inr (fold f b st'))) st"

text \<open>\<open>FindNextFullBucket\<close> from \<open>bucket\<close>, with \<open>n\<close> buckets left to look at.\<close>

primrec FindNextFullBucket_loop :: "nat \<Rightarrow> int \<Rightarrow> ('k, 'a) HashTable \<Rightarrow> int result" where
  "FindNextFullBucket_loop 0 bucket t = Inr bucket"
| "FindNextFullBucket_loop (Suc n) bucket t =
     rbind (arr_get (buckets t) bucket) (\<lambda>b.
       if b \<noteq> [] then Inr bucket else FindNextFullBucket_loop n (bucket + 1) t)"

definition FindNextFullBucket :: "int \<Rightarrow> ('k, 'a) HashTable \<Rightarrow> int result" where
  "FindNextFullBucket bucket t = FindNextFullBucket_loop (nat (numBuckets t - bucket)) bucket t"

text \<open>\<open>SelfTest\<close>; the iterator of an empty table is done at once, or an assertion fails.\<close>

definition HashTable_SelfTest :: "'a list \<Rightarrow> ('k, 'a) HashTable \<Rightarrow> ('k, 'a) HashTable result" where
  "HashTable_SelfTest p t =
     rbind (FindNextFullBucket 0 t) (\<lambda>start.
     rbind (HashTable_SanityCheck t) (\<lambda>_.
     require (HashTable_IsEmpty t)
    (require (start = numBuckets t)
    (rbind (rfold (\<lambda>x t'. rbind (HashTable_Insert x t') (\<lambda>t1.
              rbind (IsInTable (getKey t x) t1) (\<lambda>b.
                require b (require (\<not> HashTable_IsEmpty t1) (Inr t1))))) p t) (\<lambda>t2.
     rbind (rfold (\<lambda>x t'. rbind (HashTable_Remove (getKey t x) t') (\<lambda>(y, t1).
              require (y = x) (Inr t1))) p t2) (\<lambda>t3.
     require (HashTable_IsEmpty t3)
    (rbind (HashTable_SanityCheck t3) (\<lambda>_. Inr t3))))))))"


section \<open>The table as a map\<close>

definition slot :: "('k, 'a) HashTable \<Rightarrow> 'k \<Rightarrow> nat" where
  "slot t k = nat (uint (hash t k) mod numBuckets t)"

definition lookup :: "('k, 'a) HashTable \<Rightarrow> 'k \<Rightarrow> 'a option" where
  "lookup t k = List.find (\<lambda>x. k = getKey t x) (buckets t ! slot t k)"

definition size_of :: "('k, 'a) HashTable \<Rightarrow> int" where
  "size_of t = (\<Sum>b \<leftarrow> buckets t. int (length b))"

definition core :: "('k, 'a) HashTable \<Rightarrow> bool" where
  "core t \<longleftrightarrow> 0 < numBuckets t \<and> int (length (buckets t)) = numBuckets t \<and>
     (\<forall>i < length (buckets t). distinct (map (getKey t) (buckets t ! i)) \<and>
        (\<forall>x \<in> set (buckets t ! i). slot t (getKey t x) = i))"

definition HashTable_ok :: "('k, 'a) HashTable \<Rightarrow> bool" where
  "HashTable_ok t \<longleftrightarrow> core t \<and> numItems t = size_of t"

lemma slot_less: "core t \<Longrightarrow> slot t k < length (buckets t)"
  unfolding core_def slot_def using pos_mod_bound [of "numBuckets t" "uint (hash t k)"] by linarith

lemma HashValue_ok: "core t \<Longrightarrow> HashValue k t = Inr (int (slot t k))"
  by (auto simp: core_def slot_def HashValue_def Let_def)

lemma Find_ok: "core t \<Longrightarrow> HashTable_Find k t = Inr (lookup t k)"
  using slot_less [of t k] by (simp add: HashTable_Find_def HashValue_ok FindInBucket_def lookup_def)

lemma IsInTable_ok: "core t \<Longrightarrow> IsInTable k t = Inr (lookup t k \<noteq> None)"
  by (simp add: IsInTable_def Find_ok)

lemma find_Some_iff: "distinct (map g xs) \<Longrightarrow> List.find (\<lambda>x. k = g x) xs = Some x \<longleftrightarrow> x \<in> set xs \<and> g x = k"
  by (induction xs) (auto simp: image_iff)

lemma lookup_Some:
  assumes "core t"
  shows "lookup t k = Some x \<longleftrightarrow> x \<in> set (buckets t ! slot t k) \<and> getKey t x = k"
  using assms slot_less [OF assms, of k] unfolding lookup_def by (auto simp: core_def find_Some_iff)

lemma find_snoc: "List.find P (xs @ [x]) = (case List.find P xs of None \<Rightarrow> if P x then Some x else None | Some y \<Rightarrow> Some y)"
  by (induction xs) auto

lemma sum_list_update_length:
  "i < length bs \<Longrightarrow> (\<Sum>b \<leftarrow> bs[i := c]. int (length b)) = (\<Sum>b \<leftarrow> bs. int (length b)) - int (length (bs ! i)) + int (length c)"
  by (induction bs arbitrary: i) (auto split: nat.splits)

lemma bucket_Append_ok:
  assumes "core t" and "lookup t (getKey t x) = None"
  shows "\<exists>t'. bucket_Append x t = Inr t' \<and> core t' \<and> lookup t' = (lookup t)(getKey t x \<mapsto> x) \<and>
    size_of t' = size_of t + 1 \<and> numItems t' = numItems t \<and> numBuckets t' = numBuckets t \<and>
    getKey t' = getKey t \<and> hash t' = hash t"
proof -
  let ?i = "slot t (getKey t x)" let ?b = "buckets t ! ?i"
  let ?t = "t\<lparr>buckets := (buckets t)[?i := ?b @ [x]]\<rparr>"
  have i: "?i < length (buckets t)" by (rule slot_less [OF assms(1)])
  have k: "\<forall>y \<in> set ?b. getKey t y \<noteq> getKey t x"
    using assms lookup_Some [OF assms(1), of "getKey t x"] by auto
  then have "x \<notin> set ?b" by auto
  then have run: "bucket_Append x t = Inr ?t"
    using i by (simp add: bucket_Append_def HashValue_ok [OF assms(1)] list_Append_def)
  have s: "slot ?t k = slot t k" for k by (simp add: slot_def)
  have "core ?t"
    using assms(1) k i by (auto simp: core_def s nth_list_update)
  moreover have "lookup ?t = (lookup t)(getKey t x \<mapsto> x)"
  proof
    fix k'
    show "lookup ?t k' = ((lookup t)(getKey t x \<mapsto> x)) k'"
      using i assms(2) by (cases "slot t k' = ?i") (auto simp: lookup_def s find_snoc split: option.splits)
  qed
  moreover have "size_of ?t = size_of t + 1"
    using i by (simp add: size_of_def sum_list_update_length)
  ultimately show ?thesis using run by auto
qed

lemma ReHash_bucket_ok:
  assumes "core t" and "distinct (map (getKey t) xs)" and "\<forall>x \<in> set xs. lookup t (getKey t x) = None"
  shows "\<exists>t'. ReHash_bucket xs t = Inr t' \<and> core t' \<and>
    (\<forall>k. lookup t' k = (case List.find (\<lambda>x. k = getKey t x) xs of None \<Rightarrow> lookup t k | Some x \<Rightarrow> Some x)) \<and>
    size_of t' = size_of t + int (length xs) \<and> numItems t' = numItems t \<and> numBuckets t' = numBuckets t \<and>
    getKey t' = getKey t \<and> hash t' = hash t"
  using assms
proof (induction xs arbitrary: t)
  case (Cons x xs)
  then obtain t1 where t1: "bucket_Append x t = Inr t1" "core t1" "lookup t1 = (lookup t)(getKey t x \<mapsto> x)"
    "size_of t1 = size_of t + 1" "numItems t1 = numItems t" "numBuckets t1 = numBuckets t"
    "getKey t1 = getKey t" "hash t1 = hash t"
    using bucket_Append_ok [of t x] by auto
  have "distinct (map (getKey t1) xs)" "\<forall>x \<in> set xs. lookup t1 (getKey t1 x) = None"
    using Cons.prems t1(3,7) by (auto simp: image_iff)
  from Cons.IH [OF t1(2) this] obtain t2 where t2: "ReHash_bucket xs t1 = Inr t2" "core t2"
    "\<forall>k. lookup t2 k = (case List.find (\<lambda>x. k = getKey t x) xs of None \<Rightarrow> lookup t1 k | Some x \<Rightarrow> Some x)"
    "size_of t2 = size_of t1 + int (length xs)" "numItems t2 = numItems t1" "numBuckets t2 = numBuckets t1"
    "getKey t2 = getKey t" "hash t2 = hash t" using t1 by auto
  have "List.find (\<lambda>y. getKey t x = getKey t y) xs = None"
    using Cons.prems(2) by (auto simp: find_None_iff)
  then show ?case using t1 t2 by (intro exI [of _ t2]) (auto split: option.splits)
qed auto

lemma SanityCheck_ok:
  assumes "HashTable_ok t"
  shows "HashTable_SanityCheck t = Inr ()"
proof -
  have c: "core t" "numItems t = size_of t" using assms by (auto simp: HashTable_ok_def)
  have check: "rfold (\<lambda>x _. bucket_check (int i) x t) b () = Inr ()" if "\<forall>x \<in> set b. slot t (getKey t x) = i" for i b
    using that by (induction b) (auto simp: bucket_check_def HashValue_ok [OF c(1)])
  let ?P = "\<lambda>i n. n = (\<Sum>b \<leftarrow> take (nat i) (buckets t). int (length b))"
  have "\<exists>n. for_upto (numBuckets t) (\<lambda>i numFound.
              rbind (arr_get (buckets t) i) (\<lambda>b.
              rbind (rfold (\<lambda>x _. bucket_check i x t) b ()) (\<lambda>_.
                Inr (numFound + int (length b))))) 0 = Inr n \<and> ?P (numBuckets t) n"
  proof (rule for_upto_rule [where P = ?P])
    fix i n assume i: "0 \<le> i" "i < numBuckets t" and P: "?P i n"
    then have l: "nat i < length (buckets t)" using c(1) by (auto simp: core_def)
    have "rfold (\<lambda>x _. bucket_check i x t) (buckets t ! nat i) () = Inr ()"
      using check [of "buckets t ! nat i" "nat i"] c(1) l i by (auto simp: core_def)
    moreover have "nat (i + 1) = Suc (nat i)" using i by simp
    ultimately show "\<exists>t'. rbind (arr_get (buckets t) i) (\<lambda>b.
              rbind (rfold (\<lambda>x _. bucket_check i x t) b ()) (\<lambda>_. Inr (n + int (length b)))) = Inr t' \<and> ?P (i + 1) t'"
      using P i l by (simp add: take_Suc_conv_app_nth)
  qed (use c(1) in \<open>auto simp: core_def\<close>)
  moreover have "nat (numBuckets t) = length (buckets t)" using c(1) by (auto simp: core_def)
  ultimately show ?thesis using c(2) by (auto simp: HashTable_SanityCheck_def size_of_def)
qed

lemma InitBuckets_ok:
  assumes "0 < sz"
  shows "core (InitBuckets sz t)" and "lookup (InitBuckets sz t) k = None" and "size_of (InitBuckets sz t) = 0"
proof -
  show c: "core (InitBuckets sz t)" using assms by (simp add: core_def InitBuckets_def)
  show "lookup (InitBuckets sz t) k = None"
    using slot_less [OF c, of k] by (simp add: lookup_def InitBuckets_def)
  show "size_of (InitBuckets sz t) = 0" by (simp add: size_of_def InitBuckets_def sum_list_replicate)
qed

lemma InitBuckets_fields [simp]:
  "numItems (InitBuckets sz t) = numItems t" "numBuckets (InitBuckets sz t) = sz"
  "getKey (InitBuckets sz t) = getKey t" "hash (InitBuckets sz t) = hash t"
  by (simp_all add: InitBuckets_def)

lemma HashTable_new_ok: "HashTable_ok (HashTable_new g hf)" "lookup (HashTable_new g hf) = Map.empty"
  "getKey (HashTable_new g hf) = g" "hash (HashTable_new g hf) = hf"
  by (simp_all add: HashTable_ok_def HashTable_new_def InitialBuckets_def fun_eq_iff InitBuckets_ok)

lemma ReHash_ok:
  assumes "HashTable_ok t"
  shows "\<exists>t'. ReHash t = Inr t' \<and> HashTable_ok t' \<and> lookup t' = lookup t \<and> numItems t' = numItems t \<and>
    numBuckets t' = numBuckets t * 4 \<and> getKey t' = getKey t \<and> hash t' = hash t"
proof -
  have c: "core t" "numItems t = size_of t" using assms by (auto simp: HashTable_ok_def)
  let ?t0 = "InitBuckets (numBuckets t * IncreaseSizeBy) t"
  have pos: "0 < numBuckets t * IncreaseSizeBy" using c(1) by (simp add: core_def IncreaseSizeBy_def)
  let ?P = "\<lambda>i t'. core t' \<and> (\<forall>k. lookup t' k = (if int (slot t k) < i then lookup t k else None)) \<and>
     size_of t' = (\<Sum>b \<leftarrow> take (nat i) (buckets t). int (length b)) \<and> numItems t' = numItems t \<and>
     numBuckets t' = numBuckets t * 4 \<and> getKey t' = getKey t \<and> hash t' = hash t"
  have "\<exists>t1. for_upto (numBuckets t) (\<lambda>i t'. rbind (arr_get (buckets t) i) (\<lambda>b. ReHash_bucket b t')) ?t0 = Inr t1 \<and>
     ?P (numBuckets t) t1"
  proof (rule for_upto_rule [where P = ?P])
    show "?P 0 ?t0"
      using InitBuckets_ok [OF pos, of t] by (simp add: IncreaseSizeBy_def)
  next
    fix i t' assume i: "0 \<le> i" "i < numBuckets t" and P: "?P i t'"
    then have l: "nat i < length (buckets t)" using c(1) by (auto simp: core_def)
    let ?b = "buckets t ! nat i"
    have b: "distinct (map (getKey t) ?b)" "\<forall>x \<in> set ?b. slot t (getKey t x) = nat i"
      using c(1) l by (auto simp: core_def)
    have g: "getKey t' = getKey t" using P by simp
    have "\<forall>x \<in> set ?b. lookup t' (getKey t' x) = None" using P b(2) i by simp
    then obtain t2 where t2: "ReHash_bucket ?b t' = Inr t2" "core t2"
      "\<forall>k. lookup t2 k = (case List.find (\<lambda>x. k = getKey t x) ?b of None \<Rightarrow> lookup t' k | Some x \<Rightarrow> Some x)"
      "size_of t2 = size_of t' + int (length ?b)" "numItems t2 = numItems t'" "numBuckets t2 = numBuckets t'"
      "getKey t2 = getKey t'" "hash t2 = hash t'"
      using ReHash_bucket_ok [of t' ?b] P b(1) unfolding g by auto
    have "lookup t2 k = (if int (slot t k) < i + 1 then lookup t k else None)" for k
    proof (cases "slot t k = nat i")
      case True
      then show ?thesis using t2(3) P i by (auto simp: lookup_def split: option.splits)
    next
      case False
      then have "List.find (\<lambda>x. k = getKey t x) ?b = None" using b(2) by (auto simp: find_None_iff)
      moreover have "int (slot t k) < i + 1 \<longleftrightarrow> int (slot t k) < i" using False i by auto
      ultimately show ?thesis using t2(3) P by simp
    qed
    moreover have "nat (i + 1) = Suc (nat i)" using i by simp
    ultimately show "\<exists>t''. rbind (arr_get (buckets t) i) (\<lambda>b. ReHash_bucket b t') = Inr t'' \<and> ?P (i + 1) t''"
      using P t2 i l by (intro exI [of _ t2]) (simp add: take_Suc_conv_app_nth)
  qed (use c(1) in \<open>auto simp: core_def\<close>)
  then obtain t1 where t1: "for_upto (numBuckets t) (\<lambda>i t'. rbind (arr_get (buckets t) i) (\<lambda>b. ReHash_bucket b t')) ?t0 = Inr t1"
    "?P (numBuckets t) t1" by blast
  have "nat (numBuckets t) = length (buckets t)" using c(1) by (auto simp: core_def)
  then have ok1: "HashTable_ok t1" using t1(2) c(2) by (simp add: HashTable_ok_def size_of_def)
  have "int (slot t k) < numBuckets t" for k using slot_less [OF c(1), of k] c(1) by (simp add: core_def)
  then have "lookup t1 = lookup t" using t1(2) by (simp add: fun_eq_iff)
  then show ?thesis
    using t1 ok1 SanityCheck_ok [OF ok1] SanityCheck_ok [OF assms] by (simp add: ReHash_def Let_def)
qed

lemma Insert_ok:
  assumes "HashTable_ok t"
  shows "if lookup t (getKey t x) \<noteq> None then HashTable_Insert x t = Inl Abort
    else \<exists>t'. HashTable_Insert x t = Inr t' \<and> HashTable_ok t' \<and> lookup t' = (lookup t)(getKey t x \<mapsto> x) \<and>
      numItems t' = numItems t + 1 \<and> getKey t' = getKey t \<and> hash t' = hash t"
proof (cases "lookup t (getKey t x)")
  case None
  have c: "core t" using assms by (simp add: HashTable_ok_def)
  have "\<exists>t1. (if numItems t sdiv numBuckets t \<ge> ResizeRatio then ReHash t else Inr t) = Inr t1 \<and>
     HashTable_ok t1 \<and> lookup t1 = lookup t \<and> numItems t1 = numItems t \<and> getKey t1 = getKey t \<and> hash t1 = hash t"
    using ReHash_ok [OF assms] assms by auto
  then obtain t1 where t1: "(if numItems t sdiv numBuckets t \<ge> ResizeRatio then ReHash t else Inr t) = Inr t1"
    "HashTable_ok t1" "lookup t1 = lookup t" "numItems t1 = numItems t" "getKey t1 = getKey t" "hash t1 = hash t" by blast
  have "core t1" "lookup t1 (getKey t1 x) = None" using t1 None by (auto simp: HashTable_ok_def)
  then obtain t2 where t2: "bucket_Append x t1 = Inr t2" "core t2" "lookup t2 = (lookup t)(getKey t x \<mapsto> x)"
     "size_of t2 = size_of t1 + 1" "numItems t2 = numItems t1" "getKey t2 = getKey t1" "hash t2 = hash t1"
    using bucket_Append_ok [of t1 x] t1 by auto
  let ?t3 = "t2\<lparr>numItems := numItems t2 + 1\<rparr>"
  have eq: "lookup ?t3 = lookup t2" "core ?t3 = core t2" "size_of ?t3 = size_of t2"
    by (auto simp: lookup_def slot_def core_def size_of_def fun_eq_iff)
  have nb: "numBuckets t \<noteq> 0" using c by (simp add: core_def)
  have "IsInTable (getKey t x) ?t3 = Inr True" using IsInTable_ok [of ?t3] eq t2(2,3) by simp
  then have "HashTable_Insert x t = Inr ?t3"
    using t1(1) t2(1) None nb by (simp add: HashTable_Insert_def Let_def IsInTable_ok [OF c])
  moreover have "HashTable_ok ?t3"
    using eq t1(2) t2 by (simp add: HashTable_ok_def)
  ultimately show ?thesis using None eq t1 t2 by auto
qed (use IsInTable_ok [of t] assms in \<open>simp add: HashTable_Insert_def HashTable_ok_def\<close>)

lemma find_remove1:
  "distinct (map g xs) \<Longrightarrow> x \<in> set xs \<Longrightarrow>
   List.find (\<lambda>y. k = g y) (remove1 x xs) = (if k = g x then None else List.find (\<lambda>y. k = g y) xs)"
  by (induction xs) (auto simp: find_None_iff image_iff)

lemma HashTable_Remove_ok:
  assumes "HashTable_ok t"
  shows "case lookup t k of None \<Rightarrow> HashTable_Remove k t = Inl Abort
    | Some x \<Rightarrow> \<exists>t'. HashTable_Remove k t = Inr (x, t') \<and> HashTable_ok t' \<and> lookup t' = (lookup t)(k := None) \<and>
        numItems t' = numItems t - 1 \<and> getKey t' = getKey t \<and> hash t' = hash t"
proof -
  have c: "core t" "numItems t = size_of t" using assms by (auto simp: HashTable_ok_def)
  let ?i = "slot t k" let ?b = "buckets t ! ?i"
  have i: "?i < length (buckets t)" by (rule slot_less [OF c(1)])
  have F: "FindInBucket (int ?i) k t = Inr (lookup t k)"
    using i by (simp add: FindInBucket_def lookup_def)
  show ?thesis
  proof (cases "lookup t k")
    case None
    then show ?thesis using F by (simp add: HashTable_Remove_def HashValue_ok [OF c(1)])
  next
    case (Some x)
    then have x: "x \<in> set ?b" "getKey t x = k" using lookup_Some [OF c(1)] by auto
    have d: "distinct (map (getKey t) ?b)" "distinct ?b" using c(1) i by (auto simp: core_def distinct_map)
    let ?t = "t\<lparr>buckets := (buckets t)[?i := remove1 x ?b], numItems := numItems t - 1\<rparr>"
    have s: "slot ?t k' = slot t k'" for k' by (simp add: slot_def)
    have dr: "distinct (map (getKey t) (remove1 x ?b))"
      using d by (metis distinct_map distinct_remove1 inj_on_subset set_remove1_subset)
    have ct: "core ?t"
      using c(1) i dr d(2) by (auto simp: core_def s nth_list_update)
    have l: "lookup ?t = (lookup t)(k := None)"
    proof
      fix k'
      show "lookup ?t k' = ((lookup t)(k := None)) k'"
        using i x d(1) by (cases "slot t k' = ?i") (auto simp: lookup_def s find_remove1)
    qed
    have "0 < length ?b" using x(1) by (rule length_pos_if_in_set)
    then have "size_of ?t = size_of t - 1"
      using i x(1) by (simp add: size_of_def sum_list_update_length length_remove1 of_nat_diff Suc_leI)
    then have "HashTable_ok ?t" using ct c(2) by (simp add: HashTable_ok_def)
    moreover have "HashTable_Remove k t = Inr (x, ?t)"
      using F Some i x(1) l IsInTable_ok [OF ct, of k]
      by (simp add: HashTable_Remove_def HashValue_ok [OF c(1)] list_Remove_def Let_def)
    ultimately show ?thesis using Some l by auto
  qed
qed

section \<open>Keyed tables\<close>

text \<open>
  The interface of a keyed table, as \<open>SelfTest\<close> uses it: the state denotes a finite map, and
  insertion and removal do to the map what they should.
\<close>

locale keyed_table =
  fixes ok :: "'t \<Rightarrow> bool" and abs :: "'t \<Rightarrow> 'k \<Rightarrow> 'a option" and key :: "'a \<Rightarrow> 'k"
    and insert :: "'a \<Rightarrow> 't \<Rightarrow> 't result" and remove :: "'k \<Rightarrow> 't \<Rightarrow> ('a \<times> 't) result"
  assumes insert_law: "ok t \<Longrightarrow> abs t (key x) = None \<Longrightarrow> \<exists>t'. insert x t = Inr t' \<and> ok t' \<and> abs t' = (abs t)(key x \<mapsto> x)"
    and remove_law: "ok t \<Longrightarrow> abs t k = Some x \<Longrightarrow> \<exists>t'. remove k t = Inr (x, t') \<and> ok t' \<and> abs t' = (abs t)(k := None)"
begin

lemma insert_all:
  assumes "ok t" and "distinct (map key p)" and "\<forall>x \<in> set p. abs t (key x) = None"
    and "\<And>t x. ok t \<Longrightarrow> abs t (key x) = Some x \<Longrightarrow> check x t = Inr t"
  shows "\<exists>t'. rfold (\<lambda>x t. rbind (insert x t) (check x)) p t = Inr t' \<and> ok t' \<and>
    (\<forall>x \<in> set p. abs t' (key x) = Some x) \<and> (\<forall>k. k \<notin> key ` set p \<longrightarrow> abs t' k = abs t k)"
  using assms(1-3)
proof (induction p arbitrary: t)
  case (Cons x p)
  then obtain t1 where t1: "insert x t = Inr t1" "ok t1" "abs t1 = (abs t)(key x \<mapsto> x)"
    using insert_law [of t x] by auto
  have "\<forall>y \<in> set p. abs t1 (key y) = None" using Cons.prems t1(3) by (auto simp: image_iff)
  with Cons.IH [OF t1(2)] Cons.prems obtain t' where t': "rfold (\<lambda>x t. rbind (insert x t) (check x)) p t1 = Inr t'" "ok t'"
    "\<forall>x \<in> set p. abs t' (key x) = Some x" "\<forall>k. k \<notin> key ` set p \<longrightarrow> abs t' k = abs t1 k" by auto
  have "check x t1 = Inr t1" using assms(4) t1 by simp
  then show ?case using t1 t' Cons.prems by auto
qed auto

lemma remove_all:
  assumes "ok t" and "distinct (map key p)" and "\<forall>x \<in> set p. abs t (key x) = Some x"
  shows "\<exists>t'. rfold (\<lambda>x t. rbind (remove (key x) t) (\<lambda>(y, t1). require (y = x) (Inr t1))) p t = Inr t' \<and> ok t' \<and>
    (\<forall>k. abs t' k = (if k \<in> key ` set p then None else abs t k))"
  using assms
proof (induction p arbitrary: t)
  case (Cons x p)
  then obtain t1 where t1: "remove (key x) t = Inr (x, t1)" "ok t1" "abs t1 = (abs t)(key x := None)"
    using remove_law [of t "key x" x] by auto
  have "\<forall>y \<in> set p. abs t1 (key y) = Some y" using Cons.prems t1(3) by (auto simp: image_iff)
  with Cons.IH [OF t1(2)] Cons.prems t1 show ?case by fastforce
qed auto

end

definition table_for :: "('a \<Rightarrow> 'k) \<Rightarrow> ('k \<Rightarrow> i32) \<Rightarrow> ('k, 'a) HashTable \<Rightarrow> bool" where
  "table_for g hf t \<longleftrightarrow> HashTable_ok t \<and> getKey t = g \<and> hash t = hf"

interpretation ht: keyed_table "table_for g hf" lookup g HashTable_Insert HashTable_Remove
proof
  show "\<exists>t'. HashTable_Insert x t = Inr t' \<and> table_for g hf t' \<and> lookup t' = (lookup t)(g x \<mapsto> x)"
    if "table_for g hf t" "lookup t (g x) = None" for t x
    using that Insert_ok [of t x] by (auto simp: table_for_def)
  show "\<exists>t'. HashTable_Remove k t = Inr (x, t') \<and> table_for g hf t' \<and> lookup t' = (lookup t)(k := None)"
    if "table_for g hf t" "lookup t k = Some x" for t k x
    using that HashTable_Remove_ok [of t k] by (auto simp: table_for_def)
qed

lemma empty_iff:
  assumes "HashTable_ok t"
  shows "HashTable_IsEmpty t \<longleftrightarrow> lookup t = Map.empty"
proof -
  have c: "core t" "numItems t = size_of t" using assms by (auto simp: HashTable_ok_def)
  have "size_of t = 0 \<longleftrightarrow> (\<forall>b \<in> set (buckets t). b = [])"
    unfolding size_of_def by (subst sum_list_nonneg_eq_0_iff) auto
  also have "\<dots> \<longleftrightarrow> lookup t = Map.empty"
  proof
    assume "\<forall>b \<in> set (buckets t). b = []"
    then have "buckets t ! slot t k = []" for k using nth_mem [OF slot_less [OF c(1)]] by blast
    then show "lookup t = Map.empty" by (simp add: lookup_def fun_eq_iff)
  next
    assume e: "lookup t = Map.empty"
    show "\<forall>b \<in> set (buckets t). b = []"
    proof
      fix b assume "b \<in> set (buckets t)"
      then obtain i where i: "i < length (buckets t)" "b = buckets t ! i" by (auto simp: in_set_conv_nth)
      have "x \<notin> set b" for x
        using e lookup_Some [OF c(1), of "getKey t x" x] c(1) i by (auto simp: core_def)
      then show "b = []" by (cases b) auto
    qed
  qed
  finally show ?thesis using c(2) by (simp add: HashTable_IsEmpty_def)
qed

section \<open>Properties\<close>

text \<open>
  C32: The hash table is a finite map, also across growth. On a legal table, \<open>Insert\<close> of an item
  whose key is absent, with or without the expansion of \<open>ReHash\<close>, succeeds, keeps the table
  legal (and so passes \<open>SanityCheck\<close>) and adds exactly that entry; of a present key it fails the
  assertion. \<open>Remove\<close> returns the item of a present key and deletes exactly its entry, and
  fails the assertion otherwise; \<open>Find\<close> returns the entry.
\<close>

theorem HashTable_is_map:
  assumes "HashTable_ok t"
  shows "HashTable_SanityCheck t = Inr () \<and> HashTable_Find k t = Inr (lookup t k) \<and>
    (if lookup t (getKey t x) \<noteq> None then HashTable_Insert x t = Inl Abort
     else \<exists>t'. HashTable_Insert x t = Inr t' \<and> HashTable_ok t' \<and> lookup t' = (lookup t)(getKey t x \<mapsto> x) \<and>
       numItems t' = numItems t + 1 \<and> getKey t' = getKey t \<and> hash t' = hash t) \<and>
    (case lookup t k of None \<Rightarrow> HashTable_Remove k t = Inl Abort
     | Some y \<Rightarrow> \<exists>t'. HashTable_Remove k t = Inr (y, t') \<and> HashTable_ok t' \<and> lookup t' = (lookup t)(k := None) \<and>
         numItems t' = numItems t - 1 \<and> getKey t' = getKey t \<and> hash t' = hash t)"
proof -
  have "core t" using assms by (simp add: HashTable_ok_def)
  then show ?thesis
    by (intro conjI SanityCheck_ok [OF assms] Find_ok Insert_ok [OF assms] HashTable_Remove_ok [OF assms])
qed

theorem HashTable_is_map_witness:
  "\<exists>t'. HashTable_Insert (5::int) (HashTable_new (\<lambda>x. x) word_of_int) = Inr t' \<and> HashTable_ok t' \<and>
     lookup t' = [5 \<mapsto> 5]"
  using HashTable_is_map [OF HashTable_new_ok(1), of "\<lambda>x::int. x" word_of_int 5 5]
  by (auto simp: HashTable_new_ok)

text \<open>
  The self test of the hash table passes for any items with distinct keys, however often the
  table grows: no assertion fails, and the table is empty and legal at the end.
\<close>

theorem HashTable_SelfTest_passes:
  assumes "distinct (map g p)"
  shows "\<exists>t'. HashTable_SelfTest p (HashTable_new g hf) = Inr t' \<and> HashTable_ok t' \<and> lookup t' = Map.empty"
proof -
  let ?t = "HashTable_new g hf"
  let ?check = "\<lambda>x t1. rbind (IsInTable (g x) t1) (\<lambda>b. require b (require (\<not> HashTable_IsEmpty t1) (Inr t1)))"
  have ok: "table_for g hf ?t" by (simp add: table_for_def HashTable_new_ok)
  have check: "?check x t = Inr t" if "table_for g hf t" "lookup t (g x) = Some x" for t x
    using that IsInTable_ok [of t "g x"] empty_iff [of t] by (auto simp: table_for_def HashTable_ok_def)
  have none: "\<forall>x \<in> set p. lookup ?t (g x) = None" by (simp add: HashTable_new_ok)
  obtain t2 where t2: "rfold (\<lambda>x t. rbind (HashTable_Insert x t) (?check x)) p ?t = Inr t2" "table_for g hf t2"
    "\<forall>x \<in> set p. lookup t2 (g x) = Some x" "\<forall>k. k \<notin> g ` set p \<longrightarrow> lookup t2 k = lookup ?t k"
    using ht.insert_all [where check = ?check, OF ok assms none check] by blast
  obtain t3 where t3: "rfold (\<lambda>x t. rbind (HashTable_Remove (g x) t) (\<lambda>(y, t1). require (y = x) (Inr t1))) p t2 = Inr t3"
    "table_for g hf t3" "\<forall>k. lookup t3 k = (if k \<in> g ` set p then None else lookup t2 k)"
    using ht.remove_all [OF t2(2) assms t2(3)] by blast
  have e: "lookup t3 = Map.empty" using t3(3) t2(4) by (simp add: fun_eq_iff HashTable_new_ok)
  have ok3: "HashTable_ok t3" using t3(2) by (simp add: table_for_def)
  have "FindNextFullBucket 0 ?t = Inr (numBuckets ?t)"
    by (simp add: FindNextFullBucket_def HashTable_new_def InitialBuckets_def InitBuckets_def eval_nat_numeral)
  then show ?thesis
    using SanityCheck_ok [OF HashTable_new_ok(1), of g hf] SanityCheck_ok [OF ok3] t2(1) t3(1) e ok3
      empty_iff [OF HashTable_new_ok(1), of g hf] empty_iff [OF ok3]
    by (simp add: HashTable_SelfTest_def HashTable_new_ok)
qed

theorem HashTable_SelfTest_passes_witness:
  "\<exists>t'. HashTable_SelfTest [0, 1, 2, 3, 4, 5, 6, 7, 8, 9, 10, 11, 12, 13, 14 :: int]
      (HashTable_new (\<lambda>x. x) word_of_int) = Inr t' \<and> HashTable_ok t' \<and> lookup t' = Map.empty"
  by (rule HashTable_SelfTest_passes) simp

end
