(* ===== verification/Machine_Memory.thy ===== *)
theory Machine_Memory
  imports Nachos_Prelude
begin

text \<open>
  \<open>machine/machine.h\<close>, \<open>machine/machine.cc\<close>, \<open>machine/translate.h\<close> and
  \<open>machine/translate.cc\<close>: the registers and the memory of the simulated workstation, address
  translation through a linear page table or a TLB, and the checked reads and writes of
  virtual memory. The record \<open>machine\<close> is extensible: the interrupt hardware and the kernel
  add their fields to it, and every operation here leaves those fields alone. The kernel's
  \<open>ExceptionHandler\<close> is the argument \<open>h\<close> of the operations that trap.
\<close>

section \<open>The state of the machine\<close>

datatype ExceptionType =
    NoException | SyscallException | PageFaultException | ReadOnlyException
  | BusErrorException | AddressErrorException | OverflowException | IllegalInstrException
  | NumExceptionTypes

datatype MachineStatus = IdleMode | SystemMode | UserMode

record TranslationEntry =
  virtualPage :: i32
  physicalPage :: i32
  valid :: bool
  readOnly :: bool
  use :: bool
  dirty :: bool

record machine =
  registers :: "i32 list"
  mainMemory :: "byte list"
  tlb :: "TranslationEntry list option"
  pageTable :: "TranslationEntry list option"
  pageTableSize :: i32
  mstatus :: MachineStatus

abbreviation PageSize :: nat where "PageSize \<equiv> 128"
abbreviation NumPhysPages :: nat where "NumPhysPages \<equiv> 128"
definition MemorySize :: nat where "MemorySize = NumPhysPages * PageSize"
definition TLBSize :: int where "TLBSize = 4"

definition StackReg :: nat where "StackReg = 29"
definition RetAddrReg :: nat where "RetAddrReg = 31"
definition HiReg :: nat where "HiReg = 32"
definition LoReg :: nat where "LoReg = 33"
definition PCReg :: nat where "PCReg = 34"
definition NextPCReg :: nat where "NextPCReg = 35"
definition PrevPCReg :: nat where "PrevPCReg = 36"
definition LoadReg :: nat where "LoadReg = 37"
definition LoadValueReg :: nat where "LoadValueReg = 38"
definition BadVAddrReg :: nat where "BadVAddrReg = 39"
definition NumTotalRegs :: nat where "NumTotalRegs = 40"

lemmas reg_names = StackReg_def RetAddrReg_def HiReg_def LoReg_def PCReg_def NextPCReg_def
  PrevPCReg_def LoadReg_def LoadValueReg_def BadVAddrReg_def NumTotalRegs_def

type_synonym 'a handler = "ExceptionType \<Rightarrow> 'a machine_scheme \<Rightarrow> 'a machine_scheme result"

text \<open>
  \<open>Machine::Machine\<close> without \<open>USE_TLB\<close>: all registers and all of memory zero, no page table
  yet. The fields \<open>singleStep\<close> and \<open>runUntilTime\<close> belong to the interactive debugger.
\<close>

definition Machine_new :: machine where
  "Machine_new = \<lparr>registers = replicate NumTotalRegs 0, mainMemory = replicate MemorySize 0,
     tlb = None, pageTable = None, pageTableSize = 0, mstatus = SystemMode\<rparr>"

definition Machine_ReadRegister :: "int \<Rightarrow> 'a machine_scheme \<Rightarrow> i32 result" where
  "Machine_ReadRegister num m =
     require (0 \<le> num \<and> num < int NumTotalRegs) (arr_get (registers m) num)"

definition Machine_WriteRegister :: "int \<Rightarrow> i32 \<Rightarrow> 'a machine_scheme \<Rightarrow> 'a machine_scheme result" where
  "Machine_WriteRegister num v m =
     require (0 \<le> num \<and> num < int NumTotalRegs)
       (rbind (arr_set (registers m) num v) (\<lambda>r. Inr (m\<lparr>registers := r\<rparr>)))"

text \<open>Direct accesses \<open>registers[i]\<close> of the simulator, with \<open>i\<close> a constant or a decoded field.\<close>

definition reg :: "nat \<Rightarrow> 'a machine_scheme \<Rightarrow> i32" where
  "reg i m = registers m ! i"

definition set_reg :: "nat \<Rightarrow> i32 \<Rightarrow> 'a machine_scheme \<Rightarrow> 'a machine_scheme" where
  "set_reg i v m = m\<lparr>registers := (registers m)[i := v]\<rparr>"

section \<open>Delayed loads and exceptions\<close>

text \<open>
  \<open>Machine::DelayedLoad\<close>: the register named by \<open>LoadReg\<close> receives the pending value, the
  next pending load is recorded, and register 0 is made zero again.
\<close>

definition DelayedLoad :: "nat \<Rightarrow> i32 \<Rightarrow> 'a machine_scheme \<Rightarrow> 'a machine_scheme result" where
  "DelayedLoad nextReg nextValue m =
     rbind (arr_set (registers m) (sint (reg LoadReg m)) (reg LoadValueReg m)) (\<lambda>r.
       Inr (m\<lparr>registers :=
         ((r[LoadReg := of_nat nextReg])[LoadValueReg := nextValue])[0 := 0]\<rparr>))"

definition RaiseException ::
  "'a handler \<Rightarrow> ExceptionType \<Rightarrow> i32 \<Rightarrow> 'a machine_scheme \<Rightarrow> 'a machine_scheme result" where
  "RaiseException h which badVAddr m =
     rbind (DelayedLoad 0 0 (set_reg BadVAddrReg badVAddr m)) (\<lambda>m1.
     rbind (h which (m1\<lparr>mstatus := SystemMode\<rparr>)) (\<lambda>m2.
       Inr (m2\<lparr>mstatus := UserMode\<rparr>)))"

section \<open>Byte order\<close>

text \<open>
  \<open>WordToHost\<close> and \<open>ShortToHost\<close>, with the preprocessor flag \<open>HOST_IS_BIG_ENDIAN\<close> as an
  argument. The host of the build is little-endian, so the simulator calls them with \<open>False\<close>.
\<close>

definition WordToHost :: "bool \<Rightarrow> i32 \<Rightarrow> i32" where
  "WordToHost big w =
     (if big then
        (drop_bit 24 w AND 0x000000ff) OR (drop_bit 8 w AND 0x0000ff00) OR
        (push_bit 8 w AND 0x00ff0000) OR (push_bit 24 w AND 0xff000000)
      else w)"

definition ShortToHost :: "bool \<Rightarrow> short \<Rightarrow> short" where
  "ShortToHost big w =
     (if big then (push_bit 8 w AND 0xff00) OR (drop_bit 8 w AND 0x00ff) else w)"

definition WordToMachine :: "bool \<Rightarrow> i32 \<Rightarrow> i32" where
  "WordToMachine big w = WordToHost big w"

definition ShortToMachine :: "bool \<Rightarrow> short \<Rightarrow> short" where
  "ShortToMachine big w = ShortToHost big w"

abbreviation (input) HOST_IS_BIG_ENDIAN :: bool where "HOST_IS_BIG_ENDIAN \<equiv> False"

section \<open>Address translation\<close>

text \<open>The search of the TLB: the first valid entry for the page, if any.\<close>

definition tlb_search :: "TranslationEntry list \<Rightarrow> i32 \<Rightarrow> int option result" where
  "tlb_search t vpn =
     for_upto TLBSize
       (\<lambda>i found. if found \<noteq> None then Inr found
          else rbind (arr_get t i) (\<lambda>e.
            Inr (if valid e \<and> virtualPage e = vpn then Some i else None))) None"

text \<open>
  The end of \<open>Translate\<close>, once the entry is found: the protection and frame checks, the use
  and dirty bits, and the physical address with its assertion.
\<close>

definition translate_entry ::
  "i32 \<Rightarrow> int \<Rightarrow> bool \<Rightarrow> TranslationEntry \<Rightarrow> (ExceptionType + i32 \<times> TranslationEntry) result" where
  "translate_entry offset sz writing entry =
     (if readOnly entry \<and> writing then Inr (Inl ReadOnlyException)
      else let pageFrame = physicalPage entry in
        if pageFrame \<ge> of_nat NumPhysPages then Inr (Inl BusErrorException)
        else let entry' = entry\<lparr>use := True, dirty := (if writing then True else dirty entry)\<rparr>;
                 physAddr = pageFrame * of_nat PageSize + offset
             in require (0 \<le> sint physAddr \<and> sint physAddr + sz \<le> int MemorySize)
                  (Inr (Inr (physAddr, entry'))))"

definition Translate ::
  "i32 \<Rightarrow> int \<Rightarrow> bool \<Rightarrow> 'a machine_scheme \<Rightarrow> ((ExceptionType + i32) \<times> 'a machine_scheme) result" where
  "Translate virtAddr sz writing m =
     (if (sz = 4 \<and> virtAddr AND 3 \<noteq> 0) \<or> (sz = 2 \<and> virtAddr AND 1 \<noteq> 0)
      then Inr (Inl AddressErrorException, m)
      else
        require (tlb m = None \<or> pageTable m = None)
       (require (tlb m \<noteq> None \<or> pageTable m \<noteq> None)
       (let vpn = virtAddr div of_nat PageSize; offset = virtAddr mod of_nat PageSize in
        case tlb m of
          None \<Rightarrow>
            (if vpn \<ge> pageTableSize m then Inr (Inl AddressErrorException, m)
             else rbind (arr_get (the (pageTable m)) (uint vpn)) (\<lambda>entry.
               if \<not> valid entry then Inr (Inl PageFaultException, m)
               else rbind (translate_entry offset sz writing entry) (\<lambda>r.
                 case r of
                   Inl e \<Rightarrow> Inr (Inl e, m)
                 | Inr (physAddr, entry') \<Rightarrow>
                     Inr (Inr physAddr,
                       m\<lparr>pageTable := Some ((the (pageTable m))[unat vpn := entry'])\<rparr>))))
        | Some t \<Rightarrow>
            rbind (tlb_search t vpn) (\<lambda>found.
              case found of
                None \<Rightarrow> Inr (Inl PageFaultException, m)
              | Some i \<Rightarrow>
                  rbind (arr_get t i) (\<lambda>entry.
                  rbind (translate_entry offset sz writing entry) (\<lambda>r.
                    case r of
                      Inl e \<Rightarrow> Inr (Inl e, m)
                    | Inr (physAddr, entry') \<Rightarrow>
                        Inr (Inr physAddr, m\<lparr>tlb := Some (t[nat i := entry'])\<rparr>)))))))"

section \<open>Reading and writing virtual memory\<close>

text \<open>
  Loads and stores on \<open>mainMemory\<close>. A \<open>char\<close> is signed, so a one-byte read extends the
  sign; two and four byte accesses are little-endian.
\<close>

definition mem_load :: "byte list \<Rightarrow> int \<Rightarrow> int \<Rightarrow> i32 result" where
  "mem_load mem a sz =
     (if sz = 1 then rbind (arr_get mem a) (\<lambda>b. Inr (scast b))
      else if sz = 2 then
        rbind (arr_get mem a) (\<lambda>b0. rbind (arr_get mem (a + 1)) (\<lambda>b1.
          Inr (ucast (ShortToHost HOST_IS_BIG_ENDIAN (le_short b0 b1)))))
      else if sz = 4 then
        rbind (arr_get mem a) (\<lambda>b0. rbind (arr_get mem (a + 1)) (\<lambda>b1.
        rbind (arr_get mem (a + 2)) (\<lambda>b2. rbind (arr_get mem (a + 3)) (\<lambda>b3.
          Inr (WordToHost HOST_IS_BIG_ENDIAN (le_word b0 b1 b2 b3))))))
      else Inl Abort)"

definition mem_store :: "byte list \<Rightarrow> int \<Rightarrow> int \<Rightarrow> i32 \<Rightarrow> byte list result" where
  "mem_store mem a sz v =
     (if sz = 1 then arr_set mem a (ucast (v AND 0xff))
      else if sz = 2 then
        (let s = ShortToMachine HOST_IS_BIG_ENDIAN (ucast (v AND 0xffff)) in
         rbind (arr_set mem a (byte_of 0 s)) (\<lambda>m1. arr_set m1 (a + 1) (byte_of 1 s)))
      else if sz = 4 then
        (let w = WordToMachine HOST_IS_BIG_ENDIAN v in
         rbind (arr_set mem a (byte_of 0 w)) (\<lambda>m1.
         rbind (arr_set m1 (a + 1) (byte_of 1 w)) (\<lambda>m2.
         rbind (arr_set m2 (a + 2) (byte_of 2 w)) (\<lambda>m3. arr_set m3 (a + 3) (byte_of 3 w)))))
      else Inl Abort)"

text \<open>
  \<open>ReadMem\<close> and \<open>WriteMem\<close>: a failed translation traps to the kernel and the call returns
  \<open>FALSE\<close> (\<open>None\<close>, \<open>False\<close>) if the handler returns.
\<close>

definition ReadMem ::
  "'a handler \<Rightarrow> i32 \<Rightarrow> int \<Rightarrow> 'a machine_scheme \<Rightarrow> (i32 option \<times> 'a machine_scheme) result" where
  "ReadMem h addr sz m =
     rbind (Translate addr sz False m) (\<lambda>(r, m1).
       case r of
         Inl e \<Rightarrow> rbind (RaiseException h e addr m1) (\<lambda>m2. Inr (None, m2))
       | Inr pa \<Rightarrow> rbind (mem_load (mainMemory m1) (sint pa) sz) (\<lambda>v. Inr (Some v, m1)))"

definition WriteMem ::
  "'a handler \<Rightarrow> i32 \<Rightarrow> int \<Rightarrow> i32 \<Rightarrow> 'a machine_scheme \<Rightarrow> (bool \<times> 'a machine_scheme) result" where
  "WriteMem h addr sz v m =
     rbind (Translate addr sz True m) (\<lambda>(r, m1).
       case r of
         Inl e \<Rightarrow> rbind (RaiseException h e addr m1) (\<lambda>m2. Inr (False, m2))
       | Inr pa \<Rightarrow>
           rbind (mem_store (mainMemory m1) (sint pa) sz v) (\<lambda>mem.
             Inr (True, m1\<lparr>mainMemory := mem\<rparr>)))"


section \<open>Address arithmetic\<close>

lemma sint_small: "0 \<le> k \<Longrightarrow> k < 2 ^ 31 \<Longrightarrow> sint (word_of_int k :: i32) = k"
  by (simp add: sint_sbintrunc' signed_take_bit_int_eq_self)

lemma and_3_mod_4: "(w :: i32) AND 3 = w mod 4"
proof -
  have "w AND 3 = take_bit 2 w" by (simp add: take_bit_eq_mask mask_eq_exp_minus_1)
  also have "\<dots> = w mod 4" by (simp add: take_bit_eq_mod)
  finally show ?thesis .
qed

lemma and_1_mod_2: "(w :: i32) AND 1 = w mod 2"
  by (simp add: and_one_eq)

lemma frame_address:
  assumes "(pf :: i32) < 128" and "(off :: i32) < 128"
  shows "sint (pf * 128 + off) = uint pf * 128 + uint off"
proof -
  have "uint pf < 128" "uint off < 128" using assms by (simp_all add: word_less_def)
  moreover have "pf * 128 + off = word_of_int (uint pf * 128 + uint off)" by simp
  ultimately show ?thesis using sint_small [of "uint pf * 128 + uint off"] by simp
qed

lemma uint_mod_word: "uint ((va :: i32) mod 128) = uint va mod 128" "uint (va div 128) = uint va div 128"
  by (simp_all add: uint_mod uint_div)

lemma aligned_offset:
  assumes "sz \<in> {1, 2, 4 :: int}" and "\<not> ((sz = 4 \<and> (va::i32) AND 3 \<noteq> 0) \<or> (sz = 2 \<and> va AND 1 \<noteq> 0))"
  shows "uint va mod sz = 0" and "uint (va mod 128) + sz \<le> 128"
proof -
  show "uint va mod sz = 0" 
    using assms by (auto simp: and_3_mod_4 and_1_mod_2 word_uint_eq_iff uint_mod)
  then have "(uint va mod 128) mod sz = 0" using assms(1) by (auto simp: mod_mod_cancel)
  then show "uint (va mod 128) + sz \<le> 128" using assms(1) pos_mod_bound[of 128 "uint va"] unfolding uint_mod_word by (auto; presburger)
qed

section \<open>The machine invariant\<close>

definition machine_ok :: "'a machine_scheme \<Rightarrow> bool" where
  "machine_ok m \<longleftrightarrow>
     length (registers m) = NumTotalRegs \<and> length (mainMemory m) = MemorySize \<and>
     unat (reg LoadReg m) < 32 \<and>
     (case tlb m of
        None \<Rightarrow> (\<exists>pt. pageTable m = Some pt \<and> unat (pageTableSize m) \<le> length pt)
      | Some t \<Rightarrow> pageTable m = None \<and> int (length t) = TLBSize)"

lemma translate_entry_eq:
  assumes "offset < 128" and "uint offset + sz \<le> 128"
  shows "translate_entry offset sz w e =
    (if readOnly e \<and> w then Inr (Inl ReadOnlyException)
     else if physicalPage e \<ge> 128 then Inr (Inl BusErrorException)
     else Inr (Inr (physicalPage e * 128 + offset, e\<lparr>use := True, dirty := w \<or> dirty e\<rparr>)))"
proof -
  have "0 \<le> sint (physicalPage e * 128 + offset) \<and>
      sint (physicalPage e * 128 + offset) + sz \<le> int MemorySize" if "physicalPage e < 128"
  proof -
    have "uint (physicalPage e) \<le> 127" using that by (simp add: word_less_def)
    then show ?thesis
      using assms frame_address [OF that assms(1)] by (simp add: MemorySize_def)
  qed
  then show ?thesis
    by (cases "physicalPage e < 128") (auto simp: translate_entry_def Let_def not_le not_less)
qed

lemma tlb_search_ok:
  assumes "int (length t) = TLBSize"
  shows "\<exists>r. tlb_search t vpn = Inr r \<and>
    (case r of None \<Rightarrow> \<forall>e \<in> set t. \<not> (valid e \<and> virtualPage e = vpn)
     | Some i \<Rightarrow> 0 \<le> i \<and> i < TLBSize \<and> valid (t ! nat i) \<and> virtualPage (t ! nat i) = vpn)"
proof -
  let ?P = "\<lambda>i found. case found of
      None \<Rightarrow> \<forall>j. 0 \<le> j \<and> j < i \<longrightarrow> \<not> (valid (t ! nat j) \<and> virtualPage (t ! nat j) = vpn)
    | Some k \<Rightarrow> 0 \<le> k \<and> k < TLBSize \<and> valid (t ! nat k) \<and> virtualPage (t ! nat k) = vpn"
  have "\<exists>r. tlb_search t vpn = Inr r \<and> ?P TLBSize r"
    unfolding tlb_search_def
  proof (rule for_upto_rule [where P = ?P])
    fix i found
    assume i: "0 \<le> i" "i < TLBSize" and P: "?P i found"
    have "j < i + 1 \<longleftrightarrow> j < i \<or> j = i" for j by auto
    then show "\<exists>t'. (if found \<noteq> None then Inr found
        else rbind (arr_get t i) (\<lambda>e. Inr (if valid e \<and> virtualPage e = vpn then Some i else None))) =
        Inr t' \<and> ?P (i + 1) t'"
      using i P assms by (auto split: option.splits)
  qed (auto simp: TLBSize_def)
  then obtain r where r: "tlb_search t vpn = Inr r" "?P TLBSize r" by blast
  have "\<forall>e \<in> set t. \<not> (valid e \<and> virtualPage e = vpn)" if "r = None"
  proof
    fix e assume "e \<in> set t"
    then obtain k where "k < length t" "t ! k = e" by (auto simp: in_set_conv_nth)
    then show "\<not> (valid e \<and> virtualPage e = vpn)"
      using r(2) that assms by (auto dest: spec [of _ "int k"])
  qed
  then show ?thesis using r by (cases r) auto
qed


section \<open>What translation, loads and stores do\<close>

text \<open>The entry that maps a virtual page, in either translation scheme.\<close>

definition page_entry :: "'a machine_scheme \<Rightarrow> i32 \<Rightarrow> TranslationEntry \<Rightarrow> bool" where
  "page_entry m vpn e \<longleftrightarrow> valid e \<and>
     (case tlb m of
        None \<Rightarrow> vpn < pageTableSize m \<and> e = the (pageTable m) ! unat vpn
      | Some t \<Rightarrow> e \<in> set t \<and> virtualPage e = vpn)"

lemma uint_less_length: "uint (w::i32) < int n \<longleftrightarrow> unat w < n"
proof -
  have "uint w = int (unat w)" by simp
  then show ?thesis by (simp del: of_nat_unat)
qed

lemma Translate_page_table:
  assumes "tlb m = None" and "pageTable m = Some pt" and "unat (pageTableSize m) \<le> length pt"
    and "sz \<in> {1, 2, 4}"
  shows "Translate va sz w m =
    (let e = pt ! unat (va div 128) in
     if (sz = 4 \<and> va AND 3 \<noteq> 0) \<or> (sz = 2 \<and> va AND 1 \<noteq> 0) \<or> va div 128 \<ge> pageTableSize m
     then Inr (Inl AddressErrorException, m)
     else if \<not> valid e then Inr (Inl PageFaultException, m)
     else if readOnly e \<and> w then Inr (Inl ReadOnlyException, m)
     else if physicalPage e \<ge> 128 then Inr (Inl BusErrorException, m)
     else Inr (Inr (physicalPage e * 128 + va mod 128),
            m\<lparr>pageTable := Some (pt[unat (va div 128) := e\<lparr>use := True, dirty := w \<or> dirty e\<rparr>])\<rparr>))"
proof (cases "(sz = 4 \<and> va AND 3 \<noteq> 0) \<or> (sz = 2 \<and> va AND 1 \<noteq> 0)")
  case True
  then show ?thesis by (auto simp: Translate_def)
next
  case aligned: False
  show ?thesis
  proof (cases "va div 128 \<ge> pageTableSize m")
    case True
    with aligned assms show ?thesis by (auto simp: Translate_def)
  next
    case False
    then have lt: "unat (va div 128) < unat (pageTableSize m)"
      by (simp add: not_le word_less_nat_alt)
    then have get: "arr_get pt (uint (va div 128)) = Inr (pt ! unat (va div 128))"
      using assms(3) by (simp add: arr_get_def uint_less_length)
    have "va mod 128 < 128" by (simp add: word_mod_less_divisor)
    then have "translate_entry (va mod 128) sz u e =
        (if readOnly e \<and> u then Inr (Inl ReadOnlyException)
         else if physicalPage e \<ge> 128 then Inr (Inl BusErrorException)
         else Inr (Inr (physicalPage e * 128 + va mod 128, e\<lparr>use := True, dirty := u \<or> dirty e\<rparr>)))" for e u
      using translate_entry_eq aligned_offset [OF assms(4) aligned] by blast
    with aligned assms(1,2) False get show ?thesis by (auto simp: Translate_def Let_def)
  qed
qed

lemma word_bytes_fit: "0 \<le> a \<Longrightarrow> a + 4 \<le> int n \<Longrightarrow> nat a < n \<and> nat (a + 1) < n \<and> nat (a + 2) < n \<and> nat (a + 3) < n"
  by auto

definition extend :: "int \<Rightarrow> i32 \<Rightarrow> i32" where
  "extend sz v = (if sz = 1 then scast (ucast v :: byte) else if sz = 2 then ucast (ucast v :: short) else v)"

lemma ucast_and_mask: "ucast ((v::i32) AND 0xff) = (ucast v :: byte)" "ucast (v AND 0xffff) = (ucast v :: short)"
proof -
  have "v AND 0xff = take_bit 8 v" "v AND 0xffff = take_bit 16 v"
    by (simp_all add: take_bit_eq_mask mask_eq_exp_minus_1)
  then show "ucast (v AND 0xff) = (ucast v :: byte)" "ucast (v AND 0xffff) = (ucast v :: short)"
    by (auto intro!: bit_word_eqI simp: bit_simps)
qed

text \<open>The bytes a store writes, and where.\<close>

definition store_bytes :: "int \<Rightarrow> i32 \<Rightarrow> byte list" where
  "store_bytes sz v =
     (if sz = 1 then [byte_of 0 v] else if sz = 2 then [byte_of 0 v, byte_of 1 v]
      else [byte_of 0 v, byte_of 1 v, byte_of 2 v, byte_of 3 v])"

lemma byte_of_short: "byte_of 0 (ucast (v::i32) :: short) = byte_of 0 v" "byte_of 1 (ucast v :: short) = byte_of 1 v"
  by (rule bit_word_eqI, simp add: bit_byte_of bit_simps)+

lemma ucast_byte_of: "(ucast (v::i32) :: byte) = byte_of 0 v"
  by (simp add: byte_of_def)

lemma mem_store_eq:
  assumes "sz \<in> {1, 2, 4}" and "0 \<le> a" and "a + sz \<le> int (length mem)"
  shows "mem_store mem a sz v =
    Inr (take (nat a) mem @ store_bytes sz v @ drop (nat a + nat sz) mem)"
proof -
  obtain k where a: "a = int k" using assms(2) nonneg_eq_int by blast
  consider "sz = 1" | "sz = 2" | "sz = 4" using assms(1) by auto
  then show ?thesis
  proof cases
    case 1
    then show ?thesis using assms(3) a
      by (simp add: mem_store_def store_bytes_def ucast_and_mask upd_conv_take_nth_drop)
        (simp add: ucast_byte_of)
  next
    case 2
    then have k: "k + 2 \<le> length mem" using assms(3) a by simp
    have "arr_set (mem[k := b0]) (int k + 1) b1 = Inr (take k mem @ [b0, b1] @ drop (k + 2) mem)" for b0 b1
      using k by (auto simp: arr_set_def nat_add_distrib list_eq_iff_nth_eq nth_list_update nth_append nth_Cons'
          intro!: arg_cong [of _ _ "(!) mem"])
    then show ?thesis using 2 a k
      by (simp add: mem_store_def store_bytes_def ucast_and_mask Let_def ShortToMachine_def
          ShortToHost_def byte_of_short [simplified])
  next
    case 3
    then have k: "k + 4 \<le> length mem" using assms(3) a by simp
    have "rbind (arr_set (mem[k := b0]) (int k + 1) b1) (\<lambda>m2. rbind (arr_set m2 (int k + 2) b2)
        (\<lambda>m3. arr_set m3 (int k + 3) b3)) = Inr (take k mem @ [b0, b1, b2, b3] @ drop (k + 4) mem)" for b0 b1 b2 b3
      using k by (auto simp: arr_set_def nat_add_distrib list_eq_iff_nth_eq nth_list_update nth_append nth_Cons')
    then show ?thesis using 3 a k
      by (simp add: mem_store_def store_bytes_def Let_def WordToMachine_def WordToHost_def)
  qed
qed

lemma mem_load_ok:
  assumes "sz \<in> {1, 2, 4}" and "0 \<le> a" and "a + sz \<le> int (length mem)"
  shows "\<exists>v. mem_load mem a sz = Inr v"
  using assms by (auto simp: mem_load_def)

lemma mem_load_stored:
  assumes "sz \<in> {1, 2, 4}" and "nat a = length pre" and "0 \<le> a"
  shows "mem_load (pre @ store_bytes sz v @ post) a sz = Inr (extend sz v)"
proof -
  have a: "a = int (length pre)" using assms by simp
  consider "sz = 1" | "sz = 2" | "sz = 4" using assms(1) by auto
  then show ?thesis
    by cases (simp_all add: mem_load_def store_bytes_def extend_def a arr_get_def nth_append
        nat_add_distrib ShortToHost_def WordToHost_def ucast_byte_of
        le_short_byte_of [of "ucast v", simplified byte_of_short] flip: One_nat_def)
qed

section \<open>Totality of translation, reads and writes\<close>

definition translation_faults :: "ExceptionType set" where
  "translation_faults =
     {AddressErrorException, PageFaultException, ReadOnlyException, BusErrorException}"

text \<open>What no access and no instruction changes of the translation: its kind and its size.\<close>

definition same_space :: "'a machine_scheme \<Rightarrow> 'a machine_scheme \<Rightarrow> bool" where
  "same_space m m' \<longleftrightarrow> (tlb m' = None \<longleftrightarrow> tlb m = None) \<and> pageTableSize m' = pageTableSize m"

lemma Translate_ok:
  assumes ok: "machine_ok m" and sz: "sz \<in> {1, 2, 4}"
  obtains (fault) e where "Translate va sz w m = Inr (Inl e, m)" and "e \<in> translation_faults"
  | (hit) pa m' e where "Translate va sz w m = Inr (Inr pa, m')" and "machine_ok m'"
      and "registers m' = registers m" and "mainMemory m' = mainMemory m" and "machine.more m' = machine.more m"
      and "page_entry m (va div 128) e" and "\<not> (readOnly e \<and> w)" and "physicalPage e < 128"
      and "sint pa = uint (physicalPage e) * 128 + uint va mod 128"
      and "0 \<le> sint pa" and "sint pa + sz \<le> int MemorySize"
      and "uint va mod 128 + sz \<le> 128" and "same_space m m'"
proof (cases "(sz = 4 \<and> va AND 3 \<noteq> 0) \<or> (sz = 2 \<and> va AND 1 \<noteq> 0)")
  case True
  then have "Translate va sz w m = Inr (Inl AddressErrorException, m)" by (auto simp: Translate_def)
  then show ?thesis by (rule fault) (simp add: translation_faults_def)
next
  case aligned: False
  note off = aligned_offset [OF sz aligned]
  have o: "va mod 128 < 128" by (simp add: word_mod_less_divisor)
  have phys: "sint (physicalPage e * 128 + va mod 128) = uint (physicalPage e) * 128 + uint va mod 128 \<and>
      0 \<le> sint (physicalPage e * 128 + va mod 128) \<and>
      sint (physicalPage e * 128 + va mod 128) + sz \<le> int MemorySize" if "physicalPage e < 128" for e
  proof -
    have "uint (physicalPage e) \<le> 127" using that by (simp add: word_less_def)
    then show ?thesis
      using frame_address [OF that o] off(2) uint_mod_word(1) [of va] by (simp add: MemorySize_def)
  qed
  have off': "uint va mod 128 + sz \<le> 128" using off(2) by (simp add: uint_mod_word)
  show ?thesis
  proof (cases "tlb m")
    case None
    with ok obtain pt where pt: "pageTable m = Some pt" "unat (pageTableSize m) \<le> length pt"
      by (auto simp: machine_ok_def)
    note T = Translate_page_table [OF None pt sz, of va w, unfolded Let_def]
    let ?e = "pt ! unat (va div 128)"
    consider "va div 128 \<ge> pageTableSize m" | "\<not> valid ?e" | "readOnly ?e \<and> w" | "physicalPage ?e \<ge> 128"
      | "va div 128 < pageTableSize m" "valid ?e" "\<not> (readOnly ?e \<and> w)" "physicalPage ?e < 128"
      by (meson leI)
    then show ?thesis
    proof cases
      case 5
      let ?m = "m\<lparr>pageTable := Some (pt[unat (va div 128) := ?e\<lparr>use := True, dirty := w \<or> dirty ?e\<rparr>])\<rparr>"
      have "Translate va sz w m = Inr (Inr (physicalPage ?e * 128 + va mod 128), ?m)"
        using T aligned 5 by auto
      then show ?thesis
        by (rule hit) (use ok None pt 5 phys [OF 5(4)] off' in
          \<open>auto simp: machine_ok_def page_entry_def reg_def same_space_def\<close>)
    qed (rule fault, use T aligned in \<open>auto simp: translation_faults_def split: if_splits\<close>)+
  next
    case (Some t)
    with ok have t: "pageTable m = None" "int (length t) = TLBSize" by (auto simp: machine_ok_def)
    obtain r where r: "tlb_search t (va div 128) = Inr r"
      "case r of None \<Rightarrow> \<forall>e \<in> set t. \<not> (valid e \<and> virtualPage e = va div 128)
       | Some i \<Rightarrow> 0 \<le> i \<and> i < TLBSize \<and> valid (t ! nat i) \<and> virtualPage (t ! nat i) = va div 128"
      using tlb_search_ok [OF t(2), of "va div 128"] by blast
    show ?thesis
    proof (cases r)
      case None
      then have "Translate va sz w m = Inr (Inl PageFaultException, m)"
        using aligned Some t r by (auto simp: Translate_def Let_def)
      then show ?thesis by (rule fault) (simp add: translation_faults_def)
    next
      case i: (Some i)
      let ?e = "t ! nat i"
      have te: "translate_entry (va mod 128) sz w ?e =
        (if readOnly ?e \<and> w then Inr (Inl ReadOnlyException)
         else if physicalPage ?e \<ge> 128 then Inr (Inl BusErrorException)
         else Inr (Inr (physicalPage ?e * 128 + va mod 128, ?e\<lparr>use := True, dirty := w \<or> dirty ?e\<rparr>)))"
        by (rule translate_entry_eq [OF o off(2)])
      have get: "arr_get t i = Inr ?e" using r i t by auto
      have T: "Translate va sz w m = rbind (translate_entry (va mod 128) sz w ?e) (\<lambda>r.
          case r of Inl e \<Rightarrow> Inr (Inl e, m)
          | Inr (pa, e') \<Rightarrow> Inr (Inr pa, m\<lparr>tlb := Some (t[nat i := e'])\<rparr>))"
        using aligned Some t r i get by (auto simp: Translate_def Let_def)
      consider "readOnly ?e \<and> w" | "\<not> (readOnly ?e \<and> w)" "physicalPage ?e \<ge> 128"
        | "\<not> (readOnly ?e \<and> w)" "physicalPage ?e < 128" by (meson leI)
      then show ?thesis
      proof cases
        case 3
        let ?m = "m\<lparr>tlb := Some (t[nat i := ?e\<lparr>use := True, dirty := w \<or> dirty ?e\<rparr>])\<rparr>"
        have "Translate va sz w m = Inr (Inr (physicalPage ?e * 128 + va mod 128), ?m)"
          using T te 3 by (auto simp: not_le)
        then show ?thesis
          by (rule hit) (use ok Some t r i 3 phys [OF 3(2)] off' in
            \<open>auto simp: machine_ok_def page_entry_def reg_def nat_less_iff same_space_def\<close>)
      qed (rule fault, use T te in \<open>auto simp: translation_faults_def\<close>)+
    qed
  qed
qed

lemma reg_set_reg [simp]: "i < length (registers m) \<Longrightarrow> reg i (set_reg i v m) = v"
  "i \<noteq> j \<Longrightarrow> reg i (set_reg j v m) = reg i m"
  by (simp_all add: reg_def set_reg_def)

lemma set_reg_fields [simp]:
  "mainMemory (set_reg i v m) = mainMemory m" "tlb (set_reg i v m) = tlb m"
  "pageTable (set_reg i v m) = pageTable m" "pageTableSize (set_reg i v m) = pageTableSize m"
  "mstatus (set_reg i v m) = mstatus m" "machine.more (set_reg i v m) = machine.more m"
  "length (registers (set_reg i v m)) = length (registers m)"
  by (simp_all add: set_reg_def)

lemma machine_ok_set_reg [simp, intro]: "machine_ok m \<Longrightarrow> i \<noteq> LoadReg \<Longrightarrow> machine_ok (set_reg i v m)"
  by (simp add: machine_ok_def split: option.splits)

lemma machine_ok_mstatus [simp]: "machine_ok (m\<lparr>mstatus := s\<rparr>) = machine_ok m"
  by (simp add: machine_ok_def reg_def split: option.splits)

lemma sint_eq_unat: "unat (w::i32) < 2 ^ 31 \<Longrightarrow> sint w = int (unat w)"
proof -
  assume "unat w < 2 ^ 31"
  then have "uint w < 2 ^ 31" using uint_less_length [of w "2 ^ 31"] by simp
  then show ?thesis using sint_small [of "uint w"] by simp
qed

lemma DelayedLoad_ok:
  assumes "machine_ok m" and "n < 32"
  shows "\<exists>m'. DelayedLoad n v m = Inr m' \<and> machine_ok m' \<and> reg 0 m' = 0 \<and>
    mainMemory m' = mainMemory m \<and> tlb m' = tlb m \<and> pageTable m' = pageTable m \<and>
    pageTableSize m' = pageTableSize m \<and> mstatus m' = mstatus m \<and> machine.more m' = machine.more m \<and>
    reg LoadReg m' = of_nat n \<and> reg LoadValueReg m' = v \<and>
    (\<forall>i. 0 < i \<and> i < LoadReg \<longrightarrow> reg i m' = (if i = unat (reg LoadReg m) then reg LoadValueReg m else reg i m))"
proof -
  let ?k = "unat (reg LoadReg m)"
  have k: "?k < 32" and len: "length (registers m) = 40"
    using assms(1) by (auto simp: machine_ok_def reg_names)
  have s: "sint (reg LoadReg m) = int ?k"
    by (rule sint_eq_unat) (use k in simp)
  have n: "unat (of_nat n :: i32) = n"
    using assms(2) by (simp add: unat_of_nat take_bit_nat_eq_self)
  let ?m = "m\<lparr>registers := (((registers m)[?k := reg LoadValueReg m, LoadReg := of_nat n, LoadValueReg := v])[0 := 0])\<rparr>"
  have e: "DelayedLoad n v m = Inr ?m"
    using k len uint_less_length [of "reg LoadReg m" 40] by (simp add: DelayedLoad_def s arr_set_def)
  have "machine_ok ?m"
    using assms len n by (simp add: machine_ok_def reg_def reg_names split: option.splits)
  then show ?thesis
    using e k len by (auto simp: reg_def reg_names nth_list_update)
qed

lemma ReadMem_ok:
  assumes "machine_ok m" and "sz \<in> {1, 2, 4}"
  obtains (fault) e where "e \<in> translation_faults"
      and "ReadMem h va sz m = rbind (RaiseException h e va m) (\<lambda>m2. Inr (None, m2))"
  | (hit) v m' where "ReadMem h va sz m = Inr (Some v, m')" and "machine_ok m'"
      and "registers m' = registers m" and "mainMemory m' = mainMemory m" and "machine.more m' = machine.more m"
      and "same_space m m'"
proof (rule Translate_ok [OF assms, of va False])
  fix e
  assume "Translate va sz False m = Inr (Inl e, m)" "e \<in> translation_faults"
  then show ?thesis by (intro fault [of e]) (simp_all add: ReadMem_def)
next
  fix pa m' e
  assume a: "Translate va sz False m = Inr (Inr pa, m')" "machine_ok m'" "registers m' = registers m"
    "mainMemory m' = mainMemory m" "machine.more m' = machine.more m" "0 \<le> sint pa" "sint pa + sz \<le> int MemorySize"
    "same_space m m'"
  then have "length (mainMemory m') = MemorySize" by (simp add: machine_ok_def)
  then obtain v where "mem_load (mainMemory m') (sint pa) sz = Inr v"
    using mem_load_ok [OF assms(2) a(6)] a(7) by force
  with a show ?thesis by (intro hit [of v m']) (simp_all add: ReadMem_def)
qed

lemma WriteMem_ok:
  assumes "machine_ok m" and "sz \<in> {1, 2, 4}"
  obtains (fault) e where "e \<in> translation_faults"
      and "WriteMem h va sz v m = rbind (RaiseException h e va m) (\<lambda>m2. Inr (False, m2))"
  | (hit) m' e where "WriteMem h va sz v m = Inr (True, m')" and "machine_ok m'"
      and "registers m' = registers m" and "machine.more m' = machine.more m"
      and "page_entry m (va div 128) e" and "\<not> readOnly e" and "physicalPage e < 128"
      and "\<And>i. i div 128 \<noteq> unat (physicalPage e) \<Longrightarrow> mainMemory m' ! i = mainMemory m ! i"
      and "same_space m m'"
proof (rule Translate_ok [OF assms, of va True])
  fix e
  assume "Translate va sz True m = Inr (Inl e, m)" "e \<in> translation_faults"
  then show ?thesis by (intro fault [of e]) (simp_all add: WriteMem_def)
next
  fix pa m' e
  assume a: "Translate va sz True m = Inr (Inr pa, m')" "machine_ok m'" "registers m' = registers m"
    "mainMemory m' = mainMemory m" "machine.more m' = machine.more m" "page_entry m (va div 128) e"
    "\<not> (readOnly e \<and> True)" "physicalPage e < 128" "sint pa = uint (physicalPage e) * 128 + uint va mod 128"
    "0 \<le> sint pa" "sint pa + sz \<le> int MemorySize" "uint va mod 128 + sz \<le> 128"
    "same_space m m'"
  let ?k = "nat (sint pa)"
  let ?mem = "take ?k (mainMemory m) @ store_bytes sz v @ drop (?k + nat sz) (mainMemory m)"
  have len: "length (mainMemory m) = MemorySize" using assms(1) by (simp add: machine_ok_def)
  have st: "mem_store (mainMemory m') (sint pa) sz v = Inr ?mem"
    using mem_store_eq [OF assms(2) a(10)] a(4,11) len by simp
  have lsb: "length (store_bytes sz v) = nat sz"
    using assms(2) by (auto simp: store_bytes_def)
  have "0 < sz" using assms(2) by auto
  then have k: "?k + nat sz \<le> MemorySize" using a(10,11) by (simp add: nat_add_distrib [symmetric] nat_le_iff)
  have out: "?mem ! i = mainMemory m ! i" if "i div 128 \<noteq> unat (physicalPage e)" for i
  proof -
    have "i < ?k \<or> ?k + nat sz \<le> i"
    proof (rule ccontr)
      assume "\<not> (i < ?k \<or> ?k + nat sz \<le> i)"
      then have "sint pa \<le> int i" "int i < sint pa + sz" using a(10) \<open>0 < sz\<close> by auto
      then have "uint (physicalPage e) * 128 \<le> int i" "int i < uint (physicalPage e) * 128 + 128"
        using a(9,12) pos_mod_sign [of 128 "uint va"] by linarith+
      then have "int i div 128 = uint (physicalPage e)" by linarith
      then have "int (i div 128) = int (unat (physicalPage e))" by (simp add: zdiv_int)
      then show False using that by linarith
    qed
    then show ?thesis using lsb len k by (auto simp: nth_append)
  qed
  have ok: "machine_ok (m'\<lparr>mainMemory := ?mem\<rparr>)"
    using a(2) len k lsb by (simp add: machine_ok_def reg_def split: option.splits)
  show ?thesis
    by (rule hit [of "m'\<lparr>mainMemory := ?mem\<rparr>" e]) (use a st ok out in \<open>auto simp: WriteMem_def same_space_def\<close>)
qed
text \<open>A write to a mapped, writable, aligned address succeeds, and where the bytes go.\<close>

lemma Translate_hit:
  assumes "machine_ok m" and "tlb m = None" and "sz \<in> {1, 2, 4}"
    and "page_entry m (va div 128) e" and "\<not> (readOnly e \<and> w)" and "physicalPage e < 128"
    and "uint va mod sz = 0"
  shows "Translate va sz w m = Inr (Inr (physicalPage e * 128 + va mod 128),
      m\<lparr>pageTable := Some ((the (pageTable m))[unat (va div 128) := e\<lparr>use := True, dirty := w \<or> dirty e\<rparr>])\<rparr>)"
    and "page_entry (m\<lparr>pageTable := Some ((the (pageTable m))[unat (va div 128) := e\<lparr>use := True, dirty := w \<or> dirty e\<rparr>]),
        mainMemory := mem\<rparr>) (va div 128) (e\<lparr>use := True, dirty := w \<or> dirty e\<rparr>)"
    and "sint (physicalPage e * 128 + va mod 128) = uint (physicalPage e) * 128 + uint va mod 128"
    and "uint (physicalPage e) * 128 + uint va mod 128 + sz \<le> int MemorySize"
proof -
  obtain pt where pt: "pageTable m = Some pt" "unat (pageTableSize m) \<le> length pt"
    using assms(1,2) by (auto simp: machine_ok_def)
  have e: "e = pt ! unat (va div 128)" "valid e" "va div 128 < pageTableSize m"
    using assms(2,4) pt by (auto simp: page_entry_def)
  have al: "\<not> ((sz = 4 \<and> va AND 3 \<noteq> 0) \<or> (sz = 2 \<and> va AND 1 \<noteq> 0))"
    using assms(3,7) by (auto simp: and_3_mod_4 and_1_mod_2 word_uint_eq_iff uint_mod)
  show "Translate va sz w m = Inr (Inr (physicalPage e * 128 + va mod 128),
      m\<lparr>pageTable := Some ((the (pageTable m))[unat (va div 128) := e\<lparr>use := True, dirty := w \<or> dirty e\<rparr>])\<rparr>)"
    using Translate_page_table [OF assms(2) pt assms(3), of va w] al e assms(5,6) pt
    by (auto simp: Let_def)
  have "unat (va div 128) < length pt"
    using e(3) pt(2) by (simp add: word_less_nat_alt)
  then show "page_entry (m\<lparr>pageTable := Some ((the (pageTable m))[unat (va div 128) := e\<lparr>use := True, dirty := w \<or> dirty e\<rparr>]),
        mainMemory := mem\<rparr>) (va div 128) (e\<lparr>use := True, dirty := w \<or> dirty e\<rparr>)"
    using assms(2) e pt by (simp add: page_entry_def)
  have o: "va mod 128 < 128" by (simp add: word_mod_less_divisor)
  show "sint (physicalPage e * 128 + va mod 128) = uint (physicalPage e) * 128 + uint va mod 128"
    using frame_address [OF assms(6) o] by (simp add: uint_mod_word)
  have "uint (physicalPage e) \<le> 127" using assms(6) by (simp add: word_less_def)
  then show "uint (physicalPage e) * 128 + uint va mod 128 + sz \<le> int MemorySize"
    using aligned_offset(2) [OF assms(3) al] by (simp add: MemorySize_def uint_mod_word)
qed

section \<open>Properties of address translation and memory\<close>

text \<open>
  C12: On a machine in a legal state, translating an access of 1, 2 or 4 bytes never fails an
  assertion and never reads outside the page table or the TLB. It either reports one of the
  four translation exceptions and changes nothing, or yields a physical address inside the
  frame of a valid entry for the page, which is not read-only when the access is a write,
  with the whole access inside physical memory and registers and memory unchanged.
\<close>

theorem Translate_total_and_in_frame:
  assumes "machine_ok m" and "sz \<in> {1, 2, 4}"
  shows "(\<exists>x \<in> translation_faults. Translate va sz w m = Inr (Inl x, m)) \<or>
    (\<exists>pa m' e. Translate va sz w m = Inr (Inr pa, m') \<and> machine_ok m' \<and>
       registers m' = registers m \<and> mainMemory m' = mainMemory m \<and>
       page_entry m (va div 128) e \<and> \<not> (readOnly e \<and> w) \<and>
       sint pa = uint (physicalPage e) * 128 + uint va mod 128 \<and>
       0 \<le> sint pa \<and> sint pa + sz \<le> int MemorySize)"
  using assms by (rule Translate_ok [where va = va and w = w]) blast+

theorem Translate_total_and_in_frame_witness:
  "(\<exists>x \<in> translation_faults.
      Translate 132 4 True (Machine_new\<lparr>pageTable := Some []\<rparr>) =
        Inr (Inl x, Machine_new\<lparr>pageTable := Some []\<rparr>)) \<or>
    (\<exists>pa m' e. Translate 132 4 True (Machine_new\<lparr>pageTable := Some []\<rparr>) = Inr (Inr pa, m') \<and>
       machine_ok m' \<and> registers m' = registers (Machine_new\<lparr>pageTable := Some []\<rparr>) \<and>
       mainMemory m' = mainMemory (Machine_new\<lparr>pageTable := Some []\<rparr>) \<and>
       page_entry (Machine_new\<lparr>pageTable := Some []\<rparr>) (132 div 128) e \<and> \<not> (readOnly e \<and> True) \<and>
       sint pa = uint (physicalPage e) * 128 + uint (132 :: i32) mod 128 \<and>
       0 \<le> sint pa \<and> sint pa + 4 \<le> int MemorySize)"
  by (rule Translate_total_and_in_frame)
    (simp_all add: machine_ok_def Machine_new_def reg_def reg_names)

text \<open>
  C25: A value written by the simulated machine is the value it reads back. If the page of an
  aligned address is mapped by a valid, writable entry with an existing frame, \<open>WriteMem\<close> of
  1, 2 or 4 bytes succeeds without trapping, and \<open>ReadMem\<close> of the same address and size then
  returns the value, cut to the size and extended the way the simulator extends it (a byte with
  its sign, a half word with zeros).
\<close>

theorem WriteMem_ReadMem:
  assumes "machine_ok m" and "tlb m = None" and "sz \<in> {1, 2, 4}"
    and "page_entry m (va div 128) e" and "\<not> readOnly e" and "physicalPage e < 128"
    and "uint va mod sz = 0"
  shows "\<exists>m1 m2. WriteMem h va sz v m = Inr (True, m1) \<and> machine_ok m1 \<and>
    ReadMem h va sz m1 = Inr (Some (extend sz v), m2) \<and> mainMemory m2 = mainMemory m1 \<and>
    registers m2 = registers m"
proof -
  have ro: "\<not> (readOnly e \<and> True)" using assms(5) by simp
  note T = Translate_hit [OF assms(1-4) ro assms(6,7)]
  let ?pa = "physicalPage e * 128 + va mod 128"
  let ?k = "nat (sint ?pa)"
  let ?mem = "take ?k (mainMemory m) @ store_bytes sz v @ drop (?k + nat sz) (mainMemory m)"
  let ?m0 = "m\<lparr>pageTable := Some ((the (pageTable m))[unat (va div 128) := e\<lparr>use := True, dirty := True \<or> dirty e\<rparr>])\<rparr>"
  let ?m1 = "?m0\<lparr>mainMemory := ?mem\<rparr>"
  have len: "length (mainMemory m) = MemorySize" using assms(1) by (simp add: machine_ok_def)
  have pos: "0 \<le> sint ?pa" using T(3) by simp
  have fit: "sint ?pa + sz \<le> int (length (mainMemory m))" using T(3,4) len by linarith
  have W: "WriteMem h va sz v m = Inr (True, ?m1)"
    using T(1) mem_store_eq [OF assms(3) pos fit, of v] by (simp add: WriteMem_def)
  have ok1: "machine_ok ?m1"
    by (rule WriteMem_ok [OF assms(1,3), of h va v])
      (use W in \<open>auto simp: rbind_def split: sum.splits\<close>)
  have e1: "page_entry ?m1 (va div 128) (e\<lparr>use := True, dirty := True \<or> dirty e\<rparr>)"
    using T(2) by simp
  have "tlb ?m1 = None" using assms(2) by simp
  note R = Translate_hit [OF ok1 this assms(3) e1, of False, simplified, OF assms(6,7)]
  have "?k \<le> length (mainMemory m)" using pos fit assms(3) by auto
  then have ld: "mem_load ?mem (sint ?pa) sz = Inr (extend sz v)"
    by (intro mem_load_stored [OF assms(3) _ pos]) simp
  obtain m2 where "ReadMem h va sz ?m1 = Inr (Some (extend sz v), m2)" "mainMemory m2 = ?mem"
      "registers m2 = registers m"
    using R(1) ld by (simp add: ReadMem_def)
  then show ?thesis using W ok1 by (intro exI [of _ ?m1] exI [of _ m2]) simp
qed

definition one_page :: machine where
  "one_page = Machine_new\<lparr>pageTable := Some [\<lparr>virtualPage = 0, physicalPage = 5, valid = True,
     readOnly = False, use = False, dirty = False\<rparr>], pageTableSize := 1\<rparr>"

lemma one_page_ok: "machine_ok one_page" "tlb one_page = None"
  "page_entry one_page 0 \<lparr>virtualPage = 0, physicalPage = 5, valid = True,
     readOnly = False, use = False, dirty = False\<rparr>"
  by (simp_all add: machine_ok_def one_page_def Machine_new_def reg_def reg_names page_entry_def)

theorem WriteMem_ReadMem_witness:
  "\<exists>m1 m2. WriteMem (\<lambda>_. Inr) 64 4 0xdeadbeef one_page = Inr (True, m1) \<and> machine_ok m1 \<and>
    ReadMem (\<lambda>_. Inr) 64 4 m1 = Inr (Some (extend 4 0xdeadbeef), m2) \<and>
    mainMemory m2 = mainMemory m1 \<and> registers m2 = registers one_page"
  by (rule WriteMem_ReadMem [where e = "\<lparr>virtualPage = 0, physicalPage = 5, valid = True,
     readOnly = False, use = False, dirty = False\<rparr>"]) (simp_all add: one_page_ok)

text \<open>
  C13: Memory protection of the simulated machine. Whatever the handler does, a store that
  succeeds changes no byte outside the frame of a valid, writable entry for the page it
  addresses, and no register; a store that finds no such entry does not succeed.
\<close>

theorem WriteMem_isolation:
  assumes "machine_ok m" and "sz \<in> {1, 2, 4}" and "WriteMem h va sz v m = Inr (True, m')"
  shows "machine_ok m' \<and> registers m' = registers m \<and>
    (\<exists>e. page_entry m (va div 128) e \<and> \<not> readOnly e \<and> physicalPage e < 128 \<and>
      (\<forall>i. i div PageSize \<noteq> unat (physicalPage e) \<longrightarrow> mainMemory m' ! i = mainMemory m ! i))"
  by (rule WriteMem_ok [OF assms(1,2), of h va v])
    (use assms(3) in \<open>auto simp: rbind_def split: sum.splits\<close>)

theorem WriteMem_isolation_witness:
  "\<exists>m'. WriteMem (\<lambda>_. Inr) 64 4 7 one_page = Inr (True, m') \<and> machine_ok m' \<and>
    registers m' = registers one_page \<and>
    (\<exists>e. page_entry one_page (64 div 128) e \<and> \<not> readOnly e \<and> physicalPage e < 128 \<and>
      (\<forall>i. i div PageSize \<noteq> unat (physicalPage e) \<longrightarrow> mainMemory m' ! i = mainMemory one_page ! i))"
proof -
  let ?e = "\<lparr>virtualPage = 0, physicalPage = 5, valid = True, readOnly = False, use = False, dirty = False\<rparr>"
  have "page_entry one_page (64 div 128) ?e" using one_page_ok(3) by simp
  note T = Translate_hit [OF one_page_ok(1,2) _ this, of 4 True, simplified]
  have "length (mainMemory one_page) = MemorySize" using one_page_ok(1) by (simp add: machine_ok_def)
  then obtain m' where "WriteMem (\<lambda>_. Inr) 64 4 7 one_page = Inr (True, m')"
    using T(1) mem_store_eq [of 4 704 "mainMemory one_page" 7] 
    by (simp add: WriteMem_def MemorySize_def)
  then show ?thesis using WriteMem_isolation [OF one_page_ok(1), of 4 "\<lambda>_. Inr" 64 7 m'] by auto
qed

text \<open>
  Byte order. Converting a word or a half word from the simulated machine to the host and
  back gives the value again, on a little-endian and on a big-endian host, and on a big-endian
  host the conversion is the reversal of the bytes.
\<close>

theorem byte_order_roundtrip:
  "WordToMachine big (WordToHost big w) = w \<and> WordToHost big (WordToMachine big w) = w \<and>
   ShortToMachine big (ShortToHost big s) = s \<and> ShortToHost big (ShortToMachine big s) = s \<and>
   WordToHost True (le_word b0 b1 b2 b3) = le_word b3 b2 b1 b0 \<and>
   ShortToHost True (le_short b0 b1) = le_short b1 b0"
proof -
  have b: "(0xff :: i32) = mask 8" "(0xff00 :: i32) = push_bit 8 (mask 8)"
    "(0xff0000 :: i32) = push_bit 16 (mask 8)" "(0xff000000 :: i32) = push_bit 24 (mask 8)"
    "(0xff :: short) = mask 8" "(0xff00 :: short) = push_bit 8 (mask 8)"
    by (simp_all add: mask_eq_exp_minus_1)
  have w: "WordToHost True (le_word b0 b1 b2 b3) = le_word b3 b2 b1 b0" for b0 b1 b2 b3
    unfolding WordToHost_def b
    by (rule bit_word_eqI) (auto simp: bit_le_word bit_simps dest: bit_imp_le_length)
  have s: "ShortToHost True (le_short b0 b1) = le_short b1 b0" for b0 b1
    unfolding ShortToHost_def b
    by (rule bit_word_eqI) (auto simp: bit_le_short bit_simps dest: bit_imp_le_length)
  have "WordToHost big (WordToHost big w) = w"
    using w [of "byte_of 0 w" "byte_of 1 w" "byte_of 2 w" "byte_of 3 w"]
      w [of "byte_of 3 w" "byte_of 2 w" "byte_of 1 w" "byte_of 0 w"]
    by (cases big) (simp_all only: le_word_byte_of, simp_all add: WordToHost_def)
  moreover have "ShortToHost big (ShortToHost big s) = s"
    using s [of "byte_of 0 s" "byte_of 1 s"] s [of "byte_of 1 s" "byte_of 0 s"]
    by (cases big) (simp_all only: le_short_byte_of, simp_all add: ShortToHost_def)
  ultimately show ?thesis
    using w s by (simp add: WordToMachine_def ShortToMachine_def)
qed

end
