(* ===== verification/Machine_Mips.thy ===== *)
theory Machine_Mips
  imports Machine_Memory
begin

text \<open>
  \<open>machine/mipssim.h\<close> and \<open>machine/mipssim.cc\<close>: the decoder, the multiplier and the
  instruction interpreter of the simulated MIPS processor, built with \<open>SIM_FIX\<close>. The switch of
  \<open>Machine::OneInstruction\<close> is cut into one definition per group of consecutive cases; each
  passes the operation codes it does not know on to the next group, the last of which has the
  \<open>default\<close> case. Registers are 32 bit words: \<open>sint\<close> reads one as the C++ \<open>int\<close>, \<open>uint\<close> as the
  \<open>unsigned int\<close>.
\<close>

section \<open>Operation codes and tables\<close>

abbreviation (input) "OP_ADD \<equiv> 1 :: nat"
abbreviation (input) "OP_ADDI \<equiv> 2 :: nat"
abbreviation (input) "OP_ADDIU \<equiv> 3 :: nat"
abbreviation (input) "OP_ADDU \<equiv> 4 :: nat"
abbreviation (input) "OP_AND \<equiv> 5 :: nat"
abbreviation (input) "OP_ANDI \<equiv> 6 :: nat"
abbreviation (input) "OP_BEQ \<equiv> 7 :: nat"
abbreviation (input) "OP_BGEZ \<equiv> 8 :: nat"
abbreviation (input) "OP_BGEZAL \<equiv> 9 :: nat"
abbreviation (input) "OP_BGTZ \<equiv> 10 :: nat"
abbreviation (input) "OP_BLEZ \<equiv> 11 :: nat"
abbreviation (input) "OP_BLTZ \<equiv> 12 :: nat"
abbreviation (input) "OP_BLTZAL \<equiv> 13 :: nat"
abbreviation (input) "OP_BNE \<equiv> 14 :: nat"
abbreviation (input) "OP_DIV \<equiv> 16 :: nat"
abbreviation (input) "OP_DIVU \<equiv> 17 :: nat"
abbreviation (input) "OP_J \<equiv> 18 :: nat"
abbreviation (input) "OP_JAL \<equiv> 19 :: nat"
abbreviation (input) "OP_JALR \<equiv> 20 :: nat"
abbreviation (input) "OP_JR \<equiv> 21 :: nat"
abbreviation (input) "OP_LB \<equiv> 22 :: nat"
abbreviation (input) "OP_LBU \<equiv> 23 :: nat"
abbreviation (input) "OP_LH \<equiv> 24 :: nat"
abbreviation (input) "OP_LHU \<equiv> 25 :: nat"
abbreviation (input) "OP_LUI \<equiv> 26 :: nat"
abbreviation (input) "OP_LW \<equiv> 27 :: nat"
abbreviation (input) "OP_LWL \<equiv> 28 :: nat"
abbreviation (input) "OP_LWR \<equiv> 29 :: nat"
abbreviation (input) "OP_MFHI \<equiv> 31 :: nat"
abbreviation (input) "OP_MFLO \<equiv> 32 :: nat"
abbreviation (input) "OP_MTHI \<equiv> 34 :: nat"
abbreviation (input) "OP_MTLO \<equiv> 35 :: nat"
abbreviation (input) "OP_MULT \<equiv> 36 :: nat"
abbreviation (input) "OP_MULTU \<equiv> 37 :: nat"
abbreviation (input) "OP_NOR \<equiv> 38 :: nat"
abbreviation (input) "OP_OR \<equiv> 39 :: nat"
abbreviation (input) "OP_ORI \<equiv> 40 :: nat"
abbreviation (input) "OP_RFE \<equiv> 41 :: nat"
abbreviation (input) "OP_SB \<equiv> 42 :: nat"
abbreviation (input) "OP_SH \<equiv> 43 :: nat"
abbreviation (input) "OP_SLL \<equiv> 44 :: nat"
abbreviation (input) "OP_SLLV \<equiv> 45 :: nat"
abbreviation (input) "OP_SLT \<equiv> 46 :: nat"
abbreviation (input) "OP_SLTI \<equiv> 47 :: nat"
abbreviation (input) "OP_SLTIU \<equiv> 48 :: nat"
abbreviation (input) "OP_SLTU \<equiv> 49 :: nat"
abbreviation (input) "OP_SRA \<equiv> 50 :: nat"
abbreviation (input) "OP_SRAV \<equiv> 51 :: nat"
abbreviation (input) "OP_SRL \<equiv> 52 :: nat"
abbreviation (input) "OP_SRLV \<equiv> 53 :: nat"
abbreviation (input) "OP_SUB \<equiv> 54 :: nat"
abbreviation (input) "OP_SUBU \<equiv> 55 :: nat"
abbreviation (input) "OP_SW \<equiv> 56 :: nat"
abbreviation (input) "OP_SWL \<equiv> 57 :: nat"
abbreviation (input) "OP_SWR \<equiv> 58 :: nat"
abbreviation (input) "OP_XOR \<equiv> 59 :: nat"
abbreviation (input) "OP_XORI \<equiv> 60 :: nat"
abbreviation (input) "OP_SYSCALL \<equiv> 61 :: nat"
abbreviation (input) "OP_UNIMP \<equiv> 62 :: nat"
abbreviation (input) "OP_RES \<equiv> 63 :: nat"
abbreviation (input) "MaxOpcode \<equiv> 63 :: nat"
abbreviation (input) "SPECIAL \<equiv> 100 :: nat"
abbreviation (input) "BCOND \<equiv> 101 :: nat"

datatype fmt = IFMT | JFMT | RFMT

definition SIGN_BIT :: i32 where "SIGN_BIT = 0x80000000"

definition IndexToAddr :: "i32 \<Rightarrow> i32" where "IndexToAddr x = push_bit 2 x"

definition opTable :: "(nat \<times> fmt) list" where
  "opTable = [
    (SPECIAL, RFMT), (BCOND, IFMT), (OP_J, JFMT), (OP_JAL, JFMT),
    (OP_BEQ, IFMT), (OP_BNE, IFMT), (OP_BLEZ, IFMT), (OP_BGTZ, IFMT),
    (OP_ADDI, IFMT), (OP_ADDIU, IFMT), (OP_SLTI, IFMT), (OP_SLTIU, IFMT),
    (OP_ANDI, IFMT), (OP_ORI, IFMT), (OP_XORI, IFMT), (OP_LUI, IFMT),
    (OP_UNIMP, IFMT), (OP_UNIMP, IFMT), (OP_UNIMP, IFMT), (OP_UNIMP, IFMT),
    (OP_RES, IFMT), (OP_RES, IFMT), (OP_RES, IFMT), (OP_RES, IFMT),
    (OP_RES, IFMT), (OP_RES, IFMT), (OP_RES, IFMT), (OP_RES, IFMT),
    (OP_RES, IFMT), (OP_RES, IFMT), (OP_RES, IFMT), (OP_RES, IFMT),
    (OP_LB, IFMT), (OP_LH, IFMT), (OP_LWL, IFMT), (OP_LW, IFMT),
    (OP_LBU, IFMT), (OP_LHU, IFMT), (OP_LWR, IFMT), (OP_RES, IFMT),
    (OP_SB, IFMT), (OP_SH, IFMT), (OP_SWL, IFMT), (OP_SW, IFMT),
    (OP_RES, IFMT), (OP_RES, IFMT), (OP_SWR, IFMT), (OP_RES, IFMT),
    (OP_UNIMP, IFMT), (OP_UNIMP, IFMT), (OP_UNIMP, IFMT), (OP_UNIMP, IFMT),
    (OP_RES, IFMT), (OP_RES, IFMT), (OP_RES, IFMT), (OP_RES, IFMT),
    (OP_UNIMP, IFMT), (OP_UNIMP, IFMT), (OP_UNIMP, IFMT), (OP_UNIMP, IFMT),
    (OP_RES, IFMT), (OP_RES, IFMT), (OP_RES, IFMT), (OP_RES, IFMT)]"

definition specialTable :: "nat list" where
  "specialTable = [
    OP_SLL, OP_RES, OP_SRL, OP_SRA, OP_SLLV, OP_RES, OP_SRLV, OP_SRAV,
    OP_JR, OP_JALR, OP_RES, OP_RES, OP_SYSCALL, OP_UNIMP, OP_RES, OP_RES,
    OP_MFHI, OP_MTHI, OP_MFLO, OP_MTLO, OP_RES, OP_RES, OP_RES, OP_RES,
    OP_MULT, OP_MULTU, OP_DIV, OP_DIVU, OP_RES, OP_RES, OP_RES, OP_RES,
    OP_ADD, OP_ADDU, OP_SUB, OP_SUBU, OP_AND, OP_OR, OP_XOR, OP_NOR,
    OP_RES, OP_RES, OP_SLT, OP_SLTU, OP_RES, OP_RES, OP_RES, OP_RES,
    OP_RES, OP_RES, OP_RES, OP_RES, OP_RES, OP_RES, OP_RES, OP_RES,
    OP_RES, OP_RES, OP_RES, OP_RES, OP_RES, OP_RES, OP_RES, OP_RES]"

section \<open>Decoding\<close>

record Instruction =
  ivalue :: i32
  opCode :: nat
  rs :: nat
  rt :: nat
  rd :: nat
  extra :: i32

definition Decode :: "i32 \<Rightarrow> Instruction" where
  "Decode v =
     (let s = unat (drop_bit 21 v AND 0x1f); t = unat (drop_bit 16 v AND 0x1f);
          d = unat (drop_bit 11 v AND 0x1f);
          (code, format) = opTable ! unat (drop_bit 26 v AND 0x3f);
          x = (case format of
                 IFMT \<Rightarrow> (let e = v AND 0xffff in
                           if e AND 0x8000 \<noteq> 0 then e OR 0xffff0000 else e)
               | RFMT \<Rightarrow> drop_bit 6 v AND 0x1f
               | JFMT \<Rightarrow> v AND 0x3ffffff);
          code' = (if code = SPECIAL then specialTable ! unat (v AND 0x3f)
                   else if code = BCOND then
                     (let i = v AND 0x1f0000 in
                      if i = 0 then OP_BLTZ
                      else if i = 0x10000 then OP_BGEZ
                      else if i = 0x100000 then OP_BLTZAL
                      else if i = 0x110000 then OP_BGEZAL
                      else OP_UNIMP)
                   else code)
      in \<lparr>ivalue = v, opCode = code', rs = s, rt = t, rd = d, extra = x\<rparr>)"

datatype RegType = NONE | RS | RT | RD | EXTRA

definition TypeToReg :: "RegType \<Rightarrow> Instruction \<Rightarrow> int" where
  "TypeToReg r i =
     (case r of RS \<Rightarrow> int (rs i) | RT \<Rightarrow> int (rt i) | RD \<Rightarrow> int (rd i) | EXTRA \<Rightarrow> sint (extra i)
      | NONE \<Rightarrow> -1)"

section \<open>Multiplication\<close>

text \<open>The loop of \<open>Mult\<close>, with \<open>n\<close> iterations left; \<open>break\<close> ends it early.\<close>

fun Mult_loop :: "nat \<Rightarrow> i32 \<Rightarrow> i32 \<Rightarrow> i32 \<Rightarrow> i32 \<Rightarrow> i32 \<Rightarrow> i32 \<times> i32" where
  "Mult_loop 0 a bHi bLo hi lo = (hi, lo)"
| "Mult_loop (Suc n) a bHi bLo hi lo =
     (let lo' = lo + bLo;
          hi' = (if lo' < bLo then hi + 1 else hi) + bHi;
          bHi' = (if bLo AND 0x80000000 \<noteq> 0 then push_bit 1 bHi OR 1 else push_bit 1 bHi);
          bLo' = push_bit 1 bLo;
          a' = signed_drop_bit 1 a
      in if a AND 1 \<noteq> 0 then
           (if a AND 0xfffffffe = 0 then (hi', lo') else Mult_loop n a' bHi' bLo' hi' lo')
         else Mult_loop n a' bHi' bLo' hi lo)"

definition Mult :: "i32 \<Rightarrow> i32 \<Rightarrow> bool \<Rightarrow> i32 \<times> i32" where
  "Mult a b signedArith =
     (if a = 0 \<or> b = 0 then (0, 0)
      else
        let negA = (signedArith \<and> sint a < 0);
            negB = (signedArith \<and> sint b < 0);
            negative = (negA \<noteq> negB);
            a' = (if negA then - a else a);
            b' = (if negB then - b else b);
            (hi, lo) = Mult_loop 32 a' 0 b' 0 0
        in if negative then
             (let hi' = NOT hi; lo' = NOT lo + 1 in (if lo' = 0 then hi' + 1 else hi', lo'))
           else (hi, lo))"


section \<open>Executing one instruction\<close>

text \<open>
  What a case of the switch does: it leaves the switch, with the delayed load to record and the
  program counter to install, or it returns from \<open>OneInstruction\<close> after a trap.
\<close>

datatype 'm outcome = Done 'm nat i32 i32 | Trapped 'm

definition finish :: "i32 \<Rightarrow> 'm \<Rightarrow> 'm outcome result" where
  "finish pcAfter m = Inr (Done m 0 0 pcAfter)"

definition trap ::
  "'a handler \<Rightarrow> ExceptionType \<Rightarrow> i32 \<Rightarrow> 'a machine_scheme \<Rightarrow> 'a machine_scheme outcome result" where
  "trap h e badVAddr m = rbind (RaiseException h e badVAddr m) (\<lambda>m'. Inr (Trapped m'))"

definition load_then ::
  "'a handler \<Rightarrow> i32 \<Rightarrow> int \<Rightarrow> (i32 \<Rightarrow> 'a machine_scheme \<Rightarrow> 'a machine_scheme outcome result) \<Rightarrow>
   'a machine_scheme \<Rightarrow> 'a machine_scheme outcome result" where
  "load_then h addr sz k m =
     rbind (ReadMem h addr sz m) (\<lambda>(r, m'). case r of None \<Rightarrow> Inr (Trapped m') | Some v \<Rightarrow> k v m')"

definition store_done ::
  "'a handler \<Rightarrow> i32 \<Rightarrow> int \<Rightarrow> i32 \<Rightarrow> i32 \<Rightarrow> 'a machine_scheme \<Rightarrow> 'a machine_scheme outcome result" where
  "store_done h addr sz v pcAfter m =
     rbind (WriteMem h addr sz v m) (\<lambda>(ok, m'). if ok then finish pcAfter m' else Inr (Trapped m'))"

text \<open>\<open>OP_SYSCALL\<close> to the end of the switch.\<close>

definition exec_syscall_logic ::
  "'a handler \<Rightarrow> Instruction \<Rightarrow> i32 \<Rightarrow> 'a machine_scheme \<Rightarrow> 'a machine_scheme outcome result" where
  "exec_syscall_logic h i pcAfter m =
     (if opCode i = OP_SYSCALL then trap h SyscallException 0 m
      else if opCode i = OP_XOR then finish pcAfter (set_reg (rd i) (reg (rs i) m XOR reg (rt i) m) m)
      else if opCode i = OP_XORI then
        finish pcAfter (set_reg (rt i) (reg (rs i) m XOR (extra i AND 0xffff)) m)
      else if opCode i = OP_RES \<or> opCode i = OP_UNIMP then trap h IllegalInstrException 0 m
      else Inl Abort)"

text \<open>
  The byte merges of the unaligned loads and stores. The switch is on \<open>3 - byte\<close>, where \<open>byte\<close>
  is the offset of the address in its word.
\<close>

definition swl_merge :: "nat \<Rightarrow> i32 \<Rightarrow> i32 \<Rightarrow> i32" where
  "swl_merge byte r value =
     (if 3 - byte = 0 then r
      else if 3 - byte = 1 then (value AND 0xff000000) OR (signed_drop_bit 8 r AND 0xffffff)
      else if 3 - byte = 2 then (value AND 0xffff0000) OR (signed_drop_bit 16 r AND 0xffff)
      else (value AND 0xffffff00) OR (signed_drop_bit 24 r AND 0xff))"

definition swr_merge :: "nat \<Rightarrow> i32 \<Rightarrow> i32 \<Rightarrow> i32" where
  "swr_merge byte r value =
     (if 3 - byte = 0 then (value AND 0xffffff) OR push_bit 24 r
      else if 3 - byte = 1 then (value AND 0xffff) OR push_bit 16 r
      else if 3 - byte = 2 then (value AND 0xff) OR push_bit 8 r
      else r)"

definition lwl_merge :: "nat \<Rightarrow> i32 \<Rightarrow> i32 \<Rightarrow> i32" where
  "lwl_merge byte old value =
     (if 3 - byte = 0 then value
      else if 3 - byte = 1 then (old AND 0xff) OR push_bit 8 value
      else if 3 - byte = 2 then (old AND 0xffff) OR push_bit 16 value
      else (old AND 0xffffff) OR push_bit 24 value)"

definition lwr_merge :: "nat \<Rightarrow> i32 \<Rightarrow> i32 \<Rightarrow> i32" where
  "lwr_merge byte old value =
     (if 3 - byte = 0 then (old AND 0xffffff00) OR (signed_drop_bit 24 value AND 0xff)
      else if 3 - byte = 1 then (old AND 0xffff0000) OR (signed_drop_bit 16 value AND 0xffff)
      else if 3 - byte = 2 then (old AND 0xff000000) OR (signed_drop_bit 8 value AND 0xffffff)
      else value)"

definition exec_swl_swr ::
  "'a handler \<Rightarrow> Instruction \<Rightarrow> i32 \<Rightarrow> 'a machine_scheme \<Rightarrow> 'a machine_scheme outcome result" where
  "exec_swl_swr h i pcAfter m =
     (let tmp = reg (rs i) m + extra i; byte = tmp AND 3 in
      if opCode i = OP_SWL then
        load_then h (tmp - byte) 4 (\<lambda>value m'.
          store_done h (tmp - byte) 4 (swl_merge (unat byte) (reg (rt i) m') value) pcAfter m') m
      else if opCode i = OP_SWR then
        load_then h (tmp - byte) 4 (\<lambda>value m'.
          store_done h (tmp - byte) 4 (swr_merge (unat byte) (reg (rt i) m') value) pcAfter m') m
      else exec_syscall_logic h i pcAfter m)"

text \<open>\<open>OP_SB\<close> to \<open>OP_SW\<close>: stores, shifts, comparisons and subtraction.\<close>

definition exec_store_shift ::
  "'a handler \<Rightarrow> Instruction \<Rightarrow> i32 \<Rightarrow> 'a machine_scheme \<Rightarrow> 'a machine_scheme outcome result" where
  "exec_store_shift h i pcAfter m =
     (let s = reg (rs i) m; t = reg (rt i) m; d = rd i; x = extra i in
      if opCode i = OP_SB then store_done h (s + x) 1 t pcAfter m
      else if opCode i = OP_SH then store_done h (s + x) 2 t pcAfter m
      else if opCode i = OP_SLL then finish pcAfter (set_reg d (push_bit (unat x) t) m)
      else if opCode i = OP_SLLV then finish pcAfter (set_reg d (push_bit (unat (s AND 0x1f)) t) m)
      else if opCode i = OP_SLT then finish pcAfter (set_reg d (if sint s < sint t then 1 else 0) m)
      else if opCode i = OP_SLTI then
        finish pcAfter (set_reg (rt i) (if sint s < sint x then 1 else 0) m)
      else if opCode i = OP_SLTIU then finish pcAfter (set_reg (rt i) (if s < x then 1 else 0) m)
      else if opCode i = OP_SLTU then finish pcAfter (set_reg d (if s < t then 1 else 0) m)
      else if opCode i = OP_SRA then finish pcAfter (set_reg d (signed_drop_bit (unat x) t) m)
      else if opCode i = OP_SRAV then
        finish pcAfter (set_reg d (signed_drop_bit (unat (s AND 0x1f)) t) m)
      else if opCode i = OP_SRL then finish pcAfter (set_reg d (signed_drop_bit (unat x) t) m)
      else if opCode i = OP_SRLV then
        finish pcAfter (set_reg d (signed_drop_bit (unat (s AND 0x1f)) t) m)
      else if opCode i = OP_SUB then
        (let diff = s - t in
         if (s XOR t) AND SIGN_BIT \<noteq> 0 \<and> (s XOR diff) AND SIGN_BIT \<noteq> 0
         then trap h OverflowException 0 m else finish pcAfter (set_reg d diff m))
      else if opCode i = OP_SUBU then finish pcAfter (set_reg d (s - t) m)
      else if opCode i = OP_SW then store_done h (s + x) 4 t pcAfter m
      else exec_swl_swr h i pcAfter m)"

text \<open>\<open>OP_MFHI\<close> to \<open>OP_ORI\<close>: the HI and LO registers, multiplication, NOR and OR.\<close>

definition exec_hilo ::
  "'a handler \<Rightarrow> Instruction \<Rightarrow> i32 \<Rightarrow> 'a machine_scheme \<Rightarrow> 'a machine_scheme outcome result" where
  "exec_hilo h i pcAfter m =
     (let s = reg (rs i) m; t = reg (rt i) m; d = rd i in
      if opCode i = OP_MFHI then finish pcAfter (set_reg d (reg HiReg m) m)
      else if opCode i = OP_MFLO then finish pcAfter (set_reg d (reg LoReg m) m)
      else if opCode i = OP_MTHI then finish pcAfter (set_reg HiReg s m)
      else if opCode i = OP_MTLO then finish pcAfter (set_reg LoReg s m)
      else if opCode i = OP_MULT then
        (let (hi, lo) = Mult s t True in finish pcAfter (set_reg LoReg lo (set_reg HiReg hi m)))
      else if opCode i = OP_MULTU then
        (let (hi, lo) = Mult s t False in finish pcAfter (set_reg LoReg lo (set_reg HiReg hi m)))
      else if opCode i = OP_NOR then finish pcAfter (set_reg d (NOT (s OR t)) m)
      else if opCode i = OP_OR then finish pcAfter (set_reg d (s OR t) m)
      else if opCode i = OP_ORI then finish pcAfter (set_reg (rt i) (s OR (extra i AND 0xffff)) m)
      else exec_store_shift h i pcAfter m)"

text \<open>
  \<open>OP_LWL\<close> and \<open>OP_LWR\<close>: the merge is with the value a pending delayed load is about to put
  into the register, if there is one for it.
\<close>

definition pending :: "nat \<Rightarrow> 'a machine_scheme \<Rightarrow> i32" where
  "pending r m = (if reg LoadReg m = of_nat r then reg LoadValueReg m else reg r m)"

definition exec_lwl_lwr ::
  "'a handler \<Rightarrow> Instruction \<Rightarrow> i32 \<Rightarrow> 'a machine_scheme \<Rightarrow> 'a machine_scheme outcome result" where
  "exec_lwl_lwr h i pcAfter m =
     (let tmp = reg (rs i) m + extra i; byte = tmp AND 3 in
      if opCode i = OP_LWL then
        load_then h (tmp - byte) 4 (\<lambda>value m'.
          Inr (Done m' (rt i) (lwl_merge (unat byte) (pending (rt i) m') value) pcAfter)) m
      else if opCode i = OP_LWR then
        load_then h (tmp - byte) 4 (\<lambda>value m'.
          Inr (Done m' (rt i) (lwr_merge (unat byte) (pending (rt i) m') value) pcAfter)) m
      else exec_hilo h i pcAfter m)"

text \<open>\<open>OP_LB\<close> to \<open>OP_LW\<close>.\<close>

definition exec_load ::
  "'a handler \<Rightarrow> Instruction \<Rightarrow> i32 \<Rightarrow> 'a machine_scheme \<Rightarrow> 'a machine_scheme outcome result" where
  "exec_load h i pcAfter m =
     (let tmp = reg (rs i) m + extra i in
      if opCode i = OP_LB \<or> opCode i = OP_LBU then
        load_then h tmp 1 (\<lambda>value m'.
          Inr (Done m' (rt i) (if value AND 0x80 \<noteq> 0 \<and> opCode i = OP_LB then value OR 0xffffff00
                              else value AND 0xff) pcAfter)) m
      else if opCode i = OP_LH \<or> opCode i = OP_LHU then
        (if tmp AND 1 \<noteq> 0 then trap h AddressErrorException tmp m
         else load_then h tmp 2 (\<lambda>value m'.
          Inr (Done m' (rt i) (if value AND 0x8000 \<noteq> 0 \<and> opCode i = OP_LH then value OR 0xffff0000
                              else value AND 0xffff) pcAfter)) m)
      else if opCode i = OP_LUI then finish pcAfter (set_reg (rt i) (push_bit 16 (extra i)) m)
      else if opCode i = OP_LW then
        (if tmp AND 3 \<noteq> 0 then trap h AddressErrorException tmp m
         else load_then h tmp 4 (\<lambda>value m'. Inr (Done m' (rt i) value pcAfter)) m)
      else exec_lwl_lwr h i pcAfter m)"

text \<open>
  \<open>OP_DIV\<close> to \<open>OP_JR\<close>. The host divides with the processor's signed division, which traps on
  \<open>INT_MIN / -1\<close>. \<open>OP_JAL\<close> and \<open>OP_JALR\<close> fall through into the jumps.
\<close>

definition exec_div_jump ::
  "'a handler \<Rightarrow> Instruction \<Rightarrow> i32 \<Rightarrow> 'a machine_scheme \<Rightarrow> 'a machine_scheme outcome result" where
  "exec_div_jump h i pcAfter m =
     (let s = reg (rs i) m; t = reg (rt i) m; target = (pcAfter AND 0xf0000000) OR IndexToAddr (extra i) in
      if opCode i = OP_DIV then
        (if t = 0 then finish pcAfter (set_reg HiReg 0 (set_reg LoReg 0 m))
         else if s = SIGN_BIT \<and> t = - 1 then Inl ArithTrap
         else finish pcAfter (set_reg HiReg (word_of_int (sint s smod sint t))
                             (set_reg LoReg (word_of_int (sint s sdiv sint t)) m)))
      else if opCode i = OP_DIVU then
        (if t = 0 then finish pcAfter (set_reg HiReg 0 (set_reg LoReg 0 m))
         else finish pcAfter (set_reg HiReg (s mod t) (set_reg LoReg (s div t) m)))
      else if opCode i = OP_JAL then finish target (set_reg RetAddrReg (reg NextPCReg m + 4) m)
      else if opCode i = OP_J then finish target m
      else if opCode i = OP_JALR then
        (let m' = set_reg (rd i) (reg NextPCReg m + 4) m in finish (reg (rs i) m') m')
      else if opCode i = OP_JR then finish s m
      else exec_load h i pcAfter m)"

text \<open>\<open>OP_BEQ\<close> to \<open>OP_BNE\<close>. The linking branches fall through into the plain ones.\<close>

definition exec_branch ::
  "'a handler \<Rightarrow> Instruction \<Rightarrow> i32 \<Rightarrow> 'a machine_scheme \<Rightarrow> 'a machine_scheme outcome result" where
  "exec_branch h i pcAfter m =
     (let s = reg (rs i) m; t = reg (rt i) m;
          target = reg NextPCReg m + IndexToAddr (extra i);
          linked = set_reg RetAddrReg (reg NextPCReg m + 4) m
      in
      if opCode i = OP_BEQ then finish (if s = t then target else pcAfter) m
      else if opCode i = OP_BGEZAL then
        finish (if reg (rs i) linked AND SIGN_BIT = 0 then target else pcAfter) linked
      else if opCode i = OP_BGEZ then finish (if s AND SIGN_BIT = 0 then target else pcAfter) m
      else if opCode i = OP_BGTZ then finish (if sint s > 0 then target else pcAfter) m
      else if opCode i = OP_BLEZ then finish (if sint s \<le> 0 then target else pcAfter) m
      else if opCode i = OP_BLTZAL then
        finish (if reg (rs i) linked AND SIGN_BIT \<noteq> 0 then target else pcAfter) linked
      else if opCode i = OP_BLTZ then finish (if s AND SIGN_BIT \<noteq> 0 then target else pcAfter) m
      else if opCode i = OP_BNE then finish (if s \<noteq> t then target else pcAfter) m
      else exec_div_jump h i pcAfter m)"

text \<open>The first cases, \<open>OP_ADD\<close> to \<open>OP_ANDI\<close>.\<close>

definition exec ::
  "'a handler \<Rightarrow> Instruction \<Rightarrow> i32 \<Rightarrow> 'a machine_scheme \<Rightarrow> 'a machine_scheme outcome result" where
  "exec h i pcAfter m =
     (let s = reg (rs i) m; t = reg (rt i) m; x = extra i in
      if opCode i = OP_ADD then
        (let sum = s + t in
         if (s XOR t) AND SIGN_BIT = 0 \<and> (s XOR sum) AND SIGN_BIT \<noteq> 0
         then trap h OverflowException 0 m else finish pcAfter (set_reg (rd i) sum m))
      else if opCode i = OP_ADDI then
        (let sum = s + x in
         if (s XOR x) AND SIGN_BIT = 0 \<and> (x XOR sum) AND SIGN_BIT \<noteq> 0
         then trap h OverflowException 0 m else finish pcAfter (set_reg (rt i) sum m))
      else if opCode i = OP_ADDIU then finish pcAfter (set_reg (rt i) (s + x) m)
      else if opCode i = OP_ADDU then finish pcAfter (set_reg (rd i) (s + t) m)
      else if opCode i = OP_AND then finish pcAfter (set_reg (rd i) (s AND t) m)
      else if opCode i = OP_ANDI then finish pcAfter (set_reg (rt i) (s AND (x AND 0xffff)) m)
      else exec_branch h i pcAfter m)"

text \<open>
  \<open>Machine::OneInstruction\<close>: fetch, decode, execute, apply the delayed load and advance the
  program counters. The listing of instructions under the debug flag \<open>m\<close> is not modelled.
\<close>

definition advance ::
  "nat \<Rightarrow> i32 \<Rightarrow> i32 \<Rightarrow> 'a machine_scheme \<Rightarrow> 'a machine_scheme result" where
  "advance nextLoadReg nextLoadValue pcAfter m =
     rbind (DelayedLoad nextLoadReg nextLoadValue m) (\<lambda>m3.
       Inr (set_reg NextPCReg pcAfter (set_reg PCReg (reg NextPCReg m3)
         (set_reg PrevPCReg (reg PCReg m3) m3))))"

definition OneInstruction :: "'a handler \<Rightarrow> 'a machine_scheme \<Rightarrow> 'a machine_scheme result" where
  "OneInstruction h m =
     rbind (ReadMem h (reg PCReg m) 4 m) (\<lambda>(r, m1).
       case r of
         None \<Rightarrow> Inr m1
       | Some raw \<Rightarrow>
           rbind (exec h (Decode raw) (reg NextPCReg m1 + 4) m1) (\<lambda>out.
             case out of
               Trapped m2 \<Rightarrow> Inr m2
             | Done m2 nextLoadReg nextLoadValue pcAfter \<Rightarrow>
                 advance nextLoadReg nextLoadValue pcAfter m2))"

section \<open>Decoding is total\<close>

lemma unat_and_mask:
  "unat ((w::i32) AND 0x1f) < 32" "unat (w AND 0x3f) < 64"
proof -
  have "w AND 0x1f = take_bit 5 w" "w AND 0x3f = take_bit 6 w"
    by (simp_all add: take_bit_eq_mask mask_eq_exp_minus_1)
  moreover have "unat (take_bit 5 w) < 2 ^ 5" "unat (take_bit 6 w) < 2 ^ 6"
    by (simp_all only: unsigned_take_bit_eq take_bit_nat_less_exp)
  ultimately show "unat (w AND 0x1f) < 32" "unat (w AND 0x3f) < 64" by simp_all
qed

definition executable_ops :: "nat list" where
  "executable_ops =
    [1, 2, 3, 4, 5, 6, 7, 8, 9, 10, 11, 12, 13, 14, 16, 17, 18, 19, 20, 21,
     22, 23, 24, 25, 26, 27, 28, 29, 31, 32, 34, 35, 36, 37, 38, 39, 40, 42, 43, 44,
     45, 46, 47, 48, 49, 50, 51, 52, 53, 54, 55, 56, 57, 58, 59, 60, 61, 62, 63]"

lemma tables:
  "list_all (\<lambda>(c, f). c \<in> set executable_ops \<or> c = SPECIAL \<or> c = BCOND) opTable"
  "list_all (\<lambda>c. c \<in> set executable_ops) specialTable"
  "length opTable = 64" "length specialTable = 64"
  by code_simp+

lemma Decode_fields:
  "rs (Decode v) < 32" "rt (Decode v) < 32" "rd (Decode v) < 32"
  "ivalue (Decode v) = v" 
  by (simp_all add: Decode_def Let_def unat_and_mask split: prod.splits)

lemma Decode_opCode: "opCode (Decode v) \<in> set executable_ops"
proof -
  let ?i = "unat (drop_bit 26 v AND 0x3f)"
  obtain c f where cf: "opTable ! ?i = (c, f)" by fastforce
  have "c \<in> set executable_ops \<or> c = SPECIAL \<or> c = BCOND"
    using tables(1,3) cf unat_and_mask(2) [of "drop_bit 26 v"] by (auto simp: list_all_length)
  moreover have "specialTable ! unat (v AND 0x3f) \<in> set executable_ops"
    using tables(2,4) unat_and_mask(2) [of v] by (auto simp: list_all_length)
  moreover have "\<not> SPECIAL \<in> set executable_ops" "\<not> BCOND \<in> set executable_ops"
    "OP_BLTZ \<in> set executable_ops" "OP_BGEZ \<in> set executable_ops" "OP_BLTZAL \<in> set executable_ops"
    "OP_BGEZAL \<in> set executable_ops" "OP_UNIMP \<in> set executable_ops"
    by (simp_all add: executable_ops_def)
  ultimately show ?thesis using cf by (auto simp: Decode_def Let_def)
qed

section \<open>The multiplier\<close>

text \<open>The 64 bit value of a pair of words.\<close>

definition dword :: "i32 \<Rightarrow> i32 \<Rightarrow> 64 word" where
  "dword hi lo = word_of_int (uint hi * 2 ^ 32 + uint lo)"

lemma dword_cong: "x mod 2 ^ 64 = y mod 2 ^ 64 \<Longrightarrow> (word_of_int x :: 64 word) = word_of_int y"
  by (simp add: word_of_int_eq_iff take_bit_eq_mod)

lemma uint_add: "uint (x + y :: i32) = (if uint x + uint y < 2 ^ 32 then uint x + uint y else uint x + uint y - 2 ^ 32)"
  using uint_plus_if_size [of x y] by (simp add: word_size)

lemma carry_iff: "(x + y :: i32) < y \<longleftrightarrow> 2 ^ 32 \<le> uint x + uint y"
  using uint_add [of x y] uint_lt2p [of x] uint_lt2p [of y] by (auto simp: word_less_def)

lemma dword_hi: "dword (a + b) lo = word_of_int ((uint a + uint b) * 2 ^ 32 + uint lo)"
  unfolding dword_def uint_add by (rule dword_cong) (simp add: algebra_simps flip: mod_diff_eq)

lemma dword_add:
  "dword ((if lo + bLo < bLo then hi + 1 else hi) + bHi) (lo + bLo) = dword hi lo + dword bHi bLo"
proof -
  let ?c = "if 2 ^ 32 \<le> uint lo + uint bLo then 1 else 0 :: int"
  have h: "uint (if lo + bLo < bLo then hi + 1 else hi) mod 2 ^ 32 = (uint hi + ?c) mod 2 ^ 32"
    unfolding carry_iff by (simp add: uint_word_ariths)
  have "uint (lo + bLo) = uint lo + uint bLo - ?c * 2 ^ 32"
    using uint_add [of lo bLo] by auto
  then have "dword ((if lo + bLo < bLo then hi + 1 else hi) + bHi) (lo + bLo) =
     word_of_int ((uint (if lo + bLo < bLo then hi + 1 else hi) + uint bHi) * 2 ^ 32 + (uint lo + uint bLo - ?c * 2 ^ 32))"
    by (simp only: dword_hi)
  also have "\<dots> = word_of_int ((uint hi + ?c + uint bHi) * 2 ^ 32 + (uint lo + uint bLo - ?c * 2 ^ 32))"
  proof (rule dword_cong)
    have "(uint (if lo + bLo < bLo then hi + 1 else hi) * 2 ^ 32) mod (2 ^ 32 * 2 ^ 32) =
          ((uint hi + ?c) * 2 ^ 32) mod (2 ^ 32 * 2 ^ 32)"
      using h by (simp only: mod_mult_mult2)
    then have e: "(uint (if lo + bLo < bLo then hi + 1 else hi) * 2 ^ 32) mod 2 ^ 64 =
          ((uint hi + ?c) * 2 ^ 32) mod 2 ^ 64" by simp
    show "((uint (if lo + bLo < bLo then hi + 1 else hi) + uint bHi) * 2 ^ 32 + (uint lo + uint bLo - ?c * 2 ^ 32)) mod 2 ^ 64
        = ((uint hi + ?c + uint bHi) * 2 ^ 32 + (uint lo + uint bLo - ?c * 2 ^ 32)) mod 2 ^ 64"
      using mod_add_cong [OF e refl, of "uint bHi * 2 ^ 32 + (uint lo + uint bLo - ?c * 2 ^ 32)"]
      by (simp only: distrib_right add.assoc)
  qed
  also have "\<dots> = dword hi lo + dword bHi bLo"
    by (simp add: dword_def algebra_simps)
  finally show ?thesis .
qed

lemma sign_bit_iff: "(w::i32) AND 0x80000000 \<noteq> 0 \<longleftrightarrow> bit w 31"
  using bit_iff_and_push_bit_not_eq_0 [of w 31] by simp

lemma bit31_iff: "bit (w::i32) 31 \<longleftrightarrow> 2 ^ 31 \<le> uint w"
proof -
  have "bit w 31 \<longleftrightarrow> bit (uint w) 31" by (simp add: bit_uint_iff)
  also have "\<dots> \<longleftrightarrow> odd (uint w div 2 ^ 31)" by (rule bit_iff_odd)
  finally have "bit w 31 \<longleftrightarrow> odd (uint w div 2 ^ 31)" .
  moreover have "uint w div 2147483648 = (if 2147483648 \<le> uint w then 1 else 0)"
    using uint_lt2p [of w] by (simp; linarith)
  ultimately show ?thesis by (simp split: if_splits)
qed

lemma push_bit_1_word: "push_bit 1 (w :: i32) = w + w" "push_bit 1 w OR 1 = w + 1 + w"
proof -
  show "push_bit 1 w = w + w" by (simp add: push_bit_eq_mult)
  have "push_bit 1 w OR 1 = push_bit 1 w + 1"
    by (rule disjunctive_add_eq_or [symmetric]) (auto intro!: bit_word_eqI simp: bit_simps bit_0)
  then show "push_bit 1 w OR 1 = w + 1 + w" by (simp add: push_bit_eq_mult)
qed

lemma dword_double:
  "dword (if bLo AND 0x80000000 \<noteq> 0 then push_bit 1 bHi OR 1 else push_bit 1 bHi) (push_bit 1 bLo)
   = 2 * dword bHi bLo"
proof -
  have "bLo AND 0x80000000 \<noteq> 0 \<longleftrightarrow> bLo + bLo < bLo"
    unfolding sign_bit_iff bit31_iff carry_iff by auto
  then have "(if bLo AND 0x80000000 \<noteq> 0 then push_bit 1 bHi OR 1 else push_bit 1 bHi)
    = (if bLo + bLo < bLo then bHi + 1 else bHi) + bHi"
    using push_bit_1_word [of bHi] by presburger
  then have "dword (if bLo AND 0x80000000 \<noteq> 0 then push_bit 1 bHi OR 1 else push_bit 1 bHi) (push_bit 1 bLo)
    = dword ((if bLo + bLo < bLo then bHi + 1 else bHi) + bHi) (bLo + bLo)"
    by (simp only: push_bit_1_word)
  then show ?thesis by (simp only: dword_add mult_2)
qed

lemma take_bit_sar:
  assumes "n < 32"
  shows "take_bit (Suc n) (uint a) = 2 * take_bit n (uint (signed_drop_bit 1 (a::i32))) + uint a mod 2"
proof -
  have "take_bit n (uint (signed_drop_bit 1 a)) = take_bit n (uint a div 2)"
  proof (rule bit_eqI)
    fix k
    have "bit (uint a div 2) k = bit (uint a) (Suc k)" by (simp add: bit_Suc)
    moreover have "bit (signed_drop_bit 1 a) k = bit a (Suc k)" if "k < n"
      using assms that by (auto simp: bit_signed_drop_bit_iff intro: arg_cong [of _ _ "bit a"])
    ultimately show "bit (take_bit n (uint (signed_drop_bit 1 a))) k = bit (take_bit n (uint a div 2)) k"
      using assms by (auto simp: bit_take_bit_iff bit_uint_iff)
  qed
  then show ?thesis by (simp add: take_bit_Suc)
qed

lemma and_1_uint: "(a::i32) AND 1 \<noteq> 0 \<longleftrightarrow> uint a mod 2 = 1"
  by (simp add: and_one_eq word_uint_eq_iff uint_mod odd_iff_mod_2_eq_one)

lemma high_bits_zero: "(a::i32) AND 0xfffffffe = 0 \<Longrightarrow> a AND 1 \<noteq> 0 \<Longrightarrow> a = 1"
proof -
  assume "a AND 0xfffffffe = 0" and o: "a AND 1 \<noteq> 0"
  moreover have "(0xfffffffe :: i32) = NOT 1" by simp
  ultimately have z: "a AND NOT 1 = 0" by simp
  have "\<not> bit a k" if "k \<noteq> 0" for k
    using arg_cong [OF z, of "\<lambda>w. bit w k"] that by (auto simp: bit_simps dest: bit_imp_le_length)
  moreover have "bit a 0" using o by (auto simp: and_one_eq bit_0 odd_iff_mod_2_eq_one)
  ultimately show "a = 1" by (intro bit_word_eqI) (auto simp: bit_simps)
qed

lemma Mult_loop_dword:
  "n \<le> 32 \<Longrightarrow> (case Mult_loop n a bHi bLo hi lo of (h, l) \<Rightarrow> dword h l) =
     dword hi lo + dword bHi bLo * word_of_int (take_bit n (uint a))"
proof (induction n arbitrary: a bHi bLo hi lo)
  case 0
  then show ?case by simp
next
  case (Suc n)
  have t: "take_bit (Suc n) (uint a) = 2 * take_bit n (uint (signed_drop_bit 1 a)) + uint a mod 2"
    by (rule take_bit_sar) (use Suc.prems in simp)
  note IH = Suc.IH [of "signed_drop_bit 1 a"
      "if bLo AND 0x80000000 \<noteq> 0 then push_bit 1 bHi OR 1 else push_bit 1 bHi" "push_bit 1 bLo"]
  let ?lo = "lo + bLo" and ?hi = "(if lo + bLo < bLo then hi + 1 else hi) + bHi"
  show ?case
  proof (cases "a AND 1 = 0")
    case True
    then have "uint a mod 2 = 0" using and_1_uint [of a] by presburger
    then show ?thesis
      using True IH [of hi lo] Suc.prems unfolding t dword_double Mult_loop.simps Let_def
      by (simp add: algebra_simps)
  next
    case odd: False
    then have m: "uint a mod 2 = 1" using and_1_uint [of a] by simp
    show ?thesis
    proof (cases "a AND 0xfffffffe = 0")
      case True
      then have "a = 1" using high_bits_zero odd by blast
      then show ?thesis unfolding Mult_loop.simps Let_def using odd True dword_add by simp
    next
      case False
      then show ?thesis
        using odd IH [of ?hi ?lo] Suc.prems m unfolding t dword_double Mult_loop.simps Let_def dword_add
        by (simp add: algebra_simps)
    qed
  qed
qed

lemma dword_neg:
  "dword (if NOT lo + 1 = 0 then NOT hi + 1 else NOT hi) (NOT lo + 1) = - dword hi lo"
proof -
  have n: "NOT x = - 1 - x" for x :: i32 by (simp add: not_eq_complement)
  have "uint (NOT x) = 2 ^ 32 - 1 - uint x" for x :: i32
    by (simp add: unsigned_not_eq take_bit_not_eq_mask_diff take_bit_int_eq_self [of _ 32, simplified] mask_eq_exp_minus_1
        uint_lt2p [of x, simplified])
  have c: "NOT lo + 1 < (1 :: i32) \<longleftrightarrow> NOT lo + 1 = 0" by (simp add: word_less_1)
  have "dword (if NOT lo + 1 = 0 then NOT hi + 1 else NOT hi) (NOT lo + 1) =
      dword (NOT hi) (NOT lo) + dword 0 1"
    using dword_add [of "NOT lo" 1 "NOT hi" 0] unfolding c by simp
  also have "\<dots> = word_of_int ((2 ^ 32 - 1 - uint hi) * 2 ^ 32 + (2 ^ 32 - 1 - uint lo)) + 1"
    unfolding dword_def \<open>uint (NOT hi) = _\<close> \<open>uint (NOT lo) = _\<close> by simp
  also have "\<dots> = word_of_int (2 ^ 64 - (uint hi * 2 ^ 32 + uint lo))"
    by (simp add: algebra_simps)
  also have "\<dots> = - dword hi lo"
    unfolding dword_def by simp
  finally show ?thesis .
qed


lemma sint_cases: "sint (a::i32) = (if 2 ^ 31 \<le> uint a then uint a - 2 ^ 32 else uint a)"
proof -
  have "sint a = (uint a + 2 ^ 31) mod 2 ^ 32 - 2 ^ 31"
    by (simp add: sint_uint signed_take_bit_eq_take_bit_shift take_bit_eq_mod)
  moreover have "(uint a + 2 ^ 31) mod 2 ^ 32 = uint a + 2 ^ 31 - (if 2 ^ 31 \<le> uint a then 2 ^ 32 else 0)"
  proof (cases "2 ^ 31 \<le> uint a")
    case True
    have "(uint a + 2 ^ 31) mod 2 ^ 32 = (uint a - 2 ^ 31) mod 2 ^ 32"
      using mod_add_self2 [of "uint a - 2 ^ 31" "2 ^ 32"] by (simp add: add.commute)
    then show ?thesis using True uint_lt2p [of a] by (simp add: mod_pos_pos_trivial)
  next
    case False
    then show ?thesis by (simp add: mod_pos_pos_trivial)
  qed
  ultimately show ?thesis by simp
qed

lemma uint_neg: "(a::i32) \<noteq> 0 \<Longrightarrow> uint (- a) = 2 ^ 32 - uint a"
  using uint_lt2p [of a] by (simp add: uint_word_ariths zmod_zminus1_eq_if word_uint_eq_iff)

lemma uint_abs: "uint (if sint a < 0 then - a else a) = \<bar>sint (a::i32)\<bar>"
  using sint_cases [of a] uint_lt2p [of a] uint_neg [of a] by (cases "a = 0") auto

lemma Mult_dword:
  "(case Mult a b s of (h, l) \<Rightarrow> dword h l) =
     word_of_int (if s then sint a * sint b else uint a * uint b)"
proof (cases "a = 0 \<or> b = 0")
  case True
  then show ?thesis by (auto simp: Mult_def dword_def)
next
  case False
  define x where "x = (if s \<and> sint a < 0 then - a else a)"
  define y where "y = (if s \<and> sint b < 0 then - b else b)"
  obtain hi lo where L: "Mult_loop 32 x 0 y 0 0 = (hi, lo)" by fastforce
  have "take_bit 32 (uint x) = uint x" using take_bit_int_eq_self [of "uint x" 32] uint_lt2p [of x] by simp
  then have hl: "dword hi lo = word_of_int (uint y * uint x)"
    using Mult_loop_dword [of 32 x 0 y 0 0] L by (simp add: dword_def)
  have xy: "uint x = (if s then \<bar>sint a\<bar> else uint a)" "uint y = (if s then \<bar>sint b\<bar> else uint b)"
    unfolding x_def y_def using uint_abs [of a] uint_abs [of b] by auto
  have M: "Mult a b s = (if (s \<and> sint a < 0) \<noteq> (s \<and> sint b < 0)
      then (if NOT lo + 1 = 0 then NOT hi + 1 else NOT hi, NOT lo + 1) else (hi, lo))"
    using False L unfolding Mult_def x_def y_def Let_def by simp
  show ?thesis
  proof (cases "(s \<and> sint a < 0) \<noteq> (s \<and> sint b < 0)")
    case True
    then have "(case Mult a b s of (h, l) \<Rightarrow> dword h l) = - word_of_int (uint y * uint x)"
      using M dword_neg [of lo hi] hl by simp
    also have "\<dots> = word_of_int (- (uint y * uint x))" by simp
    also have "- (uint y * uint x) = (if s then sint a * sint b else uint a * uint b)"
      using True unfolding xy by (auto simp: abs_if)
    finally show ?thesis .
  next
    case False
    then have "(case Mult a b s of (h, l) \<Rightarrow> dword h l) = word_of_int (uint y * uint x)"
      using M hl by simp
    also have "uint y * uint x = (if s then sint a * sint b else uint a * uint b)"
      using False unfolding xy by (auto simp: abs_if)
    finally show ?thesis .
  qed
qed

lemma sint_bounds: "- (2 ^ 31) \<le> sint (a::i32)" "sint a < 2 ^ 31"
  using uint_lt2p [of a] order_trans [OF _ uint_ge_0 [of a], of "- 2147483648"]
  by (simp_all add: sint_cases)

lemma word64_eq_unsigned:
  "(word_of_int x :: 64 word) = word_of_int y \<Longrightarrow> 0 \<le> x \<Longrightarrow> x < 2 ^ 64 \<Longrightarrow> 0 \<le> y \<Longrightarrow> y < 2 ^ 64 \<Longrightarrow> x = y"
  by (simp add: word_of_int_eq_iff take_bit_eq_mod)

lemma word64_eq_signed:
  assumes "(word_of_int x :: 64 word) = word_of_int y"
    and "- (2 ^ 63) \<le> x" "x < 2 ^ 63" "- (2 ^ 63) \<le> y" "y < 2 ^ 63"
  shows "x = y"
  using arg_cong [OF assms(1), of sint] assms(2-)
  by (simp add: sint_sbintrunc' signed_take_bit_int_eq_self)

lemma Mult_signed:
  assumes "Mult a b True = (hi, lo)"
  shows "sint hi * 2 ^ 32 + uint lo = sint a * sint b"
proof (rule word64_eq_signed)
  have "(uint hi * 2 ^ 32 + uint lo) mod 2 ^ 64 = (sint hi * 2 ^ 32 + uint lo) mod 2 ^ 64"
  proof (cases "2 ^ 31 \<le> uint hi")
    case True
    then have "uint hi * 2 ^ 32 + uint lo = sint hi * 2 ^ 32 + uint lo + 2 ^ 64"
      using sint_cases [of hi] by simp
    then show ?thesis by (simp only: mod_add_self2)
  qed (simp add: sint_cases [of hi])
  then show "word_of_int (sint hi * 2 ^ 32 + uint lo) = (word_of_int (sint a * sint b) :: 64 word)"
    using Mult_dword [of a b True] assms dword_cong unfolding dword_def by (metis case_prod_conv)
  have "\<bar>sint a * sint b\<bar> \<le> 2 ^ 31 * 2 ^ 31"
    unfolding abs_mult using sint_bounds [of a] sint_bounds [of b] by (intro mult_mono) auto
  then show "- (2 ^ 63) \<le> sint a * sint b" "sint a * sint b < 2 ^ 63" by auto
  show "- (2 ^ 63) \<le> sint hi * 2 ^ 32 + uint lo" "sint hi * 2 ^ 32 + uint lo < 2 ^ 63"
    using sint_bounds [of hi] uint_lt2p [of lo] uint_ge_0 [of lo] by (simp_all; linarith)+
qed

lemma Mult_unsigned:
  assumes "Mult a b False = (hi, lo)"
  shows "uint hi * 2 ^ 32 + uint lo = uint a * uint b"
proof (rule word64_eq_unsigned)
  show "word_of_int (uint hi * 2 ^ 32 + uint lo) = (word_of_int (uint a * uint b) :: 64 word)"
    using Mult_dword [of a b False] assms unfolding dword_def by (metis case_prod_conv)
  have "uint a * uint b \<le> (2 ^ 32 - 1) * (2 ^ 32 - 1)"
    using uint_lt2p [of a] uint_lt2p [of b] by (intro mult_mono) auto
  then show "uint a * uint b < 2 ^ 64" by simp
  show "uint hi * 2 ^ 32 + uint lo < 2 ^ 64"
    using uint_lt2p [of lo] uint_lt2p [of hi] by (simp; linarith)
qed simp_all

text \<open>
  C26: The multiplier. \<open>Mult\<close>, which adds shifted copies of one operand and stops early, leaves
  in HI and LO the exact 64 bit product of its operands, taken as signed or as unsigned
  numbers, for every pair of operands.
\<close>

theorem Mult_exact:
  "(case Mult a b True of (hi, lo) \<Rightarrow> sint hi * 2 ^ 32 + uint lo = sint a * sint b) \<and>
   (case Mult a b False of (hi, lo) \<Rightarrow> uint hi * 2 ^ 32 + uint lo = uint a * uint b)"
  using Mult_signed Mult_unsigned by (simp split: prod.splits)

section \<open>Precise exceptions\<close>

lemma machine_ok_set_reg_small [simp]: "machine_ok m \<Longrightarrow> i < 32 \<Longrightarrow> machine_ok (set_reg i v m)"
  by (rule machine_ok_set_reg) (auto simp: reg_names)

lemma special_regs_not_LoadReg [simp]:
  "HiReg \<noteq> LoadReg" "LoReg \<noteq> LoadReg" "RetAddrReg \<noteq> LoadReg" "PCReg \<noteq> LoadReg"
  "NextPCReg \<noteq> LoadReg" "PrevPCReg \<noteq> LoadReg" "BadVAddrReg \<noteq> LoadReg"
  "PCReg \<noteq> 0" "NextPCReg \<noteq> 0" "PrevPCReg \<noteq> 0" "BadVAddrReg \<noteq> 0"
  by (simp_all add: reg_names)

text \<open>What every case of the switch keeps of the state until the program counters advance.\<close>

definition keeps :: "'a machine_scheme \<Rightarrow> 'a machine_scheme \<Rightarrow> bool" where
  "keeps m m' \<longleftrightarrow> machine_ok m' \<and> machine.more m' = machine.more m \<and>
     reg PCReg m' = reg PCReg m \<and> reg NextPCReg m' = reg NextPCReg m \<and> same_space m m'"

lemma keeps_refl [simp]: "keeps m m \<longleftrightarrow> machine_ok m"
  by (simp add: keeps_def same_space_def)

lemma keeps_set_reg [simp]:
  "keeps m m' \<Longrightarrow> i < 32 \<Longrightarrow> keeps m (set_reg i v m')"
  "keeps m m' \<Longrightarrow> keeps m (set_reg HiReg v m')"
  "keeps m m' \<Longrightarrow> keeps m (set_reg LoReg v m')"
  "keeps m m' \<Longrightarrow> keeps m (set_reg RetAddrReg v m')"
  by (auto simp: keeps_def reg_names same_space_def)

text \<open>
  The state \<open>m0\<close> a trap hands to the kernel, starting from the state \<open>m\<close>: memory, program
  counters and kernel fields are those of \<open>m\<close>, the pending load has been applied, and the
  machine is in system mode.
\<close>

definition trap_state :: "'a machine_scheme \<Rightarrow> 'a machine_scheme \<Rightarrow> bool" where
  "trap_state m m0 \<longleftrightarrow>
     mainMemory m0 = mainMemory m \<and> reg PCReg m0 = reg PCReg m \<and> reg NextPCReg m0 = reg NextPCReg m \<and>
     reg LoadReg m0 = 0 \<and> reg 0 m0 = 0 \<and> mstatus m0 = SystemMode \<and> machine.more m0 = machine.more m \<and>
     machine_ok m0 \<and> same_space m m0 \<and>
     (\<forall>i. 0 < i \<and> i < 32 \<longrightarrow> reg i m0 = pending i m)"

definition precise ::
  "'a machine_scheme \<Rightarrow> ('a handler \<Rightarrow> 'a machine_scheme outcome result) \<Rightarrow> bool" where
  "precise m F \<longleftrightarrow>
     (\<forall>h. F h = Inl ArithTrap) \<or>
     (\<exists>m' n v pc. (\<forall>h. F h = Inr (Done m' n v pc)) \<and> keeps m m' \<and> n < 32) \<or>
     (\<exists>e m0. trap_state m m0 \<and>
       (\<forall>h. F h = rbind (h e m0) (\<lambda>m2. Inr (Trapped (m2\<lparr>mstatus := UserMode\<rparr>)))))"

lemma RaiseException_precise:
  assumes "machine_ok m"
  shows "\<exists>m0. trap_state m m0 \<and>
    (\<forall>h. RaiseException h e va m = rbind (h e m0) (\<lambda>m2. Inr (m2\<lparr>mstatus := UserMode\<rparr>)))"
proof -
  let ?m = "set_reg BadVAddrReg va m"
  have m: "machine_ok ?m" using assms by simp
  obtain m1 where m1: "DelayedLoad 0 0 ?m = Inr m1" "machine_ok m1" "reg 0 m1 = 0"
    "mainMemory m1 = mainMemory ?m" "machine.more m1 = machine.more ?m" "reg LoadReg m1 = 0"
    "\<forall>i. 0 < i \<and> i < LoadReg \<longrightarrow> reg i m1 = (if i = unat (reg LoadReg ?m) then reg LoadValueReg ?m else reg i ?m)"
    "same_space m m1"
    using DelayedLoad_ok [OF m, of 0 0] by (auto simp: same_space_def)
  have L: "reg LoadReg ?m = reg LoadReg m" "reg LoadValueReg ?m = reg LoadValueReg m"
    by (simp_all add: reg_names)
  have k: "unat (reg LoadReg m) < 32" using assms by (simp add: machine_ok_def)
  have "i = unat (reg LoadReg m) \<longleftrightarrow> reg LoadReg m = of_nat i" if "i < 32" for i
    using that k by (auto simp: unat_of_nat take_bit_nat_eq_self)
  then have "trap_state m (m1\<lparr>mstatus := SystemMode\<rparr>)"
    using m1(2-6,8) spec [OF m1(7), of PCReg] spec [OF m1(7), of NextPCReg] k m1(7)
    unfolding trap_state_def L pending_def by (simp add: reg_names reg_def set_reg_def same_space_def)
  then show ?thesis
    using m1(1) by (intro exI [of _ "m1\<lparr>mstatus := SystemMode\<rparr>"]) (simp add: RaiseException_def)
qed

lemma precise_if [simp]:
  "precise m (\<lambda>h. if c then F h else G h) \<longleftrightarrow> (if c then precise m F else precise m G)"
  by simp

lemma precise_finish [simp]: "keeps m m' \<Longrightarrow> precise m (\<lambda>h. finish pc m')"
  by (auto simp: precise_def finish_def)

lemma precise_Done [simp]: "keeps m m' \<Longrightarrow> n < 32 \<Longrightarrow> precise m (\<lambda>h. Inr (Done m' n v pc))"
  by (auto simp: precise_def)

lemma precise_ArithTrap [simp]: "precise m (\<lambda>h. Inl ArithTrap)"
  by (auto simp: precise_def)

lemma precise_trap [simp]:
  assumes "machine_ok m"
  shows "precise m (\<lambda>h. trap h e va m)"
  using RaiseException_precise [OF assms, of e va]
  by (force simp: precise_def trap_def rbind_assoc)

text \<open>The view a failed access leaves: all but the use and dirty bits.\<close>

definition same_but_pages :: "'a machine_scheme \<Rightarrow> 'a machine_scheme \<Rightarrow> bool" where
  "same_but_pages m m' \<longleftrightarrow> registers m' = registers m \<and> mainMemory m' = mainMemory m \<and>
     machine.more m' = machine.more m \<and> machine_ok m' \<and> same_space m m'"

lemma precise_same:
  assumes "precise m' F" and "same_but_pages m m'"
  shows "precise m F"
proof -
  have "trap_state m' m0 \<longleftrightarrow> trap_state m m0" for m0
    using assms(2) by (auto simp: same_but_pages_def trap_state_def reg_def pending_def same_space_def)
  moreover have "keeps m' m0 \<longleftrightarrow> keeps m m0" for m0
    using assms(2) by (auto simp: same_but_pages_def keeps_def reg_def same_space_def)
  ultimately show ?thesis using assms(1) by (simp add: precise_def)
qed

lemma precise_load_then [intro]:
  assumes "machine_ok m" and "sz \<in> {1, 2, 4}"
    and "\<And>v m'. same_but_pages m m' \<Longrightarrow> precise m' (\<lambda>h. k h v m')"
  shows "precise m (\<lambda>h. load_then h va sz (k h) m)"
proof (rule Translate_ok [OF assms(1,2), of va False])
  fix e
  assume t: "Translate va sz False m = Inr (Inl e, m)"
  have "load_then h va sz (k h) m = trap h e va m" for h
    by (simp add: load_then_def ReadMem_def t trap_def rbind_assoc)
  then show ?thesis using precise_trap [OF assms(1)] by simp
next
  fix pa m' e
  assume a: "Translate va sz False m = Inr (Inr pa, m')" "machine_ok m'" "registers m' = registers m"
    "mainMemory m' = mainMemory m" "machine.more m' = machine.more m" "0 \<le> sint pa" "sint pa + sz \<le> int MemorySize"
    "same_space m m'"
  then have "length (mainMemory m') = MemorySize" by (simp add: machine_ok_def)
  then obtain v where v: "mem_load (mainMemory m') (sint pa) sz = Inr v"
    using mem_load_ok [OF assms(2) a(6)] a(7) by force
  have same: "same_but_pages m m'" using a by (simp add: same_but_pages_def)
  have "load_then h va sz (k h) m = k h v m'" for h
    using v by (simp add: load_then_def ReadMem_def a)
  then show ?thesis using precise_same [OF assms(3) [OF same] same] by simp
qed

lemma precise_store_done [intro]:
  assumes "machine_ok m" and "sz \<in> {1, 2, 4}"
  shows "precise m (\<lambda>h. store_done h va sz v pc m)"
proof (rule Translate_ok [OF assms, of va True])
  fix e
  assume t: "Translate va sz True m = Inr (Inl e, m)"
  have "store_done h va sz v pc m = trap h e va m" for h
    by (simp add: store_done_def WriteMem_def t trap_def rbind_assoc)
  then show ?thesis using precise_trap [OF assms(1)] by simp
next
  fix pa m' e
  assume a: "Translate va sz True m = Inr (Inr pa, m')" "mainMemory m' = mainMemory m" "0 \<le> sint pa"
    "sint pa + sz \<le> int MemorySize" "registers m' = registers m" "machine.more m' = machine.more m" "same_space m m'"
  have len: "length (mainMemory m') = MemorySize" using assms(1) a(2) by (simp add: machine_ok_def)
  then obtain mem where mem: "mem_store (mainMemory m') (sint pa) sz v = Inr mem"
    using mem_store_eq [OF assms(2) a(3)] a(4) by force
  have W: "WriteMem h va sz v m = Inr (True, m'\<lparr>mainMemory := mem\<rparr>)" for h
    using mem by (simp add: WriteMem_def a)
  have "machine_ok (m'\<lparr>mainMemory := mem\<rparr>)"
    by (rule WriteMem_ok [OF assms, of undefined va v]) (use W in \<open>auto simp: rbind_def split: sum.splits\<close>)
  then have "keeps m (m'\<lparr>mainMemory := mem\<rparr>)" using a by (simp add: keeps_def reg_def same_space_def)
  then show ?thesis by (simp add: store_done_def W)
qed

lemma same_but_pages_ok [simp]: "same_but_pages m m' \<Longrightarrow> machine_ok m'"
  by (simp add: same_but_pages_def)

lemma ops_left:
  assumes "opCode i \<in> set executable_ops"
    and "opCode i \<notin> {1, 2, 3, 4, 5, 6}" "opCode i \<notin> {7, 8, 9, 10, 11, 12, 13, 14}"
    "opCode i \<notin> {16, 17, 18, 19, 20, 21}" "opCode i \<notin> {22, 23, 24, 25, 26, 27}"
    "opCode i \<notin> {28, 29}" "opCode i \<notin> {31, 32, 34, 35, 36, 37, 38, 39, 40}"
    "opCode i \<notin> {42, 43, 44, 45, 46, 47, 48, 49, 50, 51, 52, 53, 54, 55, 56}" "opCode i \<notin> {57, 58}"
  shows "opCode i > 58"
  using assms by (auto simp: executable_ops_def)

lemma exec_syscall_logic_precise:
  assumes "machine_ok m" and "rt i < 32" and "rd i < 32"
    and "opCode i \<in> set executable_ops" and "opCode i > 58"
  shows "precise m (\<lambda>h. exec_syscall_logic h i pc m)"
proof -
  have "opCode i = OP_XOR \<or> opCode i = OP_XORI \<or> opCode i = OP_SYSCALL \<or> opCode i = OP_UNIMP \<or> opCode i = OP_RES"
    using assms(4,5) by (auto simp: executable_ops_def)
  then show ?thesis using assms(1-3) by (auto simp: exec_syscall_logic_def)
qed

lemma exec_swl_swr_precise:
  assumes "machine_ok m"
    and "opCode i \<notin> {OP_SWL, OP_SWR} \<Longrightarrow> precise m (\<lambda>h. exec_syscall_logic h i pc m)"
  shows "precise m (\<lambda>h. exec_swl_swr h i pc m)"
  using assms unfolding exec_swl_swr_def Let_def
  by (simp add: precise_load_then precise_store_done)

lemma exec_store_shift_precise:
  assumes "machine_ok m" and "rt i < 32" and "rd i < 32"
    and "opCode i \<notin> {42, 43, 44, 45, 46, 47, 48, 49, 50, 51, 52, 53, 54, 55, 56} \<Longrightarrow>
      precise m (\<lambda>h. exec_swl_swr h i pc m)"
  shows "precise m (\<lambda>h. exec_store_shift h i pc m)"
  using assms unfolding exec_store_shift_def Let_def
  by (simp add: precise_store_done)

lemma exec_hilo_precise:
  assumes "machine_ok m" and "rt i < 32" and "rd i < 32"
    and "opCode i \<notin> {31, 32, 34, 35, 36, 37, 38, 39, 40} \<Longrightarrow> precise m (\<lambda>h. exec_store_shift h i pc m)"
  shows "precise m (\<lambda>h. exec_hilo h i pc m)"
  using assms unfolding exec_hilo_def Let_def
  by (simp add: case_prod_unfold)

lemma exec_lwl_lwr_precise:
  assumes "machine_ok m" and "rt i < 32"
    and "opCode i \<notin> {OP_LWL, OP_LWR} \<Longrightarrow> precise m (\<lambda>h. exec_hilo h i pc m)"
  shows "precise m (\<lambda>h. exec_lwl_lwr h i pc m)"
  using assms unfolding exec_lwl_lwr_def Let_def by (simp add: precise_load_then)

lemma exec_load_precise:
  assumes "machine_ok m" and "rt i < 32"
    and "opCode i \<notin> {22, 23, 24, 25, 26, 27} \<Longrightarrow> precise m (\<lambda>h. exec_lwl_lwr h i pc m)"
  shows "precise m (\<lambda>h. exec_load h i pc m)"
  using assms unfolding exec_load_def Let_def by (simp add: precise_load_then)

lemma exec_div_jump_precise:
  assumes "machine_ok m" and "rd i < 32"
    and "opCode i \<notin> {16, 17, 18, 19, 20, 21} \<Longrightarrow> precise m (\<lambda>h. exec_load h i pc m)"
  shows "precise m (\<lambda>h. exec_div_jump h i pc m)"
  using assms unfolding exec_div_jump_def Let_def by simp

lemma exec_branch_precise:
  assumes "machine_ok m"
    and "opCode i \<notin> {7, 8, 9, 10, 11, 12, 13, 14} \<Longrightarrow> precise m (\<lambda>h. exec_div_jump h i pc m)"
  shows "precise m (\<lambda>h. exec_branch h i pc m)"
  using assms unfolding exec_branch_def Let_def by simp

lemma exec_first_precise:
  assumes "machine_ok m" and "rt i < 32" and "rd i < 32"
    and "opCode i \<notin> {1, 2, 3, 4, 5, 6} \<Longrightarrow> precise m (\<lambda>h. exec_branch h i pc m)"
  shows "precise m (\<lambda>h. exec h i pc m)"
  using assms unfolding exec_def Let_def by simp

lemma exec_precise:
  assumes "machine_ok m" and "rt i < 32" and "rd i < 32" and "opCode i \<in> set executable_ops"
  shows "precise m (\<lambda>h. exec h i pc m)"
  using assms by (intro exec_first_precise exec_branch_precise exec_div_jump_precise exec_load_precise
        exec_lwl_lwr_precise exec_hilo_precise exec_store_shift_precise exec_swl_swr_precise
        exec_syscall_logic_precise ops_left) blast+

lemma OneInstruction_cases:
  assumes "machine_ok m"
  obtains (arith) "\<And>h. OneInstruction h m = Inl ArithTrap"
  | (complete) m' where "\<And>h. OneInstruction h m = Inr m'" and "machine_ok m'" and "reg 0 m' = 0"
      and "machine.more m' = machine.more m" and "reg PrevPCReg m' = reg PCReg m"
      and "reg PCReg m' = reg NextPCReg m" and "same_space m m'"
  | (trapped) e m0 where "trap_state m m0"
      and "\<And>h. OneInstruction h m = rbind (h e m0) (\<lambda>m2. Inr (m2\<lparr>mstatus := UserMode\<rparr>))"
proof -
  let ?tail = "\<lambda>out. case out of Trapped m2 \<Rightarrow> Inr m2
     | Done m2 nextLoadReg nextLoadValue pcAfter \<Rightarrow> advance nextLoadReg nextLoadValue pcAfter m2"
  let ?F = "\<lambda>h. load_then h (reg PCReg m) 4 (\<lambda>raw m1. exec h (Decode raw) (reg NextPCReg m1 + 4) m1) m"
  have F: "OneInstruction h m = rbind (?F h) ?tail" for h
    by (auto simp: OneInstruction_def load_then_def rbind_assoc intro!: rbind_cong split: prod.splits option.splits)
  have "precise m ?F"
    using assms by (intro precise_load_then exec_precise Decode_fields Decode_opCode) auto
  then consider (1) "\<forall>h. ?F h = Inl ArithTrap"
    | (2) m2 n v pc where "\<forall>h. ?F h = Inr (Done m2 n v pc)" "keeps m m2" "n < 32"
    | (3) e m0 where "trap_state m m0"
        "\<forall>h. ?F h = rbind (h e m0) (\<lambda>m2. Inr (Trapped (m2\<lparr>mstatus := UserMode\<rparr>)))"
    unfolding precise_def by blast
  then show ?thesis
  proof cases
    case 1
    then show ?thesis using F arith by simp
  next
    case 2
    have ok: "machine_ok m2" using 2(2) by (simp add: keeps_def)
    obtain m3 where m3: "DelayedLoad n v m2 = Inr m3" "machine_ok m3" "reg 0 m3 = 0"
      "machine.more m3 = machine.more m2"
      "\<forall>i. 0 < i \<and> i < LoadReg \<longrightarrow> reg i m3 = (if i = unat (reg LoadReg m2) then reg LoadValueReg m2 else reg i m2)"
      "same_space m2 m3"
      using DelayedLoad_ok [OF ok 2(3), of v] by (auto simp: same_space_def)
    have pcs: "reg PCReg m3 = reg PCReg m" "reg NextPCReg m3 = reg NextPCReg m"
      using spec [OF m3(5), of PCReg] spec [OF m3(5), of NextPCReg] 2(2) ok
      by (auto simp: keeps_def machine_ok_def reg_names)
    have len: "length (registers m3) = 40" using m3(2) by (simp add: machine_ok_def reg_names)
    show ?thesis
      by (rule complete [of "set_reg NextPCReg pc (set_reg PCReg (reg NextPCReg m3) (set_reg PrevPCReg (reg PCReg m3) m3))"])
        (use F 2 m3 pcs len in \<open>simp_all add: keeps_def advance_def reg_names same_space_def\<close>)
  next
    case 3
    then show ?thesis using F trapped by (simp add: rbind_assoc)
  qed
qed

section \<open>The contract of the exception handler\<close>

text \<open>
  What the simulator relies on when it traps: the kernel's handler, called on a machine in a
  legal state with register 0 zero, stops with one of the faults \<open>F\<close> or returns such a state
  with a translation of the same kind and size; \<open>inv\<close> is the invariant of the kernel's own
  fields. Then one instruction keeps the same contract: no assertion of the simulator fails and
  nothing is accessed outside its arrays.
\<close>

locale trap_handler =
  fixes h :: "'a handler" and F :: "fault set" and inv :: "'a \<Rightarrow> bool"
  assumes handler_safe: "machine_ok m \<Longrightarrow> reg 0 m = 0 \<Longrightarrow> inv (machine.more m) \<Longrightarrow>
      safe F (\<lambda>m'. machine_ok m' \<and> reg 0 m' = 0 \<and> same_space m m' \<and> inv (machine.more m')) (h e m)"
begin

lemma OneInstruction_safe:
  assumes "machine_ok m" and i: "inv (machine.more m)"
  shows "safe (insert ArithTrap F) (\<lambda>m'. machine_ok m' \<and> reg 0 m' = 0 \<and> same_space m m' \<and> inv (machine.more m')) (OneInstruction h m)"
proof (rule OneInstruction_cases [OF assms(1)])
  fix e m0
  assume t: "trap_state m m0" "\<And>h. OneInstruction h m = rbind (h e m0) (\<lambda>m2. Inr (m2\<lparr>mstatus := UserMode\<rparr>))"
  then have "safe F (\<lambda>m'. machine_ok m' \<and> reg 0 m' = 0 \<and> same_space m0 m' \<and> inv (machine.more m')) (h e m0)"
    using i by (intro handler_safe) (simp_all add: trap_state_def)
  then show ?thesis
    using t by (auto simp: safe_def rbind_def trap_state_def same_space_def reg_def split: sum.splits)
qed (simp_all add: i)

end

section \<open>Properties of the processor\<close>

text \<open>
  C7: Precise exceptions. On a machine in a legal state, one instruction does exactly one of
  three things, and which one does not depend on the kernel: it divides \<open>INT_MIN\<close> by -1; or it
  completes, with register 0 zero, the previous program counter recorded and the next
  instruction at the old \<open>NextPC\<close>; or it calls the exception handler once, on a state with
  memory, program counters and kernel fields unchanged, the pending load applied to the general
  registers and the machine in system mode, so that the instruction can be started again, and
  returns what the handler returns, in user mode. In particular no assertion of the simulator
  fails and nothing is read or written outside its arrays.
\<close>

theorem OneInstruction_precise:
  assumes "machine_ok m"
  shows "(\<forall>h. OneInstruction h m = Inl ArithTrap) \<or>
    (\<exists>m'. (\<forall>h. OneInstruction h m = Inr m') \<and> machine_ok m' \<and> reg 0 m' = 0 \<and>
       machine.more m' = machine.more m \<and> reg PrevPCReg m' = reg PCReg m \<and>
       reg PCReg m' = reg NextPCReg m) \<or>
    (\<exists>e m0. trap_state m m0 \<and>
       (\<forall>h. OneInstruction h m = rbind (h e m0) (\<lambda>m2. Inr (m2\<lparr>mstatus := UserMode\<rparr>))))"
  using assms by (rule OneInstruction_cases) blast+

theorem OneInstruction_precise_witness:
  "(\<forall>h. OneInstruction h one_page = Inl ArithTrap) \<or>
    (\<exists>m'. (\<forall>h. OneInstruction h one_page = Inr m') \<and> machine_ok m' \<and> reg 0 m' = 0 \<and>
       machine.more m' = machine.more one_page \<and> reg PrevPCReg m' = reg PCReg one_page \<and>
       reg PCReg m' = reg NextPCReg one_page) \<or>
    (\<exists>e m0. trap_state one_page m0 \<and>
       (\<forall>h. OneInstruction h one_page = rbind (h e m0) (\<lambda>m2. Inr (m2\<lparr>mstatus := UserMode\<rparr>))))"
  by (rule OneInstruction_precise [OF one_page_ok(1)])

lemma SIGN_BIT_iff: "(w::i32) AND SIGN_BIT = 0 \<longleftrightarrow> 0 \<le> sint w"
proof -
  have "w AND SIGN_BIT = 0 \<longleftrightarrow> uint w < 2 ^ 31"
    using sign_bit_iff [of w] bit31_iff [of w] by (auto simp: SIGN_BIT_def)
  then show ?thesis using sint_cases [of w] uint_lt2p [of w] by auto
qed

lemma SIGN_BIT_xor: "((v::i32) XOR w) AND SIGN_BIT = 0 \<longleftrightarrow> (0 \<le> sint v \<longleftrightarrow> 0 \<le> sint w)"
proof -
  have "(v XOR w) AND SIGN_BIT = 0 \<longleftrightarrow> (bit v 31 \<longleftrightarrow> bit w 31)"
    using sign_bit_iff [of "v XOR w"] by (auto simp: SIGN_BIT_def bit_xor_iff)
  moreover have "bit u 31 \<longleftrightarrow> \<not> 0 \<le> sint u" for u :: i32
    using SIGN_BIT_iff [of u] sign_bit_iff [of u] by (auto simp: SIGN_BIT_def)
  ultimately show ?thesis by auto
qed

definition fits :: "int \<Rightarrow> bool" where
  "fits k \<longleftrightarrow> - (2 ^ 31) \<le> k \<and> k < 2 ^ 31"

lemma sint_add_cases:
  "sint (v + w :: i32) = (if fits (sint v + sint w) then sint v + sint w
     else if sint v + sint w < 0 then sint v + sint w + 2 ^ 32 else sint v + sint w - 2 ^ 32)"
  using uint_add [of v w] sint_cases [of v] sint_cases [of w] sint_cases [of "v + w"]
    uint_lt2p [of v] uint_lt2p [of w]
  by (auto simp: fits_def split: if_splits) (use uint_ge_0 [of v] uint_ge_0 [of w] in linarith)

lemma overflow_add:
  "(v XOR w) AND SIGN_BIT = 0 \<and> (v XOR (v + w)) AND SIGN_BIT \<noteq> 0 \<longleftrightarrow> \<not> fits (sint v + sint (w::i32))"
  using sint_bounds [of v] sint_bounds [of w]
  unfolding SIGN_BIT_xor sint_add_cases by (auto simp: fits_def)

lemma sint_neg_cases: "sint (- w :: i32) = (if sint w = - (2 ^ 31) then sint w else - sint w)"
proof (cases "w = 0")
  case False
  then have "uint w > 0" by (metis uint_0_iff uint_ge_0 order_less_le)
  then show ?thesis
    using uint_neg [OF False] sint_cases [of w] sint_cases [of "- w"] uint_lt2p [of w]
    by (auto split: if_splits)
qed simp

lemma overflow_sub:
  "(v XOR w) AND SIGN_BIT \<noteq> 0 \<and> (v XOR (v - w)) AND SIGN_BIT \<noteq> 0 \<longleftrightarrow> \<not> fits (sint v - sint (w::i32))"
proof -
  have "sint (v - w) = (if fits (sint v - sint w) then sint v - sint w
     else if sint v - sint w < 0 then sint v - sint w + 2 ^ 32 else sint v - sint w - 2 ^ 32)"
    using sint_add_cases [of v "- w"] sint_neg_cases [of w] sint_bounds [of v] sint_bounds [of w]
    by (auto simp: fits_def split: if_splits)
  then show ?thesis
    using sint_bounds [of v] sint_bounds [of w] unfolding SIGN_BIT_xor by (auto simp: fits_def)
qed

lemma word_sum_sint: "v + w = (word_of_int (sint v + sint w) :: i32)" "v - w = (word_of_int (sint v - sint w) :: i32)"
  by simp_all

text \<open>
  C27: Signed overflow. \<open>ADD\<close>, \<open>ADDI\<close> and \<open>SUB\<close> raise the overflow exception exactly when
  the sum or difference of their operands, as integers, does not fit in 32 bits; otherwise the
  target register receives it. The unsigned variants never raise it.
\<close>

theorem add_sub_overflow:
  "exec h (i\<lparr>opCode := OP_ADD\<rparr>) pc m =
     (let r = sint (reg (rs i) m) + sint (reg (rt i) m) in
      if fits r then finish pc (set_reg (rd i) (word_of_int r) m) else trap h OverflowException 0 m) \<and>
   exec h (i\<lparr>opCode := OP_ADDI\<rparr>) pc m =
     (let r = sint (reg (rs i) m) + sint (extra i) in
      if fits r then finish pc (set_reg (rt i) (word_of_int r) m) else trap h OverflowException 0 m) \<and>
   exec h (i\<lparr>opCode := OP_SUB\<rparr>) pc m =
     (let r = sint (reg (rs i) m) - sint (reg (rt i) m) in
      if fits r then finish pc (set_reg (rd i) (word_of_int r) m) else trap h OverflowException 0 m) \<and>
   exec h (i\<lparr>opCode := OP_ADDU\<rparr>) pc m =
     finish pc (set_reg (rd i) (word_of_int (sint (reg (rs i) m) + sint (reg (rt i) m))) m) \<and>
   exec h (i\<lparr>opCode := OP_SUBU\<rparr>) pc m =
     finish pc (set_reg (rd i) (word_of_int (sint (reg (rs i) m) - sint (reg (rt i) m))) m)"
proof -
  have "(v XOR w) AND SIGN_BIT = 0 \<and> (w XOR (v + w)) AND SIGN_BIT \<noteq> 0 \<longleftrightarrow> \<not> fits (sint v + sint w)" for v w :: i32
    using overflow_add [of w v] by (simp add: xor.commute add.commute)
  then show ?thesis
    using overflow_add overflow_sub
    by (simp add: exec_def exec_branch_def exec_div_jump_def exec_load_def exec_lwl_lwr_def exec_hilo_def
        exec_store_shift_def Let_def)
qed

lemmas exec_groups = exec_def exec_branch_def exec_div_jump_def exec_load_def exec_lwl_lwr_def
  exec_hilo_def exec_store_shift_def exec_swl_swr_def exec_syscall_logic_def

lemma bit_masks:
  "bit (0xff :: int) n \<longleftrightarrow> n < 8" "bit (0xffff :: int) n \<longleftrightarrow> n < 16" "bit (0xffffff :: int) n \<longleftrightarrow> n < 24"
  "bit (0xff000000 :: int) n \<longleftrightarrow> 24 \<le> n \<and> n < 32" "bit (0xffff0000 :: int) n \<longleftrightarrow> 16 \<le> n \<and> n < 32"
  "bit (0xffffff00 :: int) n \<longleftrightarrow> 8 \<le> n \<and> n < 32"
proof -
  have b: "(0xff :: int) = mask 8" "(0xffff :: int) = mask 16" "(0xffffff :: int) = mask 24"
    "(0xff000000 :: int) = push_bit 24 (mask 8)" "(0xffff0000 :: int) = push_bit 16 (mask 16)"
    "(0xffffff00 :: int) = push_bit 8 (mask 24)"
    by (simp_all add: mask_eq_exp_minus_1 push_bit_eq_mult)
  show "bit (0xff :: int) n \<longleftrightarrow> n < 8" "bit (0xffff :: int) n \<longleftrightarrow> n < 16" "bit (0xffffff :: int) n \<longleftrightarrow> n < 24"
  "bit (0xff000000 :: int) n \<longleftrightarrow> 24 \<le> n \<and> n < 32" "bit (0xffff0000 :: int) n \<longleftrightarrow> 16 \<le> n \<and> n < 32"
  "bit (0xffffff00 :: int) n \<longleftrightarrow> 8 \<le> n \<and> n < 32"
    unfolding b bit_mask_iff bit_push_bit_iff by auto
qed

lemmas bit_merge = bit_or_iff bit_and_iff bit_masks bit_push_bit_iff bit_signed_drop_bit_iff
  bit_le_word bit_byte_of

lemma merges:
  "lwr_merge 0 r v = v"
  "lwr_merge 1 r v = le_word (byte_of 1 v) (byte_of 2 v) (byte_of 3 v) (byte_of 3 r)"
  "lwr_merge 2 r v = le_word (byte_of 2 v) (byte_of 3 v) (byte_of 2 r) (byte_of 3 r)"
  "lwr_merge 3 r v = le_word (byte_of 3 v) (byte_of 1 r) (byte_of 2 r) (byte_of 3 r)"
  "lwl_merge 0 r v = le_word (byte_of 0 r) (byte_of 1 r) (byte_of 2 r) (byte_of 0 v)"
  "lwl_merge 1 r v = le_word (byte_of 0 r) (byte_of 1 r) (byte_of 0 v) (byte_of 1 v)"
  "lwl_merge 2 r v = le_word (byte_of 0 r) (byte_of 0 v) (byte_of 1 v) (byte_of 2 v)"
  "lwl_merge 3 r v = v"
  by (simp_all add: lwr_merge_def lwl_merge_def)
    (rule bit_word_eqI; auto simp: bit_merge intro: arg_cong [of _ _ "bit _"])+

lemma store_merges:
  "swr_merge 0 r v = r"
  "swr_merge 1 r v = le_word (byte_of 0 v) (byte_of 0 r) (byte_of 1 r) (byte_of 2 r)"
  "swr_merge 2 r v = le_word (byte_of 0 v) (byte_of 1 v) (byte_of 0 r) (byte_of 1 r)"
  "swr_merge 3 r v = le_word (byte_of 0 v) (byte_of 1 v) (byte_of 2 v) (byte_of 0 r)"
  "swl_merge 0 r v = le_word (byte_of 3 r) (byte_of 1 v) (byte_of 2 v) (byte_of 3 v)"
  "swl_merge 1 r v = le_word (byte_of 2 r) (byte_of 3 r) (byte_of 2 v) (byte_of 3 v)"
  "swl_merge 2 r v = le_word (byte_of 1 r) (byte_of 2 r) (byte_of 3 r) (byte_of 3 v)"
  "swl_merge 3 r v = r"
  by (simp_all add: swr_merge_def swl_merge_def)
    (rule bit_word_eqI; auto simp: bit_merge intro: arg_cong [of _ _ "bit _"])+



definition div_result :: "i32 \<Rightarrow> i32 \<Rightarrow> i32 \<Rightarrow> i32 \<Rightarrow> bool" where
  "div_result s t lo hi \<longleftrightarrow> sint lo * sint t + sint hi = sint s \<and> \<bar>sint hi\<bar> < \<bar>sint t\<bar> \<and> 0 \<le> sint hi * sint s"

definition divu_result :: "i32 \<Rightarrow> i32 \<Rightarrow> i32 \<Rightarrow> i32 \<Rightarrow> bool" where
  "divu_result s t lo hi \<longleftrightarrow> uint lo * uint t + uint hi = uint s \<and> uint hi < uint t"

lemma sint_of_fits: "fits k \<Longrightarrow> sint (word_of_int k :: i32) = k"
  by (simp add: fits_def sint_sbintrunc' signed_take_bit_int_eq_self)

lemma sint_inject: "sint (v::i32) = sint w \<longleftrightarrow> v = w"
  by (metis word_of_int_uint of_int_sint scast_id)

lemma sint_0_iff: "sint (t::i32) = 0 \<longleftrightarrow> t = 0"
  using sint_inject [of t 0] by simp

lemma sdiv_fits:
  assumes "t \<noteq> 0" and "\<not> (s = SIGN_BIT \<and> t = - 1)"
  shows "fits (sint s sdiv sint (t::i32))" and "fits (sint s smod sint t)"
proof -
  have r: "- \<bar>sint s\<bar> \<le> sint s sdiv sint t" "sint s sdiv sint t \<le> \<bar>sint s\<bar>"
    using sdiv_int_range [of "sint s" "sint t"] by auto
  have "sint s sdiv sint t \<noteq> 2 ^ 31"
  proof
    assume q: "sint s sdiv sint t = 2 ^ 31"
    then have "sint s = - (2 ^ 31)" using r(2) sint_bounds [of s] by auto
    then have "sint s sdiv sint t = - sint s" "sint s \<noteq> 0" using q by auto
    then have "sint t = - 1" by simp
    moreover have "sint (- 1 :: i32) = - 1" "sint SIGN_BIT = - (2 ^ 31)"
      by (simp_all add: SIGN_BIT_def)
    ultimately show False
      using assms(2) sint_inject [of t "- 1"] sint_inject [of s SIGN_BIT] \<open>sint s = - (2 ^ 31)\<close> by simp
  qed
  then show "fits (sint s sdiv sint t)" using r sint_bounds [of s] by (auto simp: fits_def)
  show "fits (sint s smod sint t)"
    using smod_int_range [of "sint t" "sint s"] sint_bounds [of t] assms(1)
    by (auto simp: fits_def sint_0_iff)
qed

lemma div_result_sdiv:
  assumes "t \<noteq> 0" and "\<not> (s = SIGN_BIT \<and> t = - 1)"
  shows "div_result s t (word_of_int (sint s sdiv sint t)) (word_of_int (sint s smod sint t))"
proof -
  have "0 \<le> sint s smod sint t * sint s"
    using assms(1) by (auto simp: smod_int_alt_def sgn_if sint_0_iff intro!: mult_nonneg_nonpos)
  moreover have "\<bar>sint s smod sint t\<bar> < \<bar>sint t\<bar>"
    using smod_int_range [of "sint t" "sint s"] assms(1) by (auto simp: sint_0_iff)
  ultimately show ?thesis
    using sdiv_fits [OF assms] by (simp add: div_result_def sint_of_fits sdiv_mult_smod_eq)
qed

lemma divu_result_div: "t \<noteq> 0 \<Longrightarrow> divu_result s t (s div t) (s mod t)"
  by (simp add: divu_result_def uint_div uint_mod word_neq_0_conv word_less_def)

text \<open>
  C28: Division. A division by zero leaves zeros in HI and LO and does not trap; \<open>DIV\<close> of the
  most negative number by -1 stops the simulator itself; in every other case LO and HI are
  quotient and remainder, truncated towards zero for \<open>DIV\<close>: their combination gives the
  dividend back, the remainder is smaller than the divisor and has the dividend's sign.
\<close>

theorem DIV_DIVU_correct:
  "\<exists>lo hi ulo uhi.
     exec h (i\<lparr>opCode := OP_DIV\<rparr>) pc m =
       (if reg (rt i) m = 0 then finish pc (set_reg HiReg 0 (set_reg LoReg 0 m))
        else if sint (reg (rs i) m) = - (2 ^ 31) \<and> sint (reg (rt i) m) = - 1 then Inl ArithTrap
        else finish pc (set_reg HiReg hi (set_reg LoReg lo m))) \<and>
     exec h (i\<lparr>opCode := OP_DIVU\<rparr>) pc m =
       (if reg (rt i) m = 0 then finish pc (set_reg HiReg 0 (set_reg LoReg 0 m))
        else finish pc (set_reg HiReg uhi (set_reg LoReg ulo m))) \<and>
     (reg (rt i) m = 0 \<or> (sint (reg (rs i) m) = - (2 ^ 31) \<and> sint (reg (rt i) m) = - 1) \<or>
        div_result (reg (rs i) m) (reg (rt i) m) lo hi) \<and>
     (reg (rt i) m = 0 \<or> divu_result (reg (rs i) m) (reg (rt i) m) ulo uhi)"
proof -
  let ?s = "reg (rs i) m" and ?t = "reg (rt i) m"
  have e: "sint ?s = - (2 ^ 31) \<longleftrightarrow> ?s = SIGN_BIT" "sint ?t = - 1 \<longleftrightarrow> ?t = - 1"
    using sint_inject [of ?s SIGN_BIT] sint_inject [of ?t "- 1"] by (simp_all add: SIGN_BIT_def)
  show ?thesis
    unfolding e
    by (rule exI [of _ "word_of_int (sint ?s sdiv sint ?t)"], rule exI [of _ "word_of_int (sint ?s smod sint ?t)"],
        rule exI [of _ "?s div ?t"], rule exI [of _ "?s mod ?t"])
      (use div_result_sdiv [of ?t ?s] divu_result_div [of ?t ?s] in
        \<open>auto simp: exec_def exec_branch_def exec_div_jump_def Let_def\<close>)
qed

lemma bit_SIGN_BIT: "bit SIGN_BIT n \<longleftrightarrow> n = 31"
proof -
  have s: "SIGN_BIT = push_bit 31 1" by (simp add: SIGN_BIT_def)
  show ?thesis unfolding s bit_push_bit_iff bit_1_iff by auto
qed

text \<open>
  Right shifts. \<open>SRL\<close> and \<open>SRLV\<close>, the logical shifts of the architecture, do exactly what
  the arithmetic shifts \<open>SRA\<close> and \<open>SRAV\<close> do, because the simulator shifts a signed \<open>int\<close>: they
  agree with the logical shift only where no sign bit is moved, and a negative register
  shifted right by one stays negative.
\<close>

theorem SRL_is_SRA:
  "exec h (i\<lparr>opCode := OP_SRL\<rparr>) pc m = exec h (i\<lparr>opCode := OP_SRA\<rparr>) pc m \<and>
   exec h (i\<lparr>opCode := OP_SRLV\<rparr>) pc m = exec h (i\<lparr>opCode := OP_SRAV\<rparr>) pc m \<and>
   exec h (i\<lparr>opCode := OP_SRL, extra := 1\<rparr>) pc m =
     finish pc (set_reg (rd i) (drop_bit 1 (reg (rt i) m) OR (reg (rt i) m AND SIGN_BIT)) m)"
proof -
  have "signed_drop_bit 1 t = drop_bit 1 t OR (t AND SIGN_BIT)" for t :: i32
  proof (rule bit_word_eqI)
    fix n assume "n < LENGTH(32)"
    then have "31 \<le> n \<longleftrightarrow> n = 31" by auto
    then show "bit (signed_drop_bit 1 t) n = bit (drop_bit 1 t OR (t AND SIGN_BIT)) n"
      by (auto simp: bit_signed_drop_bit_iff bit_or_iff bit_and_iff bit_drop_bit_eq bit_SIGN_BIT
          dest: bit_imp_le_length intro: arg_cong [of _ _ "bit t"])
  qed
  then show ?thesis by (simp add: exec_groups Let_def)
qed

end
