(* ===== verification/Userprog_Syscall.thy ===== *)
theory Userprog_Syscall
  imports Machine_Mips
begin

text \<open>
  \<open>userprog/exception.cc\<close>, \<open>ksyscall.h\<close> and \<open>syscall.h\<close>: the exception handler of the kernel and
  its system calls; under them the file system of the build (\<open>FILESYS_STUB\<close>: the classes
  \<open>FileSystem\<close> and \<open>OpenFile\<close> of \<open>filesys/filesys.h\<close> and \<open>openfile.h\<close> over UNIX files) and the
  calls of \<open>lib/sysdep.cc\<close> on UNIX files.

  The record \<open>sysenv\<close> extends the machine with the table of open files, the UNIX files of the
  host, its random numbers, and the console as a calling thread sees it through \<open>SynchConsole\<close>:
  the characters still to come, whether the end of the input has been seen, and the characters
  shown so far. The text that \<open>printf\<close> and \<open>DEBUG\<close> write to the host's terminal is left out.
\<close>

section \<open>State\<close>

text \<open>A UNIX file descriptor: the file, the offset, and whether it is open for writing.\<close>

record unix_fd =
  inode :: nat
  offset :: int
  writable :: bool

text \<open>The stub class \<open>OpenFile\<close>.\<close>

record StubFile =
  ofile :: nat
  otype :: i32
  currentOffset :: int

record sysenv = machine +
  openf :: "StubFile option list"
  names :: "byte list \<rightharpoonup> nat"
  inodes :: "nat \<Rightarrow> byte list"
  fds :: "nat \<rightharpoonup> unix_fd"
  brk_host :: nat
  creatable :: "byte list \<Rightarrow> bool"
  junk :: "nat \<Rightarrow> byte"
  conIn :: "byte list"
  conEof :: bool
  conOut :: "byte list"
  entropy :: "nat \<Rightarrow> int"
  drawn :: nat

section \<open>UNIX files (lib/sysdep.cc)\<close>

text \<open>
  A name of the host is the name of a file, or a name under which the process may create one
  (\<open>creatable\<close>), or neither. The files are readable and writable, and the host does not run out
  of descriptors or of space. A removed file stays readable through its open descriptors.
\<close>

definition new_fd :: "nat \<Rightarrow> bool \<Rightarrow> 'a sysenv_scheme \<Rightarrow> nat \<times> 'a sysenv_scheme" where
  "new_fd i w m = (brk_host m,
     m\<lparr>fds := (fds m)(brk_host m \<mapsto> \<lparr>inode = i, offset = 0, writable = w\<rparr>), brk_host := brk_host m + 1\<rparr>)"

definition OpenForWrite :: "byte list \<Rightarrow> 'a sysenv_scheme \<Rightarrow> (nat \<times> 'a sysenv_scheme) result" where
  "OpenForWrite name m =
     (case names m name of
        Some i \<Rightarrow> Inr (new_fd i True (m\<lparr>inodes := (inodes m)(i := [])\<rparr>))
      | None \<Rightarrow>
          require (creatable m name)
            (let i = brk_host m in
             Inr (new_fd i True (m\<lparr>names := (names m)(name \<mapsto> i), inodes := (inodes m)(i := []), brk_host := i + 1\<rparr>))))"

definition open_existing :: "bool \<Rightarrow> byte list \<Rightarrow> bool \<Rightarrow> 'a sysenv_scheme \<Rightarrow> (nat option \<times> 'a sysenv_scheme) result" where
  "open_existing w name crashOnError m =
     (case names m name of
        None \<Rightarrow> require (\<not> crashOnError) (Inr (None, m))
      | Some i \<Rightarrow> let (fd, m1) = new_fd i w m in Inr (Some fd, m1))"

definition OpenForReadWrite :: "byte list \<Rightarrow> bool \<Rightarrow> 'a sysenv_scheme \<Rightarrow> (nat option \<times> 'a sysenv_scheme) result" where
  "OpenForReadWrite = open_existing True"

definition OpenForRead :: "byte list \<Rightarrow> bool \<Rightarrow> 'a sysenv_scheme \<Rightarrow> (nat option \<times> 'a sysenv_scheme) result" where
  "OpenForRead = open_existing False"

text \<open>
  \<open>read\<close> returns -1 on a bad descriptor. A negative count is a huge unsigned one: it reads all
  there is, into a buffer of any size.
\<close>

definition ReadPartial :: "nat \<Rightarrow> byte list \<Rightarrow> int \<Rightarrow> 'a sysenv_scheme \<Rightarrow> (int \<times> byte list \<times> 'a sysenv_scheme) result" where
  "ReadPartial fd buffer nBytes m =
     (case fds m fd of
        None \<Rightarrow> Inr (-1, buffer, m)
      | Some d \<Rightarrow>
          let rest = drop (nat (offset d)) (inodes m (inode d));
              bs = (if nBytes < 0 then rest else take (nat nBytes) rest)
          in if length bs \<le> length buffer
             then Inr (int (length bs), bs @ drop (length bs) buffer,
                       m\<lparr>fds := (fds m)(fd \<mapsto> d\<lparr>offset := offset d + int (length bs)\<rparr>)\<rparr>)
             else Inl WildAccess)"

text \<open>\<open>write\<close> puts zeros between the end of the file and an offset behind it.\<close>

definition host_write :: "byte list \<Rightarrow> nat \<Rightarrow> byte list \<Rightarrow> byte list" where
  "host_write xs k bs = take k (xs @ replicate (k - length xs) 0) @ bs @ drop (k + length bs) xs"

definition WriteFile :: "nat \<Rightarrow> byte list \<Rightarrow> int \<Rightarrow> 'a sysenv_scheme \<Rightarrow> 'a sysenv_scheme result" where
  "WriteFile fd buffer nBytes m =
     (if nBytes < 0 \<or> int (length buffer) < nBytes then Inl WildAccess
      else case fds m fd of
        None \<Rightarrow> Inl Abort
      | Some d \<Rightarrow>
          require (writable d)
            (let bs = take (nat nBytes) buffer; i = inode d in
             Inr (m\<lparr>inodes := (inodes m)(i := host_write (inodes m i) (nat (offset d)) bs),
                    fds := (fds m)(fd \<mapsto> d\<lparr>offset := offset d + nBytes\<rparr>)\<rparr>)))"

definition Lseek :: "nat \<Rightarrow> int \<Rightarrow> int \<Rightarrow> 'a sysenv_scheme \<Rightarrow> 'a sysenv_scheme result" where
  "Lseek fd off whence m =
     (case fds m fd of
        None \<Rightarrow> Inl Abort
      | Some d \<Rightarrow>
          let pos = (if whence = 0 then off else int (length (inodes m (inode d))) + off) in
          require (pos \<ge> 0) (Inr (m\<lparr>fds := (fds m)(fd \<mapsto> d\<lparr>offset := pos\<rparr>)\<rparr>)))"

definition Tell :: "nat \<Rightarrow> 'a sysenv_scheme \<Rightarrow> int" where
  "Tell fd m = (case fds m fd of None \<Rightarrow> -1 | Some d \<Rightarrow> offset d)"

definition Close :: "nat \<Rightarrow> 'a sysenv_scheme \<Rightarrow> 'a sysenv_scheme result" where
  "Close fd m = require (fds m fd \<noteq> None) (Inr (m\<lparr>fds := (fds m)(fd := None)\<rparr>))"

text \<open>\<open>unlink\<close> returns -1, which as a \<open>bool\<close> is true, when there is no such file.\<close>

definition Unlink :: "byte list \<Rightarrow> 'a sysenv_scheme \<Rightarrow> bool \<times> 'a sysenv_scheme" where
  "Unlink name m = (if names m name = None then (True, m) else (False, m\<lparr>names := (names m)(name := None)\<rparr>))"

definition RandomNumber :: "'a sysenv_scheme \<Rightarrow> int \<times> 'a sysenv_scheme" where
  "RandomNumber m = (entropy m (drawn m), m\<lparr>drawn := drawn m + 1\<rparr>)"

section \<open>The stub file system (filesys.h, openfile.h)\<close>

definition StubFile_ReadAt :: "StubFile \<Rightarrow> byte list \<Rightarrow> int \<Rightarrow> int \<Rightarrow> 'a sysenv_scheme \<Rightarrow> (int \<times> byte list \<times> 'a sysenv_scheme) result" where
  "StubFile_ReadAt f into numBytes position m = rbind (Lseek (ofile f) position 0 m) (ReadPartial (ofile f) into numBytes)"

definition StubFile_WriteAt :: "StubFile \<Rightarrow> byte list \<Rightarrow> int \<Rightarrow> int \<Rightarrow> 'a sysenv_scheme \<Rightarrow> (int \<times> 'a sysenv_scheme) result" where
  "StubFile_WriteAt f src numBytes position m =
     rbind (Lseek (ofile f) position 0 m) (\<lambda>m1.
     rbind (WriteFile (ofile f) src numBytes m1) (\<lambda>m2. Inr (numBytes, m2)))"

definition StubFile_Read :: "StubFile \<Rightarrow> byte list \<Rightarrow> int \<Rightarrow> 'a sysenv_scheme \<Rightarrow> (int \<times> byte list \<times> StubFile \<times> 'a sysenv_scheme) result" where
  "StubFile_Read f into numBytes m =
     rbind (StubFile_ReadAt f into numBytes (currentOffset f) m) (\<lambda>(numRead, buf, m1).
     Inr (numRead, buf, f\<lparr>currentOffset := currentOffset f + numRead\<rparr>, m1))"

definition StubFile_Write :: "StubFile \<Rightarrow> byte list \<Rightarrow> int \<Rightarrow> 'a sysenv_scheme \<Rightarrow> (int \<times> StubFile \<times> 'a sysenv_scheme) result" where
  "StubFile_Write f src numBytes m =
     rbind (StubFile_WriteAt f src numBytes (currentOffset f) m) (\<lambda>(numWritten, m1).
     Inr (numWritten, f\<lparr>currentOffset := currentOffset f + numWritten\<rparr>, m1))"

definition StubFile_Length :: "StubFile \<Rightarrow> 'a sysenv_scheme \<Rightarrow> (int \<times> 'a sysenv_scheme) result" where
  "StubFile_Length f m = rbind (Lseek (ofile f) 0 2 m) (\<lambda>m1. Inr (Tell (ofile f) m1, m1))"

definition StubFile_GetCurrentPos :: "StubFile \<Rightarrow> 'a sysenv_scheme \<Rightarrow> int \<times> StubFile" where
  "StubFile_GetCurrentPos f m = (let p = Tell (ofile f) m in (p, f\<lparr>currentOffset := p\<rparr>))"

definition StubFile_Seek :: "StubFile \<Rightarrow> int \<Rightarrow> 'a sysenv_scheme \<Rightarrow> (int \<times> StubFile \<times> 'a sysenv_scheme) result" where
  "StubFile_Seek f pos m =
     rbind (Lseek (ofile f) pos 0 m) (\<lambda>m1.
     let p = Tell (ofile f) m1 in Inr (p, f\<lparr>currentOffset := p\<rparr>, m1))"

definition MAX_FILE_OPEN :: int where "MAX_FILE_OPEN = 15"

definition StubFS_Create :: "byte list \<Rightarrow> 'a sysenv_scheme \<Rightarrow> (bool \<times> 'a sysenv_scheme) result" where
  "StubFS_Create name m =
     rbind (OpenForWrite name m) (\<lambda>(fd, m1). rbind (Close fd m1) (\<lambda>m2. Inr (True, m2)))"

text \<open>The descriptor is not initialised for a type other than 0 to 3.\<close>

definition StubFS_Open :: "byte list \<Rightarrow> i32 \<Rightarrow> 'a sysenv_scheme \<Rightarrow> (StubFile option \<times> 'a sysenv_scheme) result" where
  "StubFS_Open name ty m =
     rbind (if ty = 0 then OpenForReadWrite name False m
            else if ty = 1 \<or> ty = 2 then OpenForRead name False m
            else if ty = 3 then rbind (OpenForWrite name m) (\<lambda>(fd, m1). Inr (Some fd, m1))
            else Inl WildAccess) (\<lambda>(fd, m1).
     Inr (case fd of None \<Rightarrow> None | Some f \<Rightarrow> Some \<lparr>ofile = f, otype = ty, currentOffset = 0\<rparr>, m1))"

primrec find_slot :: "StubFile option list \<Rightarrow> int \<Rightarrow> nat \<Rightarrow> int result" where
  "find_slot fs i 0 = Inr (-1)"
| "find_slot fs i (Suc n) = rbind (arr_get fs i) (\<lambda>f. if f = None then Inr i else find_slot fs (i + 1) n)"

definition StubFS_FindFreeSlot :: "'a sysenv_scheme \<Rightarrow> int result" where
  "StubFS_FindFreeSlot m = find_slot (openf m) 2 (nat (MAX_FILE_OPEN - 2))"

definition StubFS_Remove :: "byte list \<Rightarrow> 'a sysenv_scheme \<Rightarrow> bool \<times> 'a sysenv_scheme" where
  "StubFS_Remove name m = (let (r, m1) = Unlink name m in (\<not> r, m1))"

text \<open>The constructor: the files \<open>stdin\<close> and \<open>stdout\<close> are made and opened as entries 0 and 1.\<close>

definition ascii :: "string \<Rightarrow> byte list" where
  "ascii = map of_char"

definition StubFS_new :: "'a sysenv_scheme \<Rightarrow> 'a sysenv_scheme result" where
  "StubFS_new m =
     (let m0 = m\<lparr>openf := replicate (nat MAX_FILE_OPEN) None\<rparr> in
      rbind (StubFS_Create (ascii ''stdin'') m0) (\<lambda>(_, m1).
      rbind (StubFS_Create (ascii ''stdout'') m1) (\<lambda>(_, m2).
      rbind (StubFS_Open (ascii ''stdin'') 2 m2) (\<lambda>(f, m3).
      rbind (arr_set (openf m3) 0 f) (\<lambda>o1.
      rbind (StubFS_Open (ascii ''stdout'') 3 (m3\<lparr>openf := o1\<rparr>)) (\<lambda>(g, m4).
      rbind (arr_set (openf m4) 1 g) (\<lambda>o2. Inr (m4\<lparr>openf := o2\<rparr>))))))))"

section \<open>The console (userprog/synchconsole.cc, machine/console.cc)\<close>

text \<open>
  A thread that calls \<open>GetChar\<close> gets the next character of the input. At the end of the input it
  gets \<open>EOF\<close>, as a signed character -1, once; the device schedules no interrupt after an \<open>EOF\<close>,
  nor after a character of that value, and the next call waits forever.
\<close>

definition EOF :: byte where "EOF = -1"

definition GetChar :: "'a sysenv_scheme \<Rightarrow> (byte \<times> 'a sysenv_scheme) result" where
  "GetChar m =
     (if conEof m then Inl Diverges
      else case conIn m of
        [] \<Rightarrow> Inr (EOF, m\<lparr>conEof := True\<rparr>)
      | c # cs \<Rightarrow> Inr (c, m\<lparr>conIn := cs, conEof := (c = EOF)\<rparr>))"

definition PutChar :: "byte \<Rightarrow> 'a sysenv_scheme \<Rightarrow> 'a sysenv_scheme" where
  "PutChar ch m = m\<lparr>conOut := conOut m @ [ch]\<rparr>"

text \<open>\<open>SynchConsoleInput::Read\<close> starts with \<open>P\<close> through \<open>RLineBlock\<close>, which nothing initialises.\<close>

definition SynchConsoleInput_Read :: "byte list \<Rightarrow> int \<Rightarrow> 'a sysenv_scheme \<Rightarrow> (int \<times> byte list \<times> 'a sysenv_scheme) result" where
  "SynchConsoleInput_Read into numBytes m = Inl WildAccess"

definition input_left :: "'a sysenv_scheme \<Rightarrow> nat" where
  "input_left m = (if conEof m then 0 else Suc (length (conIn m)))"

lemma GetChar_less: "GetChar m = Inr (c, m1) \<Longrightarrow> input_left m1 < input_left m"
  by (auto simp: GetChar_def input_left_def split: if_splits list.splits)

section \<open>Copying between user and kernel space (ksyscall.h)\<close>

text \<open>\<open>new char[n]\<close>: a negative size ends the process with an exception.\<close>

definition new_chars :: "int \<Rightarrow> 'a sysenv_scheme \<Rightarrow> byte list result" where
  "new_chars n m = (if n < 0 then Inl Abort else Inr (map (junk m) [0..<nat n]))"

text \<open>\<open>oneChar\<close> keeps its value when \<open>ReadMem\<close> fails; it has none before the first read.\<close>

primrec User2System_loop ::
  "'a sysenv_ext handler \<Rightarrow> i32 \<Rightarrow> i32 option \<Rightarrow> int \<Rightarrow> nat \<Rightarrow> byte list \<Rightarrow> 'a sysenv_scheme \<Rightarrow> (byte list \<times> 'a sysenv_scheme) result" where
  "User2System_loop h virtAddr oneChar i 0 buf m = Inr (buf, m)"
| "User2System_loop h virtAddr oneChar i (Suc n) buf m =
     rbind (ReadMem h (virtAddr + word_of_int i) 1 m) (\<lambda>(v, m1).
     case (if v = None then oneChar else v) of
       None \<Rightarrow> Inl WildAccess
     | Some c \<Rightarrow>
         rbind (arr_set buf i (ucast c)) (\<lambda>buf1.
         if c = 0 then Inr (buf1, m1) else User2System_loop h virtAddr (Some c) (i + 1) n buf1 m1))"

definition User2System ::
  "'a sysenv_ext handler \<Rightarrow> i32 \<Rightarrow> i32 \<Rightarrow> 'a sysenv_scheme \<Rightarrow> (byte list \<times> 'a sysenv_scheme) result" where
  "User2System h virtAddr limit m =
     rbind (new_chars (sint (limit + 1)) m) (\<lambda>b.
     User2System_loop h virtAddr None 0 (nat (sint limit)) (map (\<lambda>_. 0) b) m)"

text \<open>The loop of \<open>System2User\<close> runs at most \<open>len\<close> times: the fuel is \<open>len\<close>.\<close>

primrec System2User_loop ::
  "'a sysenv_ext handler \<Rightarrow> i32 \<Rightarrow> int \<Rightarrow> byte list \<Rightarrow> int \<Rightarrow> nat \<Rightarrow> 'a sysenv_scheme \<Rightarrow> (int \<times> 'a sysenv_scheme) result" where
  "System2User_loop h virtAddr len buffer i 0 m = Inl Diverges"
| "System2User_loop h virtAddr len buffer i (Suc n) m =
     rbind (arr_get buffer i) (\<lambda>c.
     rbind (WriteMem h (virtAddr + word_of_int i) 1 (scast c) m) (\<lambda>(_, m1).
     if i + 1 < len \<and> c \<noteq> 0 then System2User_loop h virtAddr len buffer (i + 1) n m1 else Inr (i + 1, m1)))"

definition System2User ::
  "'a sysenv_ext handler \<Rightarrow> i32 \<Rightarrow> int \<Rightarrow> byte list \<Rightarrow> 'a sysenv_scheme \<Rightarrow> (int \<times> 'a sysenv_scheme) result" where
  "System2User h virtAddr len buffer m =
     (if len < 0 then Inr (-1, m) else if len = 0 then Inr (len, m)
      else System2User_loop h virtAddr len buffer 0 (nat len) m)"

section \<open>Console system calls\<close>

definition SysHalt :: "'b result" where "SysHalt = Inl Halt"

definition SysAdd :: "i32 \<Rightarrow> i32 \<Rightarrow> i32" where "SysAdd op1 op2 = op1 + op2"

definition is_digit :: "byte \<Rightarrow> bool" where
  "is_digit c \<longleftrightarrow> sint c \<ge> 48 \<and> sint c \<le> 57"

text \<open>The characters space and newline are 32 and 10, the minus sign is 45 and the digit zero 48.\<close>

function ReadNum_skip :: "'a sysenv_scheme \<Rightarrow> (byte \<times> 'a sysenv_scheme) result" where
  "ReadNum_skip m = rbind (GetChar m) (\<lambda>(buffer, m1). if buffer = 32 \<or> buffer = 10 then ReadNum_skip m1 else Inr (buffer, m1))"
  by auto
termination by (relation "measure input_left") (auto dest: GetChar_less)

function ReadNum_digits :: "64 word \<Rightarrow> bool \<Rightarrow> byte \<Rightarrow> 'a sysenv_scheme \<Rightarrow> (64 word \<times> bool \<times> 'a sysenv_scheme) result" where
  "ReadNum_digits num isInteger buffer m =
     (let num1 = num * 10 + (scast buffer - 48) in
      rbind (GetChar m) (\<lambda>(buffer1, m1).
      let isInteger1 = (isInteger \<and> (is_digit buffer1 \<or> buffer1 = 10 \<or> buffer1 = 32)) in
      if buffer1 \<noteq> 10 \<and> buffer1 \<noteq> 32 then ReadNum_digits num1 isInteger1 buffer1 m1
      else Inr (num1, isInteger1, m1)))"
  by auto
termination by (relation "measure (\<lambda>(_, _, _, m). input_left m)") (auto dest: GetChar_less)

definition ReadNum_value :: "64 word \<Rightarrow> bool \<Rightarrow> bool \<Rightarrow> i32" where
  "ReadNum_value num isInteger isNegative =
     (if \<not> isInteger then 0
      else let num1 = (if isNegative then - num else num) in
        if sint num1 > 2 ^ 31 - 1 \<or> sint num1 < - (2 ^ 31) then 0 else ucast num1)"

definition SysReadNum :: "'a sysenv_scheme \<Rightarrow> (i32 \<times> 'a sysenv_scheme) result" where
  "SysReadNum m =
     rbind (ReadNum_skip m) (\<lambda>(buffer, m1).
     if buffer = 45 then
       rbind (GetChar m1) (\<lambda>(buffer1, m2).
       if buffer1 = 10 \<or> buffer1 = 32 then Inr (0, m2)
       else rbind (ReadNum_digits 0 (is_digit buffer1) buffer1 m2) (\<lambda>(num, isInteger, m3).
            Inr (ReadNum_value num isInteger True, m3)))
     else rbind (ReadNum_digits 0 (is_digit buffer) buffer m1) (\<lambda>(num, isInteger, m2).
          Inr (ReadNum_value num isInteger False, m2)))"

text \<open>The loop of \<open>SysPrintNum\<close> leaves the digits in \<open>arr\<close>, the last one first.\<close>

function PrintNum_digits :: "int \<Rightarrow> byte list \<Rightarrow> int \<Rightarrow> (byte list \<times> int) result" where
  "PrintNum_digits num arr i =
     (if num = 0 then Inr (arr, i)
      else rbind (arr_set arr i (word_of_int (num smod 10))) (\<lambda>arr1. PrintNum_digits (num sdiv 10) arr1 (i + 1)))"
  by auto
termination
proof (relation "measure (\<lambda>(num, _, _). nat \<bar>num\<bar>)")
  fix num :: int and arr :: "byte list" and i arr1
  assume n: "num \<noteq> 0"
  have "\<bar>num sdiv 10\<bar> = \<bar>num\<bar> div 10" by (simp add: signed_divide_int_def sgn_if abs_mult)
  then show "((num sdiv 10, arr1, i + 1), num, arr, i) \<in> measure (\<lambda>(num, _, _). nat \<bar>num\<bar>)"
    using n by simp
qed simp

definition SysPrintNum :: "i32 \<Rightarrow> 'a sysenv_scheme \<Rightarrow> 'a sysenv_scheme result" where
  "SysPrintNum num m =
     (if num = 0 then Inr (PutChar 48 m)
      else
        let num1 = (if sint num < 0 then - num else num) in
        rbind (PrintNum_digits (sint num1) (map (junk m) [0..<10]) 0) (\<lambda>(arr, i).
        rfold (\<lambda>j m1. rbind (arr_get arr (int j)) (\<lambda>d. Inr (PutChar (48 + d) m1))) (rev [0..<nat i]) m))"

definition SysReadChar :: "'a sysenv_scheme \<Rightarrow> (byte \<times> 'a sysenv_scheme) result" where
  "SysReadChar m = GetChar m"

definition SysPrintChar :: "byte \<Rightarrow> 'a sysenv_scheme \<Rightarrow> 'a sysenv_scheme" where
  "SysPrintChar c m = PutChar c m"

function ReadString_char :: "'a sysenv_scheme \<Rightarrow> (byte \<times> 'a sysenv_scheme) result" where
  "ReadString_char m = rbind (GetChar m) (\<lambda>(ch, m1). if ch = EOF then ReadString_char m1 else Inr (ch, m1))"
  by auto
termination by (relation "measure input_left") (auto dest: GetChar_less)

primrec ReadString_loop :: "nat \<Rightarrow> int \<Rightarrow> byte list \<Rightarrow> 'a sysenv_scheme \<Rightarrow> (byte list \<times> 'a sysenv_scheme) result" where
  "ReadString_loop 0 i buffer m = Inr (buffer, m)"
| "ReadString_loop (Suc n) i buffer m =
     rbind (ReadString_char m) (\<lambda>(ch, m1).
     if ch = 1 \<or> ch = 10 then Inr (buffer, m1)
     else rbind (arr_set buffer i ch) (\<lambda>buffer1. ReadString_loop n (i + 1) buffer1 m1))"

definition SysReadString :: "byte list \<Rightarrow> int \<Rightarrow> 'a sysenv_scheme \<Rightarrow> (byte list \<times> 'a sysenv_scheme) result" where
  "SysReadString buffer len m =
     (if len \<le> 0 then Inr (buffer, m)
      else rbind (for_upto len (\<lambda>i b. arr_set b i 0) buffer) (\<lambda>b. ReadString_loop (nat len) 0 b m))"

text \<open>The buffer is walked up to its terminating zero.\<close>

primrec PrintString_loop :: "byte list \<Rightarrow> 'a sysenv_scheme \<Rightarrow> (nat \<times> 'a sysenv_scheme) result" where
  "PrintString_loop [] m = Inl WildAccess"
| "PrintString_loop (c # cs) m =
     (if c = 0 then Inr (0, m) else rbind (PrintString_loop cs (PutChar c m)) (\<lambda>(n, m1). Inr (Suc n, m1)))"

definition SysPrintString :: "byte list \<Rightarrow> 'a sysenv_scheme \<Rightarrow> 'a sysenv_scheme result" where
  "SysPrintString buffer m = rbind (PrintString_loop buffer m) (\<lambda>(_, m1). Inr m1)"

definition SysRandomNum :: "'a sysenv_scheme \<Rightarrow> i32 \<times> 'a sysenv_scheme" where
  "SysRandomNum m = (let (r, m1) = RandomNumber m in (word_of_int r, m1))"

section \<open>File system calls\<close>

text \<open>A C string: the bytes before the first zero, which must exist.\<close>

primrec c_string :: "byte list \<Rightarrow> byte list result" where
  "c_string [] = Inl WildAccess"
| "c_string (c # cs) = (if c = 0 then Inr [] else rbind (c_string cs) (\<lambda>s. Inr (c # s)))"

abbreviation result_reg :: "i32 \<Rightarrow> 'a machine_scheme \<Rightarrow> 'a machine_scheme result" where
  "result_reg v m \<equiv> Machine_WriteRegister 2 v m"

definition SysCreateFile :: "byte list \<Rightarrow> 'a sysenv_scheme \<Rightarrow> 'a sysenv_scheme result" where
  "SysCreateFile filename m =
     rbind (c_string filename) (\<lambda>name.
     if length name = 0 then result_reg (-1) m
     else rbind (StubFS_Create name m) (\<lambda>(b, m1).
          if \<not> b then result_reg (-1) m1 else result_reg 0 m1))"

definition SysOpen :: "byte list \<Rightarrow> i32 \<Rightarrow> 'a sysenv_scheme \<Rightarrow> 'a sysenv_scheme result" where
  "SysOpen filename ty m =
     rbind (StubFS_FindFreeSlot m) (\<lambda>freeSlot.
     if freeSlot \<noteq> -1 then
       if ty = 2 then result_reg 0 m
       else if ty = 3 then result_reg 1 m
       else if ty = 0 \<or> ty = 1 then
         rbind (c_string filename) (\<lambda>name.
         rbind (StubFS_Open name ty m) (\<lambda>(file, m1).
         case file of
           None \<Rightarrow> Inr m1
         | Some f \<Rightarrow>
             rbind (arr_set (openf m1) freeSlot (Some f)) (\<lambda>fs.
             result_reg (word_of_int freeSlot) (m1\<lparr>openf := fs\<rparr>))))
       else Inr m
     else result_reg (-1) m)"

definition SysClose :: "i32 \<Rightarrow> 'a sysenv_scheme \<Rightarrow> (i32 \<times> 'a sysenv_scheme) result" where
  "SysClose fid m =
     (if sint fid \<ge> 0 \<and> sint fid \<le> 14 then
        rbind (arr_get (openf m) (sint fid)) (\<lambda>f.
        case f of
          None \<Rightarrow> Inr (-1, m)
        | Some f \<Rightarrow>
            rbind (Close (ofile f) m) (\<lambda>m1.
            rbind (arr_set (openf m1) (sint fid) None) (\<lambda>fs. Inr (0, m1\<lparr>openf := fs\<rparr>))))
      else Inr (-1, m))"

text \<open>An \<open>OpenFile\<close> object that a method changed is put back into its entry of the table.\<close>

definition put_file :: "i32 \<Rightarrow> StubFile \<Rightarrow> 'a sysenv_scheme \<Rightarrow> 'a sysenv_scheme" where
  "put_file fid f m = m\<lparr>openf := (openf m)[nat (sint fid) := Some f]\<rparr>"

definition SysRead ::
  "'a sysenv_ext handler \<Rightarrow> i32 \<Rightarrow> byte list \<Rightarrow> i32 \<Rightarrow> i32 \<Rightarrow> 'a sysenv_scheme \<Rightarrow> 'a sysenv_scheme result" where
  "SysRead h virtAddr buffer charcount fid m =
     (if sint fid < 2 \<or> sint fid > MAX_FILE_OPEN then result_reg (-1) m
      else
        rbind (arr_get (openf m) (sint fid)) (\<lambda>entry.
        case entry of
          None \<Rightarrow> result_reg (-1) m
        | Some f \<Rightarrow>
            if otype f = 3 then result_reg (-1) m
            else
              let (curPos, f1) = StubFile_GetCurrentPos f m in
              if otype f = 2 then
                rbind (SynchConsoleInput_Read buffer (sint charcount) (put_file fid f1 m)) (\<lambda>(n, buf, m1).
                rbind (System2User h virtAddr n buf m1) (\<lambda>(_, m2). result_reg (word_of_int n) m2))
              else
                rbind (StubFile_Read f1 buffer (sint charcount) m) (\<lambda>(numRead, buf, f2, m1).
                if numRead > 0 then
                  let (newPos, f3) = StubFile_GetCurrentPos f2 m1 in
                  rbind (result_reg (word_of_int (newPos - curPos)) (put_file fid f3 m1)) (\<lambda>m2.
                  rbind (System2User h virtAddr (newPos - curPos) buf m2) (\<lambda>(_, m3). Inr m3))
                else result_reg (-2) (put_file fid f2 m1))))"

definition SysWrite ::
  "'a sysenv_ext handler \<Rightarrow> i32 \<Rightarrow> i32 \<Rightarrow> i32 \<Rightarrow> 'a sysenv_scheme \<Rightarrow> 'a sysenv_scheme result" where
  "SysWrite h virtAddr charcount fid m =
     (if sint fid < 2 \<or> sint fid > MAX_FILE_OPEN - 1 then result_reg (-1) m
      else
        rbind (arr_get (openf m) (sint fid)) (\<lambda>entry.
        case entry of
          None \<Rightarrow> result_reg (-1) m
        | Some f \<Rightarrow>
            if otype f = 1 \<or> otype f = 2 then result_reg (-1) m
            else
              let (curPos, f1) = StubFile_GetCurrentPos f m in
              rbind (User2System h virtAddr charcount (put_file fid f1 m)) (\<lambda>(buffer, m1).
              if otype f = 0 then
                rbind (StubFile_Write f1 buffer (sint charcount) m1) (\<lambda>(numWritten, f2, m2).
                if numWritten > 0 then
                  let (newPos, f3) = StubFile_GetCurrentPos f2 m2 in
                  result_reg (word_of_int (newPos - curPos)) (put_file fid f3 m2)
                else Inr (put_file fid f2 m2))
              else if otype f = 3 then
                rbind (PrintString_loop buffer m1) (\<lambda>(pos, m2). result_reg (word_of_int (int pos - 1)) m2)
              else Inr m1)))"

definition SysSeek :: "i32 \<Rightarrow> i32 \<Rightarrow> 'a sysenv_scheme \<Rightarrow> 'a sysenv_scheme result" where
  "SysSeek pos fid m =
     (if sint fid < 2 \<or> sint fid > MAX_FILE_OPEN then result_reg (-1) m
      else
        rbind (arr_get (openf m) (sint fid)) (\<lambda>entry.
        case entry of
          None \<Rightarrow> result_reg (-1) m
        | Some f \<Rightarrow>
            if fid = 0 \<or> fid = 1 then result_reg (-1) m
            else
              rbind (if pos = -1 then StubFile_Length f m else Inr (sint pos, m)) (\<lambda>(p, m1).
              rbind (StubFile_Length f m1) (\<lambda>(len, m2).
              if p > len \<or> p < 0 then result_reg (-1) m2
              else
                rbind (StubFile_Seek f p m2) (\<lambda>(_, f1, m3).
                result_reg (word_of_int p) (put_file fid f1 m3))))))"

definition SysRemove :: "byte list \<Rightarrow> 'a sysenv_scheme \<Rightarrow> (i32 \<times> 'a sysenv_scheme) result" where
  "SysRemove filename m =
     rbind (c_string filename) (\<lambda>name.
     let (r, m1) = StubFS_Remove name m in Inr (if r then 1 else 0, m1))"

section \<open>The exception handler (exception.cc)\<close>

definition MaxFileLength :: i32 where "MaxFileLength = 32"

definition IncreasePC :: "'a machine_scheme \<Rightarrow> 'a machine_scheme result" where
  "IncreasePC m =
     rbind (Machine_ReadRegister (int PCReg) m) (\<lambda>pc.
     rbind (Machine_WriteRegister (int PrevPCReg) pc m) (\<lambda>m1.
     rbind (Machine_ReadRegister (int PCReg) m1) (\<lambda>pc1.
     rbind (Machine_WriteRegister (int PCReg) (pc1 + 4) m1) (\<lambda>m2.
     rbind (Machine_ReadRegister (int PCReg) m2) (\<lambda>pc2.
     Machine_WriteRegister (int NextPCReg) (pc2 + 4) m2)))))"

text \<open>System call codes (\<open>syscall.h\<close>), and the case for each of them in \<open>ExceptionHandler\<close>.\<close>

definition do_syscall :: "'a sysenv_ext handler \<Rightarrow> i32 \<Rightarrow> 'a sysenv_scheme \<Rightarrow> 'a sysenv_scheme result" where
  "do_syscall h ty m =
     rbind (Machine_ReadRegister 4 m) (\<lambda>r4.
     rbind (Machine_ReadRegister 5 m) (\<lambda>r5.
     rbind (Machine_ReadRegister 6 m) (\<lambda>r6.
     if ty = 0 then SysHalt
     else if ty = 42 then rbind (result_reg (SysAdd r4 r5) m) IncreasePC
     else if ty = 43 then
       rbind (SysReadNum m) (\<lambda>(num, m1). rbind (result_reg num m1) IncreasePC)
     else if ty = 44 then rbind (SysPrintNum r4 m) IncreasePC
     else if ty = 47 then
       (let (r, m1) = SysRandomNum m in rbind (result_reg r m1) IncreasePC)
     else if ty = 45 then
       rbind (SysReadChar m) (\<lambda>(ch, m1). rbind (result_reg (scast ch) m1) IncreasePC)
     else if ty = 46 then IncreasePC (SysPrintChar (ucast r4) m)
     else if ty = 48 then
       rbind (User2System h r4 r5 m) (\<lambda>(buffer, m1).
       rbind (SysReadString buffer (sint r5) m1) (\<lambda>(buffer1, m2).
       rbind (System2User h r4 (sint r5) buffer1 m2) (\<lambda>(_, m3). IncreasePC m3)))
     else if ty = 49 then
       rbind (User2System h r4 255 m) (\<lambda>(buffer, m1). rbind (SysPrintString buffer m1) IncreasePC)
     else if ty = 4 then
       rbind (User2System h r4 MaxFileLength m) (\<lambda>(filename, m1). rbind (SysCreateFile filename m1) IncreasePC)
     else if ty = 6 then
       rbind (User2System h r4 MaxFileLength m) (\<lambda>(filename, m1). rbind (SysOpen filename r5 m1) IncreasePC)
     else if ty = 10 then
       rbind (SysClose r4 m) (\<lambda>(res, m1). rbind (result_reg res m1) IncreasePC)
     else if ty = 7 then
       rbind (new_chars (sint r5) m) (\<lambda>buffer. rbind (SysRead h r4 buffer r5 r6 m) IncreasePC)
     else if ty = 8 then
       rbind (new_chars (sint r5) m) (\<lambda>_. rbind (SysWrite h r4 r5 r6 m) IncreasePC)
     else if ty = 9 then rbind (SysSeek r4 r5 m) IncreasePC
     else if ty = 5 then
       rbind (User2System h r4 (MaxFileLength + 1) m) (\<lambda>(filename, m1).
       rbind (SysRemove filename m1) (\<lambda>(res, m2). rbind (result_reg res m2) IncreasePC))
     else Inl Abort)))"

text \<open>
  The switch of \<open>ExceptionHandler\<close>, with the handler \<open>h\<close> for the exceptions that the kernel's own
  accesses to user memory raise, in \<open>User2System\<close> and \<open>System2User\<close>.
\<close>

definition handle_exception :: "'a sysenv_ext handler \<Rightarrow> ExceptionType \<Rightarrow> 'a sysenv_scheme \<Rightarrow> 'a sysenv_scheme result" where
  "handle_exception h which m =
     rbind (Machine_ReadRegister 2 m) (\<lambda>ty.
     case which of
       NoException \<Rightarrow> Inr m
     | SyscallException \<Rightarrow> do_syscall h ty m
     | _ \<Rightarrow> SysHalt)"

text \<open>
  The code is recursive: \<open>ExceptionHandler\<close> calls \<open>ReadMem\<close>, which on a bad address calls
  \<open>ExceptionHandler\<close> again. The inner call is for a translation fault and halts the machine, so
  one level of nesting is all there is; \<open>ExceptionHandler_recursive\<close> below shows that the
  recursive equation of the source holds.
\<close>

definition ExceptionHandler :: "ExceptionType \<Rightarrow> 'a sysenv_scheme \<Rightarrow> 'a sysenv_scheme result" where
  "ExceptionHandler = handle_exception (handle_exception (\<lambda>_ _. Inl Abort))"

section \<open>The recursion\<close>

lemma Translate_exn: "Translate va sz w m = Inr (Inl e, m') \<Longrightarrow> e \<in> translation_faults"
  by (auto simp: Translate_def translate_entry_def translation_faults_def Let_def require_def rbind_eq_Inr
      split: if_splits option.splits sum.splits)

definition agree :: "'a handler \<Rightarrow> 'a handler \<Rightarrow> bool" where
  "agree h h' \<longleftrightarrow> (\<forall>e \<in> translation_faults. \<forall>m. h e m = h' e m)"

lemma ReadMem_agree: "agree h h' \<Longrightarrow> ReadMem h va sz m = ReadMem h' va sz m"
  unfolding ReadMem_def RaiseException_def agree_def
  by (intro rbind_cong refl) (auto split: sum.splits dest!: Translate_exn intro!: rbind_cong)

lemma WriteMem_agree: "agree h h' \<Longrightarrow> WriteMem h va sz v m = WriteMem h' va sz v m"
  unfolding WriteMem_def RaiseException_def agree_def
  by (intro rbind_cong refl) (auto split: sum.splits dest!: Translate_exn intro!: rbind_cong)

lemma User2System_agree: "agree h h' \<Longrightarrow> User2System h va n m = User2System h' va n m"
proof -
  assume a: "agree h h'"
  have "User2System_loop h va c i n b m = User2System_loop h' va c i n b m" for c i n b m
    by (induction n arbitrary: c i b m) (simp_all add: ReadMem_agree [OF a] cong: if_cong option.case_cong)
  then show ?thesis by (simp add: User2System_def)
qed

lemma System2User_agree: "agree h h' \<Longrightarrow> System2User h va n b m = System2User h' va n b m"
proof -
  assume a: "agree h h'"
  have "System2User_loop h va len b i k m = System2User_loop h' va len b i k m" for len i k m
    by (induction k arbitrary: i m) (simp_all add: WriteMem_agree [OF a] cong: if_cong)
  then show ?thesis by (simp add: System2User_def)
qed

lemma handle_exception_agree:
  assumes "agree h h'"
  shows "handle_exception h = handle_exception h'"
proof -
  note a = User2System_agree [OF assms] System2User_agree [OF assms]
  have "do_syscall h ty m = do_syscall h' ty m" for ty m
    unfolding do_syscall_def SysRead_def SysWrite_def a by (rule refl)
  then show ?thesis by (intro ext) (simp add: handle_exception_def cong: ExceptionType.case_cong)
qed


text \<open>
  The exception handler satisfies the recursive equation of the source: it is the switch of
  \<open>exception.cc\<close> in which the kernel's own accesses to user memory raise their exceptions with
  the handler itself.
\<close>

theorem ExceptionHandler_recursive:
  "ExceptionHandler = handle_exception ExceptionHandler"
proof -
  have "agree (handle_exception (\<lambda>_ _. Inl Abort)) ExceptionHandler"
    by (auto simp: agree_def ExceptionHandler_def handle_exception_def translation_faults_def)
  from handle_exception_agree [OF this] show ?thesis by (simp only: ExceptionHandler_def)
qed

section \<open>Legal states\<close>

text \<open>
  The entries of the table of open files have descriptors of their own, open for writing when
  the type says so; behind entry 1 there are only files of types 0 and 1.
\<close>

definition sys_ok :: "'a sysenv_scheme \<Rightarrow> bool" where
  "sys_ok m \<longleftrightarrow> int (length (openf m)) = MAX_FILE_OPEN \<and>
     (\<forall>i f. i < length (openf m) \<and> openf m ! i = Some f \<longrightarrow>
        (\<exists>d. fds m (ofile f) = Some d \<and> (otype f = 0 \<longrightarrow> writable d)) \<and> (2 \<le> i \<longrightarrow> otype f = 0 \<or> otype f = 1)) \<and>
     (\<forall>i j f g. i < length (openf m) \<and> j < length (openf m) \<and> i \<noteq> j \<and> openf m ! i = Some f \<and> openf m ! j = Some g \<longrightarrow>
        ofile f \<noteq> ofile g) \<and>
     (\<forall>fd d. fds m fd = Some d \<longrightarrow> fd < brk_host m \<and> inode d < brk_host m \<and> 0 \<le> offset d) \<and>
     (\<forall>name i. names m name = Some i \<longrightarrow> i < brk_host m) \<and> (\<forall>i. 0 \<le> entropy m i)"

text \<open>
  \<open>kept m0 m\<close>: the kernel may have changed register 2, memory, the files and the console, and
  nothing else.
\<close>

definition kept :: "'a sysenv_scheme \<Rightarrow> 'a sysenv_scheme \<Rightarrow> bool" where
  "kept m0 m \<longleftrightarrow> machine_ok m \<and> sys_ok m \<and> same_space m0 m \<and> mstatus m = mstatus m0 \<and>
     (\<forall>i. i \<noteq> 2 \<longrightarrow> reg i m = reg i m0) \<and> entropy m = entropy m0 \<and> sysenv.more m = sysenv.more m0"

lemma kept_refl: "machine_ok m \<Longrightarrow> sys_ok m \<Longrightarrow> kept m m"
  by (simp add: kept_def same_space_def)

text \<open>Changes that do not concern the machine, and those that do not concern the invariant.\<close>

lemma machine_ok_sysenv [simp]:
  "machine_ok (m\<lparr>openf := o'\<rparr>) = machine_ok m" "machine_ok (m\<lparr>names := ns\<rparr>) = machine_ok m"
  "machine_ok (m\<lparr>inodes := is\<rparr>) = machine_ok m" "machine_ok (m\<lparr>fds := fs\<rparr>) = machine_ok m"
  "machine_ok (m\<lparr>brk_host := b\<rparr>) = machine_ok m" "machine_ok (m\<lparr>conIn := cs\<rparr>) = machine_ok m"
  "machine_ok (m\<lparr>conEof := e\<rparr>) = machine_ok m" "machine_ok (m\<lparr>conOut := cs\<rparr>) = machine_ok m"
  "machine_ok (m\<lparr>drawn := n\<rparr>) = machine_ok m"
  by (simp_all add: machine_ok_def reg_def split: option.splits)

lemma kept_neutral [simp]:
  "kept m0 (m\<lparr>inodes := f\<rparr>) = kept m0 m" "kept m0 (m\<lparr>conIn := cs\<rparr>) = kept m0 m" "kept m0 (m\<lparr>conEof := b\<rparr>) = kept m0 m"
  "kept m0 (m\<lparr>conOut := cs\<rparr>) = kept m0 m" "kept m0 (m\<lparr>drawn := n\<rparr>) = kept m0 m"
  by (simp_all add: kept_def sys_ok_def same_space_def reg_def)

lemma WriteRegister_eq:
  "machine_ok m \<Longrightarrow> 0 \<le> n \<Longrightarrow> n < 40 \<Longrightarrow> Machine_WriteRegister n v m = Inr (set_reg (nat n) v m)"
  "machine_ok m \<Longrightarrow> 0 \<le> n \<Longrightarrow> n < 40 \<Longrightarrow> Machine_ReadRegister n m = Inr (reg (nat n) m)"
  by (simp_all add: Machine_WriteRegister_def Machine_ReadRegister_def machine_ok_def NumTotalRegs_def set_reg_def reg_def)

lemma sys_ok_set_reg [simp]: "sys_ok (set_reg i v m) = sys_ok m"
  by (simp add: set_reg_def sys_ok_def)

lemma set_reg_more [simp]: "entropy (set_reg i v m) = entropy m" "sysenv.more (set_reg i v m) = sysenv.more m"
  by (simp_all add: set_reg_def)

lemma result_reg_kept: "kept m0 m \<Longrightarrow> safe F (kept m0) (result_reg v m)"
  by (simp add: kept_def WriteRegister_eq machine_ok_set_reg LoadReg_def same_space_def)

section \<open>Access to user memory\<close>

text \<open>A handler that halts on every translation fault, as the kernel's does.\<close>

definition halts :: "'a handler \<Rightarrow> bool" where
  "halts h \<longleftrightarrow> (\<forall>e \<in> translation_faults. \<forall>m. length (registers m) = NumTotalRegs \<longrightarrow> h e m = Inl Halt)"

lemma halts_handle_exception: "halts (handle_exception h)"
  by (auto simp: halts_def handle_exception_def Machine_ReadRegister_def NumTotalRegs_def translation_faults_def SysHalt_def)

lemma RaiseException_halts:
  assumes "halts h" and "machine_ok m" and "e \<in> translation_faults"
  shows "RaiseException h e va m = Inl Halt"
proof -
  have "machine_ok (set_reg BadVAddrReg va m)" using assms(2) by (simp add: reg_names)
  from DelayedLoad_ok [OF this, of 0 0] obtain m' where "DelayedLoad 0 0 (set_reg BadVAddrReg va m) = Inr m'" "machine_ok m'"
    by auto
  then show ?thesis
    using assms(1,3) by (simp add: RaiseException_def halts_def machine_ok_def)
qed

lemma sys_ok_more: "machine.more m' = machine.more m \<Longrightarrow> sys_ok m' = sys_ok (m :: 'a sysenv_scheme)"
  by (cases m; cases m') (simp add: sys_ok_def)

lemma sysenv_more:
  assumes "machine.more m' = machine.more (m :: 'a sysenv_scheme)"
  shows "entropy m' = entropy m" "sysenv.more m' = sysenv.more m" "openf m' = openf m" "names m' = names m" "inodes m' = inodes m"
    "fds m' = fds m" "conIn m' = conIn m" "conEof m' = conEof m" "conOut m' = conOut m" "junk m' = junk m" "creatable m' = creatable m"
    "brk_host m' = brk_host m"
  using assms by (cases m; cases m'; simp)+

lemma Translate_mstatus: "Translate va sz w m = Inr (r, m') \<Longrightarrow> mstatus m' = mstatus m"
  by (auto simp: Translate_def Let_def require_def elim!: rbind_InrE split: if_split_asm option.split_asm sum.split_asm)

lemma ReadMem_mstatus: "ReadMem h va sz m = Inr (Some v, m') \<Longrightarrow> mstatus m' = mstatus m"
  by (auto simp: ReadMem_def elim!: rbind_InrE split: sum.split_asm dest!: Translate_mstatus)

lemma WriteMem_mstatus: "WriteMem h va sz v m = Inr (True, m') \<Longrightarrow> mstatus m' = mstatus m"
  by (auto simp: WriteMem_def elim!: rbind_InrE split: sum.split_asm dest!: Translate_mstatus)

lemma kept_step:
  assumes "kept m0 m" and "machine_ok m'" and "registers m' = registers m" and "machine.more m' = machine.more m"
    and "same_space m m'" and "mstatus m' = mstatus m"
  shows "kept m0 m'"
  using assms(1,2,3,5,6) sys_ok_more [OF assms(4)] sysenv_more(1,2) [OF assms(4)] by (simp add: kept_def same_space_def reg_def)

lemma ReadMem_kept:
  assumes "halts h" and "kept m0 m"
  shows "safe {Halt} (\<lambda>(v, m'). v \<noteq> None \<and> kept m0 m' \<and> machine.more m' = machine.more m) (ReadMem h va 1 m)"
proof -
  have ok: "machine_ok m" using assms(2) by (simp add: kept_def)
  show ?thesis
  proof (rule ReadMem_ok [OF ok, of 1 h va])
    fix e assume "e \<in> translation_faults" "ReadMem h va 1 m = rbind (RaiseException h e va m) (\<lambda>m2. Inr (None, m2))"
    then show ?thesis by (simp add: RaiseException_halts [OF assms(1) ok])
  next
    fix v m'
    assume a: "ReadMem h va 1 m = Inr (Some v, m')" "machine_ok m'" "registers m' = registers m"
      "machine.more m' = machine.more m" "same_space m m'"
    then show ?thesis using kept_step [OF assms(2) a(2-5) ReadMem_mstatus [OF a(1)]] by simp
  qed simp
qed

lemma WriteMem_kept:
  assumes "halts h" and "kept m0 m"
  shows "safe {Halt} (\<lambda>(b, m'). kept m0 m' \<and> machine.more m' = machine.more m) (WriteMem h va 1 v m)"
proof -
  have ok: "machine_ok m" using assms(2) by (simp add: kept_def)
  show ?thesis
  proof (rule WriteMem_ok [OF ok, of 1 h va v])
    fix e assume "e \<in> translation_faults" "WriteMem h va 1 v m = rbind (RaiseException h e va m) (\<lambda>m2. Inr (False, m2))"
    then show ?thesis by (simp add: RaiseException_halts [OF assms(1) ok])
  next
    fix m' e
    assume a: "WriteMem h va 1 v m = Inr (True, m')" "machine_ok m'" "registers m' = registers m"
      "machine.more m' = machine.more m" "same_space m m'"
    then show ?thesis using kept_step [OF assms(2) a(2-5) WriteMem_mstatus [OF a(1)]] by simp
  qed simp
qed

text \<open>The buffer that \<open>User2System\<close> returns holds a string: it has a zero.\<close>

lemma User2System_loop_kept:
  assumes "halts h" and "kept m0 m" and "0 \<le> i" and "i + int n < int (length buf)" and "\<forall>j \<ge> nat i. j < length buf \<longrightarrow> buf ! j = 0"
  shows "safe {Halt} (\<lambda>(b, m'). kept m0 m' \<and> machine.more m' = machine.more m \<and> length b = length buf \<and> 0 \<in> set b)
    (User2System_loop h va c i n buf m)"
  using assms(2-)
proof (induction n arbitrary: c i buf m)
  case 0
  then have "buf ! nat i = 0" "nat i < length buf" by (simp_all add: nat_less_iff)
  then have "0 \<in> set buf" by (metis nth_mem)
  then show ?case using 0 by simp
next
  case (Suc n)
  show ?case
  proof (simp, rule safe_rbind [OF ReadMem_kept [OF assms(1) Suc.prems(1)]], clarsimp)
    fix m1 and v :: i32
    assume m1: "kept m0 m1" "machine.more m1 = machine.more m"
    let ?b = "buf[nat i := ucast v]"
    have i: "i < int (length buf)" using Suc.prems(3) by simp
    have set: "arr_set buf i (ucast v) = Inr ?b" using Suc.prems(2) i by simp
    show "safe {Halt} (\<lambda>(b, m'). kept m0 m' \<and> machine.more m' = machine.more m \<and> length b = length buf \<and> 0 \<in> set b)
      (rbind (arr_set buf i (ucast v))
        (\<lambda>buf1. if v = 0 then Inr (buf1, m1) else User2System_loop h va (Some v) (i + 1) n buf1 m1))"
    proof (cases "v = 0")
      case True
      have "?b ! nat i = 0" "nat i < length ?b" using True i Suc.prems(2) by (simp_all add: nat_less_iff)
      then have "0 \<in> set ?b" by (metis nth_mem)
      then show ?thesis using True set m1 by simp
    next
      case False
      have "safe {Halt} (\<lambda>(b, m'). kept m0 m' \<and> machine.more m' = machine.more m1 \<and> length b = length ?b \<and> 0 \<in> set b)
        (User2System_loop h va (Some v) (i + 1) n ?b m1)"
        using Suc.prems m1 by (intro Suc.IH) auto
      then show ?thesis using False set m1(2) by simp
    qed
  qed
qed

lemma sint_plus_1: "sint (w + 1) = (if sint w = 2 ^ 31 - 1 then - (2 ^ 31) else sint w + 1)" for w :: i32
  using sint_ge [of w] sint_lt [of w]
  by (simp add: sint_word_ariths signed_take_bit_int_eq_self_iff)

lemma User2System_kept:
  assumes "halts h" and "kept m0 m" and "sint limit \<ge> -1" and "sint limit < 2 ^ 31 - 1"
  shows "safe {Halt} (\<lambda>(b, m'). kept m0 m' \<and> machine.more m' = machine.more m \<and> int (length b) = sint limit + 1 \<and>
    (0 \<le> sint limit \<longrightarrow> 0 \<in> set b)) (User2System h va limit m)"
proof (cases "sint limit = -1")
  case True
  then show ?thesis using assms by (simp add: User2System_def new_chars_def sint_plus_1)
next
  case False
  let ?b = "map (\<lambda>_. 0 :: byte) (map (junk m) [0..<nat (sint limit + 1)])"
  have e: "User2System h va limit m = User2System_loop h va None 0 (nat (sint limit)) ?b m"
    using assms(3,4) by (simp add: User2System_def new_chars_def sint_plus_1 comp_def)
  have "safe {Halt} (\<lambda>(b, m'). kept m0 m' \<and> machine.more m' = machine.more m \<and> length b = length ?b \<and> 0 \<in> set b)
      (User2System_loop h va None 0 (nat (sint limit)) ?b m)"
    by (rule User2System_loop_kept [OF assms(1,2)]) (use assms(3) False in auto)
  then show ?thesis unfolding e by (rule safe_mono) (use assms(3) in auto)
qed

lemma User2System_aborts:
  assumes "sint limit < -1 \<or> sint limit = 2 ^ 31 - 1"
  shows "User2System h va limit m = Inl Abort"
  using assms by (auto simp: User2System_def new_chars_def sint_plus_1)

lemma System2User_kept:
  assumes "halts h" and "kept m0 m" and "len \<le> int (length buf)"
  shows "safe {Halt} (\<lambda>(k, m'). kept m0 m' \<and> machine.more m' = machine.more m) (System2User h va len buf m)"
proof -
  have "safe {Halt} (\<lambda>(k, m'). kept m0 m' \<and> machine.more m' = machine.more m) (System2User_loop h va len buf i n m)"
    if "kept m0 m" "0 \<le> i" "i < len" "len \<le> i + int n" for i n m
    using that
  proof (induction n arbitrary: i m)
    case (Suc n)
    have g: "arr_get buf i = Inr (buf ! nat i)" using Suc.prems assms(3) by simp
    show ?case
    proof (simp add: g, rule safe_rbind [OF WriteMem_kept [OF assms(1) Suc.prems(1)]], clarsimp)
      fix m1 assume m1: "kept m0 m1" "machine.more m1 = machine.more m"
      assume "i + 1 < len" "buf ! nat i \<noteq> 0"
      then have "safe {Halt} (\<lambda>(k, m'). kept m0 m' \<and> machine.more m' = machine.more m1) (System2User_loop h va len buf (i + 1) n m1)"
        using Suc.prems m1 by (intro Suc.IH) auto
      then show "safe {Halt} (\<lambda>(k, m'). kept m0 m' \<and> machine.more m' = machine.more m) (System2User_loop h va len buf (i + 1) n m1)"
        using m1(2) by simp
    qed
  qed simp
  from this [of m 0 "nat len"] show ?thesis using assms(2) by (simp add: System2User_def)
qed

section \<open>The console\<close>

lemma GetChar_kept: "kept m0 m \<Longrightarrow> safe {Diverges} (\<lambda>(c, m'). kept m0 m') (GetChar m)"
  by (auto simp: GetChar_def split: list.splits)

lemma ReadNum_skip_kept: "kept m0 m \<Longrightarrow> safe {Diverges} (\<lambda>(c, m'). kept m0 m') (ReadNum_skip m)"
proof (induction m rule: ReadNum_skip.induct)
  case (1 m)
  show ?case
    unfolding ReadNum_skip.simps [of m]
  proof (cases "GetChar m")
    case (Inr p)
    obtain c m1 where p: "p = (c, m1)" by (cases p)
    then have "kept m0 m1" using GetChar_kept [OF 1(2)] Inr by simp
    then show "safe {Diverges} (\<lambda>(c, m'). kept m0 m')
      (rbind (GetChar m) (\<lambda>(b, m1). if b = 32 \<or> b = 10 then ReadNum_skip m1 else Inr (b, m1)))"
      using 1(1) [OF Inr p [symmetric]] Inr p by (simp del: ReadNum_skip.simps)
  qed (use GetChar_kept [OF 1(2)] in simp)
qed

lemma ReadNum_digits_kept: "kept m0 m \<Longrightarrow> safe {Diverges} (\<lambda>(n, b, m'). kept m0 m') (ReadNum_digits num b c m)"
proof (induction num b c m rule: ReadNum_digits.induct)
  case (1 num b c m)
  show ?case
    unfolding ReadNum_digits.simps [of num b c m] Let_def
  proof (cases "GetChar m")
    case (Inr p)
    obtain c1 m1 where p: "p = (c1, m1)" by (cases p)
    then have "kept m0 m1" using GetChar_kept [OF 1(2)] Inr by simp
    then show "safe {Diverges} (\<lambda>(n, b, m'). kept m0 m')
      (rbind (GetChar m) (\<lambda>(buffer1, m1).
         if buffer1 \<noteq> 10 \<and> buffer1 \<noteq> 32
         then ReadNum_digits (num * 10 + (scast c - 48)) (b \<and> (is_digit buffer1 \<or> buffer1 = 10 \<or> buffer1 = 32)) buffer1 m1
         else Inr (num * 10 + (scast c - 48), b \<and> (is_digit buffer1 \<or> buffer1 = 10 \<or> buffer1 = 32), m1)))"
      using 1(1) [OF refl Inr p [symmetric] refl] Inr p by (simp del: ReadNum_digits.simps)
  qed (use GetChar_kept [OF 1(2)] in simp)
qed

lemma SysReadNum_kept:
  assumes "kept m0 m"
  shows "safe {Diverges} (\<lambda>(n, m'). kept m0 m') (SysReadNum m)"
  unfolding SysReadNum_def
proof (rule safe_rbind [OF ReadNum_skip_kept [OF assms]], clarsimp simp del: ReadNum_digits.simps, intro conjI impI)
  fix c m1
  assume m1: "kept m0 m1"
  show "safe {Diverges} (\<lambda>(n, m'). kept m0 m') (rbind (GetChar m1) (\<lambda>(buffer1, m2).
       if buffer1 = 10 \<or> buffer1 = 32 then Inr (0, m2)
       else rbind (ReadNum_digits 0 (is_digit buffer1) buffer1 m2) (\<lambda>(num, isInteger, m3).
            Inr (ReadNum_value num isInteger True, m3))))"
    by (rule safe_rbind [OF GetChar_kept [OF m1]], clarsimp simp del: ReadNum_digits.simps,
        rule safe_rbind [OF ReadNum_digits_kept]) auto
  show "safe {Diverges} (\<lambda>(n, m'). kept m0 m') (rbind (ReadNum_digits 0 (is_digit c) c m1) (\<lambda>(num, isInteger, m2).
          Inr (ReadNum_value num isInteger False, m2)))"
    by (rule safe_rbind [OF ReadNum_digits_kept [OF m1]]) auto
qed

lemma ReadString_char_kept: "kept m0 m \<Longrightarrow> safe {Diverges} (\<lambda>(c, m'). kept m0 m') (ReadString_char m)"
proof (induction m rule: ReadString_char.induct)
  case (1 m)
  show ?case
    unfolding ReadString_char.simps [of m]
  proof (cases "GetChar m")
    case (Inr p)
    obtain c m1 where p: "p = (c, m1)" by (cases p)
    then have "kept m0 m1" using GetChar_kept [OF 1(2)] Inr by simp
    then show "safe {Diverges} (\<lambda>(c, m'). kept m0 m')
      (rbind (GetChar m) (\<lambda>(b, m1). if b = EOF then ReadString_char m1 else Inr (b, m1)))"
      using 1(1) [OF Inr p [symmetric]] Inr p by (simp del: ReadString_char.simps)
  qed (use GetChar_kept [OF 1(2)] in simp)
qed

lemma ReadString_loop_kept:
  assumes "kept m0 m" and "0 \<le> i" and "i + int n \<le> int (length buf)"
  shows "safe {Diverges} (\<lambda>(b, m'). kept m0 m' \<and> length b = length buf) (ReadString_loop n i buf m)"
  using assms
proof (induction n arbitrary: i buf m)
  case (Suc n)
  have s: "arr_set buf i c = Inr (buf[nat i := c])" for c using Suc.prems by simp
  show ?case
    unfolding ReadString_loop.simps s rbind_Inr
  proof (rule safe_rbind [OF ReadString_char_kept [OF Suc.prems(1)]], safe)
    fix c m1 assume m1: "kept m0 m1"
    show "safe {Diverges} (\<lambda>(b, m'). kept m0 m' \<and> length b = length buf)
      (if c = 1 \<or> c = 10 then Inr (buf, m1) else ReadString_loop n (i + 1) (buf[nat i := c]) m1)"
      using Suc.IH [OF m1, of "i + 1" "buf[nat i := c]"] Suc.prems m1 by simp
  qed
qed simp

lemma zero_fill:
  assumes "0 \<le> len" and "len \<le> int (length buf)"
  shows "\<exists>b. for_upto len (\<lambda>i b. arr_set b i 0) buf = Inr b \<and> length b = length buf"
  using for_upto_rule [of "\<lambda>_ b. length b = length buf" buf len "\<lambda>i b. arr_set b i 0"] assms by simp

lemma SysReadString_kept:
  assumes "kept m0 m" and "len \<le> int (length buf)"
  shows "safe {Diverges} (\<lambda>(b, m'). kept m0 m' \<and> length b = length buf) (SysReadString buf len m)"
proof (cases "len \<le> 0")
  case False
  then obtain b where b: "for_upto len (\<lambda>i b. arr_set b i 0) buf = Inr b" "length b = length buf"
    using zero_fill [of len buf] assms(2) by auto
  then show ?thesis
    using False assms ReadString_loop_kept [OF assms(1), of 0 "nat len" b] by (simp add: SysReadString_def)
qed (use assms in \<open>simp add: SysReadString_def\<close>)

lemma PutChar_kept [simp]: "kept m0 (PutChar c m) = kept m0 m"
  by (simp add: PutChar_def)

lemma PrintString_loop_kept: "kept m0 m \<Longrightarrow> 0 \<in> set buf \<Longrightarrow> safe F (\<lambda>(n, m'). kept m0 m') (PrintString_loop buf m)"
proof (induction buf arbitrary: m)
  case (Cons c buf)
  show ?case
  proof (cases "c = 0")
    case False
    have "safe F (\<lambda>(n, m'). kept m0 m') (PrintString_loop buf (PutChar c m))" using Cons False by (intro Cons.IH) auto
    then show ?thesis using False by (auto intro: safe_rbind)
  qed (use Cons in simp)
qed simp

lemma SysPrintString_kept: "kept m0 m \<Longrightarrow> 0 \<in> set buf \<Longrightarrow> safe F (kept m0) (SysPrintString buf m)"
  unfolding SysPrintString_def by (rule safe_rbind [OF PrintString_loop_kept]) auto

text \<open>The digits that \<open>SysPrintNum\<close> leaves in its array, the last one first.\<close>

function sdigits :: "int \<Rightarrow> byte list" where
  "sdigits k = (if k = 0 then [] else word_of_int (k smod 10) # sdigits (k sdiv 10))"
  by auto
termination
  by (relation "measure (\<lambda>k. nat \<bar>k\<bar>)") (auto simp: signed_divide_int_def sgn_if abs_mult)

declare sdigits.simps [simp del]

lemma abs_sdiv_10: "\<bar>k sdiv 10\<bar> = \<bar>k\<bar> div (10::int)"
  by (simp add: signed_divide_int_def sgn_if abs_mult)

lemma length_sdigits: "\<bar>k\<bar> < 10 ^ n \<Longrightarrow> length (sdigits k) \<le> n"
proof (induction n arbitrary: k)
  case 0
  then show ?case by (simp add: sdigits.simps)
next
  case (Suc n)
  have "\<bar>k sdiv 10\<bar> < 10 ^ n" using Suc.prems by (simp add: abs_sdiv_10)
  from Suc.IH [OF this] show ?case by (simp add: sdigits.simps [of k])
qed

lemma PrintNum_digits_eq:
  "i + length (sdigits k) \<le> length arr \<Longrightarrow>
   PrintNum_digits k arr (int i) =
     Inr (take i arr @ sdigits k @ drop (i + length (sdigits k)) arr, int (i + length (sdigits k)))"
proof (induction k arbitrary: i arr rule: sdigits.induct)
  case (1 k)
  show ?case
  proof (cases "k = 0")
    case True
    then show ?thesis by (simp add: sdigits.simps)
  next
    case False
    let ?d = "word_of_int (k smod 10) :: byte"
    have s: "sdigits k = ?d # sdigits (k sdiv 10)" using False by (simp add: sdigits.simps [of k])
    have l: "Suc i + length (sdigits (k sdiv 10)) \<le> length (arr[i := ?d])" using "1.prems" s by simp
    have "PrintNum_digits k arr (int i) = PrintNum_digits (k sdiv 10) (arr[i := ?d]) (int (Suc i))"
      using False l by (simp add: PrintNum_digits.simps [of k] add.commute)
    also have "\<dots> = Inr (take (Suc i) (arr[i := ?d]) @ sdigits (k sdiv 10) @ drop (Suc i + length (sdigits (k sdiv 10))) (arr[i := ?d]),
        int (Suc i + length (sdigits (k sdiv 10))))"
      by (rule "1.IH" [OF False l])
    also have "\<dots> = Inr (take i arr @ sdigits k @ drop (i + length (sdigits k)) arr, int (i + length (sdigits k)))"
      using l s by (simp add: take_Suc_update)
    finally show ?thesis .
  qed
qed

definition print_bytes :: "byte list \<Rightarrow> 'a sysenv_scheme \<Rightarrow> 'a sysenv_scheme" where
  "print_bytes bs m = m\<lparr>conOut := conOut m @ bs\<rparr>"

lemma print_digits:
  "n \<le> length arr \<Longrightarrow>
   rfold (\<lambda>j m1. rbind (arr_get arr (int j)) (\<lambda>d. Inr (PutChar (48 + d) m1))) (rev [0..<n]) m =
     Inr (print_bytes (map ((+) 48) (rev (take n arr))) m)"
proof (induction n arbitrary: m)
  case 0
  then show ?case by (simp add: print_bytes_def)
next
  case (Suc n)
  then have "rev (take (Suc n) arr) = arr ! n # rev (take n arr)" by (simp add: take_Suc_conv_app_nth)
  then show ?case using Suc by (simp add: print_bytes_def PutChar_def)
qed

definition printed :: "i32 \<Rightarrow> byte list" where
  "printed num = (if num = 0 then [48] else map ((+) 48) (rev (sdigits (sint (if sint num < 0 then - num else num)))))"

lemma SysPrintNum_eq: "SysPrintNum num m = Inr (print_bytes (printed num) m)"
proof (cases "num = 0")
  case True
  then show ?thesis by (simp add: SysPrintNum_def printed_def print_bytes_def PutChar_def)
next
  case False
  let ?k = "sint (if sint num < 0 then - num else num)"
  have "\<bar>?k\<bar> < 10 ^ 10"
    using sint_ge [of num] sint_lt [of num] sint_ge [of "- num"] sint_lt [of "- num"] by auto
  then have l: "length (sdigits ?k) \<le> 10" by (rule length_sdigits)
  then have "PrintNum_digits ?k (map (junk m) [0..<10]) 0 =
      Inr (sdigits ?k @ drop (length (sdigits ?k)) (map (junk m) [0..<10]), int (length (sdigits ?k)))"
    using PrintNum_digits_eq [of 0 ?k "map (junk m) [0..<10]"] by simp
  then show ?thesis
    using False l by (simp add: SysPrintNum_def printed_def print_digits Let_def del: PrintNum_digits.simps upt_rec_numeral)
qed

lemma print_bytes_kept [simp]: "kept m0 (print_bytes bs m) = kept m0 m"
  by (simp add: print_bytes_def)

section \<open>Files\<close>

lemma sys_okD:
  assumes "sys_ok m"
  shows "length (openf m) = 15" "i < length (openf m) \<Longrightarrow> openf m ! i = Some f \<Longrightarrow> \<exists>d. fds m (ofile f) = Some d \<and> (otype f = 0 \<longrightarrow> writable d)"
    "i < length (openf m) \<Longrightarrow> openf m ! i = Some f \<Longrightarrow> 2 \<le> i \<Longrightarrow> otype f = 0 \<or> otype f = 1"
    "fds m fd = Some d \<Longrightarrow> fd < brk_host m \<and> inode d < brk_host m \<and> 0 \<le> offset d"
    "names m name = Some j \<Longrightarrow> j < brk_host m"
  using assms unfolding sys_ok_def MAX_FILE_OPEN_def by (simp, blast, blast, blast, blast)

text \<open>Moving the offset of a descriptor.\<close>

lemma sys_ok_offset:
  "sys_ok m \<Longrightarrow> fds m fd = Some d \<Longrightarrow> 0 \<le> p \<Longrightarrow> sys_ok (m\<lparr>fds := (fds m)(fd \<mapsto> d\<lparr>offset := p\<rparr>)\<rparr>)"
  by (fastforce simp: sys_ok_def)

lemma kept_fds: "kept m0 m \<Longrightarrow> sys_ok (m\<lparr>fds := F\<rparr>) \<Longrightarrow> kept m0 (m\<lparr>fds := F\<rparr>)"
  by (simp add: kept_def same_space_def reg_def)

lemma kept_openf: "kept m0 m \<Longrightarrow> sys_ok (m\<lparr>openf := F\<rparr>) \<Longrightarrow> kept m0 (m\<lparr>openf := F\<rparr>)"
  by (simp add: kept_def same_space_def reg_def)

lemma kept_names: "kept m0 m \<Longrightarrow> sys_ok (m\<lparr>names := F, brk_host := b\<rparr>) \<Longrightarrow> kept m0 (m\<lparr>names := F, brk_host := b\<rparr>)"
  by (simp add: kept_def same_space_def reg_def)

lemma kept_sys_ok: "kept m0 m \<Longrightarrow> sys_ok m" "kept m0 m \<Longrightarrow> machine_ok m"
  by (simp_all add: kept_def)

lemma kept_offset: "kept m0 m \<Longrightarrow> fds m fd = Some d \<Longrightarrow> 0 \<le> p \<Longrightarrow> kept m0 (m\<lparr>fds := (fds m)(fd \<mapsto> d\<lparr>offset := p\<rparr>)\<rparr>)"
  by (intro kept_fds sys_ok_offset) (auto dest: kept_sys_ok)

text \<open>An entry may get another \<open>currentOffset\<close>.\<close>

lemma sys_ok_put_file:
  assumes "sys_ok m" and "nat (sint fid) < length (openf m)" and "openf m ! nat (sint fid) = Some f" and "ofile f' = ofile f" and "otype f' = otype f"
  shows "sys_ok (put_file fid f' m)"
proof -
  let ?o = "(openf m)[nat (sint fid) := Some f']"
  have e: "\<exists>g. openf m ! i = Some g \<and> ofile g = ofile h \<and> otype g = otype h" if "i < length ?o" "?o ! i = Some h" for i h
    using that assms by (cases "i = nat (sint fid)") auto
  show ?thesis
    using assms(1) unfolding sys_ok_def put_file_def
    by (simp, intro conjI allI impI) (metis e length_list_update)+
qed

lemma kept_put_file:
  assumes "kept m0 m" and "nat (sint fid) < length (openf m)" and "openf m ! nat (sint fid) = Some f" and "ofile f' = ofile f" and "otype f' = otype f"
  shows "kept m0 (put_file fid f' m)"
  using sys_ok_put_file [OF kept_sys_ok(1) [OF assms(1)] assms(2-5)] kept_openf [OF assms(1)] by (simp add: put_file_def)

text \<open>A new descriptor.\<close>

lemma sys_ok_new_fd: "sys_ok m \<Longrightarrow> i < brk_host m \<Longrightarrow> sys_ok (snd (new_fd i w m))"
  by (fastforce simp: sys_ok_def new_fd_def)

lemma kept_new_fd:
  assumes "kept m0 m" and "i < brk_host m"
  shows "kept m0 (snd (new_fd i w m))"
  using sys_ok_new_fd [OF kept_sys_ok(1) [OF assms(1)] assms(2), of w] assms(1)
  by (simp add: kept_def new_fd_def same_space_def reg_def)

lemma sys_ok_new_name: "sys_ok m \<Longrightarrow> sys_ok (m\<lparr>names := (names m)(name \<mapsto> brk_host m), brk_host := Suc (brk_host m)\<rparr>)"
  by (fastforce simp: sys_ok_def)

lemma fds_new_fd: "sys_ok m \<Longrightarrow> fds (snd (new_fd i w m)) (fst (new_fd i w m)) = Some \<lparr>inode = i, offset = 0, writable = w\<rparr>"
  "openf (snd (new_fd i w m)) = openf m" "fst (new_fd i w m) = brk_host m"
  by (simp_all add: new_fd_def)

lemma OpenForWrite_kept:
  assumes "kept m0 m"
  shows "safe (if names m name = None \<and> \<not> creatable m name then {Abort} else {})
    (\<lambda>(fd, m'). kept m0 m' \<and> fds m' fd \<noteq> None \<and> openf m' = openf m \<and> (\<forall>i < length (openf m). \<forall>f. openf m ! i = Some f \<longrightarrow> ofile f \<noteq> fd))
    (OpenForWrite name m)"
proof -
  have fresh: "ofile f \<noteq> b" if "openf m ! i = Some f" "i < length (openf m)" "b \<ge> brk_host m" for i f b
    using sys_okD(2) [OF kept_sys_ok(1) [OF assms] that(2,1)] sys_okD(4) [OF kept_sys_ok(1) [OF assms]] that(3) by fastforce
  show ?thesis
  proof (cases "names m name")
    case None
    let ?m = "m\<lparr>names := (names m)(name \<mapsto> brk_host m), inodes := (inodes m)(brk_host m := []), brk_host := Suc (brk_host m)\<rparr>"
    have "kept m0 (m\<lparr>names := (names m)(name \<mapsto> brk_host m), brk_host := Suc (brk_host m)\<rparr>)"
      by (intro kept_names assms sys_ok_new_name kept_sys_ok [OF assms])
    moreover have "?m = m\<lparr>names := (names m)(name \<mapsto> brk_host m), brk_host := Suc (brk_host m)\<rparr>\<lparr>inodes := (inodes m)(brk_host m := [])\<rparr>"
      by simp
    ultimately have k: "kept m0 ?m" by (simp only: kept_neutral)
    show ?thesis
      using None fresh kept_new_fd [OF k, of "brk_host m" True]
      by (simp add: OpenForWrite_def require_def Let_def split_beta new_fd_def)
  next
    case (Some i)
    let ?m = "m\<lparr>inodes := (inodes m)(i := [])\<rparr>"
    have k: "kept m0 ?m" using assms by simp
    have "i < brk_host m" using sys_okD(5) [OF kept_sys_ok(1) [OF assms] Some] .
    then show ?thesis
      using Some fresh kept_new_fd [OF k, of i True] by (simp add: OpenForWrite_def new_fd_def)
  qed
qed

lemma kept_close:
  assumes "kept m0 m" and "\<forall>i < length (openf m). \<forall>f. openf m ! i = Some f \<longrightarrow> ofile f \<noteq> fd"
  shows "kept m0 (m\<lparr>fds := (fds m)(fd := None)\<rparr>)"
proof (rule kept_fds [OF assms(1)])
  show "sys_ok (m\<lparr>fds := (fds m)(fd := None)\<rparr>)"
    using kept_sys_ok(1) [OF assms(1)] assms(2) by (fastforce simp: sys_ok_def)
qed

lemma c_string_ok: "0 \<in> set bs \<Longrightarrow> \<exists>name. c_string bs = Inr name"
  by (induction bs) (auto simp: rbind_eq_Inr)

lemma SysCreateFile_kept:
  assumes "kept m0 m" and "0 \<in> set filename"
  shows "safe (if \<forall>name. creatable m name then {} else {Abort}) (kept m0) (SysCreateFile filename m)"
proof -
  obtain name where n: "c_string filename = Inr name"
    using c_string_ok [OF assms(2)] by blast
  show ?thesis
  proof (cases "name = []")
    case True
    then show ?thesis using n result_reg_kept [OF assms(1)] by (simp add: SysCreateFile_def)
  next
    case False
    have "safe (if \<forall>name. creatable m name then {} else {Abort}) (kept m0)
      (rbind (OpenForWrite name m) (\<lambda>(fd, m1). rbind (rbind (Close fd m1) (\<lambda>m2. Inr (True, m2)))
         (\<lambda>(b, m2). if \<not> b then result_reg (- 1) m2 else result_reg 0 m2)))"
    proof (rule safe_rbind [OF safe_weaken [OF OpenForWrite_kept [OF assms(1), of name]]], safe)
      fix fd m1 y
      assume a: "kept m0 m1" "fds m1 fd = Some y" "openf m1 = openf m"
        "\<forall>i < length (openf m). \<forall>f. openf m ! i = Some f \<longrightarrow> ofile f \<noteq> fd"
      have "kept m0 (m1\<lparr>fds := (fds m1)(fd := None)\<rparr>)" using a by (intro kept_close) simp_all
      from result_reg_kept [OF this] a(2)
      show "safe (if \<forall>name. creatable m name then {} else {Abort}) (kept m0)
        (rbind (rbind (Close fd m1) (\<lambda>m2. Inr (True, m2))) (\<lambda>(b, m2). if \<not> b then result_reg (- 1) m2 else result_reg 0 m2))"
        by (simp add: Close_def)
    qed (auto split: if_split_asm)
    then show ?thesis
      using n False by (simp add: SysCreateFile_def StubFS_Create_def rbind_assoc split_def)
  qed
qed

lemma find_slot_ok:
  assumes "0 \<le> i" and "i + int n \<le> int (length fs)"
  shows "\<exists>k. find_slot fs i n = Inr k \<and> (k = -1 \<or> i \<le> k \<and> k < i + int n \<and> fs ! nat k = None \<and> (\<forall>j. i \<le> j \<and> j < k \<longrightarrow> fs ! nat j \<noteq> None))
    \<and> (k = -1 \<longrightarrow> (\<forall>j. i \<le> j \<and> j < i + int n \<longrightarrow> fs ! nat j \<noteq> None))"
  using assms
proof (induction n arbitrary: i)
  case (Suc n)
  show ?case
  proof (cases "fs ! nat i = None")
    case True
    then show ?thesis using Suc.prems by auto
  next
    case False
    from Suc.IH [of "i + 1"] Suc.prems obtain k where k: "find_slot fs (i + 1) n = Inr k"
      "k = -1 \<or> i + 1 \<le> k \<and> k < i + 1 + int n \<and> fs ! nat k = None \<and> (\<forall>j. i + 1 \<le> j \<and> j < k \<longrightarrow> fs ! nat j \<noteq> None)"
      "k = -1 \<longrightarrow> (\<forall>j. i + 1 \<le> j \<and> j < i + 1 + int n \<longrightarrow> fs ! nat j \<noteq> None)" by auto
    have s: "i \<le> j \<longleftrightarrow> j = i \<or> i + 1 \<le> j" for j by auto
    have "find_slot fs i (Suc n) = Inr k" using False k(1) Suc.prems by auto
    moreover have "k = -1 \<or> i \<le> k \<and> k < i + int (Suc n) \<and> fs ! nat k = None \<and> (\<forall>j. i \<le> j \<and> j < k \<longrightarrow> fs ! nat j \<noteq> None)"
      using k(2) False s by auto
    moreover have "k = -1 \<longrightarrow> (\<forall>j. i \<le> j \<and> j < i + int (Suc n) \<longrightarrow> fs ! nat j \<noteq> None)"
      using k(3) False s by auto
    ultimately show ?thesis by blast
  qed
qed auto

text \<open>\<open>FindFreeSlot\<close> returns the least free entry from 2 on, or -1 when there is none.\<close>

lemma FindFreeSlot_ok:
  assumes "sys_ok m"
  obtains k where "StubFS_FindFreeSlot m = Inr k"
    "k = -1 \<or> 2 \<le> k \<and> k < 15 \<and> openf m ! nat k = None \<and> (\<forall>j. 2 \<le> j \<and> j < k \<longrightarrow> openf m ! nat j \<noteq> None)"
    "k = -1 \<longrightarrow> (\<forall>j. 2 \<le> j \<and> j < 15 \<longrightarrow> openf m ! nat j \<noteq> None)"
  using find_slot_ok [of 2 13 "openf m"] sys_okD(1) [OF assms] by (auto simp: StubFS_FindFreeSlot_def MAX_FILE_OPEN_def)

lemma sys_ok_add_file:
  assumes "sys_ok m" and "k < length (openf m)" and "openf m ! k = None" and "fds m (ofile f) = Some d" and "otype f = 0 \<longrightarrow> writable d"
    and "otype f = 0 \<or> otype f = 1" and "\<forall>i < length (openf m). \<forall>g. openf m ! i = Some g \<longrightarrow> ofile g \<noteq> ofile f"
  shows "sys_ok (m\<lparr>openf := (openf m)[k := Some f]\<rparr>)"
  using assms unfolding sys_ok_def by (simp add: nth_list_update) metis

lemma SysOpen_kept:
  assumes "kept m0 m" and "0 \<in> set filename"
  shows "safe F (kept m0) (SysOpen filename ty m)"
proof -
  note ok = kept_sys_ok(1) [OF assms(1)]
  obtain name where n: "c_string filename = Inr name" using c_string_ok [OF assms(2)] by blast
  obtain k where k: "StubFS_FindFreeSlot m = Inr k"
    "k = -1 \<or> 2 \<le> k \<and> k < 15 \<and> openf m ! nat k = None \<and> (\<forall>j. 2 \<le> j \<and> j < k \<longrightarrow> openf m ! nat j \<noteq> None)"
    by (rule FindFreeSlot_ok [OF ok])
  consider "k = -1 \<or> ty = 2 \<or> ty = 3" | "k \<noteq> -1" "ty \<notin> {0, 1, 2, 3}" | "k \<noteq> -1" "ty = 0 \<or> ty = 1" by blast
  then show ?thesis
  proof cases
    case 1
    then show ?thesis using k(1) result_reg_kept [OF assms(1)] by (auto simp: SysOpen_def)
  next
    case 2
    then show ?thesis using k(1) assms(1) by (simp add: SysOpen_def)
  next
    case 3
    show ?thesis
    proof (cases "names m name")
      case None
      then show ?thesis using 3 k(1) n assms(1)
        by (auto simp: SysOpen_def StubFS_Open_def OpenForReadWrite_def OpenForRead_def open_existing_def)
    next
      case (Some i)
      let ?w = "ty = 0"
      let ?m = "snd (new_fd i ?w m)" and ?f = "\<lparr>ofile = brk_host m, otype = ty, currentOffset = 0\<rparr>"
      have kk: "2 \<le> k" "k < 15" "openf m ! nat k = None" using 3 k(2) by auto
      have i: "i < brk_host m" using sys_okD(5) [OF ok Some] .
      have fresh: "ofile g \<noteq> brk_host m" if "openf m ! j = Some g" "j < length (openf m)" for j g
        using sys_okD(2) [OF ok that(2,1)] sys_okD(4) [OF ok] by fastforce
      have o: "openf ?m = openf m" by (simp add: new_fd_def)
      have "sys_ok (?m\<lparr>openf := (openf ?m)[nat k := Some ?f]\<rparr>)"
      proof (rule sys_ok_add_file [OF sys_ok_new_fd [OF ok i]])
        show "fds ?m (ofile ?f) = Some \<lparr>inode = i, offset = 0, writable = ?w\<rparr>" by (simp add: new_fd_def)
      qed (use kk 3 fresh o sys_okD(1) [OF ok] in \<open>auto simp: nat_less_iff\<close>)
      then have kf: "kept m0 (?m\<lparr>openf := (openf ?m)[nat k := Some ?f]\<rparr>)"
        by (rule kept_openf [OF kept_new_fd [OF assms(1) i]])
      have "SysOpen filename ty m = result_reg (word_of_int k) (?m\<lparr>openf := (openf ?m)[nat k := Some ?f]\<rparr>)"
        using 3 k(1) n Some kk o sys_okD(1) [OF ok]
        by (auto simp: SysOpen_def StubFS_Open_def OpenForReadWrite_def OpenForRead_def open_existing_def new_fd_def)
      then show ?thesis using result_reg_kept [OF kf] by simp
    qed
  qed
qed

lemma sys_ok_drop_file:
  assumes "sys_ok m"
  shows "sys_ok (m\<lparr>openf := (openf m)[k := None]\<rparr>)"
proof -
  have e: "openf m ! i = Some h" if "i < length ((openf m)[k := None])" "(openf m)[k := None] ! i = Some h" for i h
    using that by (cases "i = k") auto
  show ?thesis
    using assms unfolding sys_ok_def by (simp, intro conjI allI impI) (metis e length_list_update)+
qed

lemma SysClose_kept:
  assumes "kept m0 m"
  shows "safe F (\<lambda>(r, m'). kept m0 m') (SysClose fid m)"
proof -
  note ok = kept_sys_ok(1) [OF assms]
  let ?i = "nat (sint fid)"
  show ?thesis
  proof (cases "0 \<le> sint fid \<and> sint fid \<le> 14 \<and> openf m ! ?i \<noteq> None")
    case True
    then obtain f where f: "openf m ! ?i = Some f" by blast
    have i: "?i < length (openf m)" using True sys_okD(1) [OF ok] by (simp add: nat_less_iff)
    obtain d where d: "fds m (ofile f) = Some d" using sys_okD(2) [OF ok i f] by blast
    let ?m = "m\<lparr>fds := (fds m)(ofile f := None), openf := (openf m)[?i := None]\<rparr>"
    have "kept m0 (m\<lparr>openf := (openf m)[?i := None]\<rparr>\<lparr>fds := (fds (m\<lparr>openf := (openf m)[?i := None]\<rparr>))(ofile f := None)\<rparr>)"
    proof (rule kept_close)
      show "kept m0 (m\<lparr>openf := (openf m)[?i := None]\<rparr>)"
        by (rule kept_openf [OF assms sys_ok_drop_file [OF ok]])
      show "\<forall>j<length (openf (m\<lparr>openf := (openf m)[?i := None]\<rparr>)). \<forall>g. openf (m\<lparr>openf := (openf m)[?i := None]\<rparr>) ! j = Some g \<longrightarrow> ofile g \<noteq> ofile f"
      proof (intro allI impI)
        fix j g
        assume j: "j < length (openf (m\<lparr>openf := (openf m)[?i := None]\<rparr>))" "openf (m\<lparr>openf := (openf m)[?i := None]\<rparr>) ! j = Some g"
        then have "j \<noteq> ?i" by auto
        then have "j \<noteq> ?i" "openf m ! j = Some g" "j < length (openf m)" using j by simp_all
        then show "ofile g \<noteq> ofile f" using ok f i unfolding sys_ok_def by metis
      qed
    qed
    moreover have "m\<lparr>openf := (openf m)[?i := None]\<rparr>\<lparr>fds := (fds (m\<lparr>openf := (openf m)[?i := None]\<rparr>))(ofile f := None)\<rparr> = ?m"
      by simp
    ultimately have "kept m0 ?m" by (simp only:)
    then show ?thesis
      using True f d i sys_okD(1) [OF ok] by (simp add: SysClose_def Close_def)
  next
    case False
    then show ?thesis using assms sys_okD(1) [OF ok] by (auto simp: SysClose_def)
  qed
qed

lemma SysRemove_kept:
  assumes "kept m0 m" and "0 \<in> set filename"
  shows "safe F (\<lambda>(r, m'). kept m0 m') (SysRemove filename m)"
proof -
  obtain name where n: "c_string filename = Inr name" using c_string_ok [OF assms(2)] by blast
  have "sys_ok (m\<lparr>names := (names m)(name := None)\<rparr>)" using kept_sys_ok(1) [OF assms(1)] by (auto simp: sys_ok_def)
  then have "kept m0 (m\<lparr>names := (names m)(name := None)\<rparr>)" using kept_names [OF assms(1), where F = "(names m)(name := None)" and b = "brk_host m"] by simp
  then show ?thesis using n assms(1) by (simp add: SysRemove_def StubFS_Remove_def Unlink_def)
qed

text \<open>An open file behind entry 1 of the table: what the file calls rely on.\<close>

lemma open_file:
  assumes "sys_ok m" and "2 \<le> sint fid" and "sint fid < 15" and "openf m ! nat (sint fid) = Some f"
  obtains d where "fds m (ofile f) = Some d" "otype f = 0 \<longrightarrow> writable d" "otype f = 0 \<or> otype f = 1" "0 \<le> offset d"
    "nat (sint fid) < length (openf m)"
proof -
  have i: "nat (sint fid) < length (openf m)" "2 \<le> nat (sint fid)" using assms(2,3) sys_okD(1) [OF assms(1)] by (simp_all add: nat_less_iff)
  obtain d where d: "fds m (ofile f) = Some d" "otype f = 0 \<longrightarrow> writable d" using sys_okD(2) [OF assms(1) i(1) assms(4)] by blast
  show ?thesis using that [OF d sys_okD(3) [OF assms(1) i(1) assms(4) i(2)] _ i(1)] sys_okD(4) [OF assms(1) d(1)] by blast
qed

lemma SysSeek_kept:
  assumes "kept m0 m"
  shows "safe (if sint fid = 15 then {WildAccess} else {}) (kept m0) (SysSeek pos fid m)"
proof -
  note ok = kept_sys_ok(1) [OF assms]
  consider "sint fid < 2 \<or> sint fid > 15" | "sint fid = 15" | "2 \<le> sint fid" "sint fid < 15" "openf m ! nat (sint fid) = None"
    | f where "2 \<le> sint fid" "sint fid < 15" "openf m ! nat (sint fid) = Some f" by fastforce
  then show ?thesis
  proof cases
    case 1
    then show ?thesis using result_reg_kept [OF assms] by (simp add: SysSeek_def MAX_FILE_OPEN_def)
  next
    case 2
    then show ?thesis using sys_okD(1) [OF ok] by (simp add: SysSeek_def MAX_FILE_OPEN_def arr_get_def)
  next
    case 3
    then show ?thesis using result_reg_kept [OF assms] sys_okD(1) [OF ok] by (simp add: SysSeek_def MAX_FILE_OPEN_def)
  next
    case (4 f)
    obtain d where d: "fds m (ofile f) = Some d" "0 \<le> offset d" "nat (sint fid) < length (openf m)"
      by (rule open_file [OF ok 4])
    let ?len = "int (length (inodes m (inode d)))" and ?m = "\<lambda>p. m\<lparr>fds := (fds m)(ofile f \<mapsto> d\<lparr>offset := p\<rparr>)\<rparr>"
    let ?p = "if pos = -1 then ?len else sint pos"
    have ids: "fid \<noteq> 0" "fid \<noteq> 1" using 4(1) by auto
    have eq: "SysSeek pos fid m =
      (if ?p > ?len \<or> ?p < 0 then result_reg (-1) (?m ?len)
       else result_reg (word_of_int ?p) (put_file fid (f\<lparr>currentOffset := ?p\<rparr>) (?m ?p)))"
      using 4 d ids sys_okD(1) [OF ok]
      by (simp add: SysSeek_def MAX_FILE_OPEN_def StubFile_Length_def StubFile_Seek_def Lseek_def Tell_def Let_def)
    have k: "kept m0 (?m p)" if "0 \<le> p" for p using kept_offset [OF assms d(1) that] .
    have "kept m0 (put_file fid (f\<lparr>currentOffset := p\<rparr>) (?m p))" if "0 \<le> p" for p
      by (rule kept_put_file [OF k [OF that], of fid f]) (use d 4 in simp_all)
    then show ?thesis unfolding eq using k by (auto intro!: result_reg_kept)
  qed
qed

definition move_fd :: "nat \<Rightarrow> unix_fd \<Rightarrow> int \<Rightarrow> 'a sysenv_scheme \<Rightarrow> 'a sysenv_scheme" where
  "move_fd fd d p m = m\<lparr>fds := (fds m)(fd \<mapsto> d\<lparr>offset := p\<rparr>)\<rparr>"

lemma file_ids: "sint fid \<noteq> 15 \<Longrightarrow> \<not> (sint fid < 2 \<or> sint fid > 15) \<longleftrightarrow> 2 \<le> sint fid \<and> sint fid < 15"
  by auto

lemma StubFile_Read_eq:
  assumes "fds m (ofile f) = Some d" and "0 \<le> currentOffset f" and "0 \<le> n" and "int (length buffer) = n"
    and bs: "bs = take (nat n) (drop (nat (currentOffset f)) (inodes m (inode d)))"
  shows "StubFile_Read f buffer n m = Inr (int (length bs), bs @ drop (length bs) buffer,
    f\<lparr>currentOffset := currentOffset f + int (length bs)\<rparr>, move_fd (ofile f) d (currentOffset f + int (length bs)) m)"
proof -
  have "length bs \<le> length buffer" using assms by simp
  then have "length (take (nat n) (drop (nat (currentOffset f)) (inodes m (inode d)))) \<le> length buffer" unfolding bs .
  then show ?thesis
    using assms(1-3) unfolding bs
    by (simp add: StubFile_Read_def StubFile_ReadAt_def Lseek_def ReadPartial_def move_fd_def Let_def del: length_take length_drop)
qed

lemma SysRead_eq:
  assumes ok: "sys_ok m" and fid: "2 \<le> sint fid" "sint fid < 15" "openf m ! nat (sint fid) = Some f"
    and d: "fds m (ofile f) = Some d" and n: "0 \<le> sint count" "int (length buffer) = sint count"
    and bs: "bs = take (nat (sint count)) (drop (nat (offset d)) (inodes m (inode d)))"
  shows "SysRead h va buffer count fid m =
    (let m1 = put_file fid (f\<lparr>currentOffset := offset d + int (length bs)\<rparr>) (move_fd (ofile f) d (offset d + int (length bs)) m) in
     if bs = [] then result_reg (-2) m1
     else rbind (result_reg (word_of_int (int (length bs))) m1) (\<lambda>m2.
          rbind (System2User h va (int (length bs)) (bs @ drop (length bs) buffer) m2) (\<lambda>(_, m3). Inr m3)))"
proof -
  obtain d' where d': "fds m (ofile f) = Some d'" "otype f = 0 \<or> otype f = 1" "0 \<le> offset d'" "nat (sint fid) < length (openf m)"
    by (rule open_file [OF ok fid])
  have r: "StubFile_Read (f\<lparr>currentOffset := offset d\<rparr>) buffer (sint count) m = Inr (int (length bs), bs @ drop (length bs) buffer,
    f\<lparr>currentOffset := offset d + int (length bs)\<rparr>, move_fd (ofile f) d (offset d + int (length bs)) m)"
    using StubFile_Read_eq [of m "f\<lparr>currentOffset := offset d\<rparr>" d "sint count" buffer bs] d d' n bs by simp
  have t: "Tell (ofile f) (move_fd (ofile f) d p m) = p" for p by (simp add: Tell_def move_fd_def)
  have ty: "otype f \<noteq> 2" "otype f \<noteq> 3" using d'(2) by auto
  show ?thesis
    using fid d d' ty sys_okD(1) [OF ok]
    by (simp add: SysRead_def MAX_FILE_OPEN_def StubFile_GetCurrentPos_def t Tell_def [of _ m] r Let_def)
qed

lemma SysRead_kept:
  assumes h: "halts h" and k: "kept m0 m" and n: "0 \<le> sint count" "int (length buffer) = sint count"
  shows "safe (if sint fid = 15 then {Halt, WildAccess} else {Halt}) (kept m0) (SysRead h va buffer count fid m)"
proof -
  note ok = kept_sys_ok(1) [OF k]
  consider "sint fid < 2 \<or> sint fid > 15" | "sint fid = 15" | "2 \<le> sint fid" "sint fid < 15" "openf m ! nat (sint fid) = None"
    | f where "2 \<le> sint fid" "sint fid < 15" "openf m ! nat (sint fid) = Some f" by fastforce
  then show ?thesis
  proof cases
    case 1
    then show ?thesis using result_reg_kept [OF k] by (simp add: SysRead_def MAX_FILE_OPEN_def)
  next
    case 2
    then show ?thesis using sys_okD(1) [OF ok] by (simp add: SysRead_def MAX_FILE_OPEN_def arr_get_def)
  next
    case 3
    then show ?thesis using result_reg_kept [OF k] sys_okD(1) [OF ok] by (simp add: SysRead_def MAX_FILE_OPEN_def)
  next
    case (4 f)
    obtain d where d: "fds m (ofile f) = Some d" "0 \<le> offset d" "nat (sint fid) < length (openf m)" by (rule open_file [OF ok 4])
    define bs where "bs = take (nat (sint count)) (drop (nat (offset d)) (inodes m (inode d)))"
    define m1 where "m1 = put_file fid (f\<lparr>currentOffset := offset d + int (length bs)\<rparr>) (move_fd (ofile f) d (offset d + int (length bs)) m)"
    have k1: "kept m0 m1"
      unfolding m1_def
    proof (rule kept_put_file)
      show "kept m0 (move_fd (ofile f) d (offset d + int (length bs)) m)"
        unfolding move_fd_def by (rule kept_offset [OF k d(1)]) (use d(2) in simp)
    qed (use d 4 in \<open>simp_all add: move_fd_def\<close>)
    have len: "int (length bs) \<le> int (length (bs @ drop (length bs) buffer))" by simp
    have "safe {Halt} (kept m0) (SysRead h va buffer count fid m)"
      unfolding SysRead_eq [OF ok 4 d(1) n bs_def] Let_def m1_def [symmetric]
      using k1 by (auto intro!: result_reg_kept safe_rbind [OF result_reg_kept] safe_rbind [OF System2User_kept [OF h]])
    then show ?thesis by (rule safe_weaken) simp
  qed
qed

lemma SysWrite_eq:
  assumes ok: "sys_ok m" and fid: "2 \<le> sint fid" "sint fid < 15" "openf m ! nat (sint fid) = Some f"
    and d: "fds m (ofile f) = Some d" and ty: "otype f = 0"
  shows "SysWrite h va count fid m =
    rbind (User2System h va count (put_file fid (f\<lparr>currentOffset := offset d\<rparr>) m)) (\<lambda>(buffer, m1).
      rbind (StubFile_Write (f\<lparr>currentOffset := offset d\<rparr>) buffer (sint count) m1) (\<lambda>(n, f2, m2).
      if n > 0 then let (newPos, f3) = StubFile_GetCurrentPos f2 m2 in
         result_reg (word_of_int (newPos - offset d)) (put_file fid f3 m2)
      else Inr (put_file fid f2 m2)))"
  using fid d ty sys_okD(1) [OF ok]
  by (simp add: SysWrite_def MAX_FILE_OPEN_def StubFile_GetCurrentPos_def [of _ m] Tell_def Let_def)

lemma StubFile_Write_eq:
  assumes "fds m (ofile f) = Some d" and "writable d" and "0 \<le> currentOffset f" and "0 \<le> n" and "n \<le> int (length buffer)"
  shows "StubFile_Write f buffer n m = Inr (n, f\<lparr>currentOffset := currentOffset f + n\<rparr>,
    move_fd (ofile f) d (currentOffset f + n)
      (m\<lparr>inodes := (inodes m)(inode d := host_write (inodes m (inode d)) (nat (currentOffset f)) (take (nat n) buffer))\<rparr>))"
  using assms by (simp add: StubFile_Write_def StubFile_WriteAt_def Lseek_def WriteFile_def move_fd_def Let_def)

lemma SysWrite_kept:
  assumes h: "halts h" and k: "kept m0 m" and n: "0 \<le> sint count"
  shows "safe (if sint count = 2 ^ 31 - 1 then {Halt, Abort} else {Halt}) (kept m0) (SysWrite h va count fid m)"
proof -
  note ok = kept_sys_ok(1) [OF k]
  consider "sint fid < 2 \<or> sint fid > 14" | "2 \<le> sint fid" "sint fid < 15" "openf m ! nat (sint fid) = None"
    | f where "2 \<le> sint fid" "sint fid < 15" "openf m ! nat (sint fid) = Some f" by fastforce
  then show ?thesis
  proof cases
    case 1
    then show ?thesis using result_reg_kept [OF k] by (simp add: SysWrite_def MAX_FILE_OPEN_def)
  next
    case 2
    then show ?thesis using result_reg_kept [OF k] sys_okD(1) [OF ok] by (simp add: SysWrite_def MAX_FILE_OPEN_def)
  next
    case (3 f)
    obtain d where d: "fds m (ofile f) = Some d" "otype f = 0 \<longrightarrow> writable d" "otype f = 0 \<or> otype f = 1" "0 \<le> offset d"
      "nat (sint fid) < length (openf m)" by (rule open_file [OF ok 3])
    let ?m = "put_file fid (f\<lparr>currentOffset := offset d\<rparr>) m"
    have k1: "kept m0 ?m" by (rule kept_put_file [OF k d(5) 3(3)]) simp_all
    show ?thesis
    proof (cases "otype f = 1")
      case True
      then show ?thesis using 3 result_reg_kept [OF k] sys_okD(1) [OF ok] by (simp add: SysWrite_def MAX_FILE_OPEN_def)
    next
      case False
      then have ty: "otype f = 0" using d(3) by blast
      show ?thesis
      proof (cases "sint count = 2 ^ 31 - 1")
        case True
        then show ?thesis unfolding SysWrite_eq [OF ok 3 d(1) ty] by (simp add: User2System_aborts)
      next
        case False
        then have c: "sint count < 2 ^ 31 - 1" "-1 \<le> sint count" using sint_lt [of count] n by auto
        have "safe {Halt} (kept m0) (SysWrite h va count fid m)"
          unfolding SysWrite_eq [OF ok 3 d(1) ty]
        proof (rule safe_rbind [OF User2System_kept [OF h k1 c(2,1)]], clarify)
          fix buffer :: "byte list" and m1
          assume m1: "kept m0 m1" "machine.more m1 = machine.more ?m" "int (length buffer) = sint count + 1"
          have fd: "fds m1 (ofile f) = Some d" "inodes m1 = inodes m" "openf m1 = openf ?m"
            using sysenv_more [OF m1(2)] d(1) by (simp_all add: put_file_def)
          define m2 where "m2 = move_fd (ofile f) d (offset d + sint count) (m1\<lparr>inodes := (inodes m1)(inode d :=
            host_write (inodes m1 (inode d)) (nat (offset d)) (take (nat (sint count)) buffer))\<rparr>)"
          have w: "StubFile_Write (f\<lparr>currentOffset := offset d\<rparr>) buffer (sint count) m1 =
            Inr (sint count, f\<lparr>currentOffset := offset d + sint count\<rparr>, m2)"
            using StubFile_Write_eq [of m1 "f\<lparr>currentOffset := offset d\<rparr>" d "sint count" buffer] fd d ty n m1(3) by (simp add: m2_def)
          have k2: "kept m0 m2"
            unfolding m2_def move_fd_def by (rule kept_offset) (use m1(1) fd d n in simp_all)
          have k3: "kept m0 (put_file fid (f\<lparr>currentOffset := offset d + sint count\<rparr>) m2)"
            by (rule kept_put_file [OF k2, of fid "f\<lparr>currentOffset := offset d\<rparr>"])
              (use fd d(5) in \<open>simp_all add: m2_def move_fd_def put_file_def\<close>)
          have t: "Tell (ofile f) m2 = offset d + sint count" by (simp add: Tell_def m2_def move_fd_def)
          show "safe {Halt} (kept m0) (rbind (StubFile_Write (f\<lparr>currentOffset := offset d\<rparr>) buffer (sint count) m1) (\<lambda>(n, f2, m2).
            if n > 0 then let (newPos, f3) = StubFile_GetCurrentPos f2 m2 in
              result_reg (word_of_int (newPos - offset d)) (put_file fid f3 m2)
            else Inr (put_file fid f2 m2)))"
            using k3 by (simp add: w StubFile_GetCurrentPos_def t Let_def result_reg_kept)
        qed
        then show ?thesis using False by simp
      qed
    qed
  qed
qed

section \<open>The handler\<close>

text \<open>What a system call may do to the machine and the kernel: on return the program counters have advanced.\<close>

definition syscall_done :: "'a sysenv_scheme \<Rightarrow> 'a sysenv_scheme \<Rightarrow> bool" where
  "syscall_done m0 m \<longleftrightarrow> machine_ok m \<and> sys_ok m \<and> same_space m0 m \<and> mstatus m = mstatus m0 \<and> entropy m = entropy m0 \<and>
     sysenv.more m = sysenv.more m0 \<and> (\<forall>i. i \<notin> {2, PCReg, NextPCReg, PrevPCReg} \<longrightarrow> reg i m = reg i m0) \<and>
     reg PrevPCReg m = reg PCReg m0 \<and> reg PCReg m = reg PCReg m0 + 4 \<and> reg NextPCReg m = reg PCReg m0 + 8"

lemma IncreasePC_done:
  assumes "kept m0 m"
  shows "safe F (syscall_done m0) (IncreasePC m)"
proof -
  have ok: "machine_ok m" and len: "length (registers m) = 40" using assms by (simp_all add: kept_def machine_ok_def NumTotalRegs_def)
  let ?m = "set_reg 35 (reg 34 m + 8) (set_reg 34 (reg 34 m + 4) (set_reg 36 (reg 34 m) m))"
  have "IncreasePC m = Inr ?m"
    using ok len by (simp add: IncreasePC_def WriteRegister_eq reg_names add.commute)
  moreover have "syscall_done m0 ?m"
    using assms len by (auto simp: syscall_done_def kept_def same_space_def reg_names)
  ultimately show ?thesis by simp
qed

text \<open>The faults that a system call can end with, by the arguments it is given.\<close>

definition syscall_faults :: "'a sysenv_scheme \<Rightarrow> fault set" where
  "syscall_faults m =
     (let ty = reg 2 m; r5 = sint (reg 5 m); r6 = sint (reg 6 m) in
      (if ty \<in> {0, 4, 5, 6, 7, 8, 48, 49} then {Halt} else {}) \<union>
      (if ty \<notin> {0, 4, 5, 6, 7, 8, 9, 10, 42, 43, 44, 45, 46, 47, 48, 49} \<or> ty \<in> {7, 8} \<and> r5 < 0 \<or>
          ty \<in> {8, 48} \<and> r5 = 2 ^ 31 - 1 \<or> ty = 48 \<and> r5 < -1 \<or> ty = 4 \<and> (\<exists>name. \<not> creatable m name)
       then {Abort} else {}) \<union>
      (if ty = 7 \<and> r6 = 15 \<or> ty = 9 \<and> r5 = 15 then {WildAccess} else {}) \<union>
      (if ty \<in> {43, 45, 48} then {Diverges} else {}))"

lemma new_chars_eq: "0 \<le> n \<Longrightarrow> \<exists>b. new_chars n m = Inr b \<and> int (length b) = n"
  by (simp add: new_chars_def)

lemma finish_call: "safe F (kept m0) r \<Longrightarrow> safe F (syscall_done m0) (rbind r IncreasePC)"
  by (rule safe_rbind [OF _ IncreasePC_done])

lemma finish_result:
  "safe F (\<lambda>(v, m'). kept m0 m') r \<Longrightarrow> safe F (syscall_done m0) (rbind r (\<lambda>(v, m'). rbind (result_reg (f v) m') IncreasePC))"
  by (erule safe_rbind) (auto intro: finish_call result_reg_kept)

lemma name_call:
  assumes "halts h" and "kept m0 m" and "0 \<le> sint limit" and "sint limit < 2 ^ 31 - 1" and "Halt \<in> F"
    and "\<And>b m'. kept m0 m' \<Longrightarrow> machine.more m' = machine.more m \<Longrightarrow> 0 \<in> set b \<Longrightarrow> safe F P (k (b, m'))"
  shows "safe F P (rbind (User2System h va limit m) k)"
proof (rule safe_rbind [OF safe_weaken [OF User2System_kept [OF assms(1,2)]]])
  fix x :: "byte list \<times> 'a sysenv_scheme"
  assume "case x of (b, m') \<Rightarrow> kept m0 m' \<and> machine.more m' = machine.more m \<and> int (length b) = sint limit + 1 \<and>
    (0 \<le> sint limit \<longrightarrow> 0 \<in> set b)"
  then show "safe F P (k x)" using assms(3,6) by (cases x) simp
qed (use assms in auto)

lemma ReadString_call:
  assumes "halts h" and k: "kept m0 m" and "{Halt, Diverges} \<subseteq> F" and "sint r5 < -1 \<or> sint r5 = 2 ^ 31 - 1 \<Longrightarrow> Abort \<in> F"
  shows "safe F (syscall_done m0) (rbind (User2System h r4 r5 m) (\<lambda>(buffer, m1).
       rbind (SysReadString buffer (sint r5) m1) (\<lambda>(buffer1, m2).
       rbind (System2User h r4 (sint r5) buffer1 m2) (\<lambda>(_, m3). IncreasePC m3))))"
proof (cases "sint r5 < -1 \<or> sint r5 = 2 ^ 31 - 1")
  case True
  then show ?thesis using assms(4) by (simp add: User2System_aborts)
next
  case False
  then have r5: "-1 \<le> sint r5" "sint r5 < 2 ^ 31 - 1" using sint_lt [of r5] by auto
  show ?thesis
  proof (rule safe_rbind [OF safe_weaken [OF User2System_kept [OF assms(1) k r5]]], use assms(3) in simp, clarify)
    fix b :: "byte list" and m1 assume m1: "kept m0 m1" "int (length b) = sint r5 + 1"
    show "safe F (syscall_done m0) (rbind (SysReadString b (sint r5) m1) (\<lambda>(buffer1, m2).
       rbind (System2User h r4 (sint r5) buffer1 m2) (\<lambda>(_, m3). IncreasePC m3)))"
    proof (rule safe_rbind [OF safe_weaken [OF SysReadString_kept [OF m1(1)]]], use m1 assms(3) in simp, use assms(3) in simp, clarify)
      fix b1 :: "byte list" and m2 assume m2: "kept m0 m2" "length b1 = length b"
      show "safe F (syscall_done m0) (rbind (System2User h r4 (sint r5) b1 m2) (\<lambda>(_, m3). IncreasePC m3))"
        by (rule safe_rbind [OF safe_weaken [OF System2User_kept [OF assms(1) m2(1)]]])
          (use m1 m2 assms(3) in \<open>auto intro: IncreasePC_done\<close>)
    qed
  qed
qed

lemma do_syscall_safe:
  assumes h: "halts h" and ok: "machine_ok m" "sys_ok m"
  shows "safe (syscall_faults m) (syscall_done m) (do_syscall h (reg 2 m) m)"
proof -
  have k: "kept m m" using ok by (rule kept_refl)
  note F = syscall_faults_def Let_def
  have r: "Machine_ReadRegister 4 m = Inr (reg 4 m)" "Machine_ReadRegister 5 m = Inr (reg 5 m)" "Machine_ReadRegister 6 m = Inr (reg 6 m)"
    using ok(1) by (simp_all add: WriteRegister_eq)
  have lim: "0 \<le> sint MaxFileLength" "sint MaxFileLength < 2 ^ 31 - 1" "0 \<le> sint (MaxFileLength + 1)" "sint (MaxFileLength + 1) < 2 ^ 31 - 1"
    "0 \<le> sint (255::i32)" "sint (255::i32) < 2 ^ 31 - 1" by (simp_all add: MaxFileLength_def)
  show ?thesis
    unfolding do_syscall_def r rbind_Inr
  proof (intro safe_if, goal_cases c_halt c_add c_readnum c_printnum c_random c_readchar c_printchar c_readstring c_printstring c_create c_open c_close c_read c_write c_seek c_remove c_bad)
    case c_halt then show ?case by (simp add: SysHalt_def F)
  next
    case c_add then show ?case by (intro finish_call result_reg_kept k)
  next
    case c_readnum then show ?case by (intro finish_result safe_weaken [OF SysReadNum_kept [OF k]]) (simp add: F)
  next
    case c_printnum then show ?case using k by (intro finish_call) (simp add: SysPrintNum_eq)
  next
    case c_random then show ?case using k by (auto simp: SysRandomNum_def RandomNumber_def intro!: finish_call result_reg_kept)
  next
    case c_readchar then show ?case unfolding SysReadChar_def by (intro finish_result safe_weaken [OF GetChar_kept [OF k]]) (simp add: F)
  next
    case c_printchar then show ?case using k by (simp add: SysPrintChar_def IncreasePC_done)
  next
    case c_readstring then show ?case by (intro ReadString_call h k) (auto simp: F)
  next
    case c_printstring then show ?case by (intro name_call [OF h k lim(5,6)]) (auto simp: F intro!: finish_call SysPrintString_kept)
  next
    case c_create
    show ?case
    proof (rule name_call [OF h k lim(1,2)], use c_create in \<open>simp add: F\<close>, clarsimp)
      fix b :: "byte list" and m' assume a: "kept m m'" "machine.more m' = machine.more m" "0 \<in> set b"
      have "(if \<forall>name. creatable m' name then {} else {Abort}) \<subseteq> syscall_faults m"
        using c_create sysenv_more(11) [OF a(2)] by (auto simp: F)
      from finish_call [OF safe_weaken [OF SysCreateFile_kept [OF a(1,3)] this]]
      show "safe (syscall_faults m) (syscall_done m) (rbind (SysCreateFile b m') IncreasePC)" .
    qed
  next
    case c_open then show ?case by (intro name_call [OF h k lim(1,2)]) (auto simp: F intro!: finish_call SysOpen_kept)
  next
    case c_close then show ?case using finish_result [OF SysClose_kept [OF k], where f = "\<lambda>v. v"] by simp
  next
    case c_read
    show ?case
    proof (cases "0 \<le> sint (reg 5 m)")
      case True
      then obtain b where b: "new_chars (sint (reg 5 m)) m = Inr b" "int (length b) = sint (reg 5 m)" using new_chars_eq by blast
      have "safe (syscall_faults m) (kept m) (SysRead h (reg 4 m) b (reg 5 m) (reg 6 m) m)"
        by (rule safe_weaken [OF SysRead_kept [OF h k True b(2)]]) (use c_read in \<open>auto simp: F\<close>)
      then show ?thesis by (simp add: b finish_call)
    qed (use c_read in \<open>simp add: new_chars_def F\<close>)
  next
    case c_write
    show ?case
    proof (cases "0 \<le> sint (reg 5 m)")
      case True
      then obtain b where b: "new_chars (sint (reg 5 m)) m = Inr b" using new_chars_eq by blast
      have "safe (syscall_faults m) (kept m) (SysWrite h (reg 4 m) (reg 5 m) (reg 6 m) m)"
        by (rule safe_weaken [OF SysWrite_kept [OF h k True]]) (use c_write in \<open>auto simp: F\<close>)
      then show ?thesis by (simp add: b finish_call)
    qed (use c_write in \<open>simp add: new_chars_def F\<close>)
  next
    case c_seek then show ?case by (intro finish_call safe_weaken [OF SysSeek_kept [OF k]]) (auto simp: F)
  next
    case c_remove
    then show ?case
      by (intro name_call [OF h k lim(3,4)]) (auto simp: F intro!: finish_result [where f = "\<lambda>v. v"] SysRemove_kept)
  next
    case c_bad then show ?case by (simp add: F)
  qed
qed

text \<open>
  C6: The exception handler on a legal machine with a legal table of open files. An exception
  other than a system call halts the machine (and \<open>NoException\<close> does nothing). A system call
  returns with the table of open files and the machine legal, the mapping of pages and the rest
  of the kernel as they were, the program counters advanced by one instruction and no register
  but 2 and the program counters changed; or it ends with one of the faults of
  \<open>syscall_faults\<close>: the machine halts only in \<open>Halt\<close> and on a bad address given to a call that
  copies from or to user memory; the kernel aborts only on an unknown system call, a negative or
  the largest buffer size, or a file name that the host refuses; a wild access happens only for
  \<open>Read\<close> and \<open>Seek\<close> on the file number 15, which the check of these two calls lets through; and
  only the calls that read from the console may wait forever. No buffer overflows.
\<close>

theorem ExceptionHandler_safe:
  assumes "machine_ok m" and "sys_ok m"
  shows "ExceptionHandler NoException m = Inr m \<and>
    (\<forall>e. e \<notin> {NoException, SyscallException} \<longrightarrow> ExceptionHandler e m = Inl Halt) \<and>
    safe (syscall_faults m) (syscall_done m) (ExceptionHandler SyscallException m)"
proof -
  have r: "Machine_ReadRegister 2 m = Inr (reg 2 m)" using assms(1) by (simp add: WriteRegister_eq)
  show ?thesis
    using do_syscall_safe [OF halts_handle_exception assms]
    by (auto simp: ExceptionHandler_def handle_exception_def r SysHalt_def split: ExceptionType.splits)
qed

text \<open>A machine with one page, no open file and an empty host, for the examples.\<close>

definition boot_sys :: sysenv where
  "boot_sys = machine.extend one_page (sysenv.fields (replicate 15 None) Map.empty (\<lambda>_. []) Map.empty 0 (\<lambda>_. True) (\<lambda>_. 0)
     [] False [] (\<lambda>_. 0) 0)"

lemma boot_sys_ok: "machine_ok boot_sys" "sys_ok boot_sys"
  using one_page_ok by (auto simp: boot_sys_def machine.defs sysenv.defs machine_ok_def reg_def sys_ok_def MAX_FILE_OPEN_def)

theorem ExceptionHandler_safe_witness:
  "ExceptionHandler NoException boot_sys = Inr boot_sys \<and>
    ExceptionHandler OverflowException boot_sys = Inl Halt \<and>
    safe (syscall_faults boot_sys) (syscall_done boot_sys) (ExceptionHandler SyscallException boot_sys)"
  using ExceptionHandler_safe [OF boot_sys_ok] by blast

section \<open>Numbers on the console\<close>

text \<open>A console on which the characters \<open>cs\<close> are still to be read.\<close>

definition feed :: "byte list \<Rightarrow> 'a sysenv_scheme \<Rightarrow> 'a sysenv_scheme" where
  "feed cs m = m\<lparr>conIn := cs, conEof := False\<rparr>"

lemma GetChar_feed [simp]: "c \<noteq> EOF \<Longrightarrow> GetChar (feed (c # cs) m) = Inr (c, feed cs m)"
  by (simp add: GetChar_def feed_def)

definition decimal :: "nat list \<Rightarrow> nat" where
  "decimal ds = foldl (\<lambda>a d. a * 10 + d) 0 ds"

definition digit_char :: "nat \<Rightarrow> byte" where
  "digit_char d = of_nat (48 + d)"

lemma digit_char:
  assumes "d < 10"
  shows "is_digit (digit_char d)" "digit_char d \<noteq> 32" "digit_char d \<noteq> 10" "digit_char d \<noteq> 45" "digit_char d \<noteq> EOF"
    "(scast (digit_char d) :: 64 word) - 48 = of_nat d"
proof -
  have "d \<in> {0, 1, 2, 3, 4, 5, 6, 7, 8, 9}" using assms by auto
  then show "is_digit (digit_char d)" "digit_char d \<noteq> 32" "digit_char d \<noteq> 10" "digit_char d \<noteq> 45" "digit_char d \<noteq> EOF"
    "(scast (digit_char d) :: 64 word) - 48 = of_nat d"
    by (auto simp: is_digit_def digit_char_def EOF_def)
qed

lemma ReadNum_skip_feed:
  "set ws \<subseteq> {32, 10} \<Longrightarrow> c \<notin> {32, 10, EOF} \<Longrightarrow> ReadNum_skip (feed (ws @ c # cs) m) = Inr (c, feed cs m)"
proof (induction ws)
  case Nil
  then show ?case by (subst ReadNum_skip.simps) simp
next
  case (Cons w ws)
  have "w \<noteq> EOF" using Cons.prems(1) by (auto simp: EOF_def)
  then show ?case using Cons by (subst ReadNum_skip.simps) (auto simp del: ReadNum_skip.simps)
qed

lemma ReadNum_digits_feed:
  assumes "c = 32 \<or> c = 10"
  shows "\<forall>d \<in> set (d # ds). d < 10 \<Longrightarrow>
   ReadNum_digits (of_nat n) True (digit_char d) (feed (map digit_char ds @ c # rest) m) =
     Inr (of_nat (foldl (\<lambda>a d. a * 10 + d) n (d # ds)), True, feed rest m)"
proof (induction ds arbitrary: n d)
  case Nil
  have "c \<noteq> EOF" using assms by (auto simp: EOF_def)
  then show ?case using Nil assms by (subst ReadNum_digits.simps) (auto simp: digit_char)
next
  case (Cons e ds)
  have e: "e < 10" "d < 10" using Cons.prems by auto
  have "ReadNum_digits (of_nat n) True (digit_char d) (feed (map digit_char (e # ds) @ c # rest) m) =
      ReadNum_digits (of_nat (n * 10 + d)) True (digit_char e) (feed (map digit_char ds @ c # rest) m)"
    using e by (subst ReadNum_digits.simps) (simp add: digit_char del: ReadNum_digits.simps)
  also have "\<dots> = Inr (of_nat (foldl (\<lambda>a d. a * 10 + d) (n * 10 + d) (e # ds)), True, feed rest m)"
    using Cons.prems by (intro Cons.IH) auto
  finally show ?case by simp
qed

lemma ReadNum_value_eq:
  assumes "v < 2 ^ 63"
  shows "ReadNum_value (of_nat v) True neg =
    (if neg then if v \<le> 2 ^ 31 then - of_nat v else 0 else if v < 2 ^ 31 then of_nat v else 0)"
proof -
  have h: "sint (word_of_int k :: 64 word) = k" if "- (2 ^ 63) \<le> k" "k < 2 ^ 63" for k
    using that by (simp add: sint_sbintrunc' signed_take_bit_int_eq_self)
  have s: "sint (of_nat v :: 64 word) = int v" "sint (- of_nat v :: 64 word) = - int v"
    using h [of "int v"] h [of "- int v"] assms by simp_all
  have u: "ucast (word_of_int k :: 64 word) = (word_of_int k :: i32)" for k
    by (rule bit_word_eqI) (simp add: bit_simps)
  show ?thesis using s u [of "int v"] u [of "- int v"] by (auto simp: ReadNum_value_def Let_def)
qed

lemma SysReadNum_feed:
  assumes "set ws \<subseteq> {32, 10}" and "ds \<noteq> []" and "\<forall>d \<in> set ds. d < 10" and "c = 32 \<or> c = 10" and "decimal ds < 2 ^ 63"
  shows "SysReadNum (feed (ws @ (if neg then [45] else []) @ map digit_char ds @ c # rest) m) =
    Inr (if neg then if decimal ds \<le> 2 ^ 31 then - of_nat (decimal ds) else 0
         else if decimal ds < 2 ^ 31 then of_nat (decimal ds) else 0, feed rest m)"
proof -
  obtain d es where ds: "ds = d # es" using assms(2) by (cases ds) auto
  have d: "d < 10" using assms(3) ds by simp
  have e: "(45::byte) \<notin> {32, 10, EOF}" by (simp add: EOF_def)
  have digits: "ReadNum_digits 0 True (digit_char d) (feed (map digit_char es @ c # rest) m) = Inr (of_nat (decimal ds), True, feed rest m)"
    using ReadNum_digits_feed [OF assms(4), of d es 0 rest m] assms(3) ds by (simp add: decimal_def del: ReadNum_digits.simps)
  have skip: "ReadNum_skip (feed (ws @ x # xs) m) = Inr (x, feed xs m)" if "x \<notin> {32, 10, EOF}" for x xs
    by (rule ReadNum_skip_feed [OF assms(1) that])
  show ?thesis
  proof (cases neg)
    case True
    then show ?thesis
      using skip [OF e] digits digit_char [OF d] ReadNum_value_eq [OF assms(5), of True]
      by (simp add: SysReadNum_def ds del: ReadNum_digits.simps ReadNum_skip.simps)
  next
    case False
    then show ?thesis
      using skip [of "digit_char d"] digits digit_char [OF d] ReadNum_value_eq [OF assms(5), of False]
      by (simp add: SysReadNum_def ds del: ReadNum_digits.simps ReadNum_skip.simps)
  qed
qed

text \<open>
  Reading a number. After any spaces and newlines, an optional minus sign and a non-empty
  run of digits ended by a space or a newline, with a value below \<open>2 ^ 63\<close>, \<open>SysReadNum\<close> consumes
  exactly these characters and returns the number, or 0 when it does not fit in 32 bits.
\<close>

theorem SysReadNum_correct:
  assumes "set ws \<subseteq> {32, 10}" and "ds \<noteq> []" and "\<forall>d \<in> set ds. d < 10" and "c = 32 \<or> c = 10" and "decimal ds < 2 ^ 63"
  shows "SysReadNum (feed (ws @ (if neg then [45] else []) @ map digit_char ds @ c # rest) m) =
    Inr (if neg then if decimal ds \<le> 2 ^ 31 then - of_nat (decimal ds) else 0
         else if decimal ds < 2 ^ 31 then of_nat (decimal ds) else 0, feed rest m)"
  using assms by (rule SysReadNum_feed)

theorem SysReadNum_correct_witness:
  "SysReadNum (feed ([32] @ (if True then [45] else []) @ map digit_char [4, 2] @ 10 # [7]) boot_sys) = Inr (- 42, feed [7] boot_sys)"
  using SysReadNum_correct [of "[32]" "[4, 2]" 10 True "[7]" boot_sys] by (simp add: decimal_def)

text \<open>The digits that \<open>SysPrintNum\<close> prints.\<close>

fun ndigits :: "nat \<Rightarrow> nat list" where
  "ndigits n = (if n = 0 then [] else n mod 10 # ndigits (n div 10))"

declare ndigits.simps [simp del]

lemma sdigits_nat: "sdigits (int n) = map of_nat (ndigits n)"
proof (induction n rule: ndigits.induct)
  case (1 n)
  have "int n smod 10 = int (n mod 10)" "int n sdiv 10 = int (n div 10)"
    by (simp_all add: smod_nonneg sdiv_nonneg zmod_int zdiv_int)
  then show ?case using 1 by (simp add: sdigits.simps [of "int n"] ndigits.simps [of n])
qed

lemma decimal_ndigits: "decimal (rev (ndigits n)) = n" "\<forall>d \<in> set (ndigits n). d < 10"
  by (induction n rule: ndigits.induct) (subst ndigits.simps, simp add: decimal_def)+

lemma printed_digits:
  assumes "n \<noteq> 0" and "n < 2 ^ 31" and "num = of_nat n \<or> num = - of_nat n"
  shows "printed num = map digit_char (rev (ndigits n))"
proof -
  have h: "sint (word_of_int k :: i32) = k" if "- (2 ^ 31) \<le> k" "k < 2 ^ 31" for k
    using that by (simp add: sint_sbintrunc' signed_take_bit_int_eq_self)
  have s: "sint (of_nat n :: i32) = int n" "sint (- of_nat n :: i32) = - int n"
    using h [of "int n"] h [of "- int n"] assms(2) by simp_all
  then have "num \<noteq> 0" "sint (if sint num < 0 then - num else num) = int n" using assms(1,3) by auto
  then have "printed num = map ((+) 48) (rev (map of_nat (ndigits n)))" by (simp add: printed_def sdigits_nat)
  then show ?thesis by (simp add: digit_char_def rev_map)
qed

text \<open>
  What \<open>SysPrintNum\<close> prints of a number, \<open>SysReadNum\<close> reads back as the absolute value of the
  number: the minus sign is not printed. (The number \<open>- 2 ^ 31\<close> is its own negative and prints as
  characters that are no digits.)
\<close>

theorem print_read_num:
  assumes "sint num \<noteq> - (2 ^ 31)"
  shows "\<exists>out. SysPrintNum num m = Inr (m\<lparr>conOut := conOut m @ out\<rparr>) \<and>
    SysReadNum (feed (out @ 10 # rest) m') = Inr (word_of_int \<bar>sint num\<bar>, feed rest m')"
proof -
  define n where "n = nat \<bar>sint num\<bar>"
  have n: "n < 2 ^ 31" using sint_ge [of num] sint_lt [of num] assms by (auto simp: n_def nat_less_iff)
  have num: "num = of_nat n \<or> num = - of_nat n"
  proof -
    have "num = word_of_int (sint num)" by simp
    then show ?thesis by (cases "0 \<le> sint num") (simp_all add: n_def)
  qed
  have w: "word_of_int \<bar>sint num\<bar> = (of_nat n :: i32)" by (simp add: n_def)
  have nd: "ndigits n \<noteq> []" if "n \<noteq> 0" using that by (subst ndigits.simps) simp
  let ?ds = "if n = 0 then [0] else rev (ndigits n)"
  have ds: "?ds \<noteq> []" "\<forall>d \<in> set ?ds. d < 10" "decimal ?ds = n"
    using decimal_ndigits [of n] nd by (simp_all add: decimal_def [of "[0]"])
  have p: "printed num = map digit_char ?ds"
  proof (cases "n = 0")
    case True
    then show ?thesis using num by (auto simp: printed_def digit_char_def)
  next
    case False
    then show ?thesis using printed_digits [OF False n num] by simp
  qed
  have "SysReadNum (feed (printed num @ 10 # rest) m') = Inr (of_nat n, feed rest m')"
    using SysReadNum_feed [of "[]" ?ds 10 False rest m'] ds n unfolding p by simp
  then show ?thesis
    by (intro exI [of _ "printed num"]) (simp add: SysPrintNum_eq print_bytes_def w)
qed

theorem print_read_num_witness:
  "\<exists>out. SysPrintNum (- 7) boot_sys = Inr (boot_sys\<lparr>conOut := conOut boot_sys @ out\<rparr>) \<and>
    SysReadNum (feed (out @ 10 # []) boot_sys) = Inr (word_of_int \<bar>sint (- 7 :: i32)\<bar>, feed [] boot_sys)"
  by (rule print_read_num) simp

section \<open>Files through the system calls\<close>

text \<open>The entry \<open>fid\<close> of the table is the file \<open>f\<close>, with the descriptor \<open>d\<close>.\<close>

definition open_as :: "i32 \<Rightarrow> StubFile \<Rightarrow> unix_fd \<Rightarrow> 'a sysenv_scheme \<Rightarrow> bool" where
  "open_as fid f d m \<longleftrightarrow> 2 \<le> sint fid \<and> sint fid < 15 \<and> openf m ! nat (sint fid) = Some f \<and> fds m (ofile f) = Some d"

definition file_bytes :: "unix_fd \<Rightarrow> 'a sysenv_scheme \<Rightarrow> byte list" where
  "file_bytes d m = inodes m (inode d)"

lemma sysenv_set_reg [simp]:
  "openf (set_reg i v m) = openf m" "fds (set_reg i v m) = fds m" "inodes (set_reg i v m) = inodes m" "names (set_reg i v m) = names m"
  by (simp_all add: set_reg_def)

lemma result_reg_eq: "machine_ok m \<Longrightarrow> result_reg v m = Inr (set_reg 2 v m)"
  by (simp add: WriteRegister_eq)

lemma machine_ok_files [simp]: "machine_ok (put_file fid f m) = machine_ok m" "machine_ok (move_fd fd d p m) = machine_ok m"
  by (simp_all add: put_file_def move_fd_def)

lemma SysSeek_eq:
  assumes "machine_ok m" and "sys_ok m" and o: "open_as fid f d m"
  shows "SysSeek pos fid m =
    (let len = int (length (file_bytes d m)); p = (if pos = -1 then len else sint pos) in
     if 0 \<le> p \<and> p \<le> len then Inr (set_reg 2 (word_of_int p) (put_file fid (f\<lparr>currentOffset := p\<rparr>) (move_fd (ofile f) d p m)))
     else Inr (set_reg 2 (-1) (move_fd (ofile f) d len m)))"
proof -
  note o' = o [unfolded open_as_def]
  have ids: "fid \<noteq> 0" "fid \<noteq> 1" using o' by auto
  have l: "Lseek (ofile f) 0 2 (move_fd (ofile f) d p m) = Inr (move_fd (ofile f) d (int (length (file_bytes d m))) m)"
    "Lseek (ofile f) 0 2 m = Inr (move_fd (ofile f) d (int (length (file_bytes d m))) m)"
    "Tell (ofile f) (move_fd (ofile f) d p m) = p" for p
    using o' by (simp_all add: Lseek_def move_fd_def file_bytes_def Tell_def)
  have l0: "Lseek (ofile f) p 0 (move_fd (ofile f) d q m) = Inr (move_fd (ofile f) d p m)" if "0 \<le> p" for p q
    using that by (simp add: Lseek_def move_fd_def)
  show ?thesis
    using o' ids sys_okD(1) [OF assms(2)] assms(1)
    by (auto simp: SysSeek_def MAX_FILE_OPEN_def StubFile_Length_def StubFile_Seek_def l l0 Let_def result_reg_eq)
qed

text \<open>
  \<open>Seek\<close> on an open file. A position inside the file or at its end, or -1 for the end,
  becomes the position of the file and the result. Any other position gives the result -1, and
  the file is then no longer where it was: the test against the length has moved it to its end.
\<close>

theorem SysSeek_moves_on_failure:
  assumes "machine_ok m" and "sys_ok m" and "open_as fid f d m"
  shows "\<exists>m'. SysSeek pos fid m = Inr m' \<and>
    (let len = int (length (file_bytes d m)); p = (if pos = -1 then len else sint pos) in
     if 0 \<le> p \<and> p \<le> len then reg 2 m' = word_of_int p \<and> Tell (ofile f) m' = p
     else reg 2 m' = -1 \<and> Tell (ofile f) m' = len)"
proof -
  have len: "length (registers m) = 40" using assms(1) by (simp add: machine_ok_def NumTotalRegs_def)
  have t: "Tell fd (set_reg i v m1) = Tell fd m1" "Tell fd (put_file fid g m1) = Tell fd m1"
    "Tell (ofile f) (move_fd (ofile f) d p m1) = p" for fd i v g p and m1 :: "'a sysenv_scheme"
    by (simp_all add: Tell_def put_file_def move_fd_def)
  have r: "registers (put_file fid g m1) = registers m1" "registers (move_fd fd e p m1) = registers m1" for g fd e p and m1 :: "'a sysenv_scheme"
    by (simp_all add: put_file_def move_fd_def)
  show ?thesis unfolding SysSeek_eq [OF assms] Let_def by (auto simp: t r len)
qed

lemma SysWrite_run:
  assumes h: "halts h" and ok: "machine_ok m" "sys_ok m" and o: "open_as fid f d m" and ty: "otype f = 0"
    and n: "0 < sint count" "sint count < 2 ^ 31 - 1" and run: "SysWrite h va count fid m = Inr m'"
  shows "\<exists>buf m1. User2System h va count (put_file fid (f\<lparr>currentOffset := offset d\<rparr>) m) = Inr (buf, m1) \<and>
    int (length buf) = sint count + 1 \<and> kept m m1 \<and> machine.more m1 = machine.more (put_file fid (f\<lparr>currentOffset := offset d\<rparr>) m) \<and>
    m' = set_reg 2 count (put_file fid (f\<lparr>currentOffset := offset d + sint count\<rparr>)
      (move_fd (ofile f) d (offset d + sint count) (m1\<lparr>inodes := (inodes m)(inode d :=
         host_write (file_bytes d m) (nat (offset d)) (take (nat (sint count)) buf))\<rparr>)))"
proof -
  note o' = o [unfolded open_as_def]
  have fid: "2 \<le> sint fid" "sint fid < 15" "openf m ! nat (sint fid) = Some f" using o' by auto
  obtain d' where d: "fds m (ofile f) = Some d'" "otype f = 0 \<longrightarrow> writable d'" "0 \<le> offset d'" "nat (sint fid) < length (openf m)"
    by (rule open_file [OF ok(2) fid])
  then have dd: "writable d" "0 \<le> offset d" "fds m (ofile f) = Some d" using o' ty by auto
  let ?f = "f\<lparr>currentOffset := offset d\<rparr>" and ?m = "put_file fid (f\<lparr>currentOffset := offset d\<rparr>) m"
  have k: "kept m ?m" by (rule kept_put_file [OF kept_refl [OF ok] d(4) fid(3)]) simp_all
  have c: "-1 \<le> sint count" using n by simp
  note e = SysWrite_eq [OF ok(2) fid dd(3) ty, of h va count]
  obtain buf m1 where u: "User2System h va count ?m = Inr (buf, m1)" using run unfolding e by (auto elim!: rbind_InrE)
  have b: "kept m m1" "machine.more m1 = machine.more ?m" "int (length buf) = sint count + 1"
    using User2System_kept [OF h k c n(2), of va] u by simp_all
  have s: "fds m1 = fds m" "inodes m1 = inodes m" using sysenv_more(5,6) [OF b(2)] by (simp_all add: put_file_def)
  have w: "StubFile_Write ?f buf (sint count) m1 = Inr (sint count, f\<lparr>currentOffset := offset d + sint count\<rparr>,
      move_fd (ofile f) d (offset d + sint count) (m1\<lparr>inodes := (inodes m)(inode d :=
         host_write (file_bytes d m) (nat (offset d)) (take (nat (sint count)) buf))\<rparr>))"
    using StubFile_Write_eq [of m1 ?f d "sint count" buf] dd s b(3) n by (simp add: file_bytes_def)
  have t: "Tell (ofile f) (move_fd (ofile f) d p x) = p" for p and x :: "'a sysenv_scheme" by (simp add: Tell_def move_fd_def)
  have "machine_ok m1" using b(1) by (simp add: kept_def)
  then have "m' = set_reg 2 count (put_file fid (f\<lparr>currentOffset := offset d + sint count\<rparr>)
      (move_fd (ofile f) d (offset d + sint count) (m1\<lparr>inodes := (inodes m)(inode d :=
         host_write (file_bytes d m) (nat (offset d)) (take (nat (sint count)) buf))\<rparr>)))"
    using run n(1) unfolding e by (simp add: u w t StubFile_GetCurrentPos_def result_reg_eq Let_def)
  then show ?thesis using u b by blast
qed

lemma host_write_read:
  "take (length bs) (drop k (host_write xs k bs)) = bs" "length (host_write xs k bs) = max (length xs) (k + length bs)"
  by (auto simp: host_write_def)

lemma halts_ExceptionHandler: "halts ExceptionHandler"
  unfolding ExceptionHandler_def by (rule halts_handle_exception)

lemma SysRead_run:
  assumes ok: "machine_ok m" "sys_ok m" and o: "open_as fid f d m"
    and n: "0 < sint count" "int (length buffer) = sint count" and bs: "length bs = nat (sint count)"
      "take (nat (sint count)) (drop (nat (offset d)) (file_bytes d m)) = bs"
  shows "\<exists>m3. SysRead h va buffer count fid m = rbind (System2User h va (sint count) bs m3) (\<lambda>(_, m4). Inr m4) \<and>
    reg 2 m3 = count \<and> Tell (ofile f) m3 = offset d + sint count"
proof -
  note o' = o [unfolded open_as_def]
  have fid: "2 \<le> sint fid" "sint fid < 15" "openf m ! nat (sint fid) = Some f" "fds m (ofile f) = Some d" using o' by auto
  let ?m3 = "put_file fid (f\<lparr>currentOffset := offset d + sint count\<rparr>) (move_fd (ofile f) d (offset d + sint count) m)"
  have "bs \<noteq> []" "int (length bs) = sint count" using bs(1) n(1) by auto
  moreover have "drop (length bs) buffer = []" using bs(1) n by simp
  ultimately have e: "SysRead h va buffer count fid m = rbind (System2User h va (sint count) bs (set_reg 2 count ?m3)) (\<lambda>(_, m4). Inr m4)"
    using SysRead_eq [OF ok(2) fid(1-4) _ n(2) bs(2) [symmetric, unfolded file_bytes_def], of h va] n(1) ok(1)
    by (simp add: result_reg_eq Let_def)
  have "length (registers ?m3) = 40" using ok(1) by (simp add: machine_ok_def NumTotalRegs_def put_file_def move_fd_def)
  then have "reg 2 (set_reg 2 count ?m3) = count" "Tell (ofile f) (set_reg 2 count ?m3) = offset d + sint count"
    by (simp_all add: Tell_def put_file_def move_fd_def)
  with e show ?thesis by blast
qed

lemma open_as_moved:
  assumes "open_as fid f d m" and "nat (sint fid) < length (openf m1)"
  shows "open_as fid (f\<lparr>currentOffset := p\<rparr>) (d\<lparr>offset := q\<rparr>) (set_reg i v (put_file fid (f\<lparr>currentOffset := p\<rparr>) (move_fd (ofile f) d q m1)))"
  using assms by (auto simp: open_as_def put_file_def move_fd_def)


text \<open>The machine of the examples with one empty file, open as entry 2.\<close>

definition one_file :: sysenv where
  "one_file = boot_sys\<lparr>openf := (replicate 15 None)[2 := Some \<lparr>ofile = 0, otype = 0, currentOffset = 0\<rparr>],
     fds := [0 \<mapsto> \<lparr>inode = 1, offset = 0, writable = True\<rparr>], brk_host := 2\<rparr>"

lemma one_file_ok: "machine_ok one_file" "sys_ok one_file"
  "open_as 2 \<lparr>ofile = 0, otype = 0, currentOffset = 0\<rparr> \<lparr>inode = 1, offset = 0, writable = True\<rparr> one_file"
proof -
  show "machine_ok one_file" using boot_sys_ok(1) by (simp add: one_file_def)
  have n: "(replicate 15 None)[2 := Some a] ! i = Some f \<longleftrightarrow> i = 2 \<and> f = a" if "i < 15" for i f and a :: StubFile
    using that by (cases "i = 2") auto
  show "sys_ok one_file" by (auto simp: sys_ok_def one_file_def MAX_FILE_OPEN_def n boot_sys_def machine.defs sysenv.defs)
  show "open_as 2 \<lparr>ofile = 0, otype = 0, currentOffset = 0\<rparr> \<lparr>inode = 1, offset = 0, writable = True\<rparr> one_file"
    by (simp add: open_as_def one_file_def)
qed

theorem SysSeek_moves_on_failure_witness:
  "\<exists>m'. SysSeek 3 2 one_file = Inr m' \<and> reg 2 m' = -1 \<and> Tell 0 m' = 0"
  using SysSeek_moves_on_failure [OF one_file_ok, of 3]
  by (simp add: file_bytes_def one_file_def boot_sys_def machine.defs sysenv.defs)

lemma ReadMem_byte:
  assumes "machine_ok m" and "tlb m = None" and "page_entry m (va div 128) e" and "physicalPage e < 128"
  shows "\<exists>v m'. ReadMem h va 1 m = Inr (Some v, m')"
proof (rule ReadMem_ok [OF assms(1), of 1 h va])
  fix x assume "x \<in> translation_faults" "ReadMem h va 1 m = rbind (RaiseException h x va m) (\<lambda>m2. Inr (None, m2))"
  have t: "Translate va 1 False m = Inr (Inr (physicalPage e * 128 + va mod 128),
      m\<lparr>pageTable := Some ((the (pageTable m))[unat (va div 128) := e\<lparr>use := True, dirty := False \<or> dirty e\<rparr>])\<rparr>)"
    and p: "sint (physicalPage e * 128 + va mod 128) = uint (physicalPage e) * 128 + uint va mod 128"
      "uint (physicalPage e) * 128 + uint va mod 128 + 1 \<le> int MemorySize"
    using Translate_hit [OF assms(1,2) _ assms(3) _ assms(4), of 1 False] by simp_all
  have "length (mainMemory m) = MemorySize" using assms(1) by (simp add: machine_ok_def)
  then obtain v where "mem_load (mainMemory m) (sint (physicalPage e * 128 + va mod 128)) 1 = Inr v"
    using mem_load_ok [of 1 "sint (physicalPage e * 128 + va mod 128)" "mainMemory m"] p by force
  then show ?thesis by (simp add: ReadMem_def t)
qed auto

lemma one_file_write: "\<exists>m1. SysWrite ExceptionHandler 0 1 2 one_file = Inr m1"
proof -
  let ?f = "\<lparr>ofile = 0, otype = 0, currentOffset = 0\<rparr>" and ?d = "\<lparr>inode = 1, offset = 0, writable = True\<rparr>"
  let ?m = "put_file 2 (?f\<lparr>currentOffset := offset ?d\<rparr>) one_file"
  note o = one_file_ok(3) [unfolded open_as_def]
  have ok: "machine_ok ?m" using one_file_ok(1) by simp
  have "tlb ?m = None" "page_entry ?m (0 div 128) (the (pageTable one_page) ! 0)" "physicalPage (the (pageTable one_page) ! 0) < 128"
    using one_page_ok(2) by (simp_all add: put_file_def one_file_def boot_sys_def machine.defs page_entry_def one_page_def Machine_new_def)
  from ReadMem_byte [OF ok this, of ExceptionHandler] obtain v m' where v: "ReadMem ExceptionHandler 0 1 ?m = Inr (Some v, m')" by blast
  have u: "User2System ExceptionHandler 0 1 ?m = Inr ([ucast v, 0], m')"
    using v by (simp add: User2System_def new_chars_def upt_rec)
  have "kept ?m m' \<and> machine.more m' = machine.more ?m"
    using User2System_kept [OF halts_ExceptionHandler kept_refl [OF ok], of 1 0] u
      sys_ok_put_file [OF one_file_ok(2), of 2] o sys_okD(1) [OF one_file_ok(2)] by simp
  then have m': "machine_ok m'" "fds m' 0 = Some ?d"
    using sysenv_more(6) [of m' ?m] by (simp_all add: kept_def put_file_def one_file_def)
  have "SysWrite ExceptionHandler 0 1 2 one_file =
    rbind (StubFile_Write (?f\<lparr>currentOffset := offset ?d\<rparr>) [ucast v, 0] (sint (1::i32)) m') (\<lambda>(n, f2, m2).
      if n > 0 then let (newPos, f3) = StubFile_GetCurrentPos f2 m2 in
         result_reg (word_of_int (newPos - offset ?d)) (put_file 2 f3 m2)
      else Inr (put_file 2 f2 m2))"
    using SysWrite_eq [OF one_file_ok(2), of 2 ?f ?d ExceptionHandler 0 1] o u by simp
  then show ?thesis
    using StubFile_Write_eq [of m' "?f\<lparr>currentOffset := offset ?d\<rparr>" ?d 1 "[ucast v, 0]"] m'
    by (simp add: StubFile_GetCurrentPos_def Let_def result_reg_eq)
qed


section \<open>The contract of the handler\<close>

text \<open>
  The exception handler fulfils the contract of \<open>trap_handler\<close>, with the legal table of open files
  as the invariant and the fields \<open>k\<close> of the rest of the kernel unchanged.
\<close>

definition sys_inv :: "(nat \<Rightarrow> int) \<Rightarrow> 'a \<Rightarrow> 'a sysenv_ext \<Rightarrow> bool" where
  "sys_inv ent k x \<longleftrightarrow> (let m = machine.extend Machine_new x in sys_ok m \<and> entropy m = ent \<and> sysenv.more m = k)"

lemma sys_inv_more: "sys_inv ent k (machine.more m) \<longleftrightarrow> sys_ok m \<and> entropy m = ent \<and> sysenv.more m = k"
proof -
  have "machine.more (machine.extend Machine_new (machine.more m)) = machine.more m" by (simp add: machine.defs)
  then show ?thesis using sys_ok_more sysenv_more(1,2) unfolding sys_inv_def Let_def by metis
qed

lemma ExceptionHandler_contract:
  assumes "machine_ok m" and "reg 0 m = 0" and "sys_ok m"
  shows "safe {Halt, Abort, WildAccess, Diverges} (\<lambda>m'. machine_ok m' \<and> reg 0 m' = 0 \<and> same_space m m' \<and> sys_ok m' \<and>
    entropy m' = entropy m \<and> sysenv.more m' = sysenv.more m) (ExceptionHandler e m)"
proof -
  have r: "Machine_ReadRegister 2 m = Inr (reg 2 m)" using assms(1) by (simp add: WriteRegister_eq)
  have "safe {Halt, Abort, WildAccess, Diverges} (\<lambda>m'. machine_ok m' \<and> reg 0 m' = 0 \<and> same_space m m' \<and> sys_ok m' \<and>
    entropy m' = entropy m \<and> sysenv.more m' = sysenv.more m) (do_syscall (handle_exception (\<lambda>_ _. Inl Abort)) (reg 2 m) m)"
    by (rule safe_mono [OF do_syscall_safe [OF halts_handle_exception assms(1,3)]])
      (use assms(2) in \<open>auto simp: syscall_faults_def Let_def syscall_done_def reg_names\<close>)
  then show ?thesis
    using assms by (auto simp: ExceptionHandler_def handle_exception_def r SysHalt_def same_space_def split: ExceptionType.splits)
qed

interpretation eh: trap_handler ExceptionHandler "{Halt, Abort, WildAccess, Diverges}" "sys_inv ent k" for ent k
  by unfold_locales (rule safe_mono [OF ExceptionHandler_contract], auto simp: sys_inv_more)

end
