(* ===== verification/Machine_Interrupt.thy ===== *)
theory Machine_Interrupt
  imports Lib_List Userprog_Syscall
begin

text \<open>
  \<open>machine/interrupt.h\<close>, \<open>interrupt.cc\<close>, \<open>stats.h\<close>, \<open>stats.cc\<close>, \<open>timer.h\<close>, \<open>timer.cc\<close> and
  \<open>threads/alarm.cc\<close>: simulated time, the list of pending interrupts and the timer device. The
  record extends \<open>sysenv\<close>, and the machine below it, whose field \<open>mstatus\<close> is \<open>Interrupt::status\<close>. The objects called on
  an interrupt are values of a type \<open>'c\<close>, and the argument \<open>cb\<close> is their virtual method
  \<open>CallBack\<close>. A pending interrupt carries the address at which it was allocated, since the list
  tells its items apart by address. Ticks are unbounded integers, while the code's wrap after
  \<open>2 ^ 31\<close>.
\<close>

section \<open>State\<close>

datatype IntStatus = IntOff | IntOn

datatype IntType = TimerInt | DiskInt | ConsoleWriteInt | ConsoleReadInt | NetworkSendInt | NetworkRecvInt

record Statistics =
  totalTicks :: int
  idleTicks :: int
  systemTicks :: int
  userTicks :: int
  numDiskReads :: int
  numDiskWrites :: int
  numConsoleCharsRead :: int
  numConsoleCharsWritten :: int
  numPageFaults :: int
  numPacketsSent :: int
  numPacketsRecvd :: int

definition Statistics_new :: Statistics where
  "Statistics_new = \<lparr>totalTicks = 0, idleTicks = 0, systemTicks = 0, userTicks = 0, numDiskReads = 0,
     numDiskWrites = 0, numConsoleCharsRead = 0, numConsoleCharsWritten = 0, numPageFaults = 0,
     numPacketsSent = 0, numPacketsRecvd = 0\<rparr>"

definition UserTick :: int where "UserTick = 1"
definition SystemTick :: int where "SystemTick = 10"
definition TimerTicks :: int where "TimerTicks = 100"

record 'c PendingInterrupt =
  address :: nat
  callOnInterrupt :: 'c
  "when" :: int
  kind :: IntType

text \<open>
  The fields of \<open>Interrupt\<close> and of the one \<open>Timer\<close>; \<open>brk_int\<close> is the next free address for a
  pending interrupt.
\<close>

record 'c interrupt = sysenv +
  level :: IntStatus
  pendingList :: "'c PendingInterrupt list"
  inHandler :: bool
  yieldOnReturn :: bool
  stats :: Statistics
  brk_int :: nat
  randomize :: bool
  disable :: bool

section \<open>The interrupt hardware\<close>

definition PendingCompare :: "'c PendingInterrupt \<Rightarrow> 'c PendingInterrupt \<Rightarrow> int" where
  "PendingCompare x y = (if when x < when y then -1 else if when x > when y then 1 else 0)"

definition ChangeLevel :: "IntStatus \<Rightarrow> ('c, 'a) interrupt_scheme \<Rightarrow> ('c, 'a) interrupt_scheme" where
  "ChangeLevel now s = s\<lparr>level := now\<rparr>"

definition Schedule :: "'c \<Rightarrow> int \<Rightarrow> IntType \<Rightarrow> ('c, 'a) interrupt_scheme \<Rightarrow> ('c, 'a) interrupt_scheme result" where
  "Schedule toCall fromNow ty s =
     (let p = \<lparr>address = brk_int s, callOnInterrupt = toCall, when = totalTicks (stats s) + fromNow, kind = ty\<rparr> in
      require (fromNow > 0)
        (rbind (list_Insert PendingCompare p (pendingList s)) (\<lambda>ps.
           Inr (s\<lparr>pendingList := ps, brk_int := brk_int s + 1\<rparr>))))"

text \<open>
  The loop of \<open>CheckIfDue\<close>. The fuel is the number of interrupts that were pending when the loop
  began, plus one; no handler schedules an interrupt for the present, so it is enough.
\<close>

primrec handle_due ::
  "('c \<Rightarrow> ('c, 'a) interrupt_scheme \<Rightarrow> ('c, 'a) interrupt_scheme result) \<Rightarrow> nat \<Rightarrow>
   ('c, 'a) interrupt_scheme \<Rightarrow> ('c, 'a) interrupt_scheme result" where
  "handle_due cb 0 s = Inl Diverges"
| "handle_due cb (Suc n) s =
     rbind (list_RemoveFront (pendingList s)) (\<lambda>(front, rest).
     rbind (cb (callOnInterrupt front) (s\<lparr>pendingList := rest\<rparr>)) (\<lambda>s'.
     if pendingList s' \<noteq> [] \<and> when (hd (pendingList s')) \<le> totalTicks (stats s') then handle_due cb n s'
     else Inr s'))"

definition CheckIfDue ::
  "('c \<Rightarrow> ('c, 'a) interrupt_scheme \<Rightarrow> ('c, 'a) interrupt_scheme result) \<Rightarrow> bool \<Rightarrow>
   ('c, 'a) interrupt_scheme \<Rightarrow> (bool \<times> ('c, 'a) interrupt_scheme) result" where
  "CheckIfDue cb advanceClock s =
     require (level s = IntOff)
      (case pendingList s of [] \<Rightarrow> Inr (False, s)
       | front # _ \<Rightarrow>
           if when front > totalTicks (stats s) \<and> \<not> advanceClock then Inr (False, s)
           else
             let s1 = (if when front > totalTicks (stats s)
                       then s\<lparr>stats := (stats s)\<lparr>idleTicks := idleTicks (stats s) + (when front - totalTicks (stats s)),
                                                totalTicks := when front\<rparr>\<rparr>
                       else s)
             in rbind (DelayedLoad 0 0 s1) (\<lambda>s2.
                rbind (handle_due cb (Suc (length (pendingList s2))) (s2\<lparr>inHandler := True\<rparr>)) (\<lambda>s3.
                Inr (True, s3\<lparr>inHandler := False\<rparr>))))"

text \<open>
  \<open>OneTick\<close> up to the context switch: the result says whether the handlers asked for one, in
  which case the flag has been reset and the machine is in system mode; the caller then yields
  and restores the old mode.
\<close>

definition OneTick ::
  "('c \<Rightarrow> ('c, 'a) interrupt_scheme \<Rightarrow> ('c, 'a) interrupt_scheme result) \<Rightarrow>
   ('c, 'a) interrupt_scheme \<Rightarrow> (bool \<times> ('c, 'a) interrupt_scheme) result" where
  "OneTick cb s =
     (let st = stats s;
          s1 = (if mstatus s = SystemMode
                then s\<lparr>stats := st\<lparr>totalTicks := totalTicks st + SystemTick, systemTicks := systemTicks st + SystemTick\<rparr>\<rparr>
                else s\<lparr>stats := st\<lparr>totalTicks := totalTicks st + UserTick, userTicks := userTicks st + UserTick\<rparr>\<rparr>)
      in rbind (CheckIfDue cb False (ChangeLevel IntOff s1)) (\<lambda>(_, s2).
         let s3 = ChangeLevel IntOn s2 in
         if yieldOnReturn s3 then Inr (True, s3\<lparr>yieldOnReturn := False, mstatus := SystemMode\<rparr>)
         else Inr (False, s3)))"

definition SetLevel ::
  "('c \<Rightarrow> ('c, 'a) interrupt_scheme \<Rightarrow> ('c, 'a) interrupt_scheme result) \<Rightarrow> IntStatus \<Rightarrow>
   ('c, 'a) interrupt_scheme \<Rightarrow> (bool \<times> ('c, 'a) interrupt_scheme) result" where
  "SetLevel cb now s =
     require (now = IntOff \<or> \<not> inHandler s)
       (let s1 = ChangeLevel now s in
        if now = IntOn \<and> level s = IntOff then OneTick cb s1 else Inr (False, s1))"

definition YieldOnReturn :: "('c, 'a) interrupt_scheme \<Rightarrow> ('c, 'a) interrupt_scheme result" where
  "YieldOnReturn s = require (inHandler s) (Inr (s\<lparr>yieldOnReturn := True\<rparr>))"

definition Idle ::
  "('c \<Rightarrow> ('c, 'a) interrupt_scheme \<Rightarrow> ('c, 'a) interrupt_scheme result) \<Rightarrow>
   ('c, 'a) interrupt_scheme \<Rightarrow> ('c, 'a) interrupt_scheme result" where
  "Idle cb s =
     rbind (CheckIfDue cb True (s\<lparr>mstatus := IdleMode\<rparr>)) (\<lambda>(due, s1).
     if due then Inr (s1\<lparr>mstatus := SystemMode\<rparr>) else Inl Halt)"

section \<open>The timer and the alarm\<close>

text \<open>The timer is the callback object \<open>this\<close>.\<close>

definition Timer_SetInterrupt :: "'c \<Rightarrow> ('c, 'a) interrupt_scheme \<Rightarrow> ('c, 'a) interrupt_scheme result" where
  "Timer_SetInterrupt this s =
     (if \<not> disable s then
        let (delay, s1) = (if randomize s then let (r, s1) = RandomNumber s in (1 + r smod (TimerTicks * 2), s1)
                           else (TimerTicks, s))
        in Schedule this delay TimerInt s1
      else Inr s)"

definition Timer_new :: "'c \<Rightarrow> bool \<Rightarrow> ('c, 'a) interrupt_scheme \<Rightarrow> ('c, 'a) interrupt_scheme result" where
  "Timer_new this doRandom s = Timer_SetInterrupt this (s\<lparr>randomize := doRandom, disable := False\<rparr>)"

definition Timer_Disable :: "('c, 'a) interrupt_scheme \<Rightarrow> ('c, 'a) interrupt_scheme" where
  "Timer_Disable s = s\<lparr>disable := True\<rparr>"

definition Alarm_CallBack :: "('c, 'a) interrupt_scheme \<Rightarrow> ('c, 'a) interrupt_scheme result" where
  "Alarm_CallBack s = (if mstatus s \<noteq> IdleMode then YieldOnReturn s else Inr s)"

definition Timer_CallBack :: "'c \<Rightarrow> ('c, 'a) interrupt_scheme \<Rightarrow> ('c, 'a) interrupt_scheme result" where
  "Timer_CallBack this s = rbind (Alarm_CallBack s) (Timer_SetInterrupt this)"

section \<open>Legal interrupt states\<close>

interpretation pc: comparison PendingCompare
  by unfold_locales (auto simp: PendingCompare_def split: if_splits)

abbreviation now :: "('c, 'a) interrupt_scheme \<Rightarrow> int" where
  "now s \<equiv> totalTicks (stats s)"

text \<open>
  Pending interrupts are in order of time and at different addresses, and the host's random
  numbers are not negative.
\<close>

definition clock_ok :: "('c, 'a) interrupt_scheme \<Rightarrow> bool" where
  "clock_ok s \<longleftrightarrow> sorted (map when (pendingList s)) \<and> distinct (pendingList s) \<and>
     (\<forall>p \<in> set (pendingList s). address p < brk_int s) \<and> (\<forall>i. 0 \<le> entropy s i)"

text \<open>The registers of a machine with or without a page table.\<close>

definition cpu_ok :: "'a machine_scheme \<Rightarrow> bool" where
  "cpu_ok m \<longleftrightarrow> length (registers m) = NumTotalRegs \<and> length (mainMemory m) = MemorySize \<and>
     unat (reg LoadReg m) < 32 \<and> reg 0 m = 0 \<and> tlb m = None"

lemma DelayedLoad_cpu:
  assumes "cpu_ok m"
  shows "\<exists>r. DelayedLoad 0 0 m = Inr (m\<lparr>registers := r\<rparr>) \<and> cpu_ok (m\<lparr>registers := r\<rparr>)"
proof -
  let ?n = "m\<lparr>pageTable := Some [], pageTableSize := 0\<rparr>"
  have "machine_ok ?n" using assms by (simp add: cpu_ok_def machine_ok_def reg_def)
  from DelayedLoad_ok [OF this, of 0 0] obtain m' where m': "DelayedLoad 0 0 ?n = Inr m'" "machine_ok m'" "reg 0 m' = 0" by auto
  have e: "\<exists>r. DelayedLoad 0 0 m = Inr (m\<lparr>registers := r\<rparr>) \<and> m' = ?n\<lparr>registers := r\<rparr>"
    using m'(1) by (auto simp: DelayedLoad_def reg_def rbind_eq_Inr arr_set_def split: if_splits)
  then obtain r where r: "DelayedLoad 0 0 m = Inr (m\<lparr>registers := r\<rparr>)" "m' = ?n\<lparr>registers := r\<rparr>" by blast
  moreover have "cpu_ok (m\<lparr>registers := r\<rparr>)" using m'(2,3) assms by (simp add: r(2) machine_ok_def cpu_ok_def reg_def)
  ultimately show ?thesis by blast
qed

lemma PendingCompare_le: "PendingCompare x y \<le> 0 \<longleftrightarrow> when x \<le> when y"
  by (simp add: PendingCompare_def)

lemma in_order_when: "sorted_wrt (\<lambda>x y. PendingCompare x y \<le> 0) ps \<longleftrightarrow> sorted (map when ps)"
  by (simp add: PendingCompare_le sorted_wrt_map)

lemma set_insert_pending: "set (before PendingCompare p ps @ p # after PendingCompare p ps) = insert p (set ps)"
  by (rule set_before_after)

text \<open>\<open>Schedule\<close> never fails for a positive delay, and adds exactly one interrupt.\<close>

lemma Schedule_ok:
  assumes s: "clock_ok s" and "0 < fromNow"
  shows "\<exists>p ps. Schedule c fromNow ty s = Inr (s\<lparr>pendingList := ps, brk_int := brk_int s + 1\<rparr>) \<and>
    set ps = insert p (set (pendingList s)) \<and> p \<notin> set (pendingList s) \<and> callOnInterrupt p = c \<and>
    when p = now s + fromNow \<and> clock_ok (s\<lparr>pendingList := ps, brk_int := brk_int s + 1\<rparr>)"
proof -
  define p where "p = \<lparr>address = brk_int s, callOnInterrupt = c, when = now s + fromNow, kind = ty\<rparr>"
  define ps where "ps = before PendingCompare p (pendingList s) @ p # after PendingCompare p (pendingList s)"
  have n: "p \<notin> set (pendingList s)" using s by (auto simp: clock_ok_def p_def)
  have set: "set ps = insert p (set (pendingList s))" unfolding ps_def by (rule set_insert_pending)
  have sorted: "sorted (map when ps)"
    using pc.in_order_insert [of "pendingList s" p] s unfolding ps_def in_order_when clock_ok_def by simp
  have "before PendingCompare p (pendingList s) @ after PendingCompare p (pendingList s) = pendingList s"
    by (simp add: before_def after_def)
  then have "distinct (before PendingCompare p (pendingList s) @ after PendingCompare p (pendingList s))"
    and "p \<notin> set (before PendingCompare p (pendingList s) @ after PendingCompare p (pendingList s))"
    using s n by (simp_all add: clock_ok_def)
  then have "distinct ps" unfolding ps_def by auto
  then have "clock_ok (s\<lparr>pendingList := ps, brk_int := brk_int s + 1\<rparr>)"
    using s sorted set by (auto simp: clock_ok_def p_def)
  moreover have "Schedule c fromNow ty s = Inr (s\<lparr>pendingList := ps, brk_int := brk_int s + 1\<rparr>)"
    using n assms(2) by (simp add: Schedule_def list_Insert_def ps_def flip: p_def)
  ultimately show ?thesis using n set by (intro exI [of _ p] exI [of _ ps]) (simp add: p_def)
qed

section \<open>The interface of the devices\<close>

text \<open>
  \<open>later s s'\<close>: what a handler may do to the hardware. It keeps the pending interrupts and the
  processor, and may schedule new interrupts, for the future only.
\<close>

definition later :: "('c, 'a) interrupt_scheme \<Rightarrow> ('c, 'a) interrupt_scheme \<Rightarrow> bool" where
  "later s s' \<longleftrightarrow> clock_ok s' \<and> level s' = level s \<and> inHandler s' = inHandler s \<and> now s' = now s \<and> mstatus s' = mstatus s \<and>
     registers s' = registers s \<and> mainMemory s' = mainMemory s \<and> tlb s' = tlb s \<and> pageTable s' = pageTable s \<and>
     pageTableSize s' = pageTableSize s \<and> set (pendingList s) \<subseteq> set (pendingList s') \<and>
     (\<forall>p \<in> set (pendingList s') - set (pendingList s). when p > now s)"

lemma later_refl: "clock_ok s \<Longrightarrow> later s s"
  by (simp add: later_def)

text \<open>The timer asks for a context switch and schedules its next interrupt.\<close>

lemma Timer_CallBack_ok:
  assumes "clock_ok s" and "inHandler s"
  shows "\<exists>ps y d b. Timer_CallBack c s = Inr (s\<lparr>yieldOnReturn := y, drawn := d, pendingList := ps, brk_int := b\<rparr>) \<and>
    later s (s\<lparr>yieldOnReturn := y, drawn := d, pendingList := ps, brk_int := b\<rparr>) \<and>
    (\<forall>p \<in> set ps - set (pendingList s). callOnInterrupt p = c)"
proof -
  define y where "y = (mstatus s \<noteq> IdleMode \<or> yieldOnReturn s)"
  have a: "Alarm_CallBack s = Inr (s\<lparr>yieldOnReturn := y\<rparr>)"
    using assms(2) by (simp add: Alarm_CallBack_def YieldOnReturn_def y_def)
  let ?s = "s\<lparr>yieldOnReturn := y\<rparr>"
  show ?thesis
  proof (cases "disable s")
    case True
    then have "Timer_CallBack c s = Inr (s\<lparr>yieldOnReturn := y, drawn := drawn s, pendingList := pendingList s, brk_int := brk_int s\<rparr>)"
      by (simp add: Timer_CallBack_def a Timer_SetInterrupt_def)
    moreover have "later s (s\<lparr>yieldOnReturn := y, drawn := drawn s, pendingList := pendingList s, brk_int := brk_int s\<rparr>)"
      using assms(1) by (simp add: later_def clock_ok_def)
    ultimately show ?thesis by blast
  next
    case False
    define d where "d = (if randomize s then drawn s + 1 else drawn s)"
    define delay where "delay = (if randomize s then 1 + entropy s (drawn s) smod (TimerTicks * 2) else TimerTicks)"
    let ?s1 = "?s\<lparr>drawn := d\<rparr>"
    have "0 \<le> entropy s (drawn s)" using assms(1) by (simp add: clock_ok_def)
    then have delay: "0 < delay" by (auto simp: delay_def TimerTicks_def smod_nonneg)
    have "clock_ok ?s1" using assms(1) by (simp add: clock_ok_def)
    from Schedule_ok [OF this delay, of c TimerInt] obtain p ps where p:
      "Schedule c delay TimerInt ?s1 = Inr (?s1\<lparr>pendingList := ps, brk_int := brk_int ?s1 + 1\<rparr>)"
      "set ps = insert p (set (pendingList ?s1))" "callOnInterrupt p = c" "when p = now ?s1 + delay"
      "clock_ok (?s1\<lparr>pendingList := ps, brk_int := brk_int ?s1 + 1\<rparr>)" by blast
    have "Timer_SetInterrupt c ?s = Schedule c delay TimerInt ?s1"
      using False by (simp add: Timer_SetInterrupt_def RandomNumber_def delay_def d_def)
    then have "Timer_CallBack c s = Inr (s\<lparr>yieldOnReturn := y, drawn := d, pendingList := ps, brk_int := brk_int s + 1\<rparr>)"
      using p(1) by (simp add: Timer_CallBack_def a)
    moreover have "later s (s\<lparr>yieldOnReturn := y, drawn := d, pendingList := ps, brk_int := brk_int s + 1\<rparr>)"
      using p delay by (auto simp: later_def)
    moreover have "\<forall>q \<in> set ps - set (pendingList s). callOnInterrupt q = c" using p(2,3) by auto
    ultimately show ?thesis by blast
  qed
qed

definition due :: "('c, 'a) interrupt_scheme \<Rightarrow> 'c PendingInterrupt set" where
  "due s = {p \<in> set (pendingList s). when p \<le> now s}"

text \<open>
  What the interrupt hardware relies on: the handler of a device (\<open>dev\<close>) runs to its end, does to
  the hardware only what \<open>later\<close> allows, schedules interrupts of devices only, and restores the
  kernel's invariant. The handler starts when its interrupt has been taken off the list of pending
  ones (\<open>popped\<close>), so the invariant may count the interrupts of a device.
\<close>

definition pend_ok :: "('c \<Rightarrow> bool) \<Rightarrow> ('c, 'a) interrupt_scheme \<Rightarrow> bool" where
  "pend_ok dev s \<longleftrightarrow> (\<forall>p \<in> set (pendingList s). dev (callOnInterrupt p))"

lemma pend_ok_neutral [simp]:
  "pend_ok dev (s\<lparr>inHandler := b\<rparr>) = pend_ok dev s" "pend_ok dev (s\<lparr>level := l\<rparr>) = pend_ok dev s"
  "pend_ok dev (s\<lparr>stats := st\<rparr>) = pend_ok dev s" "pend_ok dev (s\<lparr>mstatus := ms\<rparr>) = pend_ok dev s"
  "pend_ok dev (s\<lparr>registers := r\<rparr>) = pend_ok dev s" "pend_ok dev (s\<lparr>yieldOnReturn := b\<rparr>) = pend_ok dev s"
  by (simp_all add: pend_ok_def)

locale handlers =
  fixes cb :: "'c \<Rightarrow> ('c, 'a) interrupt_scheme \<Rightarrow> ('c, 'a) interrupt_scheme result"
    and dev :: "'c \<Rightarrow> bool" and inv :: "('c, 'a) interrupt_scheme \<Rightarrow> bool"
    and popped :: "'c \<Rightarrow> ('c, 'a) interrupt_scheme \<Rightarrow> bool"
  assumes cb_ok: "popped c s \<Longrightarrow> clock_ok s \<Longrightarrow> level s = IntOff \<Longrightarrow> inHandler s \<Longrightarrow> dev c \<Longrightarrow> pend_ok dev s \<Longrightarrow>
      \<exists>s'. cb c s = Inr s' \<and> inv s' \<and> pend_ok dev s' \<and> later s s'"
    and pop: "inv s \<Longrightarrow> pendingList s = p # ps \<Longrightarrow> popped (callOnInterrupt p) (s\<lparr>pendingList := ps\<rparr>)"
    and inv_hw: "inv (s\<lparr>inHandler := b\<rparr>) = inv s" "inv (s\<lparr>level := l\<rparr>) = inv s"
      "inv (s\<lparr>stats := st\<rparr>) = inv s" "inv (s\<lparr>mstatus := ms\<rparr>) = inv s" "inv (s\<lparr>registers := r\<rparr>) = inv s"
      "inv (s\<lparr>yieldOnReturn := b\<rparr>) = inv s"
begin

lemma handle_due_ok:
  assumes "inv s" and "clock_ok s" and "level s = IntOff" and "inHandler s" and "cpu_ok s"
    and "pend_ok dev s" and "pendingList s = p # ps" and "when p \<le> now s" and "card (due s) \<le> n"
  shows "\<exists>s'. handle_due cb n s = Inr s' \<and> inv s' \<and> clock_ok s' \<and> level s' = IntOff \<and> inHandler s' \<and> cpu_ok s' \<and>
    now s' = now s \<and> mstatus s' = mstatus s \<and> pageTable s' = pageTable s \<and> pageTableSize s' = pageTableSize s \<and> due s' = {} \<and> pend_ok dev s'"
  using assms
proof (induction n arbitrary: s p ps)
  case 0
  then have "p \<in> due s" "finite (due s)" by (auto simp: due_def)
  then show ?case using 0 by auto
next
  case (Suc n)
  let ?s = "s\<lparr>pendingList := ps\<rparr>"
  have c: "clock_ok ?s" "p \<notin> set ps" using Suc.prems(2,7) by (auto simp: clock_ok_def)
  have dev: "dev (callOnInterrupt p)" "pend_ok dev ?s" using Suc.prems(6,7) by (auto simp: pend_ok_def)
  obtain s1 where s1: "cb (callOnInterrupt p) ?s = Inr s1" "inv s1" "later ?s s1" "pend_ok dev s1"
    using cb_ok [OF pop [OF Suc.prems(1,7)]] Suc.prems c dev by auto
  note l = s1(3) [unfolded later_def]
  have old: "x \<in> set ps" if "x \<in> set (pendingList s1)" "when x \<le> now s" for x
  proof (rule ccontr)
    assume "x \<notin> set ps"
    then have "now s < when x" using l that(1) by auto
    then show False using that(2) by simp
  qed
  have d: "due s1 = due s - {p}"
  proof (intro equalityI subsetI)
    fix x assume "x \<in> due s1"
    then show "x \<in> due s - {p}" using old [of x] l Suc.prems(7) c(2) by (auto simp: due_def)
  next
    fix x assume "x \<in> due s - {p}"
    then show "x \<in> due s1" using l Suc.prems(7) by (auto simp: due_def)
  qed
  have fin: "finite (due s)" and mem: "p \<in> due s" using Suc.prems(7,8) by (auto simp: due_def)
  have n: "card (due s1) \<le> n" using d fin mem Suc.prems(9) by simp
  have cpu: "cpu_ok s1" using Suc.prems(5) l by (simp add: cpu_ok_def reg_def)
  have run: "handle_due cb (Suc n) s =
      (if pendingList s1 \<noteq> [] \<and> when (hd (pendingList s1)) \<le> now s1 then handle_due cb n s1 else Inr s1)"
    using Suc.prems(7) s1(1) by (simp add: list_RemoveFront_def)
  show ?case
  proof (cases "pendingList s1 \<noteq> [] \<and> when (hd (pendingList s1)) \<le> now s1")
    case True
    then obtain q qs where q: "pendingList s1 = q # qs" "when q \<le> now s1" by (cases "pendingList s1") auto
    have "clock_ok s1" "level s1 = IntOff" "inHandler s1" using l Suc.prems(3,4) by simp_all
    from Suc.IH [OF s1(2) this cpu s1(4) q n] True run l show ?thesis by auto
  next
    case False
    have "due s1 = {}"
    proof (cases "pendingList s1")
      case Nil
      then show ?thesis by (simp add: due_def)
    next
      case (Cons q qs)
      have "clock_ok s1" using l by blast
      then show ?thesis using False Cons by (fastforce simp: due_def clock_ok_def)
    qed
    then show ?thesis using False run l s1(2,4) cpu Suc.prems(3,4) by auto
  qed
qed

text \<open>
  After \<open>CheckIfDue\<close> no interrupt is due: everything that was pending for the present has been
  handled, and with \<open>advanceClock\<close> time has moved to the first pending interrupt.
\<close>

lemma CheckIfDue_ok:
  assumes "inv s" and "clock_ok s" and "level s = IntOff" and "\<not> inHandler s" and "cpu_ok s" and "pend_ok dev s"
  shows "\<exists>s'. CheckIfDue cb adv s = Inr (pendingList s \<noteq> [] \<and> (adv \<or> when (hd (pendingList s)) \<le> now s), s') \<and>
    inv s' \<and> clock_ok s' \<and> level s' = IntOff \<and> \<not> inHandler s' \<and> cpu_ok s' \<and> pend_ok dev s' \<and> mstatus s' = mstatus s \<and>
    pageTable s' = pageTable s \<and> pageTableSize s' = pageTableSize s \<and>
    (\<forall>p \<in> set (pendingList s'). when p > now s') \<and>
    now s' = (if adv \<and> pendingList s \<noteq> [] then max (now s) (when (hd (pendingList s))) else now s)"
proof (cases "pendingList s")
  case Nil
  then show ?thesis using assms by (simp add: CheckIfDue_def)
next
  case (Cons p ps)
  show ?thesis
  proof (cases "when p > now s \<and> \<not> adv")
    case True
    then have "\<forall>q \<in> set (pendingList s). when q > now s" using assms(2) Cons by (auto simp: clock_ok_def)
    then show ?thesis using assms True Cons by (simp add: CheckIfDue_def)
  next
    case False
    define s1 where "s1 = (if when p > now s
      then s\<lparr>stats := (stats s)\<lparr>idleTicks := idleTicks (stats s) + (when p - now s), totalTicks := when p\<rparr>\<rparr> else s)"
    have s1: "inv s1" "clock_ok s1" "level s1 = IntOff" "\<not> inHandler s1" "cpu_ok s1" "mstatus s1 = mstatus s" "pageTable s1 = pageTable s"
      "pageTableSize s1 = pageTableSize s" "pendingList s1 = p # ps" "now s1 = max (now s) (when p)"
      "pend_ok dev s1"
      using assms Cons by (auto simp: s1_def inv_hw clock_ok_def cpu_ok_def reg_def)
    obtain r where r: "DelayedLoad 0 0 s1 = Inr (s1\<lparr>registers := r\<rparr>)" "cpu_ok (s1\<lparr>registers := r\<rparr>)"
      using DelayedLoad_cpu [OF s1(5)] by blast
    let ?s = "s1\<lparr>registers := r, inHandler := True\<rparr>"
    have "card (due ?s) \<le> length (pendingList ?s)"
      using card_mono [of "set (pendingList ?s)" "due ?s"] card_length [of "pendingList ?s"] by (auto simp: due_def)
    then have n: "card (due ?s) \<le> Suc (length (pendingList s1))" by simp
    have h: "inv ?s" "clock_ok ?s" "level ?s = IntOff" "inHandler ?s" "cpu_ok ?s" "pend_ok dev ?s" "pendingList ?s = p # ps" "when p \<le> now ?s"
      using s1 r(2) by (simp_all add: inv_hw clock_ok_def cpu_ok_def reg_def)
    from handle_due_ok [OF h n] obtain s' where s': "handle_due cb (Suc (length (pendingList s1))) ?s = Inr s'" "inv s'" "clock_ok s'"
      "level s' = IntOff" "inHandler s'" "cpu_ok s'" "now s' = now ?s" "mstatus s' = mstatus ?s" "pageTable s' = pageTable ?s"
      "pageTableSize s' = pageTableSize ?s" "due s' = {}" "pend_ok dev s'" by blast
    have run: "CheckIfDue cb adv s = Inr (True, s'\<lparr>inHandler := False\<rparr>)"
    proof -
      have "CheckIfDue cb adv s = rbind (DelayedLoad 0 0 s1) (\<lambda>s2.
          rbind (handle_due cb (Suc (length (pendingList s2))) (s2\<lparr>inHandler := True\<rparr>)) (\<lambda>s3. Inr (True, s3\<lparr>inHandler := False\<rparr>)))"
        using False Cons assms(3) unfolding CheckIfDue_def s1_def by auto
      moreover have "pendingList (s1\<lparr>registers := r\<rparr>) = pendingList s1" by simp
      ultimately show ?thesis using r(1) s'(1) by (simp only: rbind_Inr)
    qed
    show ?thesis
      using False Cons s1 s' run
      by (intro exI [of _ "s'\<lparr>inHandler := False\<rparr>"]) (auto simp: inv_hw clock_ok_def cpu_ok_def reg_def due_def max_def)
  qed
qed

lemma OneTick_ok:
  assumes "inv s" and "clock_ok s" and "\<not> inHandler s" and "cpu_ok s" and "pend_ok dev s"
  shows "\<exists>y s'. OneTick cb s = Inr (y, s') \<and> inv s' \<and> clock_ok s' \<and> level s' = IntOn \<and> \<not> inHandler s' \<and> cpu_ok s' \<and> pend_ok dev s' \<and>
    pageTable s' = pageTable s \<and> pageTableSize s' = pageTableSize s \<and> \<not> yieldOnReturn s' \<and>
    mstatus s' = (if y then SystemMode else mstatus s) \<and>
    (\<forall>p \<in> set (pendingList s'). when p > now s') \<and>
    now s' = now s + (if mstatus s = SystemMode then SystemTick else UserTick)"
proof -
  let ?st = "stats s"
  define s1 where "s1 = (if mstatus s = SystemMode
     then s\<lparr>stats := ?st\<lparr>totalTicks := totalTicks ?st + SystemTick, systemTicks := systemTicks ?st + SystemTick\<rparr>\<rparr>
     else s\<lparr>stats := ?st\<lparr>totalTicks := totalTicks ?st + UserTick, userTicks := userTicks ?st + UserTick\<rparr>\<rparr>)"
  let ?s = "ChangeLevel IntOff s1"
  have h: "inv ?s" "clock_ok ?s" "level ?s = IntOff" "\<not> inHandler ?s" "cpu_ok ?s" "pend_ok dev ?s"
    using assms by (simp_all add: s1_def ChangeLevel_def inv_hw clock_ok_def cpu_ok_def reg_def)
  have e: "mstatus ?s = mstatus s" "pageTable ?s = pageTable s" "pageTableSize ?s = pageTableSize s"
    "now ?s = now s + (if mstatus s = SystemMode then SystemTick else UserTick)"
    by (simp_all add: s1_def ChangeLevel_def)
  from CheckIfDue_ok [OF h, of False] obtain b s2 where s2: "CheckIfDue cb False ?s = Inr (b, s2)" "inv s2" "clock_ok s2" "\<not> inHandler s2"
    "cpu_ok s2" "mstatus s2 = mstatus ?s" "pageTable s2 = pageTable ?s" "pageTableSize s2 = pageTableSize ?s"
    "\<forall>p \<in> set (pendingList s2). when p > now s2" "now s2 = now ?s" "pend_ok dev s2" by auto
  define s3 where "s3 = ChangeLevel IntOn s2"
  let ?r = "if yieldOnReturn s3 then (True, s3\<lparr>yieldOnReturn := False, mstatus := SystemMode\<rparr>) else (False, s3)"
  have run: "OneTick cb s = Inr ?r"
    using s2(1) by (simp add: OneTick_def Let_def flip: s1_def) (simp add: s3_def)
  show ?thesis
    by (rule exI [of _ "fst ?r"], rule exI [of _ "snd ?r"])
      (use run s2 e in \<open>auto simp: s3_def ChangeLevel_def inv_hw clock_ok_def cpu_ok_def reg_def\<close>)
qed

end

text \<open>Handlers that keep an invariant which does not mention the hardware at all.\<close>

locale devices =
  fixes cb :: "'c \<Rightarrow> ('c, 'a) interrupt_scheme \<Rightarrow> ('c, 'a) interrupt_scheme result"
    and dev :: "'c \<Rightarrow> bool" and inv :: "('c, 'a) interrupt_scheme \<Rightarrow> bool"
  assumes handler_ok: "inv s \<Longrightarrow> clock_ok s \<Longrightarrow> level s = IntOff \<Longrightarrow> inHandler s \<Longrightarrow> dev c \<Longrightarrow> pend_ok dev s \<Longrightarrow>
      \<exists>s'. cb c s = Inr s' \<and> inv s' \<and> pend_ok dev s' \<and> later s s'"
    and inv_neutral: "inv (s\<lparr>pendingList := ps\<rparr>) = inv s" "inv (s\<lparr>inHandler := b\<rparr>) = inv s" "inv (s\<lparr>level := l\<rparr>) = inv s"
      "inv (s\<lparr>stats := st\<rparr>) = inv s" "inv (s\<lparr>mstatus := ms\<rparr>) = inv s" "inv (s\<lparr>registers := r\<rparr>) = inv s"
      "inv (s\<lparr>yieldOnReturn := b\<rparr>) = inv s"

sublocale devices \<subseteq> handlers cb dev inv "\<lambda>_. inv"
  by unfold_locales (simp_all add: handler_ok inv_neutral)

end
