(* ===== verification/Lib_Bitmap.thy ===== *)
theory Lib_Bitmap
  imports Nachos_Prelude
begin

text \<open>
  \<open>lib/bitmap.h\<close> and \<open>lib/bitmap.cc\<close>: a bitmap kept as an array of 32 bit words. The
  record has the class's fields; every method is a function that returns the new bitmap, with
  the \<open>ASSERT\<close>s as \<open>require\<close>. The abstraction of a bitmap is the set of its marked bits.
\<close>

section \<open>Data and operations\<close>

abbreviation BitsInByte :: int where "BitsInByte \<equiv> 8"
abbreviation BitsInWord :: int where "BitsInWord \<equiv> 32"

record Bitmap =
  numBits :: int
  numWords :: int
  bmap :: "i32 list"

definition Bitmap_Test :: "int \<Rightarrow> Bitmap \<Rightarrow> bool result" where
  "Bitmap_Test which b =
     require (0 \<le> which \<and> which < numBits b)
       (rbind (arr_get (bmap b) (which sdiv BitsInWord)) (\<lambda>w.
          Inr (w AND push_bit (nat (which smod BitsInWord)) 1 \<noteq> 0)))"

definition Bitmap_Mark :: "int \<Rightarrow> Bitmap \<Rightarrow> Bitmap result" where
  "Bitmap_Mark which b =
     require (0 \<le> which \<and> which < numBits b)
       (rbind (arr_get (bmap b) (which sdiv BitsInWord)) (\<lambda>w.
        rbind (arr_set (bmap b) (which sdiv BitsInWord)
                 (w OR push_bit (nat (which smod BitsInWord)) 1)) (\<lambda>m.
        let b' = b\<lparr>bmap := m\<rparr> in
        rbind (Bitmap_Test which b') (\<lambda>t. require t (Inr b')))))"

definition Bitmap_Clear :: "int \<Rightarrow> Bitmap \<Rightarrow> Bitmap result" where
  "Bitmap_Clear which b =
     require (0 \<le> which \<and> which < numBits b)
       (rbind (arr_get (bmap b) (which sdiv BitsInWord)) (\<lambda>w.
        rbind (arr_set (bmap b) (which sdiv BitsInWord)
                 (w AND NOT (push_bit (nat (which smod BitsInWord)) 1))) (\<lambda>m.
        let b' = b\<lparr>bmap := m\<rparr> in
        rbind (Bitmap_Test which b') (\<lambda>t. require (\<not> t) (Inr b')))))"

text \<open>The constructor: a zeroed array of \<open>divRoundUp numItems 32\<close> words, then every bit cleared.\<close>

definition Bitmap_new :: "int \<Rightarrow> Bitmap result" where
  "Bitmap_new numItems =
     require (numItems > 0)
       (let n = divRoundUp numItems BitsInWord;
            b = \<lparr>numBits = numItems, numWords = n, bmap = replicate (nat n) 0\<rparr>
        in for_upto numItems Bitmap_Clear b)"

text \<open>\<open>FindAndSet\<close> scans from index \<open>i\<close>; the loop of the source starts at 0.\<close>

function Bitmap_FindAndSet_from :: "int \<Rightarrow> Bitmap \<Rightarrow> (int \<times> Bitmap) result" where
  "Bitmap_FindAndSet_from i b =
     (if i < numBits b then
        rbind (Bitmap_Test i b) (\<lambda>t.
          if \<not> t then rbind (Bitmap_Mark i b) (\<lambda>b'. Inr (i, b'))
          else Bitmap_FindAndSet_from (i + 1) b)
      else Inr (-1, b))"
  by pat_completeness auto
termination
  by (relation "measure (\<lambda>(i, b). nat (numBits b - i))") auto

declare Bitmap_FindAndSet_from.simps [simp del]

definition Bitmap_FindAndSet :: "Bitmap \<Rightarrow> (int \<times> Bitmap) result" where
  "Bitmap_FindAndSet b = Bitmap_FindAndSet_from 0 b"

definition Bitmap_NumClear :: "Bitmap \<Rightarrow> int result" where
  "Bitmap_NumClear b =
     for_upto (numBits b)
       (\<lambda>i count. rbind (Bitmap_Test i b) (\<lambda>t. Inr (if \<not> t then count + 1 else count))) 0"

text \<open>\<open>Print\<close> writes the numbers of the marked bits; its output is the list of them.\<close>

definition Bitmap_Print :: "Bitmap \<Rightarrow> int list result" where
  "Bitmap_Print b =
     for_upto (numBits b)
       (\<lambda>i out. rbind (Bitmap_Test i b) (\<lambda>t. Inr (if t then out @ [i] else out))) []"

text \<open>\<open>SelfTest\<close>, run by \<open>LibSelfTest\<close> on a fresh bitmap.\<close>

definition Bitmap_SelfTest :: "Bitmap \<Rightarrow> Bitmap result" where
  "Bitmap_SelfTest b =
     require (numBits b \<ge> BitsInWord)
    (rbind (Bitmap_NumClear b) (\<lambda>c. require (c = numBits b)
    (rbind (Bitmap_FindAndSet b) (\<lambda>(k, b1). require (k = 0)
    (rbind (Bitmap_Mark 31 b1) (\<lambda>b2.
     rbind (Bitmap_Test 0 b2) (\<lambda>t0.
     rbind (if t0 then Bitmap_Test 31 b2 else Inr False) (\<lambda>t. require t
    (rbind (Bitmap_FindAndSet b2) (\<lambda>(k1, b3). require (k1 = 1)
    (rbind (Bitmap_Clear 0 b3) (\<lambda>b4.
     rbind (Bitmap_Clear 1 b4) (\<lambda>b5.
     rbind (Bitmap_Clear 31 b5) (\<lambda>b6.
     rbind (for_upto (numBits b6) Bitmap_Mark b6) (\<lambda>b7.
     rbind (Bitmap_FindAndSet b7) (\<lambda>(k2, b8). require (k2 = -1)
    (for_upto (numBits b8) Bitmap_Clear b8)))))))))))))))))"

section \<open>Invariant and abstraction\<close>

definition Bitmap_wf :: "Bitmap \<Rightarrow> bool" where
  "Bitmap_wf b \<longleftrightarrow>
     0 < numBits b \<and> numWords b = divRoundUp (numBits b) BitsInWord \<and>
     int (length (bmap b)) = numWords b"

definition Bitmap_bits :: "Bitmap \<Rightarrow> int set" where
  "Bitmap_bits b =
     {i. 0 \<le> i \<and> i < numBits b \<and> bit (bmap b ! nat (i div 32)) (nat (i mod 32))}"

lemma Bitmap_wf_nonneg: "Bitmap_wf b \<Longrightarrow> 0 \<le> numBits b"
  by (simp add: Bitmap_wf_def)

lemma Bitmap_bits_subset: "Bitmap_bits b \<subseteq> {0..<numBits b}"
  by (auto simp: Bitmap_bits_def)

lemma finite_Bitmap_bits [simp]: "finite (Bitmap_bits b)"
  by (rule finite_subset [OF Bitmap_bits_subset]) simp

lemma word_index:
  assumes "Bitmap_wf b" and "0 \<le> i" and "i < numBits b"
  shows "0 \<le> i div 32" and "i div 32 < int (length (bmap b))" and "nat (i mod 32) < 32"
  using assms divRoundUp_div_less [of i "numBits b" 32]
  by (auto simp: Bitmap_wf_def nat_less_iff)

lemma and_push_bit_1: "(w :: i32) AND 2 ^ n \<noteq> 0 \<longleftrightarrow> bit w n"
  by (simp add: bit_iff_and_push_bit_not_eq_0)

lemma bit_or_push_bit_1:
  "bit ((w :: i32) OR 2 ^ n) k \<longleftrightarrow> bit w k \<or> (k = n \<and> n < 32)"
  by (auto simp: bit_simps)

lemma bit_and_not_push_bit_1:
  "bit ((w :: i32) AND NOT (2 ^ n)) k \<longleftrightarrow> bit w k \<and> k \<noteq> n"
  by (auto simp: bit_simps dest: bit_imp_le_length)

lemma same_bit_position:
  assumes "0 \<le> i" and "0 \<le> (j::int)" and "nat (i div 32) = nat (j div 32)" and "nat (i mod 32) = nat (j mod 32)"
  shows "i = j"
proof -
  have "i div 32 = j div 32" "i mod 32 = j mod 32"
    using assms by (simp_all add: nat_eq_iff2 pos_imp_zdiv_nonneg_iff)
  then show ?thesis by (metis div_mult_mod_eq)
qed


section \<open>What each operation does\<close>

lemma Bitmap_Test_eq:
  assumes "Bitmap_wf b" and "0 \<le> i" and "i < numBits b"
  shows "Bitmap_Test i b = Inr (i \<in> Bitmap_bits b)"
  using assms word_index [OF assms]
  by (simp add: Bitmap_Test_def sdiv_nonneg smod_nonneg and_push_bit_1 Bitmap_bits_def)

lemma Bitmap_Test_out: "\<not> (0 \<le> i \<and> i < numBits b) \<Longrightarrow> Bitmap_Test i b = Inl Abort"
  by (auto simp: Bitmap_Test_def require_def)

lemma Bitmap_bits_upd:
  assumes wf: "Bitmap_wf b" and i: "0 \<le> i" "i < numBits b"
    and w: "\<And>k. k < 32 \<Longrightarrow> bit w k \<longleftrightarrow> (if k = nat (i mod 32) then v else bit (bmap b ! nat (i div 32)) k)"
  shows "Bitmap_bits (b\<lparr>bmap := (bmap b)[nat (i div 32) := w]\<rparr>) =
           (if v then insert i (Bitmap_bits b) else Bitmap_bits b - {i})" (is "?L = ?R")
proof (rule set_eqI)
  fix j
  note wi = word_index [OF wf i]
  show "j \<in> ?L \<longleftrightarrow> j \<in> ?R"
  proof (cases "0 \<le> j \<and> j < numBits b")
    case False
    then show ?thesis using i by (auto simp: Bitmap_bits_def)
  next
    case True
    then have j: "nat (j mod 32) < 32" using word_index [OF wf] by blast
    show ?thesis
    proof (cases "nat (j div 32) = nat (i div 32)")
      case same: True
      have "j = i \<longleftrightarrow> nat (j mod 32) = nat (i mod 32)"
        using same_bit_position [of j i] same True i(1) by blast
      moreover have "nat (i div 32) < length (bmap b)"
        using wi by (simp add: nat_less_iff)
      ultimately show ?thesis
        using same True w [OF j] i by (simp add: Bitmap_bits_def)
    next
      case False
      then show ?thesis using True by (auto simp: Bitmap_bits_def)
    qed
  qed
qed

lemma Bitmap_Mark_ok:
  assumes wf: "Bitmap_wf b" and i: "0 \<le> i" "i < numBits b"
  shows "\<exists>b'. Bitmap_Mark i b = Inr b' \<and> Bitmap_wf b' \<and> numBits b' = numBits b \<and>
           Bitmap_bits b' = insert i (Bitmap_bits b)"
proof -
  note wi = word_index [OF wf i]
  let ?w = "bmap b ! nat (i div 32) OR 2 ^ nat (i mod 32)"
  let ?b = "b\<lparr>bmap := (bmap b)[nat (i div 32) := ?w]\<rparr>"
  have wf': "Bitmap_wf ?b" using wf by (simp add: Bitmap_wf_def)
  have bits: "Bitmap_bits ?b = insert i (Bitmap_bits b)"
    using Bitmap_bits_upd [OF wf i, of ?w True] wi by (auto simp: bit_or_push_bit_1)
  have "Bitmap_Test i ?b = Inr True"
    using Bitmap_Test_eq [OF wf'] i bits by simp
  then have "Bitmap_Mark i b = Inr ?b"
    using i wi by (simp add: Bitmap_Mark_def sdiv_nonneg smod_nonneg Let_def)
  then show ?thesis using wf' bits by auto
qed

lemma Bitmap_Clear_ok:
  assumes wf: "Bitmap_wf b" and i: "0 \<le> i" "i < numBits b"
  shows "\<exists>b'. Bitmap_Clear i b = Inr b' \<and> Bitmap_wf b' \<and> numBits b' = numBits b \<and>
           Bitmap_bits b' = Bitmap_bits b - {i}"
proof -
  note wi = word_index [OF wf i]
  let ?w = "bmap b ! nat (i div 32) AND NOT (2 ^ nat (i mod 32))"
  let ?b = "b\<lparr>bmap := (bmap b)[nat (i div 32) := ?w]\<rparr>"
  have wf': "Bitmap_wf ?b" using wf by (simp add: Bitmap_wf_def)
  have bits: "Bitmap_bits ?b = Bitmap_bits b - {i}"
    using Bitmap_bits_upd [OF wf i, of ?w False] wi by (auto simp: bit_and_not_push_bit_1)
  have "Bitmap_Test i ?b = Inr False"
    using Bitmap_Test_eq [OF wf'] i bits by simp
  then have "Bitmap_Clear i b = Inr ?b"
    using i wi by (simp add: Bitmap_Clear_def sdiv_nonneg smod_nonneg Let_def)
  then show ?thesis using wf' bits by auto
qed

lemma Bitmap_new_ok:
  assumes "0 < n"
  shows "\<exists>b. Bitmap_new n = Inr b \<and> Bitmap_wf b \<and> numBits b = n \<and> Bitmap_bits b = {}"
proof -
  let ?b = "\<lparr>numBits = n, numWords = divRoundUp n 32, bmap = replicate (nat (divRoundUp n 32)) 0\<rparr>"
  have wf: "Bitmap_wf ?b" using assms divRoundUp_bounds(3) [of n 32] by (simp add: Bitmap_wf_def)
  have "bmap ?b ! nat (i div 32) = 0" if "0 \<le> i" "i < n" for i
    using word_index [OF wf, of i] that by (simp add: zless_nat_conj nat_mono_iff split: if_splits)
  then have e: "Bitmap_bits ?b = {}"
    by (auto simp: Bitmap_bits_def)
  have "\<exists>b. for_upto n Bitmap_Clear ?b = Inr b \<and> (Bitmap_wf b \<and> numBits b = n \<and> Bitmap_bits b = {})"
    by (rule for_upto_rule) (use assms wf e in \<open>auto dest: Bitmap_Clear_ok\<close>)
  then show ?thesis using assms by (simp add: Bitmap_new_def Let_def)
qed

lemma Bitmap_FindAndSet_from_ok:
  assumes "Bitmap_wf b" and "0 \<le> i" and "{0..<i} \<subseteq> Bitmap_bits b" and "i \<le> numBits b"
  shows "(Bitmap_bits b = {0..<numBits b} \<and> Bitmap_FindAndSet_from i b = Inr (-1, b)) \<or>
         (\<exists>k b'. Bitmap_FindAndSet_from i b = Inr (k, b') \<and> 0 \<le> k \<and> k < numBits b \<and>
            k \<notin> Bitmap_bits b \<and> {0..<k} \<subseteq> Bitmap_bits b \<and>
            Bitmap_wf b' \<and> numBits b' = numBits b \<and> Bitmap_bits b' = insert k (Bitmap_bits b))"
  using assms
proof (induction i b rule: Bitmap_FindAndSet_from.induct)
  case (1 i b)
  show ?case
  proof (cases "i < numBits b")
    case False
    with 1 have "Bitmap_bits b = {0..<numBits b}" using Bitmap_bits_subset [of b] by auto
    with False show ?thesis by (simp add: Bitmap_FindAndSet_from.simps [of i b])
  next
    case True
    with 1 have t: "Bitmap_Test i b = Inr (i \<in> Bitmap_bits b)" by (simp add: Bitmap_Test_eq)
    show ?thesis
    proof (cases "i \<in> Bitmap_bits b")
      case False
      obtain b' where "Bitmap_Mark i b = Inr b'" "Bitmap_wf b'" "numBits b' = numBits b"
        "Bitmap_bits b' = insert i (Bitmap_bits b)"
        using Bitmap_Mark_ok [of b i] 1 True by blast
      with False True 1 t show ?thesis by (simp add: Bitmap_FindAndSet_from.simps [of i b])
    next
      case mem: True
      have "{0..<i + 1} \<subseteq> Bitmap_bits b"
        using "1.prems"(2,3) mem by (simp add: int_range_Suc)
      with True mem 1 t show ?thesis
        by (simp add: Bitmap_FindAndSet_from.simps [of i b])
    qed
  qed
qed

lemma Bitmap_FindAndSet_ok:
  assumes "Bitmap_wf b"
  shows "(Bitmap_bits b = {0..<numBits b} \<and> Bitmap_FindAndSet b = Inr (-1, b)) \<or>
         (\<exists>k b'. Bitmap_FindAndSet b = Inr (k, b') \<and> 0 \<le> k \<and> k < numBits b \<and>
            k \<notin> Bitmap_bits b \<and> {0..<k} \<subseteq> Bitmap_bits b \<and>
            Bitmap_wf b' \<and> numBits b' = numBits b \<and> Bitmap_bits b' = insert k (Bitmap_bits b))"
  using Bitmap_FindAndSet_from_ok [of b 0] assms
  by (simp add: Bitmap_FindAndSet_def Bitmap_wf_def)

lemma Bitmap_NumClear_ok:
  assumes wf: "Bitmap_wf b"
  shows "Bitmap_NumClear b = Inr (numBits b - int (card (Bitmap_bits b)))"
proof -
  let ?c = "\<lambda>i. int (card ({0..<i} - Bitmap_bits b))"
  have "\<exists>t. Bitmap_NumClear b = Inr t \<and> t = ?c (numBits b)"
    unfolding Bitmap_NumClear_def
  proof (rule for_upto_rule [where P = "\<lambda>i t. t = ?c i"])
    fix i t assume i: "0 \<le> i" "i < numBits b" and t: "t = ?c i"
    have s: "{0..<i + 1} - Bitmap_bits b =
        (if i \<in> Bitmap_bits b then {0..<i} - Bitmap_bits b else insert i ({0..<i} - Bitmap_bits b))"
      using i by (auto simp: int_range_Suc)
    show "\<exists>t'. rbind (Bitmap_Test i b) (\<lambda>u. Inr (if \<not> u then t + 1 else t)) = Inr t' \<and> t' = ?c (i + 1)"
      using Bitmap_Test_eq [OF wf i] t by (cases "i \<in> Bitmap_bits b") (simp_all add: s)
  qed (use wf in \<open>auto simp: Bitmap_wf_def\<close>)
  moreover have "?c (numBits b) = numBits b - int (card (Bitmap_bits b))"
    using Bitmap_bits_subset [of b] wf card_mono [OF _ Bitmap_bits_subset [of b]]
    by (simp add: card_Diff_subset Bitmap_wf_def)
  ultimately show ?thesis by simp
qed

text \<open>\<open>Print\<close> shows exactly the marked bits, in increasing order.\<close>

lemma Bitmap_Print_ok:
  assumes wf: "Bitmap_wf b"
  shows "\<exists>out. Bitmap_Print b = Inr out \<and> set out = Bitmap_bits b \<and> sorted_wrt (<) out"
proof -
  have "\<exists>out. Bitmap_Print b = Inr out \<and>
      (set out = {0..<numBits b} \<inter> Bitmap_bits b \<and> sorted_wrt (<) out)"
    unfolding Bitmap_Print_def
  proof (rule for_upto_rule [where P = "\<lambda>i out. set out = {0..<i} \<inter> Bitmap_bits b \<and> sorted_wrt (<) out"])
    fix i out
    assume i: "0 \<le> i" "i < numBits b"
      and out: "set out = {0..<i} \<inter> Bitmap_bits b \<and> sorted_wrt (<) out"
    then show "\<exists>out'. rbind (Bitmap_Test i b) (\<lambda>t. Inr (if t then out @ [i] else out)) = Inr out' \<and>
        set out' = {0..<i + 1} \<inter> Bitmap_bits b \<and> sorted_wrt (<) out'"
      using Bitmap_Test_eq [OF wf i] 
      by (cases "i \<in> Bitmap_bits b") (auto simp: sorted_wrt_append int_range_Suc)
  qed (use wf in \<open>auto simp: Bitmap_wf_def\<close>)
  then show ?thesis using Bitmap_bits_subset [of b] by (auto simp: Int_absorb1)
qed

text \<open>A whole pass of \<open>Mark\<close> or \<open>Clear\<close> over the bitmap, as the constructor and \<open>SelfTest\<close> do.\<close>

lemma Bitmap_Mark_all:
  assumes "Bitmap_wf b"
  shows "\<exists>b'. for_upto (numBits b) Bitmap_Mark b = Inr b' \<and> Bitmap_wf b' \<and>
           numBits b' = numBits b \<and> Bitmap_bits b' = {0..<numBits b}"
proof -
  have "\<exists>b'. for_upto (numBits b) Bitmap_Mark b = Inr b' \<and>
      (Bitmap_wf b' \<and> numBits b' = numBits b \<and> {0..<numBits b} \<subseteq> Bitmap_bits b')"
  proof (rule for_upto_rule [where P = "\<lambda>i c. Bitmap_wf c \<and> numBits c = numBits b \<and> {0..<i} \<subseteq> Bitmap_bits c"])
    fix i c
    assume "0 \<le> i" "i < numBits b" "Bitmap_wf c \<and> numBits c = numBits b \<and> {0..<i} \<subseteq> Bitmap_bits c"
    then show "\<exists>c'. Bitmap_Mark i c = Inr c' \<and> Bitmap_wf c' \<and> numBits c' = numBits b \<and>
        {0..<i + 1} \<subseteq> Bitmap_bits c'"
      using Bitmap_Mark_ok [of c i] by (auto simp: int_range_Suc)
  qed (use assms in \<open>auto simp: Bitmap_wf_nonneg\<close>)
  then show ?thesis using Bitmap_bits_subset by (metis subset_antisym)
qed

lemma Bitmap_Clear_all:
  assumes "Bitmap_wf b"
  shows "\<exists>b'. for_upto (numBits b) Bitmap_Clear b = Inr b' \<and> Bitmap_wf b' \<and>
           numBits b' = numBits b \<and> Bitmap_bits b' = {}"
proof -
  have "\<exists>b'. for_upto (numBits b) Bitmap_Clear b = Inr b' \<and>
      (Bitmap_wf b' \<and> numBits b' = numBits b \<and> Bitmap_bits b' \<inter> {0..<numBits b} = {})"
  proof (rule for_upto_rule [where P = "\<lambda>i c. Bitmap_wf c \<and> numBits c = numBits b \<and> Bitmap_bits c \<inter> {0..<i} = {}"])
    fix i c
    assume "0 \<le> i" "i < numBits b" "Bitmap_wf c \<and> numBits c = numBits b \<and> Bitmap_bits c \<inter> {0..<i} = {}"
    then show "\<exists>c'. Bitmap_Clear i c = Inr c' \<and> Bitmap_wf c' \<and> numBits c' = numBits b \<and>
        Bitmap_bits c' \<inter> {0..<i + 1} = {}"
      using Bitmap_Clear_ok [of c i] by (auto simp: int_range_Suc)
  qed (use assms in \<open>auto simp: Bitmap_wf_nonneg\<close>)
  then show ?thesis using Bitmap_bits_subset by (metis Int_absorb2)
qed

section \<open>The interface of an allocation map\<close>

text \<open>
  What the clients of a bitmap (\<open>FileHeader\<close> and \<open>FileSystem\<close>) rely on: a map over the numbers
  below its size, of which some are in use, from which a free number can be taken, to which a
  number can be given back, and which counts its free numbers.
\<close>

locale alloc_map =
  fixes invar :: "'m \<Rightarrow> bool"
    and limit :: "'m \<Rightarrow> int"
    and used :: "'m \<Rightarrow> int set"
    and test :: "int \<Rightarrow> 'm \<Rightarrow> bool result"
    and release :: "int \<Rightarrow> 'm \<Rightarrow> 'm result"
    and take_free :: "'m \<Rightarrow> (int \<times> 'm) result"
    and num_free :: "'m \<Rightarrow> int result"
  assumes used_range: "invar m \<Longrightarrow> used m \<subseteq> {0..<limit m}"
    and test_ok: "invar m \<Longrightarrow> 0 \<le> i \<Longrightarrow> i < limit m \<Longrightarrow> test i m = Inr (i \<in> used m)"
    and release_ok: "invar m \<Longrightarrow> 0 \<le> i \<Longrightarrow> i < limit m \<Longrightarrow>
      \<exists>m'. release i m = Inr m' \<and> invar m' \<and> limit m' = limit m \<and> used m' = used m - {i}"
    and take_free_ok: "invar m \<Longrightarrow> used m \<noteq> {0..<limit m} \<Longrightarrow>
      \<exists>k m'. take_free m = Inr (k, m') \<and> 0 \<le> k \<and> k < limit m \<and> k \<notin> used m \<and>
        invar m' \<and> limit m' = limit m \<and> used m' = insert k (used m)"
    and take_free_full: "invar m \<Longrightarrow> used m = {0..<limit m} \<Longrightarrow> take_free m = Inr (-1, m)"
    and num_free_ok: "invar m \<Longrightarrow> num_free m = Inr (limit m - int (card (used m)))"
begin

lemma finite_used: "invar m \<Longrightarrow> finite (used m)"
  by (rule finite_subset [OF used_range]) auto

lemma used_bound: "invar m \<Longrightarrow> i \<in> used m \<Longrightarrow> 0 \<le> i \<and> i < limit m"
  using used_range [of m] by auto

lemma not_full: "invar m \<Longrightarrow> int (card (used m)) < limit m \<Longrightarrow> used m \<noteq> {0..<limit m}"
  using card_atLeastLessThan_int [of 0 "limit m"] by (auto split: if_splits)

end

interpretation bm: alloc_map Bitmap_wf numBits Bitmap_bits Bitmap_Test Bitmap_Clear
  Bitmap_FindAndSet Bitmap_NumClear
proof unfold_locales
  fix m assume "Bitmap_wf m" "Bitmap_bits m \<noteq> {0..<numBits m}"
  then show "\<exists>k m'. Bitmap_FindAndSet m = Inr (k, m') \<and> 0 \<le> k \<and> k < numBits m \<and>
      k \<notin> Bitmap_bits m \<and> Bitmap_wf m' \<and> numBits m' = numBits m \<and>
      Bitmap_bits m' = insert k (Bitmap_bits m)"
    using Bitmap_FindAndSet_ok [of m] by blast
next
  fix m assume "Bitmap_wf m" "Bitmap_bits m = {0..<numBits m}"
  then show "Bitmap_FindAndSet m = Inr (-1, m)"
    using Bitmap_FindAndSet_ok [of m] by auto
qed (auto simp: Bitmap_Test_eq Bitmap_NumClear_ok Bitmap_Clear_ok
      intro: subsetD [OF Bitmap_bits_subset])


section \<open>Properties\<close>

text \<open>
  C33: on a well-formed bitmap and an index in range, \<open>Test\<close>, \<open>Mark\<close> and \<open>Clear\<close> never
  abort and are membership, insertion and deletion on the set of marked bits; \<open>Mark\<close> and
  \<open>Clear\<close> keep the bitmap well-formed; \<open>NumClear\<close> counts the complement of the set.
\<close>

theorem Bitmap_refines_set:
  assumes "Bitmap_wf b" and "0 \<le> i" and "i < numBits b"
  shows "Bitmap_Test i b = Inr (i \<in> Bitmap_bits b) \<and>
    (\<exists>b'. Bitmap_Mark i b = Inr b' \<and> Bitmap_wf b' \<and> numBits b' = numBits b \<and>
       Bitmap_bits b' = insert i (Bitmap_bits b)) \<and>
    (\<exists>b'. Bitmap_Clear i b = Inr b' \<and> Bitmap_wf b' \<and> numBits b' = numBits b \<and>
       Bitmap_bits b' = Bitmap_bits b - {i}) \<and>
    Bitmap_NumClear b = Inr (int (card ({0..<numBits b} - Bitmap_bits b)))"
proof -
  have "int (card ({0..<numBits b} - Bitmap_bits b)) = numBits b - int (card (Bitmap_bits b))"
    using assms Bitmap_bits_subset [of b] card_mono [OF _ Bitmap_bits_subset [of b]]
    by (simp add: card_Diff_subset)
  then show ?thesis
    using assms by (simp add: Bitmap_Test_eq Bitmap_Mark_ok Bitmap_Clear_ok Bitmap_NumClear_ok)
qed

theorem Bitmap_refines_set_witness:
  "Bitmap_Test 33 \<lparr>numBits = 40, numWords = 2, bmap = [0, 2]\<rparr> = Inr True"
proof -
  let ?b = "\<lparr>numBits = 40, numWords = 2, bmap = [0, 2]\<rparr>"
  have "Bitmap_wf ?b" by (simp add: Bitmap_wf_def divRoundUp_nonneg)
  moreover have "33 \<in> Bitmap_bits ?b" by (simp add: Bitmap_bits_def)
  ultimately show ?thesis using Bitmap_refines_set [of ?b 33] by simp
qed

text \<open>
  \<open>FindAndSet\<close> always returns: on a full bitmap -1 and the bitmap unchanged, otherwise
  the least clear bit, which is then marked and is the only change.
\<close>

theorem Bitmap_FindAndSet_least:
  assumes "Bitmap_wf b"
  shows "\<exists>k b'. Bitmap_FindAndSet b = Inr (k, b') \<and>
    (if Bitmap_bits b = {0..<numBits b} then k = -1 \<and> b' = b
     else k \<in> {0..<numBits b} - Bitmap_bits b \<and> (\<forall>j. 0 \<le> j \<and> j < k \<longrightarrow> j \<in> Bitmap_bits b) \<and>
       Bitmap_wf b' \<and> numBits b' = numBits b \<and> Bitmap_bits b' = insert k (Bitmap_bits b))"
proof (cases "Bitmap_bits b = {0..<numBits b}")
  case True
  then show ?thesis using Bitmap_FindAndSet_ok [OF assms] by auto
next
  case False
  then show ?thesis using Bitmap_FindAndSet_ok [OF assms] by (auto simp: subset_iff)
qed

theorem Bitmap_FindAndSet_least_witness:
  "\<exists>k b'. Bitmap_FindAndSet \<lparr>numBits = 40, numWords = 2, bmap = [-1, 1]\<rparr> = Inr (k, b') \<and> k = 33"
proof -
  let ?b = "\<lparr>numBits = 40, numWords = 2, bmap = [-1, 1]\<rparr>"
  have wf: "Bitmap_wf ?b" by (simp add: Bitmap_wf_def divRoundUp_nonneg)
  have m: "33 \<notin> Bitmap_bits ?b" by (simp add: Bitmap_bits_def)
  have "33 \<in> {0..<40::int}" by simp
  with m have nf: "Bitmap_bits ?b \<noteq> {0..<40}" by blast
  have "0 \<le> j \<Longrightarrow> j < 33 \<Longrightarrow> j \<in> Bitmap_bits ?b" for j
    by (cases "j = 32") (simp_all add: Bitmap_bits_def div_pos_pos_trivial mod_pos_pos_trivial nat_less_iff)
  then show ?thesis
    using Bitmap_FindAndSet_least [OF wf] m nf by (force simp: not_less le_less)
qed

text \<open>
  the module's own \<open>SelfTest\<close> passes on every empty bitmap of at least one word: none
  of its assertions fails, and it leaves the bitmap empty.
\<close>

theorem Bitmap_SelfTest_passes:
  assumes "Bitmap_wf b" and "Bitmap_bits b = {}" and "32 \<le> numBits b"
  shows "\<exists>b'. Bitmap_SelfTest b = Inr b' \<and> Bitmap_wf b' \<and> Bitmap_bits b' = {}"
proof -
  let ?n = "numBits b"
  obtain b1 where b1: "Bitmap_FindAndSet b = Inr (0, b1)" "Bitmap_wf b1" "numBits b1 = ?n"
    "Bitmap_bits b1 = {0}"
    using Bitmap_FindAndSet_ok [OF assms(1)] assms(2,3)
    by (auto simp: subset_iff)
  obtain b2 where b2: "Bitmap_Mark 31 b1 = Inr b2" "Bitmap_wf b2" "numBits b2 = ?n"
    "Bitmap_bits b2 = {0, 31}"
    using Bitmap_Mark_ok [of b1 31] b1 assms(3) by auto
  obtain b3 where b3: "Bitmap_FindAndSet b2 = Inr (1, b3)" "Bitmap_wf b3" "numBits b3 = ?n"
    "Bitmap_bits b3 = {0, 1, 31}"
  proof -
    have "1 \<notin> Bitmap_bits b2" "1 \<in> {0..<?n}" using b2 assms(3) by auto
    then have "Bitmap_bits b2 \<noteq> {0..<?n}" by blast
    then obtain k c where k: "Bitmap_FindAndSet b2 = Inr (k, c)" "0 \<le> k" "k \<notin> {0, 31}"
      "{0..<k} \<subseteq> {0, 31}" "Bitmap_wf c" "numBits c = ?n" "Bitmap_bits c = insert k {0, 31}"
      using Bitmap_FindAndSet_ok [OF b2(2)] b2 by auto
    have "k = 1"
    proof (rule ccontr)
      assume "k \<noteq> 1"
      then have "1 \<in> {0..<k}" using k(2,3) by auto
      then have "1 \<in> {0, 31::int}" using k(4) by (rule subsetD [rotated])
      then show False by simp
    qed
    then show ?thesis using that k by (auto simp: insert_commute)
  qed
  obtain b4 where b4: "Bitmap_Clear 0 b3 = Inr b4" "Bitmap_wf b4" "numBits b4 = ?n"
    using Bitmap_Clear_ok [of b3 0] b3 assms(3) by auto
  obtain b5 where b5: "Bitmap_Clear 1 b4 = Inr b5" "Bitmap_wf b5" "numBits b5 = ?n"
    using Bitmap_Clear_ok [of b4 1] b4 assms(3) by auto
  obtain b6 where b6: "Bitmap_Clear 31 b5 = Inr b6" "Bitmap_wf b6" "numBits b6 = ?n"
    using Bitmap_Clear_ok [of b5 31] b5 assms(3) by auto
  obtain b7 where b7: "for_upto ?n Bitmap_Mark b6 = Inr b7" "Bitmap_wf b7" "numBits b7 = ?n"
    "Bitmap_bits b7 = {0..<?n}"
    using Bitmap_Mark_all [of b6] b6 by auto
  have "Bitmap_FindAndSet b7 = Inr (-1, b7)"
    using Bitmap_FindAndSet_ok [OF b7(2)] b7 by auto
  then show ?thesis
    using assms b1 b2 b3 b4 b5 b6 b7 Bitmap_Clear_all [OF b7(2)]
    by (auto simp: Bitmap_SelfTest_def Bitmap_NumClear_ok Bitmap_Test_eq)
qed

theorem Bitmap_SelfTest_passes_witness:
  "\<exists>b'. Bitmap_SelfTest \<lparr>numBits = 200, numWords = 7, bmap = replicate 7 0\<rparr> = Inr b'"
proof -
  let ?b = "\<lparr>numBits = 200, numWords = 7, bmap = replicate 7 0 :: i32 list\<rparr>"
  have wf: "Bitmap_wf ?b" by (simp add: Bitmap_wf_def divRoundUp_nonneg)
  have "nat (i div 32) < 7" if "0 \<le> i" "i < 200" for i :: int
    using that by (simp add: nat_less_iff)
  then have "Bitmap_bits ?b = {}"
    by (auto simp: Bitmap_bits_def nth_replicate)
  then show ?thesis using Bitmap_SelfTest_passes [OF wf] by auto
qed

end
