(* ===== verification/Filesys_File.thy ===== *)
theory Filesys_File
  imports Lib_Bitmap
begin

text \<open>
  \<open>filesys/filehdr.h\<close>, \<open>filehdr.cc\<close>, \<open>openfile.h\<close>, \<open>openfile.cc\<close> (the implementation on the
  simulated disk, \<open>FILESYS\<close>) and the synchronous view of the disk that \<open>filesys/synchdisk.cc\<close>
  gives to them: an array of sectors, read and written one at a time. The file header is kept
  in one sector as 32 little-endian words. Memory that the code leaves uninitialised is an
  argument (\<open>junk\<close>, or the old contents of a record), and nothing proved depends on it.
\<close>

section \<open>The disk as an array of sectors\<close>

type_synonym disk = "byte list list"

abbreviation SectorSize :: int where "SectorSize \<equiv> 128"
definition SectorsPerTrack :: int where "SectorsPerTrack = 32"
definition NumTracks :: int where "NumTracks = 32"
abbreviation NumSectors :: int where "NumSectors \<equiv> 1024"

text \<open>\<open>SynchDisk::ReadSector\<close> and \<open>WriteSector\<close>; the range check is that of \<open>Disk::ReadRequest\<close>.\<close>

definition ReadSector :: "int \<Rightarrow> disk \<Rightarrow> byte list result" where
  "ReadSector sectorNumber d =
     require (0 \<le> sectorNumber \<and> sectorNumber < NumSectors) (arr_get d sectorNumber)"

definition WriteSector :: "int \<Rightarrow> byte list \<Rightarrow> disk \<Rightarrow> disk result" where
  "WriteSector sectorNumber data d =
     require (0 \<le> sectorNumber \<and> sectorNumber < NumSectors) (arr_set d sectorNumber data)"

section \<open>File headers\<close>

definition NumDirect :: int where "NumDirect = (SectorSize - 2 * 4) div 4"
definition MaxFileSize :: int where "MaxFileSize = NumDirect * SectorSize"

record FileHeader =
  numBytes :: int
  numSectors :: int
  dataSectors :: "int list"

text \<open>The allocation map is used through \<open>NumClear\<close>, \<open>FindAndSet\<close>, \<open>Test\<close> and \<open>Clear\<close>.\<close>

definition FileHeader_Allocate ::
  "int \<Rightarrow> FileHeader \<Rightarrow> Bitmap \<Rightarrow> (bool \<times> FileHeader \<times> Bitmap) result" where
  "FileHeader_Allocate fileSize hdr freeMap =
     (let hdr1 = hdr\<lparr>numBytes := fileSize, numSectors := divRoundUp fileSize SectorSize\<rparr> in
      rbind (Bitmap_NumClear freeMap) (\<lambda>n.
      if n < numSectors hdr1 then Inr (False, hdr1, freeMap)
      else
        rbind (for_upto (numSectors hdr1) (\<lambda>i (sectors, m).
                 rbind (Bitmap_FindAndSet m) (\<lambda>(k, m').
                 rbind (arr_set sectors i k) (\<lambda>sectors'.
                 require (k \<ge> 0) (Inr (sectors', m'))))) (dataSectors hdr1, freeMap))
          (\<lambda>(sectors, m). Inr (True, hdr1\<lparr>dataSectors := sectors\<rparr>, m))))"

definition FileHeader_Deallocate :: "FileHeader \<Rightarrow> Bitmap \<Rightarrow> Bitmap result" where
  "FileHeader_Deallocate hdr freeMap =
     for_upto (numSectors hdr) (\<lambda>i m.
       rbind (arr_get (dataSectors hdr) i) (\<lambda>s.
       rbind (Bitmap_Test s m) (\<lambda>t. require t (Bitmap_Clear s m)))) freeMap"

text \<open>The header in memory, cast to the bytes of a sector, and back.\<close>

definition header_bytes :: "FileHeader \<Rightarrow> byte list" where
  "header_bytes hdr =
     word_bytes (word_of_int (numBytes hdr) # word_of_int (numSectors hdr) # map word_of_int (dataSectors hdr))"

definition header_of_bytes :: "byte list \<Rightarrow> FileHeader" where
  "header_of_bytes bs =
     (let ws = map sint (bytes_words bs) in
      \<lparr>numBytes = ws ! 0, numSectors = ws ! 1, dataSectors = drop 2 ws\<rparr>)"

definition FileHeader_FetchFrom :: "int \<Rightarrow> disk \<Rightarrow> FileHeader result" where
  "FileHeader_FetchFrom sector d = rbind (ReadSector sector d) (\<lambda>bs. Inr (header_of_bytes bs))"

definition FileHeader_WriteBack :: "int \<Rightarrow> FileHeader \<Rightarrow> disk \<Rightarrow> disk result" where
  "FileHeader_WriteBack sector hdr d = WriteSector sector (header_bytes hdr) d"

definition ByteToSector :: "int \<Rightarrow> FileHeader \<Rightarrow> int result" where
  "ByteToSector offset hdr = arr_get (dataSectors hdr) (offset sdiv SectorSize)"

definition FileLength :: "FileHeader \<Rightarrow> int" where
  "FileLength hdr = numBytes hdr"

section \<open>Open files\<close>

record OpenFile =
  hdr :: FileHeader
  seekPosition :: int
  "type" :: int

definition OpenFile_new :: "int \<Rightarrow> int \<Rightarrow> disk \<Rightarrow> OpenFile result" where
  "OpenFile_new sector ty d =
     rbind (FileHeader_FetchFrom sector d) (\<lambda>h. Inr \<lparr>hdr = h, seekPosition = 0, type = ty\<rparr>)"

definition OpenFile_Seek :: "int \<Rightarrow> OpenFile \<Rightarrow> OpenFile" where
  "OpenFile_Seek position f = f\<lparr>seekPosition := position\<rparr>"

text \<open>\<open>bcopy\<close> of \<open>n\<close> bytes from index \<open>off\<close>, or to index \<open>off\<close>, of a buffer.\<close>

definition copy_from :: "byte list \<Rightarrow> int \<Rightarrow> int \<Rightarrow> byte list result" where
  "copy_from buf off n =
     (if 0 \<le> off \<and> 0 \<le> n \<and> off + n \<le> int (length buf) then Inr (take (nat n) (drop (nat off) buf))
      else Inl WildAccess)"

definition copy_to :: "byte list \<Rightarrow> int \<Rightarrow> byte list \<Rightarrow> byte list result" where
  "copy_to buf off bs =
     (if 0 \<le> off \<and> off + int (length bs) \<le> int (length buf)
      then Inr (take (nat off) buf @ bs @ drop (nat off + length bs) buf)
      else Inl WildAccess)"

text \<open>The bytes of the sectors \<open>firstSector\<close> to \<open>lastSector\<close> of a file, one after the other.\<close>

definition read_sectors :: "FileHeader \<Rightarrow> int \<Rightarrow> int \<Rightarrow> disk \<Rightarrow> byte list result" where
  "read_sectors h firstSector numSecs d =
     for_upto numSecs (\<lambda>j buf.
       rbind (ByteToSector ((firstSector + j) * SectorSize) h) (\<lambda>s.
       rbind (ReadSector s d) (\<lambda>bs. Inr (buf @ bs)))) []"

text \<open>
  \<open>ReadAt\<close> returns the bytes it copies into the buffer; their number is the value the method
  returns.
\<close>

definition OpenFile_ReadAt :: "int \<Rightarrow> int \<Rightarrow> OpenFile \<Rightarrow> disk \<Rightarrow> byte list result" where
  "OpenFile_ReadAt num position f d =
     (let fileLength = FileLength (hdr f) in
      if num \<le> 0 \<or> position \<ge> fileLength then Inr []
      else
        let n = (if position + num > fileLength then fileLength - position else num);
            firstSector = divRoundDown position SectorSize;
            lastSector = divRoundDown (position + n - 1) SectorSize
        in rbind (read_sectors (hdr f) firstSector (1 + lastSector - firstSector) d) (\<lambda>buf.
             copy_from buf (position - firstSector * SectorSize) n))"

definition write_sectors :: "FileHeader \<Rightarrow> int \<Rightarrow> int \<Rightarrow> byte list \<Rightarrow> disk \<Rightarrow> disk result" where
  "write_sectors h firstSector numSecs buf d =
     for_upto numSecs (\<lambda>j d'.
       rbind (ByteToSector ((firstSector + j) * SectorSize) h) (\<lambda>s.
       rbind (copy_from buf (j * SectorSize) SectorSize) (\<lambda>bs. WriteSector s bs d'))) d"

text \<open>
  \<open>WriteAt\<close> writes as many of the bytes \<open>from\<close> as fit; \<open>junk\<close> is the uninitialised content of
  its buffer. The result is the number of bytes written and the new disk.
\<close>

definition OpenFile_WriteAt ::
  "(int \<Rightarrow> byte) \<Rightarrow> byte list \<Rightarrow> int \<Rightarrow> OpenFile \<Rightarrow> disk \<Rightarrow> (int \<times> disk) result" where
  "OpenFile_WriteAt junk from position f d =
     (let fileLength = FileLength (hdr f); num = int (length from) in
      if num \<le> 0 \<or> position \<ge> fileLength then Inr (0, d)
      else
        let n = (if position + num > fileLength then fileLength - position else num);
            firstSector = divRoundDown position SectorSize;
            lastSector = divRoundDown (position + n - 1) SectorSize;
            numSecs = 1 + lastSector - firstSector;
            buf = map junk [0..numSecs * SectorSize - 1];
            firstAligned = (position = firstSector * SectorSize);
            lastAligned = (position + n = (lastSector + 1) * SectorSize)
        in
        rbind (if \<not> firstAligned then
                 rbind (OpenFile_ReadAt SectorSize (firstSector * SectorSize) f d) (copy_to buf 0)
               else Inr buf) (\<lambda>buf1.
        rbind (if \<not> lastAligned \<and> (firstSector \<noteq> lastSector \<or> firstAligned) then
                 rbind (OpenFile_ReadAt SectorSize (lastSector * SectorSize) f d)
                   (copy_to buf1 ((lastSector - firstSector) * SectorSize))
               else Inr buf1) (\<lambda>buf2.
        rbind (copy_to buf2 (position - firstSector * SectorSize) (take (nat n) from)) (\<lambda>buf3.
        rbind (write_sectors (hdr f) firstSector numSecs buf3 d) (\<lambda>d'. Inr (n, d'))))))"

definition OpenFile_Read :: "int \<Rightarrow> OpenFile \<Rightarrow> disk \<Rightarrow> (byte list \<times> OpenFile) result" where
  "OpenFile_Read num f d =
     rbind (OpenFile_ReadAt num (seekPosition f) f d) (\<lambda>bs.
       Inr (bs, f\<lparr>seekPosition := seekPosition f + int (length bs)\<rparr>))"

definition OpenFile_Write ::
  "(int \<Rightarrow> byte) \<Rightarrow> byte list \<Rightarrow> OpenFile \<Rightarrow> disk \<Rightarrow> (int \<times> OpenFile \<times> disk) result" where
  "OpenFile_Write junk from f d =
     rbind (OpenFile_WriteAt junk from (seekPosition f) f d) (\<lambda>(n, d').
       Inr (n, f\<lparr>seekPosition := seekPosition f + n\<rparr>, d'))"

definition OpenFile_Length :: "OpenFile \<Rightarrow> int" where
  "OpenFile_Length f = FileLength (hdr f)"

definition OpenFile_GetCurrentPos :: "OpenFile \<Rightarrow> int" where
  "OpenFile_GetCurrentPos f = seekPosition f"

section \<open>Legal disks and headers, and the contents of a file\<close>

definition disk_ok :: "disk \<Rightarrow> bool" where
  "disk_ok d \<longleftrightarrow> int (length d) = NumSectors \<and> (\<forall>s \<in> set d. length s = 128)"

definition data :: "FileHeader \<Rightarrow> int list" where
  "data h = take (nat (numSectors h)) (dataSectors h)"

definition header_ok :: "FileHeader \<Rightarrow> bool" where
  "header_ok h \<longleftrightarrow> 0 \<le> numBytes h \<and> numSectors h = divRoundUp (numBytes h) SectorSize \<and>
     int (length (dataSectors h)) = NumDirect \<and> numSectors h \<le> NumDirect \<and>
     distinct (data h) \<and> set (data h) \<subseteq> {0..<NumSectors}"

definition raw :: "FileHeader \<Rightarrow> disk \<Rightarrow> byte list" where
  "raw h d = concat (map (\<lambda>s. d ! nat s) (data h))"

text \<open>The bytes of the file with header \<open>h\<close>, what its clients see.\<close>

definition contents :: "FileHeader \<Rightarrow> disk \<Rightarrow> byte list" where
  "contents h d = take (nat (numBytes h)) (raw h d)"

section \<open>Blocks of 128 bytes\<close>

lemma length_blocks: "(\<forall>b \<in> set bs. length b = 128) \<Longrightarrow> length (concat bs) = 128 * length bs"
  by (induction bs) auto

lemma block_nth:
  "(\<forall>b \<in> set bs. length b = 128) \<Longrightarrow> i < length bs \<Longrightarrow> take 128 (drop (128 * i) (concat bs)) = bs ! i"
proof (induction bs arbitrary: i)
  case (Cons b bs)
  then show ?case by (cases i) auto
qed simp

lemma block_update:
  "(\<forall>b \<in> set bs. length b = 128) \<Longrightarrow> i < length bs \<Longrightarrow>
   concat (bs[i := c]) = take (128 * i) (concat bs) @ c @ drop (128 * i + 128) (concat bs)"
proof (induction bs arbitrary: i)
  case (Cons b bs)
  then show ?case by (cases i) (auto simp: add.commute)
qed simp

lemma disk_ok_sector: "disk_ok d \<Longrightarrow> 0 \<le> s \<Longrightarrow> s < NumSectors \<Longrightarrow> nat s < length d \<and> length (d ! nat s) = 128"
  by (auto simp: disk_ok_def)

lemma header_okD:
  assumes "header_ok h"
  shows "0 \<le> numBytes h" "0 \<le> numSectors h" "numSectors h \<le> 30" "length (dataSectors h) = 30"
    "int (length (data h)) = numSectors h" "distinct (data h)" "set (data h) \<subseteq> {0..<NumSectors}"
    "numBytes h \<le> numSectors h * 128" "numSectors h * 128 < numBytes h + 128"
  using assms divRoundUp_bounds [of "numBytes h" 128] by (auto simp: header_ok_def NumDirect_def data_def)

lemma data_nth:
  assumes "header_ok h" and "i < length (data h)"
  shows "data h ! i = dataSectors h ! i" and "0 \<le> data h ! i" and "data h ! i < NumSectors"
proof -
  show "data h ! i = dataSectors h ! i" using assms by (simp add: data_def)
  have "data h ! i \<in> {0..<NumSectors}" using header_okD(7) [OF assms(1)] assms(2) nth_mem by blast
  then show "0 \<le> data h ! i" "data h ! i < NumSectors" by auto
qed

lemma raw_blocks:
  assumes "header_ok h" and "disk_ok d"
  shows "\<forall>b \<in> set (map (\<lambda>s. d ! nat s) (data h)). length b = 128"
  using header_okD(7) [OF assms(1)] disk_ok_sector [OF assms(2)] by auto

lemma length_raw: "header_ok h \<Longrightarrow> disk_ok d \<Longrightarrow> length (raw h d) = 128 * length (data h)"
  unfolding raw_def using length_blocks [OF raw_blocks] by simp

lemma length_contents: "header_ok h \<Longrightarrow> disk_ok d \<Longrightarrow> int (length (contents h d)) = numBytes h"
  using length_raw [of h d] header_okD(1,5,8) [of h] by (simp add: contents_def)

lemma ByteToSector_ok:
  assumes "header_ok h" and "i < length (data h)"
  shows "ByteToSector (int i * 128) h = Inr (data h ! i)"
proof -
  have "(int i * 128) sdiv 128 = int i" by (simp add: sdiv_nonneg)
  then show ?thesis using assms header_okD(3,4,5) [OF assms(1)] data_nth(1) [OF assms]
    by (simp add: ByteToSector_def)
qed

lemma read_sectors_ok:
  assumes h: "header_ok h" and d: "disk_ok d" and "f + n \<le> length (data h)"
  shows "read_sectors h (int f) (int n) d = Inr (take (128 * n) (drop (128 * f) (raw h d)))"
proof -
  let ?P = "\<lambda>j buf. buf = take (128 * nat j) (drop (128 * f) (raw h d))"
  have "\<exists>buf. read_sectors h (int f) (int n) d = Inr buf \<and> ?P (int n) buf"
    unfolding read_sectors_def
  proof (rule for_upto_rule [where P = ?P])
    fix j buf assume j: "0 \<le> j" "j < int n" and P: "?P j buf"
    obtain k where k: "j = int k" using j(1) nonneg_eq_int by blast
    let ?i = "f + k"
    have i: "?i < length (data h)" using assms(3) j(2) k by simp
    have s: "ReadSector (data h ! ?i) d = Inr (d ! nat (data h ! ?i))"
      using data_nth(2,3) [OF h i] d by (simp add: ReadSector_def disk_ok_def)
    have b: "take 128 (drop (128 * ?i) (raw h d)) = d ! nat (data h ! ?i)"
      unfolding raw_def using block_nth [OF raw_blocks [OF h d], of ?i] i by simp
    have "take (128 * Suc k) (drop (128 * f) (raw h d)) = buf @ (d ! nat (data h ! ?i))"
      using P k b take_add [of "128 * k" 128 "drop (128 * f) (raw h d)"] by (simp add: add.commute distrib_left)
    then show "\<exists>t'. rbind (ByteToSector ((int f + j) * SectorSize) h) (\<lambda>s.
        rbind (ReadSector s d) (\<lambda>bs. Inr (buf @ bs))) = Inr t' \<and> ?P (j + 1) t'"
      using ByteToSector_ok [OF h i] s k by (simp add: nat_add_distrib)
  qed auto
  then show ?thesis by simp
qed

section \<open>ReadAt\<close>

lemma copy_from_ok: "off + n \<le> length buf \<Longrightarrow> copy_from buf (int off) (int n) = Inr (take n (drop off buf))"
  by (simp add: copy_from_def)

lemma sector_range:
  assumes "header_ok h" and "0 < n" and "int (p + n) \<le> numBytes h"
  shows "(p + n - 1) div 128 < length (data h)" and "p div 128 \<le> (p + n - 1) div 128"
    and "p + n \<le> 128 * Suc ((p + n - 1) div 128)" and "128 * (p div 128) \<le> p" and "p < 128 * (p div 128) + 128"
    and "128 * ((p + n - 1) div 128) < p + n"
proof -
  have "p + n \<le> 128 * length (data h)" using assms header_okD(5,8) [OF assms(1)] by linarith
  then show "(p + n - 1) div 128 < length (data h)" using assms(2) by (auto simp: less_mult_imp_div_less)
  show "p div 128 \<le> (p + n - 1) div 128" using assms(2) by (intro div_le_mono) auto
  have "128 * (x div 128) \<le> x \<and> x < 128 * (x div 128) + 128" for x :: nat
    using div_mult_mod_eq [of x 128] mod_less_divisor [of 128 x] by linarith
  note q = this
  obtain x where x: "p + n = Suc x" using assms(2) by (cases "p + n") auto
  show "128 * (p div 128) \<le> p" "p < 128 * (p div 128) + 128" using q [of p] by auto
  show "p + n \<le> 128 * Suc ((p + n - 1) div 128)" "128 * ((p + n - 1) div 128) < p + n"
    using q [of x] unfolding x by auto
qed

lemma divRoundDown_nat: "divRoundDown (int p) 128 = int (p div 128)"
  by (simp add: divRoundDown_nonneg zdiv_int)

lemma ReadAt_eq:
  assumes h: "header_ok (hdr f)" and d: "disk_ok d" and pos: "0 \<le> position"
  shows "OpenFile_ReadAt num position f d = Inr (take (nat num) (drop (nat position) (contents (hdr f) d)))"
proof (cases "num \<le> 0 \<or> position \<ge> numBytes (hdr f)")
  case True
  then show ?thesis using length_contents [OF h d] pos by (auto simp: OpenFile_ReadAt_def FileLength_def)
next
  case False
  define n where "n = nat (if position + num > numBytes (hdr f) then numBytes (hdr f) - position else num)"
  define p where "p = nat position"
  have p: "position = int p" using pos by (simp add: p_def)
  have n: "int n = (if position + num > numBytes (hdr f) then numBytes (hdr f) - position else num)" "0 < n"
    "int (p + n) \<le> numBytes (hdr f)" using False pos by (auto simp: n_def p_def)
  note r = sector_range [OF h n(2,3)]
  let ?a = "p div 128" and ?b = "(p + n - 1) div 128"
  have b: "int p + int n - 1 = int (p + n - 1)" using n(2) by simp
  have secs: "1 + int ?b - int ?a = int (Suc ?b - ?a)" using r(2) by simp
  have off: "int p - int ?a * 128 = int (p - 128 * ?a)" using r(4) by simp
  have n': "(if numBytes (hdr f) < int p + num then numBytes (hdr f) - int p else num) = int n" using n(1) p by simp
  have "OpenFile_ReadAt num position f d = rbind (read_sectors (hdr f) (int ?a) (int (Suc ?b - ?a)) d)
      (\<lambda>buf. copy_from buf (int (p - 128 * ?a)) (int n))"
    using False unfolding OpenFile_ReadAt_def FileLength_def Let_def p n' b divRoundDown_nat secs off by simp
  also have "read_sectors (hdr f) (int ?a) (int (Suc ?b - ?a)) d = Inr (take (128 * (Suc ?b - ?a)) (drop (128 * ?a) (raw (hdr f) d)))"
    using r(1,2) by (intro read_sectors_ok [OF h d]) simp
  finally have run: "OpenFile_ReadAt num position f d =
      copy_from (take (128 * (Suc ?b - ?a)) (drop (128 * ?a) (raw (hdr f) d))) (int (p - 128 * ?a)) (int n)" by simp
  have len: "p - 128 * ?a + n \<le> length (take (128 * (Suc ?b - ?a)) (drop (128 * ?a) (raw (hdr f) d)))"
    using r length_raw [OF h d] n(3) header_okD(5,8) [OF h]
    by (simp add: diff_mult_distrib2) (intro conjI diff_le_mono; linarith)
  have "OpenFile_ReadAt num position f d =
      Inr (take n (drop (p - 128 * ?a) (take (128 * (Suc ?b - ?a)) (drop (128 * ?a) (raw (hdr f) d)))))"
    unfolding run by (rule copy_from_ok [OF len])
  also have "take n (drop (p - 128 * ?a) (take (128 * (Suc ?b - ?a)) (drop (128 * ?a) (raw (hdr f) d)))) =
      take n (drop p (raw (hdr f) d))"
  proof -
    have "n \<le> 128 * Suc ?b - p" "128 * (Suc ?b - ?a) - (p - 128 * ?a) = 128 * Suc ?b - p"
      using r by (auto simp: diff_mult_distrib2 le_diff_conv2)
    then show ?thesis using r(4) by (simp add: drop_take)
  qed
  also have "\<dots> = take (nat num) (drop p (contents (hdr f) d))"
    using n False pos by (auto simp: contents_def drop_take min_def p_def n_def nat_diff_distrib)
  finally show ?thesis by (simp add: p_def)
qed

section \<open>WriteAt\<close>

lemma WriteSector_raw:
  assumes h: "header_ok h" and d: "disk_ok d" and i: "i < length (data h)" and b: "length bs = 128"
  shows "\<exists>d'. WriteSector (data h ! i) bs d = Inr d' \<and> disk_ok d' \<and>
    raw h d' = take (128 * i) (raw h d) @ bs @ drop (128 * i + 128) (raw h d) \<and>
    (\<forall>s. 0 \<le> s \<and> s \<notin> set (data h) \<longrightarrow> d' ! nat s = d ! nat s)"
proof -
  let ?s = "data h ! i" let ?d = "d[nat ?s := bs]"
  note s = data_nth(2,3) [OF h i]
  have w: "WriteSector ?s bs d = Inr ?d" using s d by (simp add: WriteSector_def disk_ok_def)
  have ok: "disk_ok ?d" using d b by (auto simp: disk_ok_def dest: set_update_subset_insert [THEN subsetD])
  have "map (\<lambda>s. ?d ! nat s) (data h) = (map (\<lambda>s. d ! nat s) (data h))[i := bs]"
  proof (rule nth_equalityI)
    fix j assume "j < length (map (\<lambda>s. ?d ! nat s) (data h))"
    then have j: "j < length (data h)" by simp
    have "nat (data h ! j) = nat ?s \<longleftrightarrow> j = i"
      using data_nth(2) [OF h j] s(1) header_okD(6) [OF h] i j by (auto simp: nat_eq_iff nth_eq_iff_index_eq)
    then show "map (\<lambda>s. ?d ! nat s) (data h) ! j = (map (\<lambda>s. d ! nat s) (data h))[i := bs] ! j"
      using j i disk_ok_sector [OF d s] by (auto simp: nth_list_update)
  qed simp
  then have "raw h ?d = take (128 * i) (raw h d) @ bs @ drop (128 * i + 128) (raw h d)"
    unfolding raw_def using block_update [OF raw_blocks [OF h d], of i bs] i by simp
  moreover have "?d ! nat s' = d ! nat s'" if "0 \<le> s'" "s' \<notin> set (data h)" for s'
  proof -
    have "?s \<in> set (data h)" using i by simp
    then have "nat s' \<noteq> nat ?s" using that s(1) by (metis eq_nat_nat_iff)
    then show ?thesis by simp
  qed
  ultimately show ?thesis using w ok by blast
qed

lemma write_sectors_ok:
  assumes h: "header_ok h" and d: "disk_ok d" and n: "f + n \<le> length (data h)" and b: "length buf = 128 * n"
  shows "\<exists>d'. write_sectors h (int f) (int n) buf d = Inr d' \<and> disk_ok d' \<and>
    raw h d' = take (128 * f) (raw h d) @ buf @ drop (128 * (f + n)) (raw h d) \<and>
    (\<forall>s. 0 \<le> s \<and> s \<notin> set (data h) \<longrightarrow> d' ! nat s = d ! nat s)"
proof -
  let ?P = "\<lambda>j d'. disk_ok d' \<and>
    raw h d' = take (128 * f) (raw h d) @ take (128 * nat j) buf @ drop (128 * (f + nat j)) (raw h d) \<and>
    (\<forall>s. 0 \<le> s \<and> s \<notin> set (data h) \<longrightarrow> d' ! nat s = d ! nat s)"
  have "\<exists>d'. write_sectors h (int f) (int n) buf d = Inr d' \<and> ?P (int n) d'"
    unfolding write_sectors_def
  proof (rule for_upto_rule [where P = ?P])
    fix j d1 assume j: "0 \<le> j" "j < int n" and P: "?P j d1"
    obtain k where k: "j = int k" using j(1) nonneg_eq_int by blast
    let ?i = "f + k" let ?bs = "take 128 (drop (128 * k) buf)"
    have i: "?i < length (data h)" using n j(2) k by simp
    have kn: "128 * k + 128 \<le> length buf" using b j(2) k by simp
    have cf: "copy_from buf (int k * 128) 128 = Inr ?bs"
      using copy_from_ok [of "128 * k" 128 buf] kn by (simp add: mult.commute)
    obtain d2 where d2: "WriteSector (data h ! ?i) ?bs d1 = Inr d2" "disk_ok d2"
      "raw h d2 = take (128 * ?i) (raw h d1) @ ?bs @ drop (128 * ?i + 128) (raw h d1)"
      "\<forall>s. 0 \<le> s \<and> s \<notin> set (data h) \<longrightarrow> d2 ! nat s = d1 ! nat s"
      using WriteSector_raw [OF h, of d1 ?i ?bs] P i kn by auto
    have lr: "128 * f \<le> length (raw h d)" using length_raw [OF h d] i by simp
    have tk: "take (128 * Suc k) buf = take (128 * k) buf @ ?bs"
      using take_add [of "128 * k" 128 buf] by (simp add: add.commute)
    have "raw h d1 = take (128 * f) (raw h d) @ take (128 * k) buf @ drop (128 * ?i) (raw h d)"
      using P k by simp
    then have "raw h d2 = take (128 * f) (raw h d) @ take (128 * Suc k) buf @ drop (128 * (f + Suc k)) (raw h d)"
      unfolding d2(3) tk using lr kn by (simp add: distrib_left add.commute add.left_commute)
    then show "\<exists>t'. rbind (ByteToSector ((int f + j) * SectorSize) h) (\<lambda>s.
        rbind (copy_from buf (j * SectorSize) SectorSize) (\<lambda>bs. WriteSector s bs d1)) = Inr t' \<and> ?P (j + 1) t'"
      using ByteToSector_ok [OF h i] cf d2 P k by (simp add: nat_add_distrib)
  qed (use d in auto)
  then show ?thesis using b by simp
qed

lemma copy_to_nth:
  assumes "off + length bs \<le> length buf"
  shows "\<exists>b. copy_to buf (int off) bs = Inr b \<and> length b = length buf \<and>
    (\<forall>k < length buf. b ! k = (if off \<le> k \<and> k < off + length bs then bs ! (k - off) else buf ! k))"
  using assms by (auto simp: copy_to_def nth_append)

definition overwrite :: "byte list \<Rightarrow> nat \<Rightarrow> byte list \<Rightarrow> byte list" where
  "overwrite xs p ys = take p xs @ take (length xs - p) ys @ drop (p + length ys) xs"

lemma overwrite_nth:
  assumes "p \<le> length xs" and "i < length xs"
  shows "overwrite xs p ys ! i = (if p \<le> i \<and> i < p + length ys then ys ! (i - p) else xs ! i)"
  using assms by (auto simp: overwrite_def nth_append min_def)

lemma length_overwrite: "p \<le> length xs \<Longrightarrow> length (overwrite xs p ys) = length xs"
  by (auto simp: overwrite_def)

text \<open>The buffer of \<open>WriteAt\<close> before the sectors are written back.\<close>

definition write_buffer ::
  "OpenFile \<Rightarrow> disk \<Rightarrow> byte list \<Rightarrow> byte list \<Rightarrow> int \<Rightarrow> int \<Rightarrow> byte list result" where
  "write_buffer f d buf from position n =
     (let firstSector = divRoundDown position SectorSize;
          lastSector = divRoundDown (position + n - 1) SectorSize;
          firstAligned = (position = firstSector * SectorSize);
          lastAligned = (position + n = (lastSector + 1) * SectorSize)
      in
      rbind (if \<not> firstAligned then
               rbind (OpenFile_ReadAt SectorSize (firstSector * SectorSize) f d) (copy_to buf 0)
             else Inr buf) (\<lambda>buf1.
      rbind (if \<not> lastAligned \<and> (firstSector \<noteq> lastSector \<or> firstAligned) then
               rbind (OpenFile_ReadAt SectorSize (lastSector * SectorSize) f d)
                 (copy_to buf1 ((lastSector - firstSector) * SectorSize))
             else Inr buf1) (\<lambda>buf2.
      copy_to buf2 (position - firstSector * SectorSize) (take (nat n) from))))"

lemma WriteAt_write_buffer:
  "OpenFile_WriteAt junk from position f d =
     (if from = [] \<or> position \<ge> numBytes (hdr f) then Inr (0, d)
      else
        let n = (if position + int (length from) > numBytes (hdr f) then numBytes (hdr f) - position else int (length from));
            firstSector = divRoundDown position SectorSize;
            numSecs = 1 + divRoundDown (position + n - 1) SectorSize - firstSector
        in rbind (write_buffer f d (map junk [0..numSecs * SectorSize - 1]) from position n) (\<lambda>buf3.
           rbind (write_sectors (hdr f) firstSector numSecs buf3 d) (\<lambda>d'. Inr (n, d'))))"
  unfolding OpenFile_WriteAt_def write_buffer_def Let_def FileLength_def rbind_assoc by simp

lemma copy_sector:
  assumes "off + 128 \<le> length buf"
  shows "\<exists>b. copy_to buf (int off) (take 128 (drop m c)) = Inr b \<and> length b = length buf \<and>
    (\<forall>k < 128. m + k < length c \<longrightarrow> b ! (off + k) = c ! (m + k)) \<and> (\<forall>k < off. b ! k = buf ! k)"
proof -
  have "off + length (take 128 (drop m c)) \<le> length buf" using assms by simp
  from copy_to_nth [OF this] obtain b where b: "copy_to buf (int off) (take 128 (drop m c)) = Inr b" "length b = length buf"
    "\<forall>k < length buf. b ! k = (if off \<le> k \<and> k < off + length (take 128 (drop m c)) then take 128 (drop m c) ! (k - off) else buf ! k)"
    by blast
  show ?thesis using b assms by (intro exI [of _ b]) auto
qed

lemma fit_buffer: "128 * A + l = 128 * B + 128 \<Longrightarrow> p + n \<le> 128 * Suc B \<Longrightarrow> p = 128 * A + off \<Longrightarrow> off + n \<le> l"
  for A B l p n off :: nat
  by simp

lemma write_buffer_ok:
  assumes h: "header_ok (hdr f)" and d: "disk_ok d" and n: "0 < n" "n \<le> length from" "int (p + n) \<le> numBytes (hdr f)"
    and buf: "length buf = 128 * (Suc ((p + n - 1) div 128) - p div 128)"
  shows "\<exists>buf3. write_buffer f d buf from (int p) (int n) = Inr buf3 \<and> length buf3 = length buf \<and>
    (\<forall>k. k < length buf \<and> 128 * (p div 128) + k < nat (numBytes (hdr f)) \<longrightarrow>
       buf3 ! k = (if p \<le> 128 * (p div 128) + k \<and> 128 * (p div 128) + k < p + n
         then from ! (128 * (p div 128) + k - p) else contents (hdr f) d ! (128 * (p div 128) + k)))"
proof -
  note r = sector_range [OF h n(1,3)]
  let ?a = "p div 128" and ?b = "(p + n - 1) div 128" and ?c = "contents (hdr f) d"
  define off where "off = p - 128 * ?a"
  define L where "L = nat (numBytes (hdr f))"
  have lc: "length ?c = L" using length_contents [OF h d] by (simp add: L_def)
  have pn: "p + n \<le> L" using n(3) by (simp add: L_def)
  have b: "int p + int n - 1 = int (p + n - 1)" using n(1) by simp
  have offs: "int p - int ?a * 128 = int off" "off < 128" "p = 128 * ?a + off" using r(4,5) by (auto simp: off_def)
  have al: "int p = int ?a * 128 \<longleftrightarrow> off = 0" "int p + int n = (int ?b + 1) * 128 \<longleftrightarrow> p + n = 128 * Suc ?b"
    using offs by auto
  have rd: "OpenFile_ReadAt 128 (int m * 128) f d = Inr (take 128 (drop (128 * m) ?c))" for m
    using ReadAt_eq [OF h d, of "int m * 128" 128] by (simp add: nat_mult_distrib mult.commute)
  have secs: "(int ?b - int ?a) * 128 = int (128 * (?b - ?a))" using r(2) by (simp add: of_nat_diff)
  let ?r1 = "take 128 (drop (128 * ?a) ?c)" and ?r2 = "take 128 (drop (128 * ?b) ?c)"
  have bl: "128 * (?b - ?a) + 128 = length buf" using buf r(2) by (simp add: Suc_diff_le)
  have l1: "length ?r1 \<le> 128" "length ?r2 \<le> 128" by auto
  \<comment> \<open>the first sector\<close>
  have "\<exists>buf1. (if off \<noteq> 0 then rbind (OpenFile_ReadAt 128 (int ?a * 128) f d) (copy_to buf 0) else Inr buf) = Inr buf1 \<and>
      length buf1 = length buf \<and>
      (off \<noteq> 0 \<longrightarrow> (\<forall>k < 128. 128 * ?a + k < L \<longrightarrow> buf1 ! k = ?c ! (128 * ?a + k)))"
    using copy_sector [of 0 buf "128 * ?a" ?c] bl lc by (cases "off = 0") (auto simp: rd)
  then obtain buf1 where b1: "(if off \<noteq> 0 then rbind (OpenFile_ReadAt 128 (int ?a * 128) f d) (copy_to buf 0) else Inr buf) = Inr buf1"
      "length buf1 = length buf" "off \<noteq> 0 \<longrightarrow> (\<forall>k < 128. 128 * ?a + k < L \<longrightarrow> buf1 ! k = ?c ! (128 * ?a + k))" by blast
  \<comment> \<open>the last sector\<close>
  let ?second = "p + n \<noteq> 128 * Suc ?b \<and> (?a \<noteq> ?b \<or> off = 0)"
  have "\<exists>buf2. (if ?second then rbind (OpenFile_ReadAt 128 (int ?b * 128) f d) (copy_to buf1 (int (128 * (?b - ?a)))) else Inr buf1) = Inr buf2 \<and>
      length buf2 = length buf \<and> (\<forall>k < 128 * (?b - ?a). buf2 ! k = buf1 ! k) \<and> (\<not> ?second \<longrightarrow> buf2 = buf1) \<and>
      (?second \<longrightarrow> (\<forall>k < 128. 128 * ?b + k < L \<longrightarrow> buf2 ! (128 * (?b - ?a) + k) = ?c ! (128 * ?b + k)))"
  proof (cases ?second)
    case True
    obtain b where "copy_to buf1 (int (128 * (?b - ?a))) ?r2 = Inr b" "length b = length buf1"
      "\<forall>k < 128. 128 * ?b + k < length ?c \<longrightarrow> b ! (128 * (?b - ?a) + k) = ?c ! (128 * ?b + k)"
      "\<forall>k < 128 * (?b - ?a). b ! k = buf1 ! k"
      using copy_sector [of "128 * (?b - ?a)" buf1 "128 * ?b" ?c] bl b1(2) by auto
    then show ?thesis using True b1(2) lc unfolding rd by (intro exI [of _ b]) simp
  next
    case False
    then show ?thesis using b1(2) by auto
  qed
  then obtain buf2 where b2: "(if ?second then rbind (OpenFile_ReadAt 128 (int ?b * 128) f d) (copy_to buf1 (int (128 * (?b - ?a)))) else Inr buf1) = Inr buf2"
      "length buf2 = length buf" "\<forall>k < 128 * (?b - ?a). buf2 ! k = buf1 ! k" "\<not> ?second \<longrightarrow> buf2 = buf1"
      "?second \<longrightarrow> (\<forall>k < 128. 128 * ?b + k < L \<longrightarrow> buf2 ! (128 * (?b - ?a) + k) = ?c ! (128 * ?b + k))" by blast
  have ab2: "128 * ?a + 128 * (?b - ?a) = 128 * ?b"
    using distrib_left [of 128 ?a "?b - ?a"] le_add_diff_inverse [OF r(2)] by (simp only: )
  from ab2 have bl2: "128 * ?a + length buf = 128 * ?b + 128" using bl by (metis add.assoc)
  from fit_buffer [OF bl2 r(3) offs(3)] have len2: "off + length (take n from) \<le> length buf2"
    using b2(2) n(2) by simp
  obtain buf3 where b3: "copy_to buf2 (int off) (take n from) = Inr buf3" "length buf3 = length buf2"
      "\<forall>k < length buf2. buf3 ! k = (if off \<le> k \<and> k < off + length (take n from) then take n from ! (k - off) else buf2 ! k)"
    using copy_to_nth [OF len2] by blast
  have run: "write_buffer f d buf from (int p) (int n) = Inr buf3"
    using b1(1) b2(1) b3(1) unfolding write_buffer_def Let_def b divRoundDown_nat al offs(1) secs by simp
  have "buf3 ! k = (if p \<le> 128 * ?a + k \<and> 128 * ?a + k < p + n then from ! (128 * ?a + k - p) else ?c ! (128 * ?a + k))"
    if k: "k < length buf" "128 * ?a + k < L" for k
  proof (cases "off \<le> k \<and> k < off + n")
    case True
    then have "k - off < n" by linarith
    then have "buf3 ! k = from ! (k - off)" using True b3(3) k b2(2) n(2) by simp
    moreover have "128 * ?a + k - p = k - off" "p \<le> 128 * ?a + k" "128 * ?a + k < p + n" using True offs by linarith+
    ultimately show ?thesis by simp
  next
    case False
    then have b3k: "buf3 ! k = buf2 ! k" using b3(3) k b2(2) n(2) by auto
    have out: "\<not> (p \<le> 128 * ?a + k \<and> 128 * ?a + k < p + n)" using False offs(3) by linarith
    have "buf2 ! k = ?c ! (128 * ?a + k)"
    proof (cases "k < off")
      case True
      have "buf2 ! k = buf1 ! k"
      proof (cases "?a = ?b")
        case False
        then have "1 \<le> ?b - ?a" using r(2) by linarith
        then have "128 * 1 \<le> 128 * (?b - ?a)" by (rule mult_le_mono2)
        then show ?thesis using b2(3) True offs(2) by simp
      qed (use b2(4) True in auto)
      then show ?thesis using b1(3) True k offs(2) by simp
    next
      case ge: False
      then have pk: "p + n \<le> 128 * ?a + k" using out offs by linarith
      have ab: "128 * ?a \<le> 128 * ?b" using r(2) by simp
      have "128 * ?b \<le> k + 128 * ?a" using less_le_trans [OF r(6) pk] by (simp only: add.commute)
      then have kb: "128 * (?b - ?a) \<le> k" by (simp only: diff_mult_distrib2 le_diff_conv)
      have "128 * ?a + k < 128 * Suc ?b" using add_strict_left_mono [OF k(1), of "128 * ?a"] bl2 by simp
      then have ne: "p + n \<noteq> 128 * Suc ?b" using pk by linarith
      obtain j where j: "k = 128 * (?b - ?a) + j" using kb le_Suc_ex by blast
      have "128 * (?b - ?a) + j < 128 * (?b - ?a) + 128" using k(1) unfolding bl [symmetric] j .
      then have j': "j < 128" "128 * ?b + j = 128 * ?a + k"
        by (simp, simp only: j ab2 [symmetric] add.assoc)
      show ?thesis
      proof (cases "?a \<noteq> ?b \<or> off = 0")
        case True
        have "128 * ?b + j < L" unfolding j'(2) by (rule k(2))
        then have "buf2 ! (128 * (?b - ?a) + j) = ?c ! (128 * ?b + j)" using b2(5) ne True j'(1) by blast
        then show ?thesis unfolding j'(2) j [symmetric] .
      next
        case False
        then have "buf2 = buf1" "k < 128" using b2(4) j j' by auto
        then show ?thesis using b1(3) False k(2) by auto
      qed
    qed
    then show ?thesis unfolding if_not_P [OF out] b3k .
  qed
  then show ?thesis using run b2(2) b3(2) by (auto simp: L_def)
qed

lemma nth_splice:
  "length us = x \<Longrightarrow> x + length vs = y \<Longrightarrow> y \<le> i \<Longrightarrow> i < length zs \<Longrightarrow> (us @ vs @ drop y zs) ! i = zs ! i"
  by (auto simp: nth_append)

lemma split3: "x + l = y \<Longrightarrow> i < x \<or> (\<exists>k. i = x + k \<and> k < l) \<or> y \<le> (i::nat)"
  by (cases "i < x") (auto intro: exI [of _ "i - x"])

lemma WriteAt_ok:
  assumes h: "header_ok (hdr f)" and d: "disk_ok d" and pos: "0 \<le> position"
  shows "\<exists>d'. OpenFile_WriteAt junk from position f d =
      Inr (max 0 (min (int (length from)) (numBytes (hdr f) - position)), d') \<and> disk_ok d' \<and>
    contents (hdr f) d' = overwrite (contents (hdr f) d) (nat position) from \<and>
    (\<forall>s. 0 \<le> s \<and> s \<notin> set (data (hdr f)) \<longrightarrow> d' ! nat s = d ! nat s)"
proof (cases "from = [] \<or> position \<ge> numBytes (hdr f)")
  case True
  then have "overwrite (contents (hdr f) d) (nat position) from = contents (hdr f) d"
    using length_contents [OF h d] pos by (auto simp: overwrite_def)
  then show ?thesis using True d by (auto simp: WriteAt_write_buffer)
next
  case False
  define n where "n = nat (if position + int (length from) > numBytes (hdr f) then numBytes (hdr f) - position else int (length from))"
  define p where "p = nat position"
  define L where "L = nat (numBytes (hdr f))"
  have p: "position = int p" using pos by (simp add: p_def)
  have n': "(if numBytes (hdr f) < int p + int (length from) then numBytes (hdr f) - int p else int (length from)) = int n"
    using False p by (auto simp: n_def)
  have n: "0 < n" "n \<le> length from" "int (p + n) \<le> numBytes (hdr f)" using False pos by (auto simp: n_def p_def)
  have nL: "n = min (length from) (L - p)" "p < L" using False p by (auto simp: n_def L_def)
  note r = sector_range [OF h n(1,3)]
  let ?a = "p div 128" and ?b = "(p + n - 1) div 128"
  have b: "int p + int n - 1 = int (p + n - 1)" using n(1) by simp
  have secs: "1 + int ?b - int ?a = int (Suc ?b - ?a)" using r(2) by simp
  let ?buf = "map junk [0..int (Suc ?b - ?a) * 128 - 1]"
  have lb: "length ?buf = 128 * (Suc ?b - ?a)" by (simp add: nat_mult_distrib)
  obtain buf3 where b3: "write_buffer f d ?buf from (int p) (int n) = Inr buf3" "length buf3 = length ?buf"
     "\<forall>k. k < length ?buf \<and> 128 * ?a + k < L \<longrightarrow>
       buf3 ! k = (if p \<le> 128 * ?a + k \<and> 128 * ?a + k < p + n then from ! (128 * ?a + k - p) else contents (hdr f) d ! (128 * ?a + k))"
    using write_buffer_ok [OF h d n lb] unfolding L_def by blast
  have "?a + (Suc ?b - ?a) \<le> length (data (hdr f))" using r(1,2) by simp
  then obtain d' where d': "write_sectors (hdr f) (int ?a) (int (Suc ?b - ?a)) buf3 d = Inr d'" "disk_ok d'"
     "raw (hdr f) d' = take (128 * ?a) (raw (hdr f) d) @ buf3 @ drop (128 * (?a + (Suc ?b - ?a))) (raw (hdr f) d)"
     "\<forall>s. 0 \<le> s \<and> s \<notin> set (data (hdr f)) \<longrightarrow> d' ! nat s = d ! nat s"
    by (elim exE conjE write_sectors_ok [OF h d _ trans [OF b3(2) lb], THEN exE]) (rule that)
  have run: "OpenFile_WriteAt junk from position f d = Inr (int n, d')"
    using False b3(1) d'(1) unfolding WriteAt_write_buffer Let_def p n' b divRoundDown_nat secs by simp
  have lc: "length (contents (hdr f) d) = L" "length (contents (hdr f) d') = L"
    using length_contents [OF h d] length_contents [OF h d'(2)] by (auto simp: L_def)
  have lr: "length (raw (hdr f) d) = 128 * length (data (hdr f))" by (rule length_raw [OF h d])
  have "contents (hdr f) d' = overwrite (contents (hdr f) d) p from"
  proof (rule nth_equalityI)
    show "length (contents (hdr f) d') = length (overwrite (contents (hdr f) d) p from)"
      using lc nL by (simp add: length_overwrite)
    fix i assume "i < length (contents (hdr f) d')"
    then have i: "i < L" using lc by simp
    have c: "contents (hdr f) d' ! i = raw (hdr f) d' ! i" "contents (hdr f) d ! i = raw (hdr f) d ! i"
      using i lc by (simp_all add: contents_def L_def)
    have o: "overwrite (contents (hdr f) d) p from ! i =
        (if p \<le> i \<and> i < p + n then from ! (i - p) else contents (hdr f) d ! i)"
      using overwrite_nth [of p "contents (hdr f) d" i "from"] lc nL i by auto
    have e: "?a + (Suc ?b - ?a) = Suc ?b" using r(2) by simp
    have la: "length (take (128 * ?a) (raw (hdr f) d)) = 128 * ?a"
      using lr r(1,2) by simp
    have lb3: "128 * ?a + length buf3 = 128 * Suc ?b"
      using b3(2) lb distrib_left [of 128 ?a "Suc ?b - ?a", unfolded e] by (simp only: )
    consider "i < 128 * ?a" | k where "i = 128 * ?a + k" "k < length buf3" | "128 * Suc ?b \<le> i"
      using split3 [OF lb3, of i] by blast
    then show "contents (hdr f) d' ! i = overwrite (contents (hdr f) d) p from ! i"
    proof cases
      case 1
      then have "raw (hdr f) d' ! i = raw (hdr f) d ! i" unfolding d'(3) using la by (simp add: nth_append)
      then show ?thesis using c o 1 r(4) by simp
    next
      case 2
      then have "raw (hdr f) d' ! i = buf3 ! k" unfolding d'(3) using la by (simp add: nth_append)
      moreover have "buf3 ! k = (if p \<le> i \<and> i < p + n then from ! (i - p) else contents (hdr f) d ! i)"
      proof -
        have "k < length ?buf" using 2(2) unfolding b3(2) .
        moreover have "128 * ?a + k < L" using i unfolding 2(1) L_def by (simp only: )
        ultimately show ?thesis unfolding 2(1) using b3(3) [rule_format, of k] by (simp only: )
      qed
      ultimately show ?thesis using c(1) o by (simp only: )
    next
      case 3
      have "i < length (raw (hdr f) d)" using i lc(1) by (simp add: contents_def L_def)
      then have "raw (hdr f) d' ! i = raw (hdr f) d ! i"
        unfolding d'(3) e by (rule nth_splice [OF la lb3 3])
      moreover have "\<not> i < p + n" using le_trans [OF r(3) 3] by simp
      ultimately show ?thesis using c o by simp
    qed
  qed
  moreover have "int n = max 0 (min (int (length from)) (numBytes (hdr f) - position))"
    using n' False p by (auto simp: min_def max_def)
  ultimately show ?thesis using run d'(2,4) p by (intro exI [of _ d']) simp
qed

section \<open>Allocation of the sectors of a file\<close>

text \<open>The loops of \<open>Allocate\<close> and \<open>Deallocate\<close>, over the interface of the allocation map.\<close>

context alloc_map
begin

lemma alloc_loop:
  assumes m: "invar m" and n: "0 \<le> n" "n \<le> int (length ss)" "n \<le> limit m - int (card (used m))"
  shows "\<exists>ss' m'. for_upto n (\<lambda>i (sectors, m).
      rbind (take_free m) (\<lambda>(k, m'). rbind (arr_set sectors i k) (\<lambda>sectors'. require (k \<ge> 0) (Inr (sectors', m')))))
      (ss, m) = Inr (ss', m') \<and> length ss' = length ss \<and> invar m' \<and> limit m' = limit m \<and>
    used m' = used m \<union> set (take (nat n) ss') \<and> set (take (nat n) ss') \<inter> used m = {} \<and>
    distinct (take (nat n) ss') \<and> drop (nat n) ss' = drop (nat n) ss"
proof -
  let ?P = "\<lambda>i (ss', m'). length ss' = length ss \<and> invar m' \<and> limit m' = limit m \<and>
    used m' = used m \<union> set (take (nat i) ss') \<and> set (take (nat i) ss') \<inter> used m = {} \<and>
    distinct (take (nat i) ss') \<and> drop (nat i) ss' = drop (nat i) ss"
  have "\<exists>t. for_upto n (\<lambda>i (sectors, m).
      rbind (take_free m) (\<lambda>(k, m'). rbind (arr_set sectors i k) (\<lambda>sectors'. require (k \<ge> 0) (Inr (sectors', m')))))
      (ss, m) = Inr t \<and> ?P n t"
  proof (rule for_upto_rule [where P = ?P])
    fix i and t :: "int list \<times> 'm" assume i: "0 \<le> i" "i < n" and P: "?P i t"
    obtain ss1 m1 where t: "t = (ss1, m1)" by (cases t)
    have c: "card (used m1) = card (used m) + nat i"
      using P i n finite_used [OF m] by (simp add: t card_Un_disjoint Int_commute distinct_card)
    have "used m1 \<noteq> {0..<limit m1}" using P c i n by (intro not_full) (auto simp: t)
    then obtain k m2 where k: "take_free m1 = Inr (k, m2)" "0 \<le> k" "k < limit m1" "k \<notin> used m1"
      "invar m2" "limit m2 = limit m1" "used m2 = insert k (used m1)"
      using take_free_ok [of m1] P by (auto simp: t)
    have e: "take (nat (i + 1)) (ss1[nat i := k]) = take (nat i) ss1 @ [k]"
      using i n P take_Suc_update [of "nat i" ss1 k] by (simp add: t nat_add_distrib)
    have "tl (drop (nat i) ss1) = tl (drop (nat i) ss)" using P by (simp add: t)
    then have "drop (Suc (nat i)) ss1 = drop (Suc (nat i)) ss" by (simp only: tl_drop drop_Suc)
    then have "drop (nat (i + 1)) (ss1[nat i := k]) = drop (nat (i + 1)) ss" using i by (simp add: nat_add_distrib)
    then have "?P (i + 1) (ss1[nat i := k], m2)"
      using P k unfolding t case_prod_conv e by auto
    moreover have "arr_set ss1 i k = Inr (ss1[nat i := k])" using P i n by (simp add: t)
    ultimately show "\<exists>t'. (case t of (sectors, m) \<Rightarrow> rbind (take_free m) (\<lambda>(k, m').
        rbind (arr_set sectors i k) (\<lambda>sectors'. require (k \<ge> 0) (Inr (sectors', m'))))) = Inr t' \<and> ?P (i + 1) t'"
      using k(1,2) by (intro exI [of _ "(ss1[nat i := k], m2)"]) (simp add: t)
  qed (use m n in auto)
  then show ?thesis by auto
qed

lemma alloc_loop_overrun:
  assumes m: "invar m" and n: "int (length ss) < n" "n \<le> limit m - int (card (used m))"
  shows "for_upto n (\<lambda>i (sectors, m).
      rbind (take_free m) (\<lambda>(k, m'). rbind (arr_set sectors i k) (\<lambda>sectors'. require (k \<ge> 0) (Inr (sectors', m')))))
      (ss, m) = Inl WildAccess"
proof -
  obtain ss' m' where l: "for_upto (int (length ss)) (\<lambda>i (sectors, m).
      rbind (take_free m) (\<lambda>(k, m'). rbind (arr_set sectors i k) (\<lambda>sectors'. require (k \<ge> 0) (Inr (sectors', m')))))
      (ss, m) = Inr (ss', m')" and P: "length ss' = length ss" "invar m'" "limit m' = limit m"
    "used m' = used m \<union> set ss'" "set ss' \<inter> used m = {}" "distinct ss'"
    using alloc_loop [OF m, of "int (length ss)" ss] n by auto
  have "card (used m') = card (used m) + length ss"
    using P finite_used [OF m] by (simp add: card_Un_disjoint Int_commute distinct_card)
  then have "used m' \<noteq> {0..<limit m'}" using P n by (intro not_full) auto
  then obtain k m2 where "take_free m' = Inr (k, m2)"
    using take_free_ok [of m'] P(2) by blast
  then show ?thesis by (intro for_upto_fault [OF _ n(1) l]) (simp_all add: arr_set_def P(1))
qed

lemma release_loop:
  assumes m: "invar m" and n: "0 \<le> n" "n \<le> int (length ss)" and ss: "distinct (take (nat n) ss)" "set (take (nat n) ss) \<subseteq> used m"
  shows "\<exists>m'. for_upto n (\<lambda>i m. rbind (arr_get ss i) (\<lambda>s. rbind (test s m) (\<lambda>t. require t (release s m)))) m = Inr m' \<and>
     invar m' \<and> limit m' = limit m \<and> used m' = used m - set (take (nat n) ss)"
proof -
  let ?P = "\<lambda>i m'. invar m' \<and> limit m' = limit m \<and> used m' = used m - set (take (nat i) ss)"
  show ?thesis
  proof (rule for_upto_rule [where P = ?P])
    fix i m1 assume i: "0 \<le> i" "i < n" and P: "?P i m1"
    let ?s = "ss ! nat i"
    have e: "take (nat (i + 1)) ss = take (nat i) ss @ [?s]"
      using i n by (simp add: nat_add_distrib take_Suc_conv_app_nth)
    obtain rest where t: "take (nat n) ss = take (nat i) ss @ ?s # rest"
      using i n id_take_nth_drop [of "nat i" "take (nat n) ss"]
      by (simp add: min_absorb1 nat_le_iff nat_less_iff)
    have s: "?s \<in> used m" "?s \<notin> set (take (nat i) ss)"
      using ss unfolding t by auto
    then have u: "?s \<in> used m1" using P by simp
    then have r: "0 \<le> ?s" "?s < limit m1" using used_bound [of m1 ?s] P by auto
    obtain m2 where "release ?s m1 = Inr m2" "invar m2" "limit m2 = limit m1" "used m2 = used m1 - {?s}"
      using release_ok [of m1 ?s] P r by blast
    then show "\<exists>m2. rbind (arr_get ss i) (\<lambda>s. rbind (test s m1) (\<lambda>t. require t (release s m1))) = Inr m2 \<and> ?P (i + 1) m2"
      using P i n u r test_ok [of m1 ?s] by (intro exI [of _ m2]) (auto simp: e)
  qed (use m n in auto)
qed

end

text \<open>A header whose integers are 32 bit values, as they are in the code.\<close>

definition header_repr :: "FileHeader \<Rightarrow> bool" where
  "header_repr h \<longleftrightarrow> int (length (dataSectors h)) = NumDirect \<and>
     (\<forall>x \<in> set (numBytes h # numSectors h # dataSectors h). - (2 ^ 31) \<le> x \<and> x < 2 ^ 31)"

text \<open>\<open>Allocate\<close> on every branch.\<close>

lemma Allocate_ok:
  assumes m: "Bitmap_wf m" "numBits m \<le> NumSectors" and h: "header_repr h" and "0 \<le> fileSize"
    and fits: "divRoundUp fileSize SectorSize \<le> NumDirect"
    and clear: "divRoundUp fileSize SectorSize \<le> numBits m - int (card (Bitmap_bits m))"
  shows "\<exists>h' m'. FileHeader_Allocate fileSize h m = Inr (True, h', m') \<and> header_ok h' \<and> header_repr h' \<and> numBytes h' = fileSize \<and>
    Bitmap_wf m' \<and> numBits m' = numBits m \<and> Bitmap_bits m' = Bitmap_bits m \<union> set (data h') \<and>
    set (data h') \<inter> Bitmap_bits m = {}"
proof -
  let ?n = "divRoundUp fileSize SectorSize"
  have n: "0 \<le> ?n" "?n \<le> int (length (dataSectors h))" using divRoundUp_bounds(3) [of fileSize 128] assms by (auto simp: header_repr_def)
  obtain ss m' where r: "for_upto ?n (\<lambda>i (sectors, m). rbind (Bitmap_FindAndSet m) (\<lambda>(k, m').
      rbind (arr_set sectors i k) (\<lambda>sectors'. require (k \<ge> 0) (Inr (sectors', m'))))) (dataSectors h, m) = Inr (ss, m')"
    and P: "length ss = length (dataSectors h)" "Bitmap_wf m'" "numBits m' = numBits m"
      "Bitmap_bits m' = Bitmap_bits m \<union> set (take (nat ?n) ss)" "set (take (nat ?n) ss) \<inter> Bitmap_bits m = {}"
      "distinct (take (nat ?n) ss)" "drop (nat ?n) ss = drop (nat ?n) (dataSectors h)"
    using bm.alloc_loop [OF m(1) n clear] by blast
  have "set (take (nat ?n) ss) \<subseteq> Bitmap_bits m'" using P(4) by simp
  then have fresh: "set (take (nat ?n) ss) \<subseteq> {0..<NumSectors}"
    using Bitmap_bits_subset [of m'] P(3) m(2) by fastforce
  then have "header_ok (h\<lparr>numBytes := fileSize, numSectors := ?n, dataSectors := ss\<rparr>)"
    using P h fits \<open>0 \<le> fileSize\<close> by (simp add: header_ok_def header_repr_def data_def)
  moreover have "set ss \<subseteq> set (take (nat ?n) ss) \<union> set (dataSectors h)"
    using P(7) append_take_drop_id [of "nat ?n" ss] set_append set_drop_subset by (metis Un_mono subset_refl)
  then have "header_repr (h\<lparr>numBytes := fileSize, numSectors := ?n, dataSectors := ss\<rparr>)"
    using P(1) h fits n(1) \<open>0 \<le> fileSize\<close> divRoundUp_bounds(1) [of fileSize 128] fresh
    by (fastforce simp: header_repr_def NumDirect_def)
  ultimately show ?thesis using r P clear
    by (intro exI [of _ "h\<lparr>numBytes := fileSize, numSectors := ?n, dataSectors := ss\<rparr>"] exI [of _ m'])
      (simp add: FileHeader_Allocate_def bm.num_free_ok [OF m(1)] data_def)
qed

lemma Allocate_full:
  assumes m: "Bitmap_wf m" and "numBits m - int (card (Bitmap_bits m)) < divRoundUp fileSize SectorSize"
  shows "FileHeader_Allocate fileSize h m =
    Inr (False, h\<lparr>numBytes := fileSize, numSectors := divRoundUp fileSize SectorSize\<rparr>, m)"
  using assms by (simp add: FileHeader_Allocate_def bm.num_free_ok Let_def)

lemma Allocate_overrun:
  assumes m: "Bitmap_wf m" and h: "int (length (dataSectors h)) = NumDirect"
    and big: "NumDirect < divRoundUp fileSize SectorSize"
    and clear: "divRoundUp fileSize SectorSize \<le> numBits m - int (card (Bitmap_bits m))"
  shows "FileHeader_Allocate fileSize h m = Inl WildAccess"
  using bm.alloc_loop_overrun [OF m _ clear, of "dataSectors h"] h big clear
  by (simp add: FileHeader_Allocate_def bm.num_free_ok [OF m] Let_def)

lemma Deallocate_ok:
  assumes m: "Bitmap_wf m" and h: "header_ok h" and "set (data h) \<subseteq> Bitmap_bits m"
  shows "\<exists>m'. FileHeader_Deallocate h m = Inr m' \<and> Bitmap_wf m' \<and> numBits m' = numBits m \<and>
    Bitmap_bits m' = Bitmap_bits m - set (data h)"
proof -
  have "0 \<le> numSectors h" "numSectors h \<le> int (length (dataSectors h))" using header_okD [OF h] by auto
  from bm.release_loop [OF m this] show ?thesis
    using assms header_okD(6) [OF h] by (simp add: FileHeader_Deallocate_def data_def)
qed

section \<open>The header on disk\<close>

lemma sint_word_of_int32: "- (2 ^ 31) \<le> x \<Longrightarrow> x < 2 ^ 31 \<Longrightarrow> sint (word_of_int x :: i32) = x"
  by (simp add: sint_sbintrunc' signed_take_bit_int_eq_self)

lemma length_header_bytes: "int (length (dataSectors h)) = NumDirect \<Longrightarrow> length (header_bytes h) = 128"
  by (simp add: header_bytes_def NumDirect_def)

lemma header_roundtrip: "header_repr h \<Longrightarrow> header_of_bytes (header_bytes h) = h"
proof -
  assume h: "header_repr h"
  then have "map (\<lambda>x. sint (word_of_int x :: i32)) (dataSectors h) = dataSectors h"
    by (intro map_idI) (auto simp: header_repr_def sint_word_of_int32)
  then show ?thesis using h unfolding header_of_bytes_def header_bytes_def bytes_words_word_bytes
    by (simp add: header_repr_def sint_word_of_int32 comp_def Let_def)
qed

lemma WriteBack_FetchFrom:
  assumes "disk_ok d" and "0 \<le> s" and "s < NumSectors" and "header_repr h"
  shows "\<exists>d'. FileHeader_WriteBack s h d = Inr d' \<and> disk_ok d' \<and> d' = d[nat s := header_bytes h] \<and>
    FileHeader_FetchFrom s d' = Inr h"
proof -
  have l: "length (header_bytes h) = 128" using assms(4) length_header_bytes by (simp add: header_repr_def)
  have "FileHeader_WriteBack s h d = Inr (d[nat s := header_bytes h])"
    using assms by (simp add: FileHeader_WriteBack_def WriteSector_def disk_ok_def)
  moreover have "disk_ok (d[nat s := header_bytes h])"
    using assms l set_update_subset_insert [of d "nat s" "header_bytes h"] by (auto simp: disk_ok_def)
  ultimately show ?thesis
    using assms header_roundtrip [OF assms(4)] by (simp add: FileHeader_FetchFrom_def ReadSector_def disk_ok_def)
qed

section \<open>Properties\<close>

text \<open>An empty disk and a file of 200 bytes on its sectors 2 and 3, for the examples.\<close>

definition blank_disk :: disk where
  "blank_disk = replicate 1024 (replicate 128 0)"

definition two_sector_file :: OpenFile where
  "two_sector_file = \<lparr>hdr = \<lparr>numBytes = 200, numSectors = 2, dataSectors = [3, 2] @ replicate 28 0\<rparr>,
     seekPosition = 0, type = 0\<rparr>"

lemma divRoundUp_128: "0 \<le> n \<Longrightarrow> divRoundUp n 128 = (n + 127) div 128"
  by (simp add: divRoundUp_nonneg)

lemma blank_disk_ok: "disk_ok blank_disk"
  by (simp add: disk_ok_def blank_disk_def)

lemma two_sector_file_ok: "header_ok (hdr two_sector_file)"
  by (simp add: header_ok_def two_sector_file_def NumDirect_def data_def divRoundUp_128)

lemma two_sector_file_contents: "contents (hdr two_sector_file) blank_disk = replicate 200 0"
  by (simp add: contents_def raw_def data_def two_sector_file_def blank_disk_def flip: replicate_add)



text \<open>
  sequential access. Writing bytes that fit at the current position and reading as many
  back from where the write began returns the bytes written; both operations advance the
  position by the number of bytes they moved, also when a read reaches the end of the file.
\<close>

theorem OpenFile_Write_Read:
  assumes "header_ok (hdr f)" and "disk_ok d" and "0 \<le> seekPosition f"
    and "seekPosition f + int (length bs) \<le> OpenFile_Length f"
  shows "\<exists>f' d'. OpenFile_Write junk bs f d = Inr (int (length bs), f', d') \<and>
    OpenFile_GetCurrentPos f' = OpenFile_GetCurrentPos f + int (length bs) \<and>
    OpenFile_Read (int (length bs)) (OpenFile_Seek (seekPosition f) f') d' = Inr (bs, f') \<and>
    OpenFile_Read (OpenFile_Length f + 1) (OpenFile_Seek 0 f') d' =
      Inr (contents (hdr f) d', OpenFile_Seek (OpenFile_Length f) f')"
proof -
  let ?p = "seekPosition f"
  obtain d' where w: "OpenFile_WriteAt junk bs ?p f d = Inr (int (length bs), d')" and d': "disk_ok d'"
    and c: "contents (hdr f) d' = overwrite (contents (hdr f) d) (nat ?p) bs"
    using WriteAt_ok [OF assms(1-3), of junk bs] assms(4) by (auto simp: OpenFile_Length_def FileLength_def)
  define g where "g = f\<lparr>seekPosition := ?p + int (length bs)\<rparr>"
  have h: "header_ok (hdr g)" "hdr g = hdr f" using assms(1) by (simp_all add: g_def)
  have l: "int (length (contents (hdr f) d)) = numBytes (hdr f)" "int (length (contents (hdr f) d')) = numBytes (hdr f)"
    using length_contents [OF assms(1)] assms(2) d' by auto
  have "take (length bs) (drop (nat ?p) (contents (hdr f) d')) = bs"
    using assms(3,4) l(1) by (simp add: c overwrite_def OpenFile_Length_def FileLength_def)
  then have r: "OpenFile_ReadAt (int (length bs)) ?p (OpenFile_Seek ?p g) d' = Inr bs"
    using ReadAt_eq [of "OpenFile_Seek ?p g" d' ?p] h d' assms(3) by (simp add: OpenFile_Seek_def)
  have e: "OpenFile_ReadAt (OpenFile_Length f + 1) 0 (OpenFile_Seek 0 g) d' = Inr (contents (hdr f) d')"
    using ReadAt_eq [of "OpenFile_Seek 0 g" d' 0] h d' l(2)
    by (simp add: OpenFile_Seek_def OpenFile_Length_def FileLength_def)
  show ?thesis
    by (intro exI [of _ g] exI [of _ d'])
      (use w r e l in \<open>simp add: OpenFile_Write_def OpenFile_Read_def g_def OpenFile_Seek_def
         OpenFile_GetCurrentPos_def OpenFile_Length_def FileLength_def\<close>)
qed

theorem OpenFile_Write_Read_witness:
  "\<exists>f' d'. OpenFile_Write (\<lambda>_. 77) [1, 2, 3] (OpenFile_Seek 126 two_sector_file) blank_disk = Inr (3, f', d') \<and>
     OpenFile_Read 3 (OpenFile_Seek 126 f') d' = Inr ([1, 2, 3], f')"
  using OpenFile_Write_Read [of "OpenFile_Seek 126 two_sector_file" blank_disk "[1, 2, 3]" "\<lambda>_. 77"]
    two_sector_file_ok blank_disk_ok
  by (auto simp: OpenFile_Seek_def OpenFile_Length_def FileLength_def two_sector_file_def)



text \<open>
  \<open>Allocate\<close> never compares the size of the file with \<open>MaxFileSize\<close>: for a larger file that
  the free map could hold, it writes past the end of \<open>dataSectors\<close>.
\<close>

theorem FileHeader_Allocate_overruns:
  assumes "Bitmap_wf m" and "header_repr h" and "MaxFileSize < fileSize"
    and "divRoundUp fileSize SectorSize \<le> numBits m - int (card (Bitmap_bits m))"
  shows "FileHeader_Allocate fileSize h m = Inl WildAccess"
proof (rule Allocate_overrun [OF assms(1) _ _ assms(4)])
  show "int (length (dataSectors h)) = NumDirect" using assms(2) by (simp add: header_repr_def)
  show "NumDirect < divRoundUp fileSize SectorSize"
    using divRoundUp_bounds(1) [of fileSize 128] assms(3) by (simp add: MaxFileSize_def NumDirect_def)
qed

theorem FileHeader_Allocate_overruns_witness:
  "\<exists>m. Bitmap_new 1024 = Inr m \<and> FileHeader_Allocate 4000 (hdr two_sector_file) m = Inl WildAccess"
proof -
  obtain m where m: "Bitmap_new 1024 = Inr m" "Bitmap_wf m" "numBits m = 1024" "Bitmap_bits m = {}"
    using Bitmap_new_ok [of 1024] by auto
  have "header_repr (hdr two_sector_file)" by (simp add: header_repr_def two_sector_file_def NumDirect_def)
  from FileHeader_Allocate_overruns [OF m(2) this, of 4000] show ?thesis
    using m by (auto simp: MaxFileSize_def NumDirect_def divRoundUp_128)
qed

end
