(* ===== verification/Machine_Disk.thy ===== *)
theory Machine_Disk
  imports Machine_Interrupt Filesys_File
begin

text \<open>
  \<open>machine/disk.cc\<close>, \<open>disk.h\<close>: the simulated disk device. Its contents are a UNIX file, four bytes
  of a magic number followed by the sectors; a request reads or writes the file at once and
  schedules an interrupt for the time at which the disk would be done, which depends on the
  position of the head, the rotation and the track buffer. The clock is that of
  \<open>Machine_Interrupt\<close>. Printing a sector (\<open>PrintSector\<close>) is left out.

  The theorems: the times that \<open>ComputeLatency\<close> gives are those at which the wanted sector has
  passed under the head, and the device implements the array of sectors on which \<open>Filesys_File\<close>
  and the theories above it build.
\<close>

section \<open>State\<close>

definition MagicNumber :: i32 where "MagicNumber = 0x456789ab"
definition MagicSize :: int where "MagicSize = 4"
definition DiskSize :: int where "DiskSize = MagicSize + NumSectors * SectorSize"

definition RotationTime :: int where "RotationTime = 500"
definition SeekTime :: int where "SeekTime = 500"

record Disk =
  fileno :: nat
  active :: bool
  lastSector :: int
  bufferInit :: int

text \<open>\<open>Read\<close> of \<open>lib/sysdep.cc\<close>: fewer bytes than asked for fail the assertion.\<close>

definition Read :: "nat \<Rightarrow> byte list \<Rightarrow> int \<Rightarrow> 'a sysenv_scheme \<Rightarrow> (byte list \<times> 'a sysenv_scheme) result" where
  "Read fd buffer nBytes m =
     rbind (ReadPartial fd buffer nBytes m) (\<lambda>(retVal, buffer1, m1). require (retVal = nBytes) (Inr (buffer1, m1)))"

text \<open>\<open>sprintf\<close> with \<open>%d\<close>.\<close>

definition format_int :: "int \<Rightarrow> byte list" where
  "format_int n = (if n < 0 then [45] else []) @
     (if n = 0 then [48] else map digit_char (rev (ndigits (nat \<bar>n\<bar>))))"

definition diskname :: "int \<Rightarrow> byte list" where
  "diskname hostName = ascii ''DISK_'' @ format_int hostName"

section \<open>Operations\<close>

text \<open>The word that holds the magic number and the zero word are written as their four bytes.\<close>

definition Disk_new :: "int \<Rightarrow> 'a sysenv_scheme \<Rightarrow> (Disk \<times> 'a sysenv_scheme) result" where
  "Disk_new hostName m =
     rbind (OpenForReadWrite (diskname hostName) False m) (\<lambda>(f, m1).
     rbind (case f of
              Some fd \<Rightarrow>
                rbind (Read fd (map (junk m1) [0..<4]) MagicSize m1) (\<lambda>(bs, m2).
                require (bytes_words bs = [MagicNumber]) (Inr (fd, m2)))
            | None \<Rightarrow>
                rbind (OpenForWrite (diskname hostName) m1) (\<lambda>(fd, m2).
                rbind (WriteFile fd (word_bytes [MagicNumber]) MagicSize m2) (\<lambda>m3.
                rbind (Lseek fd (DiskSize - 4) 0 m3) (\<lambda>m4.
                rbind (WriteFile fd (word_bytes [0]) 4 m4) (\<lambda>m5. Inr (fd, m5))))))
       (\<lambda>(fd, m2). Inr (\<lparr>fileno = fd, active = False, lastSector = 0, bufferInit = 0\<rparr>, m2)))"

definition TimeToSeek :: "int \<Rightarrow> Disk \<Rightarrow> ('c, 'a) interrupt_scheme \<Rightarrow> int \<times> int" where
  "TimeToSeek newSector d k =
     (let newTrack = newSector sdiv SectorsPerTrack;
          oldTrack = lastSector d sdiv SectorsPerTrack;
          seek = \<bar>newTrack - oldTrack\<bar> * SeekTime;
          over = (totalTicks (stats k) + seek) smod RotationTime
      in (seek, if over > 0 then RotationTime - over else 0))"

definition ModuloDiff :: "int \<Rightarrow> int \<Rightarrow> int" where
  "ModuloDiff to from =
     (let toOffset = to smod SectorsPerTrack; fromOffset = from smod SectorsPerTrack
      in ((toOffset - fromOffset) + SectorsPerTrack) smod SectorsPerTrack)"

definition ComputeLatency :: "int \<Rightarrow> bool \<Rightarrow> Disk \<Rightarrow> ('c, 'a) interrupt_scheme \<Rightarrow> int" where
  "ComputeLatency newSector writing d k =
     (let (seek, rotation) = TimeToSeek newSector d k;
          timeAfter = totalTicks (stats k) + seek + rotation
      in if \<not> writing \<and> seek = 0 \<and>
            (timeAfter - bufferInit d) sdiv RotationTime > ModuloDiff newSector (bufferInit d sdiv RotationTime)
         then RotationTime
         else seek + (rotation + ModuloDiff newSector (timeAfter sdiv RotationTime) * RotationTime) + RotationTime)"

definition UpdateLast :: "int \<Rightarrow> ('c, 'a) interrupt_scheme \<Rightarrow> Disk \<Rightarrow> Disk" where
  "UpdateLast newSector k d =
     (let (seek, rotate) = TimeToSeek newSector d k;
          d1 = (if seek \<noteq> 0 then d\<lparr>bufferInit := totalTicks (stats k) + seek + rotate\<rparr> else d)
      in d1\<lparr>lastSector := newSector\<rparr>)"

text \<open>The caller's buffer, of at least a sector, is an argument, and the device is the callback object \<open>this\<close>.\<close>

definition ReadRequest ::
  "'c \<Rightarrow> int \<Rightarrow> byte list \<Rightarrow> Disk \<Rightarrow> ('c, 'a) interrupt_scheme \<Rightarrow> (byte list \<times> Disk \<times> ('c, 'a) interrupt_scheme) result" where
  "ReadRequest this sectorNumber buf d k =
     (let ticks = ComputeLatency sectorNumber False d k in
      require (\<not> active d)
     (require (0 \<le> sectorNumber \<and> sectorNumber < NumSectors)
     (rbind (Lseek (fileno d) (SectorSize * sectorNumber + MagicSize) 0 k) (\<lambda>k1.
      rbind (Read (fileno d) buf SectorSize k1) (\<lambda>(buf1, k2).
      let d1 = UpdateLast sectorNumber k2 (d\<lparr>active := True\<rparr>);
          k3 = k2\<lparr>stats := (stats k2)\<lparr>numDiskReads := numDiskReads (stats k2) + 1\<rparr>\<rparr>
      in rbind (Schedule this ticks DiskInt k3) (\<lambda>k4. Inr (buf1, d1, k4)))))))"

definition WriteRequest ::
  "'c \<Rightarrow> int \<Rightarrow> byte list \<Rightarrow> Disk \<Rightarrow> ('c, 'a) interrupt_scheme \<Rightarrow> (Disk \<times> ('c, 'a) interrupt_scheme) result" where
  "WriteRequest this sectorNumber buf d k =
     (let ticks = ComputeLatency sectorNumber True d k in
      require (\<not> active d)
     (require (0 \<le> sectorNumber \<and> sectorNumber < NumSectors)
     (rbind (Lseek (fileno d) (SectorSize * sectorNumber + MagicSize) 0 k) (\<lambda>k1.
      rbind (WriteFile (fileno d) buf SectorSize k1) (\<lambda>k2.
      let d1 = UpdateLast sectorNumber k2 (d\<lparr>active := True\<rparr>);
          k3 = k2\<lparr>stats := (stats k2)\<lparr>numDiskWrites := numDiskWrites (stats k2) + 1\<rparr>\<rparr>
      in rbind (Schedule this ticks DiskInt k3) (\<lambda>k4. Inr (d1, k4)))))))"

text \<open>The interrupt: the device is free, and \<open>callWhenDone\<close> (\<open>SynchDisk::CallBack\<close>, a \<open>V\<close>) is called.\<close>

definition Disk_CallBack :: "('k \<Rightarrow> 'k result) \<Rightarrow> Disk \<Rightarrow> 'k \<Rightarrow> (Disk \<times> 'k) result" where
  "Disk_CallBack callWhenDone d k = rbind (callWhenDone k) (\<lambda>k1. Inr (d\<lparr>active := False\<rparr>, k1))"

section \<open>Times\<close>

lemma next_slot: "(i + (s - i) mod 32 - s) mod 32 = (0 :: int)"
proof -
  have "(i + (s - i) mod 32 - s) mod 32 = ((i - s) + (s - i) mod 32) mod 32" by (simp add: algebra_simps)
  also have "\<dots> = ((i - s) + (s - i)) mod 32" by (rule mod_add_right_eq)
  finally show ?thesis by simp
qed

lemma sdiv_mult: "(500 * x :: int) sdiv 500 = x"
  by (simp add: signed_divide_int_def sgn_mult abs_mult sgn_mult_abs)

lemma ModuloDiff_nonneg:
  assumes "0 \<le> to" and "0 \<le> from"
  shows "ModuloDiff to from = (to - from) mod 32"
proof -
  have "0 \<le> to mod 32 - from mod 32 + 32" using pos_mod_bound [of 32 "from"] pos_mod_sign [of 32 to] by linarith
  then have "ModuloDiff to from = (to mod 32 - from mod 32 + 32) mod 32"
    using assms by (simp add: ModuloDiff_def SectorsPerTrack_def smod_nonneg)
  then show ?thesis by (simp add: mod_diff_eq)
qed

lemma ModuloDiff_range:
  assumes "0 \<le> to" and "0 \<le> from"
  shows "0 \<le> ModuloDiff to from" "ModuloDiff to from \<le> 31"
proof -
  have "0 \<le> (to - from) mod 32" "(to - from) mod 32 < 32" by simp_all
  then show "0 \<le> ModuloDiff to from" "ModuloDiff to from \<le> 31" by (simp_all only: ModuloDiff_nonneg [OF assms])
qed

text \<open>The head is at the start of a sector when the seek and the rest of the current sector are over.\<close>

lemma TimeToSeek_boundary:
  assumes "0 \<le> now k" and "TimeToSeek s d k = (seek, rotation)"
  shows "(now k + seek + rotation) mod 500 = 0" "0 \<le> seek" "500 dvd seek" "0 \<le> rotation" "rotation < 500"
proof -
  have s: "0 \<le> seek" "500 dvd seek" using assms(2) by (auto simp: TimeToSeek_def Let_def SeekTime_def)
  define over where "over = (now k + seek) mod 500"
  have r: "rotation = (if over > 0 then 500 - over else 0)"
    using assms s(1) by (auto simp: TimeToSeek_def Let_def RotationTime_def smod_nonneg over_def)
  have o: "0 \<le> over" "over < 500" by (simp_all add: over_def)
  have e: "now k + seek = 500 * ((now k + seek) div 500) + over" by (simp add: over_def)
  show "(now k + seek + rotation) mod 500 = 0"
  proof (cases "over > 0")
    case True
    then have "now k + seek + rotation = 500 * ((now k + seek) div 500 + 1)" using e r by simp
    then show ?thesis by (simp only: mod_mult_self1_is_0)
  next
    case False
    then show ?thesis using r o by (simp add: over_def)
  qed
  show "0 \<le> seek" "500 dvd seek" "0 \<le> rotation" "rotation < 500" using s r o by auto
qed

text \<open>
  The time that \<open>ComputeLatency\<close> gives to a request is right. It is at least the time that one
  sector takes to pass and at most a seek over all tracks and a full turn; after it the head has
  just passed over the wanted sector, at the end of a sector slot on the rotating track. Only a
  read on the current track may be quicker, and then the wanted sector has passed completely
  under the head since the track buffer was started.
\<close>

theorem ComputeLatency_correct:
  assumes "0 \<le> now k" and "0 \<le> s" "s < NumSectors" and "0 \<le> lastSector d" "lastSector d < NumSectors"
    and "0 \<le> bufferInit d" "RotationTime dvd bufferInit d"
  shows "RotationTime \<le> ComputeLatency s w d k \<and> ComputeLatency s w d k < (NumTracks - 1) * SeekTime + (SectorsPerTrack + 1) * RotationTime \<and>
    (let done = now k + ComputeLatency s w d k in
     (RotationTime dvd done \<and> (done div RotationTime - 1 - s) mod SectorsPerTrack = 0) \<or>
     (\<not> w \<and> s div SectorsPerTrack = lastSector d div SectorsPerTrack \<and> ComputeLatency s w d k = RotationTime \<and>
      (\<exists>slot. bufferInit d \<le> slot * RotationTime \<and> (slot + 1) * RotationTime < now k + RotationTime \<and>
              (slot - s) mod SectorsPerTrack = 0)))"
proof -
  obtain seek rotation where sr: "TimeToSeek s d k = (seek, rotation)" by (cases "TimeToSeek s d k") simp
  note b = TimeToSeek_boundary [OF assms(1) sr]
  have seek: "seek = \<bar>s div 32 - lastSector d div 32\<bar> * 500"
    using sr assms by (simp add: TimeToSeek_def Let_def SectorsPerTrack_def SeekTime_def sdiv_nonneg)
  have "0 \<le> s div 32" "s div 32 \<le> 31" "0 \<le> lastSector d div 32" "lastSector d div 32 \<le> 31" using assms(2-5) by simp_all
  then have "\<bar>s div 32 - lastSector d div 32\<bar> \<le> 31" by linarith
  then have small: "seek \<le> 15500" using mult_right_mono [of "\<bar>s div 32 - lastSector d div 32\<bar>" 31 500] unfolding seek by simp
  define after where "after = now k + seek + rotation"
  have a0: "0 \<le> after" using assms(1) b by (simp add: after_def)
  obtain j where j: "after = 500 * j" "0 \<le> j" using b(1) a0 unfolding after_def by (metis mod_0_imp_dvd dvdE zero_le_mult_iff not_numeral_le_zero zero_le_numeral)
  have lat: "ComputeLatency s w d k =
    (if \<not> w \<and> seek = 0 \<and> (after - bufferInit d) sdiv 500 > ModuloDiff s (bufferInit d sdiv 500) then 500
     else seek + (rotation + ModuloDiff s (after sdiv 500) * 500) + 500)"
    unfolding ComputeLatency_def sr Let_def RotationTime_def after_def prod.case by (rule refl)
  show ?thesis
  proof (cases "\<not> w \<and> seek = 0 \<and> (after - bufferInit d) sdiv 500 > ModuloDiff s (bufferInit d sdiv 500)")
    case True
    then have L: "ComputeLatency s w d k = 500" and w: "\<not> w" and z: "seek = 0" using lat by simp_all
    obtain i where i: "bufferInit d = 500 * i" "0 \<le> i" using assms(6,7) by (auto simp: RotationTime_def elim!: dvdE)
    have bi: "bufferInit d sdiv 500 = i" unfolding i(1) by (rule sdiv_mult)
    have "after - bufferInit d = 500 * (j - i)" using j(1) i(1) by simp
    then have "(after - bufferInit d) sdiv 500 = j - i" by (simp only: sdiv_mult)
    then have diff: "j - i > (s - i) mod 32"
      using True ModuloDiff_nonneg [of s i] assms(2) i(2) unfolding bi by simp
    define slot where "slot = i + (s - i) mod 32"
    have "bufferInit d \<le> slot * RotationTime" using i by (simp add: slot_def RotationTime_def)
    moreover have "(slot + 1) * RotationTime < now k + RotationTime"
      using diff j(1) b(4,5) z by (simp add: slot_def RotationTime_def after_def)
    moreover have "(slot - s) mod SectorsPerTrack = 0" using next_slot by (simp add: slot_def SectorsPerTrack_def)
    moreover have "s div SectorsPerTrack = lastSector d div SectorsPerTrack" using z seek by (simp add: SectorsPerTrack_def)
    ultimately show ?thesis using L w by (auto simp: Let_def RotationTime_def SectorsPerTrack_def NumTracks_def SeekTime_def)
  next
    case False
    define m where "m = ModuloDiff s (after sdiv 500)"
    have aj: "after sdiv 500 = j" unfolding j(1) by (rule sdiv_mult)
    have m: "m = (s - j) mod 32" "0 \<le> m" "m \<le> 31"
      using ModuloDiff_nonneg [of s j] ModuloDiff_range [of s j] assms(2) j(2) unfolding m_def aj by simp_all
    have L: "ComputeLatency s w d k = seek + (rotation + m * 500) + 500" using False lat unfolding m_def by auto
    have fin: "now k + ComputeLatency s w d k = 500 * (j + m + 1)" using L j(1) by (simp add: after_def algebra_simps)
    have "(j + m - s) mod 32 = 0" unfolding m(1) by (rule next_slot)
    then have "RotationTime dvd now k + ComputeLatency s w d k \<and>
      ((now k + ComputeLatency s w d k) div RotationTime - 1 - s) mod SectorsPerTrack = 0"
      unfolding fin by (simp add: RotationTime_def SectorsPerTrack_def)
    moreover have "RotationTime \<le> ComputeLatency s w d k"
      "ComputeLatency s w d k < (NumTracks - 1) * SeekTime + (SectorsPerTrack + 1) * RotationTime"
      unfolding L using m(2,3) b small by (simp_all add: RotationTime_def SectorsPerTrack_def NumTracks_def SeekTime_def)
    ultimately show ?thesis unfolding Let_def by blast
  qed
qed


text \<open>The device keeps the facts about its head on which this rests.\<close>

definition head_ok :: "Disk \<Rightarrow> bool" where
  "head_ok d \<longleftrightarrow> 0 \<le> lastSector d \<and> lastSector d < NumSectors \<and> 0 \<le> bufferInit d \<and> RotationTime dvd bufferInit d"

lemma head_ok_UpdateLast:
  assumes "head_ok d" and "0 \<le> now k" and "0 \<le> s" "s < NumSectors"
  shows "head_ok (UpdateLast s k d)"
proof -
  obtain seek rotation where sr: "TimeToSeek s d k = (seek, rotation)" by (cases "TimeToSeek s d k") simp
  define t where "t = now k + seek + rotation"
  have "0 \<le> t" "500 dvd t" using TimeToSeek_boundary [OF assms(2) sr] assms(2) unfolding t_def by (auto simp del: dvd_mod_iff)
  moreover have "UpdateLast s k d = (if seek \<noteq> 0 then d\<lparr>bufferInit := t\<rparr> else d)\<lparr>lastSector := s\<rparr>"
    by (simp add: UpdateLast_def sr t_def)
  ultimately show ?thesis using assms(1,3,4) by (simp add: head_ok_def RotationTime_def)
qed

lemma latency_pos:
  assumes "head_ok d" and "0 \<le> now k" and "0 \<le> s" "s < NumSectors"
  shows "0 < ComputeLatency s w d k"
proof -
  obtain seek rotation where sr: "TimeToSeek s d k = (seek, rotation)" by (cases "TimeToSeek s d k") simp
  note b = TimeToSeek_boundary [OF assms(2) sr]
  have "0 \<le> (now k + seek + rotation) sdiv 500" using b assms(2) by (simp add: sdiv_nonneg)
  from ModuloDiff_range(1) [OF assms(3) this] show ?thesis
    using b by (auto simp: ComputeLatency_def sr Let_def RotationTime_def)
qed

section \<open>The device as an array of sectors\<close>

definition disk_of :: "byte list \<Rightarrow> disk" where
  "disk_of bs = map (\<lambda>i. take 128 (drop (4 + 128 * i) bs)) [0..<1024]"

definition disk_file :: "Disk \<Rightarrow> 'a sysenv_scheme \<Rightarrow> byte list" where
  "disk_file d m = (case fds m (fileno d) of None \<Rightarrow> [] | Some f \<Rightarrow> inodes m (inode f))"

definition dev_ok :: "Disk \<Rightarrow> 'a sysenv_scheme \<Rightarrow> bool" where
  "dev_ok d m \<longleftrightarrow> head_ok d \<and> (\<exists>f. fds m (fileno d) = Some f \<and> writable f) \<and> length (disk_file d m) = nat DiskSize \<and>
     take 4 (disk_file d m) = word_bytes [MagicNumber]"

lemma length_disk_of [simp]: "length (disk_of bs) = 1024"
  by (simp add: disk_of_def)

lemma nth_disk_of: "i < 1024 \<Longrightarrow> disk_of bs ! i = take 128 (drop (4 + 128 * i) bs)"
  by (simp add: disk_of_def)

lemma nth_host_write:
  assumes "k + length bs \<le> length xs" and "p < length xs"
  shows "host_write xs k bs ! p = (if k \<le> p \<and> p < k + length bs then bs ! (p - k) else xs ! p)"
  using assms by (auto simp: host_write_def nth_append min_def nth_drop add.commute)

lemma length_host_write_in: "k + length bs \<le> length xs \<Longrightarrow> length (host_write xs k bs) = length xs"
  by (simp add: host_write_def)

lemma disk_of_host_write:
  assumes "length xs = nat DiskSize" and "s < 1024" and "length bs = 128"
  shows "disk_of (host_write xs (4 + 128 * s) bs) = (disk_of xs)[s := bs]"
proof (rule nth_equalityI)
  have n: "length xs = 131076" using assms(1) by (simp add: DiskSize_def MagicSize_def)
  have k: "4 + 128 * s + length bs \<le> length xs" using n assms(2,3) by simp
  fix i assume "i < length (disk_of (host_write xs (4 + 128 * s) bs))"
  then have i: "i < 1024" by simp
  show "disk_of (host_write xs (4 + 128 * s) bs) ! i = (disk_of xs)[s := bs] ! i"
  proof (rule nth_equalityI)
    show "length (disk_of (host_write xs (4 + 128 * s) bs) ! i) = length ((disk_of xs)[s := bs] ! i)"
      using i n assms(3) k by (auto simp: nth_disk_of nth_list_update length_host_write_in)
    fix j assume "j < length (disk_of (host_write xs (4 + 128 * s) bs) ! i)"
    then have j: "j < 128" "4 + 128 * i + j < length xs" using i n k by (auto simp: nth_disk_of length_host_write_in)
    have "i = s \<or> 128 * i + j < 128 * s \<or> 128 * s + 128 \<le> 128 * i + j" using j(1) by linarith
    then show "disk_of (host_write xs (4 + 128 * s) bs) ! i ! j = (disk_of xs)[s := bs] ! i ! j"
      using nth_host_write [OF k j(2)] i j n assms(3) k by (auto simp: nth_disk_of nth_list_update length_host_write_in)
  qed
qed simp

lemma clock_ok_host [simp]:
  "clock_ok (k\<lparr>fds := f\<rparr>) = clock_ok k" "clock_ok (k\<lparr>inodes := g\<rparr>) = clock_ok k"
  "clock_ok (k\<lparr>stats := st\<rparr>) = clock_ok k"
  by (simp_all add: clock_ok_def)

text \<open>A request accepted by the device leaves it busy, with one interrupt more to come, when the disk is done.\<close>

definition requested :: "'c \<Rightarrow> int \<Rightarrow> bool \<Rightarrow> Disk \<Rightarrow> ('c, 'a) interrupt_scheme \<Rightarrow> Disk \<Rightarrow> ('c, 'a) interrupt_scheme \<Rightarrow> bool" where
  "requested this s w d k d' k' \<longleftrightarrow> active d' \<and> dev_ok d' k' \<and> clock_ok k' \<and> lastSector d' = s \<and> fileno d' = fileno d \<and> now k' = now k \<and>
     (\<exists>p. set (pendingList k') = insert p (set (pendingList k)) \<and> p \<notin> set (pendingList k) \<and> callOnInterrupt p = this \<and>
          when p = now k + ComputeLatency s w d k)"

lemma request_scheduled:
  assumes "head_ok d" "0 \<le> now k" and "0 \<le> s" "s < NumSectors" and "clock_ok k3" "now k3 = now k" "pendingList k3 = pendingList k" "now k2 = now k"
    and f: "fds k3 (fileno d) = Some f" "writable f" "length (inodes k3 (inode f)) = nat DiskSize" "take 4 (inodes k3 (inode f)) = word_bytes [MagicNumber]"
  defines "d1 \<equiv> UpdateLast s k2 (d\<lparr>active := True\<rparr>)"
  shows "\<exists>k4. Schedule this (ComputeLatency s w d k) DiskInt k3 = Inr k4 \<and> disk_file d1 k4 = inodes k3 (inode f) \<and> requested this s w d k d1 k4"
proof -
  from Schedule_ok [OF assms(5) latency_pos [OF assms(1-4), of w], of this DiskInt] obtain p ps where p:
    "Schedule this (ComputeLatency s w d k) DiskInt k3 = Inr (k3\<lparr>pendingList := ps, brk_int := brk_int k3 + 1\<rparr>)"
    "set ps = insert p (set (pendingList k3))" "p \<notin> set (pendingList k3)" "callOnInterrupt p = this"
    "when p = now k3 + ComputeLatency s w d k" "clock_ok (k3\<lparr>pendingList := ps, brk_int := brk_int k3 + 1\<rparr>)" by blast
  have d1: "active d1" "fileno d1 = fileno d" "lastSector d1 = s" by (simp_all add: d1_def UpdateLast_def Let_def split: prod.split)
  have h1: "head_ok d1" unfolding d1_def by (rule head_ok_UpdateLast) (use assms in \<open>simp_all add: head_ok_def\<close>)
  let ?k4 = "k3\<lparr>pendingList := ps, brk_int := brk_int k3 + 1\<rparr>"
  have e: "disk_file d1 ?k4 = inodes k3 (inode f)" by (simp add: disk_file_def d1 f)
  moreover have "dev_ok d1 ?k4" using h1 f e d1 by (simp add: dev_ok_def)
  ultimately show ?thesis using p d1 assms(6,7) by (auto simp: requested_def)
qed

lemma dev_okE:
  assumes "dev_ok d k"
  obtains f where "fds k (fileno d) = Some f" "writable f" "disk_file d k = inodes k (inode f)" "head_ok d"
    "length (inodes k (inode f)) = 131076" "take 4 (inodes k (inode f)) = word_bytes [MagicNumber]"
  using assms by (auto simp: dev_ok_def disk_file_def DiskSize_def MagicSize_def)

lemma ReadRequest_ok:
  assumes "dev_ok d k" and "\<not> active d" and "clock_ok k" "0 \<le> now k" and "0 \<le> s" "s < NumSectors" and "128 \<le> length buf"
  shows "\<exists>d' k'. ReadRequest this s buf d k = Inr (disk_of (disk_file d k) ! nat s @ drop 128 buf, d', k') \<and>
    disk_file d' k' = disk_file d k \<and> requested this s False d k d' k'"
proof -
  obtain f where f: "fds k (fileno d) = Some f" "writable f" "disk_file d k = inodes k (inode f)" "head_ok d"
    "length (inodes k (inode f)) = 131076" "take 4 (inodes k (inode f)) = word_bytes [MagicNumber]" by (rule dev_okE [OF assms(1)])
  define bs where "bs = take 128 (drop (4 + 128 * nat s) (inodes k (inode f)))"
  have s: "nat s < 1024" "nat (128 * s + 4) = 4 + 128 * nat s" using assms(5,6) by (simp_all add: nat_add_distrib nat_mult_distrib)
  have bs: "bs = disk_of (disk_file d k) ! nat s" "length bs = 128" using s f by (simp_all add: bs_def nth_disk_of)
  define k2 where "k2 = k\<lparr>fds := (fds k)(fileno d \<mapsto> f\<lparr>offset := 128 * s + 4 + 128\<rparr>)\<rparr>"
  have r: "rbind (Lseek (fileno d) (SectorSize * s + MagicSize) 0 k) (\<lambda>k1. Read (fileno d) buf SectorSize k1) = Inr (bs @ drop 128 buf, k2)"
    using f assms(5,7) s bs(2) by (simp add: Lseek_def Read_def ReadPartial_def Let_def MagicSize_def k2_def flip: bs_def)
  define k3 where "k3 = k2\<lparr>stats := (stats k2)\<lparr>numDiskReads := numDiskReads (stats k2) + 1\<rparr>\<rparr>"
  have "\<exists>k4. Schedule this (ComputeLatency s False d k) DiskInt k3 = Inr k4 \<and>
      disk_file (UpdateLast s k2 (d\<lparr>active := True\<rparr>)) k4 = inodes k3 (inode f) \<and> requested this s False d k (UpdateLast s k2 (d\<lparr>active := True\<rparr>)) k4"
    using request_scheduled [OF f(4) assms(4-6), of k3 k2 "f\<lparr>offset := 128 * s + 4 + 128\<rparr>" this False] f assms(3)
    by (simp add: k3_def k2_def DiskSize_def MagicSize_def)
  then obtain k4 where k4: "Schedule this (ComputeLatency s False d k) DiskInt k3 = Inr k4"
    "disk_file (UpdateLast s k2 (d\<lparr>active := True\<rparr>)) k4 = inodes k3 (inode f)" "requested this s False d k (UpdateLast s k2 (d\<lparr>active := True\<rparr>)) k4" by blast
  have "ReadRequest this s buf d k = Inr (bs @ drop 128 buf, UpdateLast s k2 (d\<lparr>active := True\<rparr>), k4)"
    using r k4(1) assms(2,5,6) by (simp add: ReadRequest_def Let_def k3_def flip: rbind_assoc)
  moreover have "inodes k3 (inode f) = disk_file d k" by (simp add: k3_def k2_def f(3))
  ultimately show ?thesis using k4 bs(1) by auto
qed

lemma WriteRequest_ok:
  assumes "dev_ok d k" and "\<not> active d" and "clock_ok k" "0 \<le> now k" and "0 \<le> s" "s < NumSectors" and "length bs = 128"
  shows "\<exists>d' k'. WriteRequest this s bs d k = Inr (d', k') \<and>
    disk_of (disk_file d' k') = (disk_of (disk_file d k))[nat s := bs] \<and> requested this s True d k d' k'"
proof -
  obtain f where f: "fds k (fileno d) = Some f" "writable f" "disk_file d k = inodes k (inode f)" "head_ok d"
    "length (inodes k (inode f)) = 131076" "take 4 (inodes k (inode f)) = word_bytes [MagicNumber]" by (rule dev_okE [OF assms(1)])
  have s: "nat s < 1024" "nat (128 * s + 4) = 4 + 128 * nat s" using assms(5,6) by (simp_all add: nat_add_distrib nat_mult_distrib)
  define xs where "xs = host_write (inodes k (inode f)) (4 + 128 * nat s) bs"
  have xs: "length xs = 131076" "disk_of xs = (disk_of (disk_file d k))[nat s := bs]"
    using s f(3,5) assms(7) disk_of_host_write [of "inodes k (inode f)" "nat s" bs]
    by (simp_all add: xs_def length_host_write_in DiskSize_def MagicSize_def)
  have magic: "take 4 xs = word_bytes [MagicNumber]" using f(5,6) s(1) by (simp add: xs_def host_write_def)
  define k2 where "k2 = k\<lparr>inodes := (inodes k)(inode f := xs), fds := (fds k)(fileno d \<mapsto> f\<lparr>offset := 128 * s + 4 + 128\<rparr>)\<rparr>"
  have r: "rbind (Lseek (fileno d) (SectorSize * s + MagicSize) 0 k) (\<lambda>k1. WriteFile (fileno d) bs SectorSize k1) = Inr k2"
    using f assms(5,7) s by (simp add: Lseek_def WriteFile_def Let_def MagicSize_def k2_def xs_def)
  define k3 where "k3 = k2\<lparr>stats := (stats k2)\<lparr>numDiskWrites := numDiskWrites (stats k2) + 1\<rparr>\<rparr>"
  have "\<exists>k4. Schedule this (ComputeLatency s True d k) DiskInt k3 = Inr k4 \<and>
      disk_file (UpdateLast s k2 (d\<lparr>active := True\<rparr>)) k4 = inodes k3 (inode f) \<and> requested this s True d k (UpdateLast s k2 (d\<lparr>active := True\<rparr>)) k4"
    using request_scheduled [OF f(4) assms(4-6), of k3 k2 "f\<lparr>offset := 128 * s + 4 + 128\<rparr>" this True] f(2) assms(3) xs(1) magic
    by (simp add: k3_def k2_def DiskSize_def MagicSize_def)
  then obtain k4 where k4: "Schedule this (ComputeLatency s True d k) DiskInt k3 = Inr k4"
    "disk_file (UpdateLast s k2 (d\<lparr>active := True\<rparr>)) k4 = inodes k3 (inode f)" "requested this s True d k (UpdateLast s k2 (d\<lparr>active := True\<rparr>)) k4" by blast
  have "WriteRequest this s bs d k = Inr (UpdateLast s k2 (d\<lparr>active := True\<rparr>), k4)"
    using r k4(1) assms(2,5,6) by (simp add: WriteRequest_def Let_def k3_def flip: rbind_assoc)
  moreover have "inodes k3 (inode f) = xs" by (simp add: k3_def k2_def)
  ultimately show ?thesis using k4 xs(2) by auto
qed

text \<open>
  The device implements an array of 1024 sectors. A request while another is in progress, or
  for a sector that does not exist, fails an assertion. Any other request succeeds: a read puts
  exactly the sector into the first 128 bytes of the buffer and changes no byte of the disk, a
  write replaces exactly the sector; both are what \<open>ReadSector\<close> and \<open>WriteSector\<close> of the file
  system's view of the disk give. The device is then busy, and the one new pending interrupt is
  that of the device, at the time of \<open>ComputeLatency\<close>.
\<close>

theorem Disk_is_sector_array:
  assumes "dev_ok d k" and "clock_ok k" and "0 \<le> now k" and "128 \<le> length buf" and "length bs = 128"
  shows "if active d \<or> s < 0 \<or> NumSectors \<le> s
    then ReadRequest this s buf d k = Inl Abort \<and> WriteRequest this s bs d k = Inl Abort
    else (\<exists>data d' k'. ReadRequest this s buf d k = Inr (data @ drop 128 buf, d', k') \<and>
            ReadSector s (disk_of (disk_file d k)) = Inr data \<and> disk_file d' k' = disk_file d k \<and> requested this s False d k d' k') \<and>
         (\<exists>d' k'. WriteRequest this s bs d k = Inr (d', k') \<and>
            WriteSector s bs (disk_of (disk_file d k)) = Inr (disk_of (disk_file d' k')) \<and> requested this s True d k d' k')"
proof (cases "active d \<or> s < 0 \<or> NumSectors \<le> s")
  case True
  then have "\<not> (\<not> active d \<and> 0 \<le> s \<and> s < NumSectors)" by auto
  then show ?thesis using True by (auto simp: ReadRequest_def WriteRequest_def Let_def require_def)
next
  case False
  then have s: "\<not> active d" "0 \<le> s" "s < NumSectors" by simp_all
  have r: "ReadSector s (disk_of (disk_file d k)) = Inr (disk_of (disk_file d k) ! nat s)"
    and w: "WriteSector s bs (disk_of (disk_file d k)) = Inr ((disk_of (disk_file d k))[nat s := bs])"
    using s by (simp_all add: ReadSector_def WriteSector_def)
  show ?thesis unfolding if_not_P [OF False] r w
    using ReadRequest_ok [OF assms(1) s(1) assms(2,3) s(2,3) assms(4), of this]
      WriteRequest_ok [OF assms(1) s(1) assms(2,3) s(2,3) assms(5), of this] by metis
qed

section \<open>Starting the device\<close>

lemma disk_of_blank: "length magic = 4 \<Longrightarrow> disk_of (magic @ replicate (128 * 1024) 0) = replicate 1024 (replicate 128 0)"
  by (rule nth_equalityI) (simp_all add: nth_disk_of)

lemma host_write_blank:
  assumes "length xs = n" and "n \<le> p"
  shows "host_write xs p bs = xs @ replicate (p - n) 0 @ bs"
  using assms by (simp add: host_write_def)

text \<open>
  Starting the disk. When the host has no file for the disk, one is created, with the magic
  number and sectors full of zeros. A file that is there, with the magic number and all its
  sectors, is used as it is: the contents of the disk survive a restart. A file without the
  magic number fails the assertion.
\<close>

theorem Disk_new_correct:
  assumes "creatable m (diskname h)"
  shows "case names m (diskname h) of
      None \<Rightarrow> \<exists>d m'. Disk_new h m = Inr (d, m') \<and> dev_ok d m' \<and> \<not> active d \<and>
        disk_of (disk_file d m') = replicate 1024 (replicate 128 0) \<and>
        (\<exists>i. names m' (diskname h) = Some i \<and> inodes m' i = disk_file d m')
    | Some i \<Rightarrow>
        if take 4 (inodes m i) \<noteq> word_bytes [MagicNumber] then Disk_new h m = Inl Abort
        else length (inodes m i) = nat DiskSize \<longrightarrow>
          (\<exists>d m'. Disk_new h m = Inr (d, m') \<and> dev_ok d m' \<and> \<not> active d \<and> disk_file d m' = inodes m i)"
proof (cases "names m (diskname h)")
  case None
  let ?i = "brk_host m" and ?fd = "Suc (brk_host m)"
  let ?magic = "word_bytes [MagicNumber]" and ?nm = "diskname h"
  define xs where "xs = ?magic @ replicate (128 * 1024) 0"
  have w1: "host_write [] 0 ?magic = ?magic" by (simp add: host_write_def)
  have w2: "host_write ?magic (nat (DiskSize - 4)) (word_bytes [0]) = xs"
  proof -
    have "word_bytes [0] = replicate 4 (0 :: byte)" by (simp add: byte_of_def numeral_eq_Suc)
    moreover have "nat (DiskSize - 4) = 128 * 1024" by (simp add: DiskSize_def MagicSize_def)
    ultimately have "host_write ?magic (nat (DiskSize - 4)) (word_bytes [0]) = ?magic @ replicate (128 * 1024 - 4) 0 @ replicate 4 0"
      by (simp only:) (rule host_write_blank, simp_all)
    then show ?thesis unfolding xs_def by (simp flip: replicate_add)
  qed
  define m' where "m' = m\<lparr>names := (names m)(?nm \<mapsto> ?i), inodes := (inodes m)(?i := xs),
    fds := (fds m)(?fd \<mapsto> \<lparr>inode = ?i, offset = DiskSize, writable = True\<rparr>), brk_host := Suc ?fd\<rparr>"
  define d where "d = \<lparr>fileno = ?fd, active = False, lastSector = 0, bufferInit = 0\<rparr>"
  have "nat (DiskSize - 4) = 128 * 1024" "0 \<le> DiskSize - 4" "nat MagicSize = 4" by (simp_all add: DiskSize_def MagicSize_def)
  then have "Disk_new h m = Inr (d, m')"
    using None assms w1 w2
    by (simp add: Disk_new_def OpenForReadWrite_def open_existing_def OpenForWrite_def new_fd_def Let_def WriteFile_def Lseek_def d_def m'_def MagicSize_def
        del: word_bytes.simps)
  moreover have "disk_file d m' = xs" by (simp add: disk_file_def d_def m'_def)
  moreover have "dev_ok d m'"
    using \<open>disk_file d m' = xs\<close> by (simp add: dev_ok_def head_ok_def d_def m'_def xs_def DiskSize_def MagicSize_def)
  ultimately show ?thesis using None disk_of_blank [of ?magic] by (auto simp: xs_def d_def m'_def)
next
  case (Some i)
  let ?fd = "brk_host m"
  define m1 where "m1 = m\<lparr>fds := (fds m)(?fd \<mapsto> \<lparr>inode = i, offset = 0, writable = True\<rparr>), brk_host := Suc ?fd\<rparr>"
  define d where "d = \<lparr>fileno = ?fd, active = False, lastSector = 0, bufferInit = 0\<rparr>"
  have o: "OpenForReadWrite (diskname h) False m = Inr (Some ?fd, m1)"
    using Some by (simp add: OpenForReadWrite_def open_existing_def new_fd_def m1_def)
  let ?bs = "take 4 (inodes m i)"
  have r: "Read ?fd (map (junk m1) [0..<4]) MagicSize m1 =
     (if length ?bs = 4 then Inr (?bs, m1\<lparr>fds := (fds m1)(?fd \<mapsto> \<lparr>inode = i, offset = 4, writable = True\<rparr>)\<rparr>) else Inl Abort)"
    by (simp add: Read_def ReadPartial_def m1_def Let_def MagicSize_def require_def min_def)
  show ?thesis
  proof (cases "?bs = word_bytes [MagicNumber]")
    case True
    then have l: "length ?bs = 4" by simp
    have "Disk_new h m = Inr (d, m1\<lparr>fds := (fds m1)(?fd \<mapsto> \<lparr>inode = i, offset = 4, writable = True\<rparr>)\<rparr>)"
      using l by (simp add: Disk_new_def o r True d_def del: word_bytes.simps)
    then show ?thesis using Some True by (auto simp: dev_ok_def head_ok_def d_def disk_file_def m1_def)
  next
    case False
    have "\<not> (length ?bs = 4 \<and> bytes_words ?bs = [MagicNumber])"
      using False word_bytes_bytes_words [of ?bs] by auto
    then have "Disk_new h m = Inl Abort" by (auto simp: Disk_new_def o r)
    then show ?thesis using Some False by simp
  qed
qed

section \<open>Examples\<close>

text \<open>A host with no disk yet and a clock at 1234; the callback object of the disk is \<open>()\<close>.\<close>

definition disk_boot :: "unit interrupt" where
  "disk_boot = sysenv.extend boot_sys (interrupt.fields IntOn [] False False (Statistics_new\<lparr>totalTicks := 1234\<rparr>) 0 False False)"

lemma disk_boot_fields:
  "names disk_boot (diskname 0) = None" "creatable disk_boot (diskname 0)" "clock_ok disk_boot" "now disk_boot = 1234"
  by (simp_all add: disk_boot_def boot_sys_def one_page_def sysenv.defs machine.defs interrupt.defs clock_ok_def Statistics_new_def)

theorem Disk_new_correct_witness:
  "\<exists>d m'. Disk_new 0 disk_boot = Inr (d, m') \<and> dev_ok d m' \<and> \<not> active d \<and> disk_of (disk_file d m') = replicate 1024 (replicate 128 0)"
  using Disk_new_correct [OF disk_boot_fields(2)] disk_boot_fields(1) by auto

theorem ComputeLatency_correct_witness:
  "let d = \<lparr>fileno = 0, active = False, lastSector = 5, bufferInit = 0\<rparr>; t = ComputeLatency 40 True d disk_boot
   in 500 \<le> t \<and> 500 dvd 1234 + t \<and> ((1234 + t) div 500 - 1 - 40) mod 32 = 0"
  using ComputeLatency_correct [of disk_boot 40 "\<lparr>fileno = 0, active = False, lastSector = 5, bufferInit = 0\<rparr>" True]
  by (simp add: disk_boot_fields Let_def RotationTime_def SectorsPerTrack_def)

text \<open>A device on a file that holds an empty disk.\<close>

definition blank :: Disk where
  "blank = \<lparr>fileno = 3, active = False, lastSector = 0, bufferInit = 0\<rparr>"

definition blank_host :: "unit interrupt" where
  "blank_host = disk_boot\<lparr>inodes := (\<lambda>_. word_bytes [MagicNumber] @ replicate (128 * 1024) 0),
     fds := [3 \<mapsto> \<lparr>inode = 0, offset = 0, writable = True\<rparr>]\<rparr>"

lemma blank_ok: "dev_ok blank blank_host" "clock_ok blank_host" "now blank_host = 1234"
  using disk_boot_fields(3,4) by (simp_all add: dev_ok_def head_ok_def disk_file_def blank_def blank_host_def DiskSize_def MagicSize_def)

theorem Disk_is_sector_array_witness:
  "(\<exists>d' k'. ReadRequest () 7 (replicate 128 9) blank blank_host = Inr (replicate 128 0, d', k') \<and> requested () 7 False blank blank_host d' k') \<and>
   (\<exists>d' k'. WriteRequest () 7 (replicate 128 9) blank blank_host = Inr (d', k') \<and>
      disk_of (disk_file d' k') = (replicate 1024 (replicate 128 0))[7 := replicate 128 9])"
proof -
  have e: "disk_of (disk_file blank blank_host) = replicate 1024 (replicate 128 0)"
    using disk_of_blank [of "word_bytes [MagicNumber]"] by (simp add: disk_file_def blank_def blank_host_def)
  have "\<not> (active blank \<or> (7 :: int) < 0 \<or> NumSectors \<le> 7)" by (simp add: blank_def)
  then show ?thesis
    using Disk_is_sector_array [OF blank_ok(1,2), of "replicate 128 9" "replicate 128 9" 7 "()"] blank_ok(3)
    by (auto simp: e ReadSector_def WriteSector_def)
qed

end
