(* ===== verification/Threads_Options.thy ===== *)
theory Threads_Options
  imports Complex_Main Lib_Hash Machine_Disk
begin

text \<open>
  The start of Nachos: \<open>lib/debug.cc\<close>, the command line as \<open>main\<close> (\<open>threads/main.cc\<close>) and the
  constructor of \<open>Kernel\<close> (\<open>threads/kernel.cc\<close>) read it, the library tests of \<open>lib/libtest.cc\<close>
  and the console test of \<open>Kernel::ConsoleTest\<close>.

  Words of the command line are byte strings without their final zero. Text that only goes to
  the host's terminal is left out. The flag \<open>stub\<close> is \<open>FILESYS_STUB\<close> of the build: the options
  of the file system on the simulated disk exist without it. A conversion by \<open>atof\<close> is an
  argument, a function of the C library.
\<close>

section \<open>Debugging (lib/debug.cc)\<close>

record Debug =
  enableFlags :: "byte list option"

definition Debug_new :: "byte list option \<Rightarrow> Debug" where
  "Debug_new flagList = \<lparr>enableFlags = flagList\<rparr>"

text \<open>\<open>strchr\<close> finds the terminating zero too.\<close>

definition strchr :: "byte list \<Rightarrow> byte \<Rightarrow> bool" where
  "strchr s c \<longleftrightarrow> c \<in> set (s @ [0])"

definition IsEnabled :: "byte \<Rightarrow> Debug \<Rightarrow> bool" where
  "IsEnabled flag db = (case enableFlags db of Some s \<Rightarrow> strchr s flag \<or> strchr s 43 | None \<Rightarrow> False)"

section \<open>Numbers on the command line\<close>

text \<open>\<open>atoi\<close>: white space, a sign, digits; a value out of range is the nearest in range.\<close>

definition isspace :: "byte \<Rightarrow> bool" where
  "isspace c \<longleftrightarrow> c \<in> {9, 10, 11, 12, 13, 32}"

definition atoi :: "byte list \<Rightarrow> int" where
  "atoi str =
     (let s = dropWhile isspace str;
          (neg, ds) = (case s of [] \<Rightarrow> (False, [])
                       | c # cs \<Rightarrow> if c = 45 then (True, cs) else if c = 43 then (False, cs) else (False, s));
          n = int (decimal (map (\<lambda>c. unat c - 48) (takeWhile is_digit ds)))
      in if neg then max (- (2 ^ 31)) (- n) else min (2 ^ 31 - 1) n)"

section \<open>The options of main\<close>

record main_options =
  debugArg :: "byte list"
  userProgName :: "byte list option"
  threadTestFlag :: bool
  consoleTestFlag :: bool
  networkTestFlag :: bool
  copyUnixFileName :: "byte list option"
  copyNachosFileName :: "byte list option"
  printFileName :: "byte list option"
  removeFileName :: "byte list option"
  dirListFlag :: bool
  dumpFlag :: bool

definition main_defaults :: main_options where
  "main_defaults = \<lparr>debugArg = [], userProgName = None, threadTestFlag = False, consoleTestFlag = False, networkTestFlag = False,
     copyUnixFileName = None, copyNachosFileName = None, printFileName = None, removeFileName = None, dirListFlag = False, dumpFlag = False\<rparr>"

text \<open>The loop over the words behind the name of the program: \<open>argv[i]\<close> is the first word left.\<close>

fun main_args :: "bool \<Rightarrow> byte list list \<Rightarrow> main_options \<Rightarrow> main_options result" where
  "main_args stub [] opts = Inr opts"
| "main_args stub (arg # rest) opts =
     (if arg = ascii ''-d'' then
        (case rest of [] \<Rightarrow> Inl Abort | s # rest1 \<Rightarrow> main_args stub rest1 (opts\<lparr>debugArg := s\<rparr>))
      else if arg = ascii ''-z'' then main_args stub rest opts
      else if arg = ascii ''-x'' then
        (case rest of [] \<Rightarrow> Inl Abort | s # rest1 \<Rightarrow> main_args stub rest1 (opts\<lparr>userProgName := Some s\<rparr>))
      else if arg = ascii ''-K'' then main_args stub rest (opts\<lparr>threadTestFlag := True\<rparr>)
      else if arg = ascii ''-C'' then main_args stub rest (opts\<lparr>consoleTestFlag := True\<rparr>)
      else if arg = ascii ''-N'' then main_args stub rest (opts\<lparr>networkTestFlag := True\<rparr>)
      else if \<not> stub \<and> arg = ascii ''-cp'' then
        (case rest of s # t # rest1 \<Rightarrow> main_args stub rest1 (opts\<lparr>copyUnixFileName := Some s, copyNachosFileName := Some t\<rparr>)
         | _ \<Rightarrow> Inl Abort)
      else if \<not> stub \<and> arg = ascii ''-p'' then
        (case rest of [] \<Rightarrow> Inl Abort | s # rest1 \<Rightarrow> main_args stub rest1 (opts\<lparr>printFileName := Some s\<rparr>))
      else if \<not> stub \<and> arg = ascii ''-r'' then
        (case rest of [] \<Rightarrow> Inl Abort | s # rest1 \<Rightarrow> main_args stub rest1 (opts\<lparr>removeFileName := Some s\<rparr>))
      else if \<not> stub \<and> arg = ascii ''-l'' then main_args stub rest (opts\<lparr>dirListFlag := True\<rparr>)
      else if \<not> stub \<and> arg = ascii ''-D'' then main_args stub rest (opts\<lparr>dumpFlag := True\<rparr>)
      else main_args stub rest opts)"

section \<open>The options of the kernel\<close>

text \<open>\<open>randomSeed\<close> is what \<open>RandomInit\<close> was called with last.\<close>

record kernel_options =
  randomSlice :: bool
  randomSeed :: "int option"
  debugUserProg :: bool
  consoleIn :: "byte list option"
  consoleOut :: "byte list option"
  formatFlag :: bool
  reliability :: rat
  hostId :: int

definition kernel_defaults :: kernel_options where
  "kernel_defaults = \<lparr>randomSlice = False, randomSeed = None, debugUserProg = False, consoleIn = None, consoleOut = None,
     formatFlag = False, reliability = 1, hostId = 0\<rparr>"

fun Kernel_args :: "(byte list \<Rightarrow> rat) \<Rightarrow> bool \<Rightarrow> byte list list \<Rightarrow> kernel_options \<Rightarrow> kernel_options result" where
  "Kernel_args atof stub [] k = Inr k"
| "Kernel_args atof stub (arg # rest) k =
     (if arg = ascii ''-rs'' then
        (case rest of [] \<Rightarrow> Inl Abort
         | s # rest1 \<Rightarrow> Kernel_args atof stub rest1 (k\<lparr>randomSeed := Some (atoi s), randomSlice := True\<rparr>))
      else if arg = ascii ''-s'' then Kernel_args atof stub rest (k\<lparr>debugUserProg := True\<rparr>)
      else if arg = ascii ''-ci'' then
        (case rest of [] \<Rightarrow> Inl Abort | s # rest1 \<Rightarrow> Kernel_args atof stub rest1 (k\<lparr>consoleIn := Some s\<rparr>))
      else if arg = ascii ''-co'' then
        (case rest of [] \<Rightarrow> Inl Abort | s # rest1 \<Rightarrow> Kernel_args atof stub rest1 (k\<lparr>consoleOut := Some s\<rparr>))
      else if \<not> stub \<and> arg = ascii ''-f'' then Kernel_args atof stub rest (k\<lparr>formatFlag := True\<rparr>)
      else if arg = ascii ''-n'' then
        (case rest of [] \<Rightarrow> Inl Abort | s # rest1 \<Rightarrow> Kernel_args atof stub rest1 (k\<lparr>reliability := atof s\<rparr>))
      else if arg = ascii ''-m'' then
        (case rest of [] \<Rightarrow> Inl Abort | s # rest1 \<Rightarrow> Kernel_args atof stub rest1 (k\<lparr>hostId := atoi s\<rparr>))
      else Kernel_args atof stub rest k)"

text \<open>The constructor of \<open>Kernel\<close> gets all words, the name of the program first.\<close>

definition Kernel_new :: "(byte list \<Rightarrow> rat) \<Rightarrow> bool \<Rightarrow> byte list list \<Rightarrow> kernel_options result" where
  "Kernel_new atof stub argv = Kernel_args atof stub (drop 1 argv) kernel_defaults"

section \<open>The library tests (lib/libtest.cc)\<close>

definition HashInt :: "int \<Rightarrow> i32" where "HashInt key = word_of_int key"

definition HashKey :: "byte list \<Rightarrow> int" where "HashKey str = atoi str"

definition hashTestVector :: "byte list list" where
  "hashTestVector = map ascii [''0'', ''1'', ''2'', ''3'', ''4'', ''5'', ''6'', ''7'', ''8'', ''9'', ''10'', ''11'', ''12'', ''13'', ''14'']"

text \<open>The lists and their elements are allocated in the store \<open>s\<close>.\<close>

definition LibSelfTest :: "int store \<Rightarrow> unit result" where
  "LibSelfTest s =
     rbind (Bitmap_new 200) (\<lambda>mp.
     rbind (Bitmap_SelfTest mp) (\<lambda>_.
     rbind (List_SelfTest List_Append List_SanityCheck listTestVector (List_new, s)) (\<lambda>(_, s1).
     rbind (SortedList_SelfTest IntCompare listTestVector (List_new, s1)) (\<lambda>_.
     rbind (HashTable_SelfTest hashTestVector (HashTable_new HashKey HashInt)) (\<lambda>_. Inr ())))))"

section \<open>The console test (threads/kernel.cc)\<close>

lemma input_left_PutChar [simp]: "input_left (PutChar c m) = input_left m"
  by (simp add: input_left_def PutChar_def)

function ConsoleTest :: "'a sysenv_scheme \<Rightarrow> 'a sysenv_scheme result" where
  "ConsoleTest m = rbind (GetChar m) (\<lambda>(ch, m1). if ch \<noteq> EOF then ConsoleTest (PutChar ch m1) else Inr m1)"
  by auto
termination by (relation "measure input_left") (auto dest: GetChar_less)

declare ConsoleTest.simps [simp del]

section \<open>The grammar of the command line\<close>

text \<open>
  The options of both readers, the words they are written with, and what they set. \<open>option_words\<close>
  are the words with a meaning to one of the readers.
\<close>

datatype cmd =
    CmdDebug "byte list" | CmdCopyright | CmdExec "byte list" | CmdThreadTest | CmdConsoleTest | CmdNetworkTest
  | CmdCopy "byte list" "byte list" | CmdPrint "byte list" | CmdRemove "byte list" | CmdList | CmdDump | CmdUsage
  | CmdSeed "byte list" | CmdStep | CmdConsoleIn "byte list" | CmdConsoleOut "byte list" | CmdFormat
  | CmdReliability "byte list" | CmdHost "byte list"

primrec cmd_words :: "cmd \<Rightarrow> byte list list" where
  "cmd_words (CmdDebug s) = [ascii ''-d'', s]"
| "cmd_words CmdCopyright = [ascii ''-z'']"
| "cmd_words (CmdExec s) = [ascii ''-x'', s]"
| "cmd_words CmdThreadTest = [ascii ''-K'']"
| "cmd_words CmdConsoleTest = [ascii ''-C'']"
| "cmd_words CmdNetworkTest = [ascii ''-N'']"
| "cmd_words (CmdCopy s t) = [ascii ''-cp'', s, t]"
| "cmd_words (CmdPrint s) = [ascii ''-p'', s]"
| "cmd_words (CmdRemove s) = [ascii ''-r'', s]"
| "cmd_words CmdList = [ascii ''-l'']"
| "cmd_words CmdDump = [ascii ''-D'']"
| "cmd_words CmdUsage = [ascii ''-u'']"
| "cmd_words (CmdSeed s) = [ascii ''-rs'', s]"
| "cmd_words CmdStep = [ascii ''-s'']"
| "cmd_words (CmdConsoleIn s) = [ascii ''-ci'', s]"
| "cmd_words (CmdConsoleOut s) = [ascii ''-co'', s]"
| "cmd_words CmdFormat = [ascii ''-f'']"
| "cmd_words (CmdReliability s) = [ascii ''-n'', s]"
| "cmd_words (CmdHost s) = [ascii ''-m'', s]"

definition option_words :: "byte list set" where
  "option_words = ascii ` {''-d'', ''-z'', ''-x'', ''-K'', ''-C'', ''-N'', ''-cp'', ''-p'', ''-r'', ''-l'', ''-D'', ''-u'',
     ''-rs'', ''-s'', ''-ci'', ''-co'', ''-f'', ''-n'', ''-m''}"

definition plain_args :: "cmd \<Rightarrow> bool" where
  "plain_args c \<longleftrightarrow> set (tl (cmd_words c)) \<inter> option_words = {}"

fun main_sets :: "cmd \<Rightarrow> main_options \<Rightarrow> main_options" where
  "main_sets (CmdDebug s) opts = opts\<lparr>debugArg := s\<rparr>"
| "main_sets (CmdExec s) opts = opts\<lparr>userProgName := Some s\<rparr>"
| "main_sets CmdThreadTest opts = opts\<lparr>threadTestFlag := True\<rparr>"
| "main_sets CmdConsoleTest opts = opts\<lparr>consoleTestFlag := True\<rparr>"
| "main_sets CmdNetworkTest opts = opts\<lparr>networkTestFlag := True\<rparr>"
| "main_sets (CmdCopy s t) opts = opts\<lparr>copyUnixFileName := Some s, copyNachosFileName := Some t\<rparr>"
| "main_sets (CmdPrint s) opts = opts\<lparr>printFileName := Some s\<rparr>"
| "main_sets (CmdRemove s) opts = opts\<lparr>removeFileName := Some s\<rparr>"
| "main_sets CmdList opts = opts\<lparr>dirListFlag := True\<rparr>"
| "main_sets CmdDump opts = opts\<lparr>dumpFlag := True\<rparr>"
| "main_sets _ opts = opts"

fun kernel_sets :: "(byte list \<Rightarrow> rat) \<Rightarrow> cmd \<Rightarrow> kernel_options \<Rightarrow> kernel_options" where
  "kernel_sets atof (CmdSeed s) k = k\<lparr>randomSeed := Some (atoi s), randomSlice := True\<rparr>"
| "kernel_sets atof CmdStep k = k\<lparr>debugUserProg := True\<rparr>"
| "kernel_sets atof (CmdConsoleIn s) k = k\<lparr>consoleIn := Some s\<rparr>"
| "kernel_sets atof (CmdConsoleOut s) k = k\<lparr>consoleOut := Some s\<rparr>"
| "kernel_sets atof CmdFormat k = k\<lparr>formatFlag := True\<rparr>"
| "kernel_sets atof (CmdReliability s) k = k\<lparr>reliability := atof s\<rparr>"
| "kernel_sets atof (CmdHost s) k = k\<lparr>hostId := atoi s\<rparr>"
| "kernel_sets atof _ k = k"

lemma ascii_eq [simp]: "ascii s = ascii t \<longleftrightarrow> s = t"
proof -
  have "c = e" if eq: "(of_char c :: byte) = of_char e" for c e
  proof -
    let ?ds = "\<lambda>c. [digit0 c, digit1 c, digit2 c, digit3 c, digit4 c, digit5 c, digit6 c, digit7 c]"
    have "?ds x ! n \<longleftrightarrow> bit (of_char x :: byte) n" if "n < 8" for x n
      unfolding of_char_def bit_horner_sum_bit_iff using that by simp
    then have "?ds c ! n = ?ds e ! n" if "n < 8" for n using that eq by metis
    then have "?ds c = ?ds e" by (intro nth_equalityI) auto
    then show ?thesis by (cases c; cases e) simp
  qed
  then have "inj (of_char :: char \<Rightarrow> byte)" by (rule injI)
  then show ?thesis by (simp add: ascii_def)
qed

declare main_args.simps(2) [simp del] Kernel_args.simps(2) [simp del]

text \<open>A word that is no option is skipped.\<close>

lemma args_skip:
  assumes "w \<notin> option_words"
  shows "main_args stub (w # ws) opts = main_args stub ws opts" and "Kernel_args atof stub (w # ws) k = Kernel_args atof stub ws k"
  using assms by (subst main_args.simps Kernel_args.simps; simp add: option_words_def)+

lemma args_cmd:
  assumes "plain_args c"
  shows "main_args False (cmd_words c @ ws) opts = main_args False ws (main_sets c opts)"
    and "Kernel_args atof False (cmd_words c @ ws) k = Kernel_args atof False ws (kernel_sets atof c k)"
proof -
  show "main_args False (cmd_words c @ ws) opts = main_args False ws (main_sets c opts)"
    using assms by (cases c) (simp_all add: main_args.simps(2) [of _ "ascii _"] plain_args_def args_skip)
  show "Kernel_args atof False (cmd_words c @ ws) k = Kernel_args atof False ws (kernel_sets atof c k)"
    using assms by (cases c) (simp_all add: Kernel_args.simps(2) [of _ _ "ascii _"] plain_args_def args_skip)
qed

section \<open>Properties\<close>

lemma args_cmds:
  assumes "\<forall>c \<in> set cs. plain_args c"
  shows "main_args False (concat (map cmd_words cs) @ ws) opts = main_args False ws (fold main_sets cs opts)"
    and "Kernel_args atof False (concat (map cmd_words cs) @ ws) k = Kernel_args atof False ws (fold (kernel_sets atof) cs k)"
  using assms by (induction cs arbitrary: opts k) (simp_all add: args_cmd)



text \<open>
  An argument that is an option word of the other reader is read twice: the program named
  \<open>-rs\<close> is taken by \<open>main\<close>, and the constructor of \<open>Kernel\<close> then fails an assertion.
\<close>

theorem option_read_twice:
  "main_args stub [ascii ''-x'', ascii ''-rs''] main_defaults = Inr (main_defaults\<lparr>userProgName := Some (ascii ''-rs'')\<rparr>) \<and>
   Kernel_new atof stub [prog, ascii ''-x'', ascii ''-rs''] = Inl Abort"
  by (simp add: Kernel_new_def main_args.simps(2) Kernel_args.simps(2))

text \<open>
  \<open>atoi\<close> reads back what \<open>sprintf\<close> writes: the number of the machine given on the command line is
  the number in the names of its disk file and its socket.
\<close>

theorem atoi_format_int:
  assumes "- (2 ^ 31) \<le> n" and "n < 2 ^ 31"
  shows "atoi (format_int n) = n"
proof -
  define ds where "ds = (if n = 0 then [0] else rev (ndigits (nat \<bar>n\<bar>)))"
  have f: "format_int n = (if n < 0 then [45] else []) @ map digit_char ds" by (simp add: format_int_def ds_def digit_char_def)
  have small: "\<forall>d \<in> set ds. d < 10" using decimal_ndigits(2) by (auto simp: ds_def)
  have v: "int (decimal ds) = \<bar>n\<bar>" using decimal_ndigits(1) by (simp add: ds_def decimal_def)
  have "ds \<noteq> []" by (subst ds_def, subst ndigits.simps) simp
  then obtain d es where ds: "ds = d # es" by (cases ds) auto
  have c: "unat (digit_char e) = 48 + e \<and> digit_char e \<notin> {9, 10, 11, 12, 13, 32, 43, 45} \<and> is_digit (digit_char e)" if "e < 10" for e
  proof -
    have "e \<in> {0, 1, 2, 3, 4, 5, 6, 7, 8, 9}" using that by auto
    then show ?thesis by (auto simp: digit_char_def is_digit_def)
  qed
  have "takeWhile is_digit (map digit_char ds) = map digit_char ds" using small c by (auto simp: takeWhile_eq_all_conv)
  moreover have "map ((\<lambda>x. unat x - 48) \<circ> digit_char) ds = ds" using small c by (intro map_idI) simp
  ultimately have dec: "int (decimal (map (\<lambda>c. unat c - 48) (takeWhile is_digit (map digit_char ds)))) = \<bar>n\<bar>"
    using v by (simp only: map_map)
  have d: "digit_char d \<notin> {9, 10, 11, 12, 13, 32, 43, 45}" using small c [of d] by (simp add: ds)
  show ?thesis
  proof (cases "n < 0")
    case True
    then show ?thesis using dec assms by (simp add: atoi_def f isspace_def)
  next
    case False
    then have "format_int n = digit_char d # map digit_char es" by (simp add: f ds)
    moreover have "\<not> isspace (digit_char d)" using d by (simp add: isspace_def)
    ultimately have "atoi (format_int n) = min (2 ^ 31 - 1) (int (decimal (map (\<lambda>c. unat c - 48) (takeWhile is_digit (map digit_char ds)))))"
      using d by (simp add: atoi_def ds)
    then show ?thesis using dec False assms by simp
  qed
qed

theorem atoi_format_int_witness: "atoi (format_int (- 107)) = - 107"
  by (rule atoi_format_int) simp_all

text \<open>The library tests pass: no assertion of the four self tests fails.\<close>

theorem LibSelfTest_passes:
  assumes "store_ok s"
  shows "LibSelfTest s = Inr ()"
proof -
  obtain b where b: "Bitmap_new 200 = Inr b" "Bitmap_wf b" "Bitmap_bits b = {}" "numBits b = 200"
    using Bitmap_new_ok [of 200] by auto
  obtain b' where b': "Bitmap_SelfTest b = Inr b'" using Bitmap_SelfTest_passes [OF b(2,3)] b(4) by auto
  have v: "distinct listTestVector" by (simp add: listTestVector_def)
  obtain l1 s1 where l1: "List_SelfTest List_Append List_SanityCheck listTestVector (List_new, s) = Inr (l1, s1)" "holds [] (l1, s1)"
    using plain.SelfTest_passes [OF holds_new [OF assms] v] by auto
  have "store_ok s1" using l1(2) by (simp add: holds_def List_rep_def)
  then obtain ls2 where l2: "SortedList_SelfTest IntCompare listTestVector (List_new, s1) = Inr ls2"
    using ic.SortedList_SelfTest_passes [OF holds_new v] by blast
  have "map HashKey hashTestVector = [0, 1, 2, 3, 4, 5, 6, 7, 8, 9, 10, 11, 12, 13, 14]"
    by (simp add: hashTestVector_def HashKey_def atoi_def ascii_def of_char_def isspace_def is_digit_def decimal_def)
  then have "distinct (map HashKey hashTestVector)" by simp
  then obtain t where t: "HashTable_SelfTest hashTestVector (HashTable_new HashKey HashInt) = Inr t"
    using HashTable_SelfTest_passes by blast
  show ?thesis using b(1) b' l1(1) l2 t by (simp add: LibSelfTest_def)
qed

theorem LibSelfTest_passes_witness: "LibSelfTest \<lparr>cells = (\<lambda>_. None), brk = 1\<rparr> = Inr ()"
  by (rule LibSelfTest_passes) (simp add: store_ok_def)

text \<open>
  C38: the console test ends for every input, even if it has no \<open>EOF\<close> of its own: it shows the
  characters of the input up to the first one with the value of \<open>EOF\<close>, or up to the end, in order
  and no others, and consumes exactly these and the \<open>EOF\<close>. Run once more it waits forever.
\<close>

theorem ConsoleTest_echoes:
  "ConsoleTest m =
     (if conEof m then Inl Diverges
      else let typed = takeWhile (\<lambda>c. c \<noteq> EOF) (conIn m) in
           Inr (m\<lparr>conIn := drop (Suc (length typed)) (conIn m), conEof := True, conOut := conOut m @ typed\<rparr>))"
proof (cases "conEof m")
  case True
  then show ?thesis by (subst ConsoleTest.simps) (simp add: GetChar_def)
next
  case False
  have "conEof m = False \<Longrightarrow> ConsoleTest m = Inr (m\<lparr>conIn := drop (Suc (length (takeWhile (\<lambda>c. c \<noteq> EOF) cs))) cs, conEof := True,
      conOut := conOut m @ takeWhile (\<lambda>c. c \<noteq> EOF) cs\<rparr>)" if "conIn m = cs" for cs
    using that
  proof (induction cs arbitrary: m)
    case Nil
    then show ?case by (subst ConsoleTest.simps) (simp add: GetChar_def)
  next
    case (Cons c cs)
    show ?case
    proof (cases "c = EOF")
      case True
      then show ?thesis using Cons.prems by (subst ConsoleTest.simps) (simp add: GetChar_def)
    next
      case False
      let ?m = "m\<lparr>conIn := cs, conEof := False, conOut := conOut m @ [c]\<rparr>"
      have "ConsoleTest m = ConsoleTest ?m"
        using Cons.prems False by (subst ConsoleTest.simps) (simp add: GetChar_def PutChar_def)
      then show ?thesis using Cons.IH [of ?m] False by simp
    qed
  qed
  then show ?thesis using False by (simp add: Let_def)
qed

end
