(* ===== verification/Userprog_Space.thy ===== *)
theory Userprog_Space
  imports Filesys_File Machine_Mips
begin

text \<open>
  \<open>userprog/addrspace.h\<close>, \<open>addrspace.cc\<close> and \<open>noff.h\<close>: address spaces of user programs and
  loading an object file. The object file is what the build's stub file system opens, a file of
  the host: its bytes are an argument, \<open>None\<close> when it cannot be opened. The page table of the
  running space and the machine's page table are the same array; it is kept in the machine
  while the space runs (\<open>RestoreState\<close>) and taken back when it is switched out.
\<close>

section \<open>Object files\<close>

record Segment =
  virtualAddr :: i32
  inFileAddr :: i32
  seg_size :: i32

record NoffHeader =
  noffMagic :: i32
  code :: Segment
  initData :: Segment
  readonlyData :: Segment
  uninitData :: Segment

definition NOFFMAGIC :: i32 where "NOFFMAGIC = 0xbadfad"

definition segment_of_words :: "i32 list \<Rightarrow> Segment" where
  "segment_of_words ws = \<lparr>virtualAddr = ws ! 0, inFileAddr = ws ! 1, seg_size = ws ! 2\<rparr>"

text \<open>The 52 bytes of the header, with the segment \<open>readonlyData\<close> (\<open>RDATA\<close>).\<close>

definition noff_of_bytes :: "byte list \<Rightarrow> NoffHeader" where
  "noff_of_bytes bs =
     (let ws = bytes_words bs in
      \<lparr>noffMagic = ws ! 0, code = segment_of_words (drop 1 ws), initData = segment_of_words (drop 4 ws),
       readonlyData = segment_of_words (drop 7 ws), uninitData = segment_of_words (drop 10 ws)\<rparr>)"

definition swap_segment :: "bool \<Rightarrow> Segment \<Rightarrow> Segment" where
  "swap_segment big g = \<lparr>virtualAddr = WordToHost big (virtualAddr g), inFileAddr = WordToHost big (inFileAddr g),
     seg_size = WordToHost big (seg_size g)\<rparr>"

definition SwapHeader :: "bool \<Rightarrow> NoffHeader \<Rightarrow> NoffHeader" where
  "SwapHeader big n = \<lparr>noffMagic = WordToHost big (noffMagic n), code = swap_segment big (code n),
     initData = swap_segment big (initData n), readonlyData = swap_segment big (readonlyData n),
     uninitData = swap_segment big (uninitData n)\<rparr>"

section \<open>Address spaces\<close>

record AddrSpace =
  spaceTable :: "TranslationEntry list"
  numPages :: i32

definition UserStackSize :: i32 where "UserStackSize = 1024"

text \<open>The constructor maps every page to the frame of the same number and clears memory.\<close>

definition AddrSpace_new :: "i32 \<Rightarrow> 'a machine_scheme \<Rightarrow> AddrSpace \<times> 'a machine_scheme" where
  "AddrSpace_new junk m =
     (\<lparr>spaceTable = map (\<lambda>i. \<lparr>virtualPage = of_nat i, physicalPage = of_nat i, valid = True, readOnly = False,
         use = False, dirty = False\<rparr>) [0..<NumPhysPages], numPages = junk\<rparr>,
      m\<lparr>mainMemory := replicate MemorySize 0\<rparr>)"

text \<open>\<open>OpenFile::ReadAt\<close> of the stub file system: \<open>Lseek\<close> asserts that the host can seek.\<close>

definition host_ReadAt :: "byte list \<Rightarrow> int \<Rightarrow> int \<Rightarrow> byte list result" where
  "host_ReadAt bytes num position = require (0 \<le> position) (Inr (take (nat num) (drop (nat position) bytes)))"

definition load_segment :: "byte list \<Rightarrow> Segment \<Rightarrow> byte list \<Rightarrow> byte list result" where
  "load_segment bytes g mem =
     (if 0 < sint (seg_size g) then
        rbind (host_ReadAt bytes (sint (seg_size g)) (sint (inFileAddr g))) (copy_to mem (sint (virtualAddr g)))
      else Inr mem)"

text \<open>
  \<open>Load\<close>; \<open>junk\<close> is the uninitialised content of the header in memory, part of which stays when
  the file is shorter than a header. Sizes are added and rounded as unsigned integers.
\<close>

definition divRoundUp_unsigned :: "i32 \<Rightarrow> i32 \<Rightarrow> i32" where
  "divRoundUp_unsigned n s = n div s + (if n mod s > 0 then 1 else 0)"

definition AddrSpace_Load ::
  "byte list \<Rightarrow> byte list option \<Rightarrow> AddrSpace \<Rightarrow> 'a machine_scheme \<Rightarrow> (bool \<times> AddrSpace \<times> 'a machine_scheme) result" where
  "AddrSpace_Load junk file sp m =
     (case file of
        None \<Rightarrow> Inr (False, sp, m)
      | Some bytes \<Rightarrow>
          rbind (host_ReadAt bytes 52 0) (\<lambda>bs.
          rbind (copy_to junk 0 bs) (\<lambda>hb.
          let n0 = noff_of_bytes hb;
              n = (if noffMagic n0 \<noteq> NOFFMAGIC \<and> WordToHost HOST_IS_BIG_ENDIAN (noffMagic n0) = NOFFMAGIC
                   then SwapHeader HOST_IS_BIG_ENDIAN n0 else n0)
          in require (noffMagic n = NOFFMAGIC)
            (let size0 = seg_size (code n) + seg_size (readonlyData n) + seg_size (initData n) +
                         seg_size (uninitData n) + UserStackSize;
                 pages = divRoundUp_unsigned size0 (of_nat PageSize)
             in require (pages \<le> of_nat NumPhysPages)
               (rbind (load_segment bytes (code n) (mainMemory m)) (\<lambda>mem1.
                rbind (load_segment bytes (initData n) mem1) (\<lambda>mem2.
                rbind (load_segment bytes (readonlyData n) mem2) (\<lambda>mem3.
                Inr (True, sp\<lparr>numPages := pages\<rparr>, m\<lparr>mainMemory := mem3\<rparr>)))))))))"

definition AddrSpace_InitRegisters :: "AddrSpace \<Rightarrow> 'a machine_scheme \<Rightarrow> 'a machine_scheme result" where
  "AddrSpace_InitRegisters sp m =
     rbind (for_upto (int NumTotalRegs) (\<lambda>i. Machine_WriteRegister i 0) m) (\<lambda>m1.
     rbind (Machine_WriteRegister (int PCReg) 0 m1) (\<lambda>m2.
     rbind (Machine_WriteRegister (int NextPCReg) 4 m2) (\<lambda>m3.
     Machine_WriteRegister (int StackReg) (numPages sp * of_nat PageSize - 16) m3)))"

definition AddrSpace_RestoreState :: "AddrSpace \<Rightarrow> 'a machine_scheme \<Rightarrow> 'a machine_scheme" where
  "AddrSpace_RestoreState sp m = m\<lparr>pageTable := Some (spaceTable sp), pageTableSize := numPages sp\<rparr>"

text \<open>\<open>SaveState\<close> is empty in the code; what the model takes back is the shared array.\<close>

definition AddrSpace_SaveState :: "'a machine_scheme \<Rightarrow> AddrSpace \<Rightarrow> AddrSpace" where
  "AddrSpace_SaveState m sp = (case pageTable m of Some pt \<Rightarrow> sp\<lparr>spaceTable := pt\<rparr> | None \<Rightarrow> sp)"

text \<open>\<open>Execute\<close> up to the endless loop of \<open>Machine::Run\<close>.\<close>

definition AddrSpace_Execute :: "AddrSpace \<Rightarrow> 'a machine_scheme \<Rightarrow> 'a machine_scheme result" where
  "AddrSpace_Execute sp m =
     rbind (AddrSpace_InitRegisters sp m) (\<lambda>m1. Inr ((AddrSpace_RestoreState sp m1)\<lparr>mstatus := UserMode\<rparr>))"

definition AddrSpace_Translate ::
  "i32 \<Rightarrow> bool \<Rightarrow> AddrSpace \<Rightarrow> ((ExceptionType + i32) \<times> AddrSpace) result" where
  "AddrSpace_Translate vaddr isReadWrite sp =
     (let vpn = vaddr div of_nat PageSize; offset = vaddr mod of_nat PageSize in
      if vpn \<ge> numPages sp then Inr (Inl AddressErrorException, sp)
      else rbind (arr_get (spaceTable sp) (uint vpn)) (\<lambda>pte.
        if isReadWrite \<and> readOnly pte then Inr (Inl ReadOnlyException, sp)
        else
          let pfn = physicalPage pte in
          if sint pfn \<ge> int NumPhysPages then Inr (Inl BusErrorException, sp)
          else
            let pte' = pte\<lparr>use := True, dirty := (if isReadWrite then True else dirty pte)\<rparr>;
                paddr = pfn * of_nat PageSize + offset
            in require (paddr < of_nat MemorySize)
                 (Inr (Inr paddr, sp\<lparr>spaceTable := (spaceTable sp)[unat vpn := pte']\<rparr>))))"

section \<open>Starting a program\<close>

definition init_regs :: "AddrSpace \<Rightarrow> i32 list" where
  "init_regs sp = ((replicate NumTotalRegs 0)[NextPCReg := 4])[StackReg := numPages sp * of_nat PageSize - 16]"

lemma WriteRegister_ok:
  "length (registers m) = NumTotalRegs \<Longrightarrow> i < NumTotalRegs \<Longrightarrow>
   Machine_WriteRegister (int i) v m = Inr (m\<lparr>registers := (registers m)[i := v]\<rparr>)"
  by (simp add: Machine_WriteRegister_def)

lemma clear_registers:
  assumes "length (registers m) = NumTotalRegs"
  shows "for_upto (int NumTotalRegs) (\<lambda>i. Machine_WriteRegister i 0) m = Inr (m\<lparr>registers := replicate NumTotalRegs 0\<rparr>)"
proof -
  let ?P = "\<lambda>i m'. m' = m\<lparr>registers := replicate (nat i) 0 @ drop (nat i) (registers m)\<rparr>"
  have "\<exists>m'. for_upto (int NumTotalRegs) (\<lambda>i. Machine_WriteRegister i 0) m = Inr m' \<and> ?P (int NumTotalRegs) m'"
  proof (rule for_upto_rule [where P = ?P])
    fix i t assume i: "0 \<le> i" "i < int NumTotalRegs" and t: "?P i t"
    obtain n where n: "i = int n" "n < NumTotalRegs" using i nonneg_eq_int by fastforce
    have "(replicate n 0 @ drop n (registers m))[n := 0] = replicate (Suc n) 0 @ drop (Suc n) (registers m)"
      using n(2) assms by (simp add: list_update_append replicate_app_Cons_same Cons_nth_drop_Suc [symmetric])
    then show "\<exists>t'. Machine_WriteRegister i 0 t = Inr t' \<and> ?P (i + 1) t'"
      using WriteRegister_ok [of t n 0] n t assms by (simp add: nat_add_distrib)
  qed simp_all
  then show ?thesis using assms by simp
qed

lemma InitRegisters_ok:
  assumes "length (registers m) = NumTotalRegs"
  shows "AddrSpace_InitRegisters sp m = Inr (m\<lparr>registers := init_regs sp\<rparr>)"
proof -
  have "PCReg < NumTotalRegs" "NextPCReg < NumTotalRegs" "StackReg < NumTotalRegs" by (simp_all add: reg_names)
  then show ?thesis
    using clear_registers [OF assms] list_update_id [of "replicate NumTotalRegs (0 :: i32)" PCReg]
    by (simp add: AddrSpace_InitRegisters_def init_regs_def WriteRegister_ok)
qed

lemma Execute_ok:
  assumes "length (registers m) = NumTotalRegs" and "length (mainMemory m) = MemorySize" and "tlb m = None"
    and "unat (numPages sp) \<le> length (spaceTable sp)"
  shows "\<exists>m'. AddrSpace_Execute sp m = Inr m' \<and> machine_ok m' \<and> reg 0 m' = 0 \<and> reg PCReg m' = 0 \<and> reg NextPCReg m' = 4 \<and>
    mainMemory m' = mainMemory m \<and> machine.more m' = machine.more m \<and> mstatus m' = UserMode \<and>
    pageTable m' = Some (spaceTable sp) \<and> pageTableSize m' = numPages sp"
  using InitRegisters_ok [OF assms(1), of sp] assms
  by (simp add: AddrSpace_Execute_def AddrSpace_RestoreState_def machine_ok_def reg_def init_regs_def reg_names)

section \<open>Loading a program\<close>

text \<open>A segment is empty, or lies in the file and in memory; the bytes it covers in memory.\<close>

definition segment_ok :: "byte list \<Rightarrow> Segment \<Rightarrow> bool" where
  "segment_ok bytes g \<longleftrightarrow> sint (seg_size g) = 0 \<or>
     0 \<le> sint (virtualAddr g) \<and> 0 \<le> sint (inFileAddr g) \<and> 0 \<le> sint (seg_size g) \<and>
     sint (virtualAddr g) + sint (seg_size g) \<le> int MemorySize \<and> sint (inFileAddr g) + sint (seg_size g) \<le> int (length bytes)"

definition covers :: "Segment \<Rightarrow> nat set" where
  "covers g = {nat (sint (virtualAddr g)) ..< nat (sint (virtualAddr g)) + nat (sint (seg_size g))}"

definition in_file :: "Segment \<Rightarrow> nat \<Rightarrow> nat" where
  "in_file g a = nat (sint (inFileAddr g)) + (a - nat (sint (virtualAddr g)))"

lemma load_segment_ok:
  assumes g: "segment_ok bytes g" and mem: "length mem = MemorySize"
  shows "\<exists>mem'. load_segment bytes g mem = Inr mem' \<and> length mem' = MemorySize \<and>
    (\<forall>a < MemorySize. mem' ! a = (if a \<in> covers g then bytes ! in_file g a else mem ! a))"
proof (cases "0 < sint (seg_size g)")
  case False
  then show ?thesis using assms by (simp add: load_segment_def covers_def)
next
  case True
  define v f n where "v = nat (sint (virtualAddr g))" and "f = nat (sint (inFileAddr g))" and "n = nat (sint (seg_size g))"
  have i: "sint (virtualAddr g) = int v" "sint (inFileAddr g) = int f" "sint (seg_size g) = int n" "v + n \<le> MemorySize" "f + n \<le> length bytes"
    using g True by (auto simp: segment_ok_def v_def f_def n_def)
  let ?bs = "take n (drop f bytes)"
  have l: "v + length ?bs \<le> length mem" "length ?bs = n" using i(4,5) mem by simp_all
  from copy_to_nth [OF l(1)] obtain mem' where m': "copy_to mem (int v) ?bs = Inr mem'" "length mem' = length mem"
    "\<forall>k < length mem. mem' ! k = (if v \<le> k \<and> k < v + length ?bs then ?bs ! (k - v) else mem ! k)" by blast
  have "load_segment bytes g mem = Inr mem'" using True m'(1) by (simp add: load_segment_def host_ReadAt_def i)
  moreover have "mem' ! a = (if a \<in> covers g then bytes ! in_file g a else mem ! a)" if a: "a < MemorySize" for a
  proof -
    have "k < n \<Longrightarrow> ?bs ! k = bytes ! (f + k)" for k using i(5) by simp
    from this [of "a - v"] have "v \<le> a \<Longrightarrow> a < v + n \<Longrightarrow> ?bs ! (a - v) = bytes ! in_file g a" by (simp add: in_file_def i)
    moreover have "a \<in> covers g \<longleftrightarrow> v \<le> a \<and> a < v + n" by (auto simp: covers_def i)
    moreover have "mem' ! a = (if v \<le> a \<and> a < v + n then ?bs ! (a - v) else mem ! a)" using m'(3) a mem l(2) by simp
    ultimately show ?thesis by (cases "v \<le> a \<and> a < v + n") (simp_all only: if_True if_False simp_thms)
  qed
  ultimately show ?thesis using m'(2) mem by auto
qed

definition program_size :: "NoffHeader \<Rightarrow> int" where
  "program_size n = uint (seg_size (code n)) + uint (seg_size (readonlyData n)) + uint (seg_size (initData n)) +
     uint (seg_size (uninitData n)) + 1024"

lemma divRoundUp_unsigned_ok:
  assumes "uint n = x" and "x \<le> int MemorySize"
  shows "uint (divRoundUp_unsigned n (of_nat PageSize)) = divRoundUp x 128"
proof -
  have x: "0 \<le> x" "x \<le> 16384" using assms by (auto simp: MemorySize_def)
  have q: "uint (n div 128) = x div 128" "uint (n mod 128) = x mod 128" using assms by (simp_all add: uint_div uint_mod)
  have p: "n mod 128 > 0 \<longleftrightarrow> x mod 128 > 0" using q(2) by (simp add: word_less_def)
  have b: "0 \<le> x div 128" "x div 128 \<le> 128" using x by auto
  have "uint (n div 128 + 1) = x div 128 + 1"
    using q(1) b by (simp add: uint_word_ariths)
  then show ?thesis using q(1) p x(1) by (simp add: divRoundUp_unsigned_def divRoundUp_def sdiv_nonneg smod_nonneg)
qed

lemma program_size_word:
  assumes "program_size n \<le> int MemorySize"
  shows "uint (seg_size (code n) + seg_size (readonlyData n) + seg_size (initData n) + seg_size (uninitData n) + UserStackSize)
    = program_size n"
proof -
  let ?c = "seg_size (code n)" and ?r = "seg_size (readonlyData n)" and ?i = "seg_size (initData n)" and ?u = "seg_size (uninitData n)"
  have b: "uint ?c + uint ?r + uint ?i + uint ?u + 1024 \<le> 16384" using assms by (simp add: program_size_def MemorySize_def)
  have nn: "0 \<le> uint ?c" "0 \<le> uint ?r" "0 \<le> uint ?i" "0 \<le> uint ?u" by simp_all
  have small: "uint ?c + uint ?r < 4294967296" "uint ?c + uint ?r + uint ?i < 4294967296" "uint ?c + uint ?r + uint ?i + uint ?u < 4294967296"
    "uint ?c + uint ?r + uint ?i + uint ?u + 1024 < 4294967296" using b nn by linarith+
  have add: "uint (x + y) = uint x + uint y" if "uint x + uint y < 4294967296" for x y :: i32
    using that uint_add_lem [of x y] by simp
  have 1: "uint (?c + ?r) = uint ?c + uint ?r" by (rule add [OF small(1)])
  have 2: "uint (?c + ?r + ?i) = uint ?c + uint ?r + uint ?i" using add [of "?c + ?r" ?i] small(2) 1 by simp
  have 3: "uint (?c + ?r + ?i + ?u) = uint ?c + uint ?r + uint ?i + uint ?u" using add [of "?c + ?r + ?i" ?u] small(3) 2 by simp
  show ?thesis using add [of "?c + ?r + ?i + ?u" 1024] small(4) 3 by (simp add: program_size_def UserStackSize_def)
qed

section \<open>Properties\<close>

text \<open>A legal object file: a header with the magic number, segments in the file and in memory that do
  not overlap, and a program that fits in memory with its stack.\<close>

definition noff_ok :: "byte list \<Rightarrow> bool" where
  "noff_ok bytes \<longleftrightarrow> 52 \<le> length bytes \<and>
     (let n = noff_of_bytes (take 52 bytes) in
      noffMagic n = NOFFMAGIC \<and> program_size n \<le> int MemorySize \<and>
      segment_ok bytes (code n) \<and> segment_ok bytes (initData n) \<and> segment_ok bytes (readonlyData n) \<and>
      covers (code n) \<inter> covers (initData n) = {} \<and> covers (code n) \<inter> covers (readonlyData n) = {} \<and>
      covers (initData n) \<inter> covers (readonlyData n) = {})"

lemma AddrSpace_new_fields:
  "length (spaceTable (fst (AddrSpace_new j m))) = NumPhysPages" "mainMemory (snd (AddrSpace_new j m)) = replicate MemorySize 0"
  "registers (snd (AddrSpace_new j m)) = registers m" "tlb (snd (AddrSpace_new j m)) = tlb m"
  "i < NumPhysPages \<Longrightarrow> spaceTable (fst (AddrSpace_new j m)) ! i =
     \<lparr>virtualPage = of_nat i, physicalPage = of_nat i, valid = True, readOnly = False, use = False, dirty = False\<rparr>"
  by (simp_all add: AddrSpace_new_def)

text \<open>
  a legal object file is loaded as its header says: \<open>Load\<close> succeeds, each segment of the file is
  in memory at its address, every other byte of memory is zero, the address space has the least
  number of pages that holds the program and its stack, and \<open>Execute\<close> starts the machine at
  address 0 in a legal state, with the table that maps each page to the frame of its number.
\<close>

theorem AddrSpace_Load_correct:
  assumes ok: "noff_ok bytes" and m: "length (registers m) = NumTotalRegs" "tlb m = None" and junk: "length junk = 52"
  shows "\<exists>sp m' m''. AddrSpace_Load junk (Some bytes) (fst (AddrSpace_new j m)) (snd (AddrSpace_new j m)) = Inr (True, sp, m') \<and>
    (let n = noff_of_bytes (take 52 bytes) in
      (\<forall>a < MemorySize. mainMemory m' ! a =
         (if a \<in> covers (code n) then bytes ! in_file (code n) a else if a \<in> covers (initData n) then bytes ! in_file (initData n) a
          else if a \<in> covers (readonlyData n) then bytes ! in_file (readonlyData n) a else 0)) \<and>
      uint (numPages sp) = divRoundUp (program_size n) (int PageSize)) \<and>
    AddrSpace_Execute sp m' = Inr m'' \<and> machine_ok m'' \<and> reg PCReg m'' = 0 \<and> mainMemory m'' = mainMemory m' \<and>
    (\<forall>i < NumPhysPages. physicalPage (the (pageTable m'') ! i) = of_nat i)"
proof -
  define n where "n = noff_of_bytes (take 52 bytes)"
  define sp0 m0 where "sp0 = fst (AddrSpace_new j m)" and "m0 = snd (AddrSpace_new j m)"
  have h: "52 \<le> length bytes" "noffMagic n = NOFFMAGIC" "program_size n \<le> int MemorySize"
    "segment_ok bytes (code n)" "segment_ok bytes (initData n)" "segment_ok bytes (readonlyData n)"
    "covers (code n) \<inter> covers (initData n) = {}" "covers (code n) \<inter> covers (readonlyData n) = {}"
    "covers (initData n) \<inter> covers (readonlyData n) = {}"
    using ok by (auto simp: noff_ok_def n_def Let_def)
  have m0: "mainMemory m0 = replicate MemorySize 0" "registers m0 = registers m" "tlb m0 = None" and sp0: "length (spaceTable sp0) = NumPhysPages"
    using AddrSpace_new_fields [where j = j and m = m] m(2) by (simp_all add: m0_def sp0_def)
  let ?size = "seg_size (code n) + seg_size (readonlyData n) + seg_size (initData n) + seg_size (uninitData n) + UserStackSize"
  define p where "p = divRoundUp_unsigned ?size (of_nat PageSize)"
  have up: "uint p = divRoundUp (program_size n) 128"
    unfolding p_def by (rule divRoundUp_unsigned_ok [OF program_size_word [OF h(3)] h(3)])
  moreover have "divRoundUp (program_size n) 128 * 128 < program_size n + 128"
    by (rule divRoundUp_bounds(2)) (simp_all add: program_size_def)
  ultimately have p128: "uint p \<le> 128" using h(3) by (simp add: MemorySize_def)
  then have "int (unat p) \<le> 128" by simp
  then have p: "p \<le> of_nat NumPhysPages" "unat p \<le> NumPhysPages" using p128 by (simp add: word_le_def, linarith)
  obtain mem1 where m1: "load_segment bytes (code n) (mainMemory m0) = Inr mem1" "length mem1 = MemorySize"
    "\<forall>a < MemorySize. mem1 ! a = (if a \<in> covers (code n) then bytes ! in_file (code n) a else mainMemory m0 ! a)"
    using load_segment_ok [OF h(4), of "mainMemory m0"] m0(1) by auto
  obtain mem2 where m2: "load_segment bytes (initData n) mem1 = Inr mem2" "length mem2 = MemorySize"
    "\<forall>a < MemorySize. mem2 ! a = (if a \<in> covers (initData n) then bytes ! in_file (initData n) a else mem1 ! a)"
    using load_segment_ok [OF h(5) m1(2)] by auto
  obtain mem3 where m3: "load_segment bytes (readonlyData n) mem2 = Inr mem3" "length mem3 = MemorySize"
    "\<forall>a < MemorySize. mem3 ! a = (if a \<in> covers (readonlyData n) then bytes ! in_file (readonlyData n) a else mem2 ! a)"
    using load_segment_ok [OF h(6) m2(2)] by auto
  let ?sp = "sp0\<lparr>numPages := p\<rparr>" and ?m = "m0\<lparr>mainMemory := mem3\<rparr>"
  have "copy_to junk 0 (take 52 bytes) = Inr (take 52 bytes)" using h(1) junk by (simp add: copy_to_def)
  then have load: "AddrSpace_Load junk (Some bytes) sp0 m0 = Inr (True, ?sp, ?m)"
    using h(2) m1(1) m2(1) m3(1) p(1)
    by (simp add: AddrSpace_Load_def host_ReadAt_def WordToHost_def Let_def p_def flip: n_def)
  have mem: "mainMemory ?m ! a = (if a \<in> covers (code n) then bytes ! in_file (code n) a else if a \<in> covers (initData n) then bytes ! in_file (initData n) a
      else if a \<in> covers (readonlyData n) then bytes ! in_file (readonlyData n) a else 0)" if "a < MemorySize" for a
    using m1(3) m2(3) m3(3) m0(1) that h(7-9) by auto
  obtain m'' where "AddrSpace_Execute ?sp ?m = Inr m''" "machine_ok m''" "reg PCReg m'' = 0" "mainMemory m'' = mem3" "pageTable m'' = Some (spaceTable sp0)"
    using Execute_ok [of ?m ?sp] m0 m(1) m3(2) p(2) sp0 by auto
  then show ?thesis using load mem up AddrSpace_new_fields(5) [where j = j and m = m]
    by (intro exI [of _ ?sp] exI [of _ ?m] exI [of _ m'']) (simp add: Let_def flip: n_def sp0_def m0_def)
qed

text \<open>A program of one instruction word at address 0.\<close>

definition tiny_program :: "byte list" where
  "tiny_program = word_bytes ([NOFFMAGIC, 0, 52, 4] @ replicate 9 0) @ [1, 2, 3, 4]"

lemma tiny_program_header:
  "noff_of_bytes (take 52 tiny_program) = \<lparr>noffMagic = NOFFMAGIC, code = \<lparr>virtualAddr = 0, inFileAddr = 52, seg_size = 4\<rparr>,
     initData = \<lparr>virtualAddr = 0, inFileAddr = 0, seg_size = 0\<rparr>, readonlyData = \<lparr>virtualAddr = 0, inFileAddr = 0, seg_size = 0\<rparr>,
     uninitData = \<lparr>virtualAddr = 0, inFileAddr = 0, seg_size = 0\<rparr>\<rparr>"
proof -
  have "take 52 tiny_program = word_bytes ([NOFFMAGIC, 0, 52, 4] @ replicate 9 0)" by (simp add: tiny_program_def)
  then have "noff_of_bytes (take 52 tiny_program) = noff_of_bytes (word_bytes ([NOFFMAGIC, 0, 52, 4] @ replicate 9 0))" by simp
  also have "\<dots> = \<lparr>noffMagic = NOFFMAGIC, code = \<lparr>virtualAddr = 0, inFileAddr = 52, seg_size = 4\<rparr>,
     initData = \<lparr>virtualAddr = 0, inFileAddr = 0, seg_size = 0\<rparr>, readonlyData = \<lparr>virtualAddr = 0, inFileAddr = 0, seg_size = 0\<rparr>,
     uninitData = \<lparr>virtualAddr = 0, inFileAddr = 0, seg_size = 0\<rparr>\<rparr>"
    unfolding noff_of_bytes_def bytes_words_word_bytes by (simp add: segment_of_words_def Let_def numeral_eq_Suc)
  finally show ?thesis .
qed

lemma tiny_program_ok: "noff_ok tiny_program"
proof -
  have "length tiny_program = 56" by (simp add: tiny_program_def)
  then show ?thesis by (simp add: noff_ok_def tiny_program_header program_size_def segment_ok_def covers_def MemorySize_def)
qed

theorem AddrSpace_Load_correct_witness:
  "\<exists>sp m'. AddrSpace_Load (replicate 52 9) (Some tiny_program) (fst (AddrSpace_new 7 Machine_new)) (snd (AddrSpace_new 7 Machine_new)) = Inr (True, sp, m') \<and>
     mainMemory m' ! 2 = 3 \<and> mainMemory m' ! 1000 = 0 \<and> uint (numPages sp) = 9"
proof -
  have t: "tiny_program ! 54 = 3" by (simp add: tiny_program_def nth_append)
  moreover have "length (registers Machine_new) = NumTotalRegs" "tlb Machine_new = None" by (simp_all add: Machine_new_def)
  ultimately obtain sp m' where l: "AddrSpace_Load (replicate 52 9) (Some tiny_program) (fst (AddrSpace_new 7 Machine_new)) (snd (AddrSpace_new 7 Machine_new)) = Inr (True, sp, m')"
    and mem: "\<And>a. a < MemorySize \<Longrightarrow> mainMemory m' ! a = (if a < 4 then tiny_program ! (52 + a) else 0)" and n: "uint (numPages sp) = 9"
    using AddrSpace_Load_correct [OF tiny_program_ok, of Machine_new "replicate 52 9" 7]
    unfolding tiny_program_header Let_def by (auto simp: covers_def in_file_def program_size_def divRoundUp_128)
  have "mainMemory m' ! 2 = 3" "mainMemory m' ! 1000 = 0"
    using mem [of 2] mem [of 1000] t by (simp_all add: MemorySize_def)
  then show ?thesis using l n by blast
qed

text \<open>
  \<open>Load\<close> checks the total size of a program but not where its segments go: a file whose code
  segment reaches past the end of memory, with all its bytes present, overwrites memory of the
  simulator itself.
\<close>

theorem AddrSpace_Load_unchecked:
  assumes "52 \<le> length bytes" and "length junk = 52" and "length (mainMemory m) = MemorySize"
    and "n = noff_of_bytes (take 52 bytes)" and "noffMagic n = NOFFMAGIC" and "program_size n \<le> int MemorySize"
    and "0 < sint (seg_size (code n))" and "0 \<le> sint (inFileAddr (code n))"
    and "sint (inFileAddr (code n)) + sint (seg_size (code n)) \<le> int (length bytes)"
    and "int MemorySize < sint (virtualAddr (code n)) + sint (seg_size (code n))"
  shows "AddrSpace_Load junk (Some bytes) sp m = Inl WildAccess"
proof -
  let ?size = "seg_size (code n) + seg_size (readonlyData n) + seg_size (initData n) + seg_size (uninitData n) + UserStackSize"
  have "uint (divRoundUp_unsigned ?size (of_nat PageSize)) = divRoundUp (program_size n) 128"
    by (rule divRoundUp_unsigned_ok [OF program_size_word [OF assms(6)] assms(6)])
  moreover have "divRoundUp (program_size n) 128 * 128 < program_size n + 128"
    by (rule divRoundUp_bounds(2)) (simp_all add: program_size_def)
  ultimately have p: "divRoundUp_unsigned ?size 128 \<le> 128" using assms(6) by (simp add: word_le_def MemorySize_def)
  have "length (take (nat (sint (seg_size (code n)))) (drop (nat (sint (inFileAddr (code n)))) bytes)) = nat (sint (seg_size (code n)))"
    using assms(7-9) by simp
  then have "load_segment bytes (code n) (mainMemory m) = Inl WildAccess"
    using assms(3,7,8,10) by (simp add: load_segment_def host_ReadAt_def copy_to_def)
  moreover have "copy_to junk 0 (take 52 bytes) = Inr (take 52 bytes)" using assms(1,2) by (simp add: copy_to_def)
  ultimately show ?thesis
    using assms(5) p by (simp add: AddrSpace_Load_def host_ReadAt_def Let_def flip: assms(4))
qed

definition wild_program :: "byte list" where
  "wild_program = word_bytes ([NOFFMAGIC, 16383, 52, 4] @ replicate 9 0) @ [1, 2, 3, 4]"

theorem AddrSpace_Load_unchecked_witness:
  "AddrSpace_Load (replicate 52 9) (Some wild_program) (fst (AddrSpace_new 7 Machine_new)) Machine_new = Inl WildAccess"
proof (rule AddrSpace_Load_unchecked [OF _ _ _ refl])
  have t: "take 52 wild_program = word_bytes ([NOFFMAGIC, 16383, 52, 4] @ replicate 9 0)" by (simp add: wild_program_def)
  have n: "noff_of_bytes (take 52 wild_program) = \<lparr>noffMagic = NOFFMAGIC, code = \<lparr>virtualAddr = 16383, inFileAddr = 52, seg_size = 4\<rparr>,
     initData = \<lparr>virtualAddr = 0, inFileAddr = 0, seg_size = 0\<rparr>, readonlyData = \<lparr>virtualAddr = 0, inFileAddr = 0, seg_size = 0\<rparr>,
     uninitData = \<lparr>virtualAddr = 0, inFileAddr = 0, seg_size = 0\<rparr>\<rparr>"
    unfolding t noff_of_bytes_def bytes_words_word_bytes by (simp add: segment_of_words_def Let_def numeral_eq_Suc)
  have l: "length wild_program = 56" by (simp add: wild_program_def)
  show "52 \<le> length wild_program" "noffMagic (noff_of_bytes (take 52 wild_program)) = NOFFMAGIC"
    "program_size (noff_of_bytes (take 52 wild_program)) \<le> int MemorySize"
    "0 < sint (seg_size (code (noff_of_bytes (take 52 wild_program))))"
    "0 \<le> sint (inFileAddr (code (noff_of_bytes (take 52 wild_program))))"
    "sint (inFileAddr (code (noff_of_bytes (take 52 wild_program)))) + sint (seg_size (code (noff_of_bytes (take 52 wild_program)))) \<le> int (length wild_program)"
    "int MemorySize < sint (virtualAddr (code (noff_of_bytes (take 52 wild_program)))) + sint (seg_size (code (noff_of_bytes (take 52 wild_program))))"
    unfolding n l by (simp_all add: program_size_def MemorySize_def)
qed (simp_all add: Machine_new_def)



end
