(* ===== verification/Threads_Kernel.thy ===== *)
theory Threads_Kernel
  imports Machine_Interrupt Userprog_Space
begin

text \<open>
  \<open>threads/thread.cc\<close>, \<open>scheduler.cc\<close>, \<open>synch.cc\<close>, \<open>synchlist.cc\<close>, the loop of
  \<open>Machine::Run\<close> and the interrupt hardware together: the multiprogrammed kernel.

  A thread can lose the processor in the middle of a kernel routine, at the call of \<open>SWITCH\<close> in
  \<open>Scheduler::Run\<close>, and continues there later. The model makes this explicit: a thread has a
  stack of frames, the pieces of code that it still has to run, with the innermost first; a
  routine is cut into frames where another thread may run inside it. \<open>step\<close> runs the first frame
  of the current thread, atomically: between two calls of \<open>SWITCH\<close> nothing but the current thread
  and the interrupt handlers called from \<open>OneTick\<close> and \<open>Idle\<close> runs.

  Threads, semaphores, locks, conditions and synchronised lists are named by their addresses,
  natural numbers. The exception handler of the kernel runs as one atomic piece: a system call
  that waits for the console does so before any other thread runs.
\<close>

section \<open>State\<close>

datatype ThreadStatus = JUST_CREATED | RUNNING | READY | BLOCKED

text \<open>
  The frames. The first group are routines as a thread calls them; the second group are the
  rests of routines after a point where other threads may have run.
\<close>

datatype frame =
    Yield | Finish | SemP nat | SemV nat | Acquire nat | Release nat | Wait nat nat | Signal nat nat
  | Broadcast nat nat | Append nat int | RemoveFront nat | Fork "frame list" | Execute AddrSpace
  | AssertReturned int
  | Begin | Yield_end IntStatus | Sleep_loop bool | Run_back | SetStatus MachineStatus
  | SemP_loop nat IntStatus | Acquired nat | Delete_sem nat | Append_item nat int
  | Remove_loop nat | RunUser

record thread =
  tstatus :: ThreadStatus
  frames :: "frame list"
  userRegisters :: "i32 list"
  space :: "AddrSpace option"
  returned :: int

record Semaphore =
  semValue :: int
  semQueue :: "nat list"

record Lock =
  lockSem :: nat
  lockHolder :: "nat option"

text \<open>A condition is the queue of the semaphores its waiters sleep on.\<close>

type_synonym Condition = "nat list"

record SynchList =
  items :: "int list"
  listLock :: nat
  listEmpty :: nat

text \<open>
  The objects called on an interrupt: the timer, and the devices whose handler does no more
  than \<open>V\<close> on a semaphore (the disk and the consoles, through \<open>SynchDisk\<close> and \<open>SynchConsole\<close>).
\<close>

datatype callback = TimerObj | DeviceObj nat

record kernel = "callback interrupt" +
  threads :: "nat \<rightharpoonup> thread"
  currentThread :: nat
  readyList :: "nat list"
  toBeDestroyed :: "nat option"
  sems :: "nat \<rightharpoonup> Semaphore"
  locks :: "nat \<rightharpoonup> Lock"
  conds :: "nat \<rightharpoonup> Condition"
  slists :: "nat \<rightharpoonup> SynchList"
  brk_obj :: nat

text \<open>Access through a pointer; an address without an object is a wild access.\<close>

definition obj :: "(nat \<rightharpoonup> 'a) \<Rightarrow> nat \<Rightarrow> 'a result" where
  "obj m a = (case m a of None \<Rightarrow> Inl WildAccess | Some x \<Rightarrow> Inr x)"

definition upd_thread :: "nat \<Rightarrow> (thread \<Rightarrow> thread) \<Rightarrow> kernel \<Rightarrow> kernel result" where
  "upd_thread t f k = rbind (obj (threads k) t) (\<lambda>r. Inr (k\<lparr>threads := (threads k)(t \<mapsto> f r)\<rparr>))"

definition push :: "frame list \<Rightarrow> kernel \<Rightarrow> kernel result" where
  "push fs k = upd_thread (currentThread k) (\<lambda>r. r\<lparr>frames := fs @ frames r\<rparr>) k"

section \<open>Scheduler\<close>

definition ReadyToRun :: "nat \<Rightarrow> kernel \<Rightarrow> kernel result" where
  "ReadyToRun t k =
     require (level k = IntOff)
       (rbind (upd_thread t (\<lambda>r. r\<lparr>tstatus := READY\<rparr>) k) (\<lambda>k1.
        rbind (list_Append t (readyList k1)) (\<lambda>l. Inr (k1\<lparr>readyList := l\<rparr>))))"

definition FindNextToRun :: "kernel \<Rightarrow> (nat option \<times> kernel) result" where
  "FindNextToRun k =
     require (level k = IntOff)
       (if readyList k = [] then Inr (None, k)
        else rbind (list_RemoveFront (readyList k)) (\<lambda>(t, l). Inr (Some t, k\<lparr>readyList := l\<rparr>)))"

text \<open>The destructor of a thread asserts that it is not the current one.\<close>

definition CheckToBeDestroyed :: "kernel \<Rightarrow> kernel result" where
  "CheckToBeDestroyed k =
     (case toBeDestroyed k of None \<Rightarrow> Inr k
      | Some t \<Rightarrow> require (t \<noteq> currentThread k)
          (Inr (k\<lparr>threads := (threads k)(t := None), toBeDestroyed := None\<rparr>)))"

text \<open>
  \<open>Run\<close> up to \<open>SWITCH\<close>: the old thread keeps the rest of \<open>Run\<close> as its first frame. The fence
  post of the host stack (\<open>CheckOverflow\<close>) is not modelled. \<open>SaveUserState\<close> copies the machine's
  registers.
\<close>

definition SaveUserState :: "kernel \<Rightarrow> thread \<Rightarrow> thread" where
  "SaveUserState k r = r\<lparr>userRegisters := registers k\<rparr>"

definition RestoreUserState :: "thread \<Rightarrow> kernel \<Rightarrow> kernel" where
  "RestoreUserState r k = k\<lparr>registers := userRegisters r\<rparr>"

definition Scheduler_Run :: "nat \<Rightarrow> bool \<Rightarrow> kernel \<Rightarrow> kernel result" where
  "Scheduler_Run nextThread finishing k =
     (let oldThread = currentThread k in
      require (level k = IntOff)
     (rbind (if finishing then require (toBeDestroyed k = None) (Inr (k\<lparr>toBeDestroyed := Some oldThread\<rparr>)) else Inr k) (\<lambda>k1.
      rbind (upd_thread oldThread (\<lambda>r.
               let r1 = (case space r of None \<Rightarrow> r
                         | Some sp \<Rightarrow> (SaveUserState k1 r)\<lparr>space := Some (AddrSpace_SaveState k1 sp)\<rparr>)
               in r1\<lparr>frames := Run_back # frames r1\<rparr>) k1) (\<lambda>k2.
      upd_thread nextThread (\<lambda>r. r\<lparr>tstatus := RUNNING\<rparr>) (k2\<lparr>currentThread := nextThread\<rparr>)))))"

text \<open>The rest of \<open>Run\<close>, in the thread that gets the processor back.\<close>

definition Scheduler_Run_back :: "kernel \<Rightarrow> kernel result" where
  "Scheduler_Run_back k =
     require (level k = IntOff)
       (rbind (CheckToBeDestroyed k) (\<lambda>k1.
        rbind (obj (threads k1) (currentThread k1)) (\<lambda>r.
        Inr (case space r of None \<Rightarrow> k1
             | Some sp \<Rightarrow> AddrSpace_RestoreState sp (RestoreUserState r k1)))))"

section \<open>Semaphores in an interrupt handler\<close>

text \<open>
  The body of \<open>Semaphore::V\<close> between its two calls of \<open>SetLevel\<close>. An interrupt handler runs with
  interrupts off, where \<open>SetLevel\<close> changes nothing.
\<close>

definition V_body :: "nat \<Rightarrow> kernel \<Rightarrow> kernel result" where
  "V_body s k =
     rbind (obj (sems k) s) (\<lambda>sem.
     rbind (if semQueue sem \<noteq> [] then
              rbind (list_RemoveFront (semQueue sem)) (\<lambda>(t, q).
              rbind (ReadyToRun t k) (\<lambda>k1. Inr (sem\<lparr>semQueue := q\<rparr>, k1)))
            else Inr (sem, k)) (\<lambda>(sem1, k1).
     Inr (k1\<lparr>sems := (sems k1)(s \<mapsto> sem1\<lparr>semValue := semValue sem1 + 1\<rparr>)\<rparr>)))"

fun CallBack :: "callback \<Rightarrow> kernel \<Rightarrow> kernel result" where
  "CallBack TimerObj k = Timer_CallBack TimerObj k"
| "CallBack (DeviceObj s) k = V_body s k"

section \<open>Threads\<close>

text \<open>
  \<open>SetLevel\<close> and \<open>OneTick\<close> as the last statement of a routine: when a handler asked for a context
  switch, the thread yields before it goes on, and then the machine's mode is restored.
\<close>

definition after_tick :: "MachineStatus \<Rightarrow> (bool \<times> kernel) result \<Rightarrow> kernel result" where
  "after_tick oldStatus m = rbind m (\<lambda>(y, k). if y then push [Yield, SetStatus oldStatus] k else Inr k)"

definition set_level :: "IntStatus \<Rightarrow> kernel \<Rightarrow> kernel result" where
  "set_level l k = after_tick (mstatus k) (SetLevel CallBack l k)"

definition Thread_new :: "kernel \<Rightarrow> nat \<times> kernel" where
  "Thread_new k = (brk_obj k,
     k\<lparr>threads := (threads k)(brk_obj k \<mapsto> \<lparr>tstatus = JUST_CREATED, frames = [], userRegisters = replicate NumTotalRegs 0,
                                          space = None, returned = 0\<rparr>),
       brk_obj := brk_obj k + 1\<rparr>)"

text \<open>\<open>StackAllocate\<close>: the new thread will run \<open>ThreadRoot\<close>, that is \<open>Begin\<close>, the function, \<open>Finish\<close>.\<close>

definition StackAllocate :: "nat \<Rightarrow> frame list \<Rightarrow> kernel \<Rightarrow> kernel result" where
  "StackAllocate t func k = upd_thread t (\<lambda>r. r\<lparr>frames := Begin # func @ [Finish]\<rparr>) k"

definition Thread_Fork :: "nat \<Rightarrow> frame list \<Rightarrow> kernel \<Rightarrow> kernel result" where
  "Thread_Fork t func k =
     rbind (StackAllocate t func k) (\<lambda>k1.
     let oldLevel = level k1 in
     rbind (set_level IntOff k1) (\<lambda>k2.
     rbind (ReadyToRun t k2) (set_level oldLevel)))"

definition Thread_Begin :: "kernel \<Rightarrow> kernel result" where
  "Thread_Begin k = rbind (CheckToBeDestroyed k) (set_level IntOn)"

text \<open>\<open>Sleep\<close> marks the thread as blocked; its loop looks for a thread to run, or idles.\<close>

definition Thread_Sleep :: "bool \<Rightarrow> kernel \<Rightarrow> kernel result" where
  "Thread_Sleep finishing k =
     require (level k = IntOff)
       (rbind (upd_thread (currentThread k) (\<lambda>r. r\<lparr>tstatus := BLOCKED\<rparr>) k) (push [Sleep_loop finishing]))"

definition Thread_Sleep_loop :: "bool \<Rightarrow> kernel \<Rightarrow> kernel result" where
  "Thread_Sleep_loop finishing k =
     rbind (FindNextToRun k) (\<lambda>(t, k1).
     case t of
       None \<Rightarrow> rbind (Idle CallBack k1) (push [Sleep_loop finishing])
     | Some nextThread \<Rightarrow> Scheduler_Run nextThread finishing k1)"

definition Thread_Finish :: "kernel \<Rightarrow> kernel result" where
  "Thread_Finish k = rbind (set_level IntOff k) (Thread_Sleep True)"

definition Thread_Yield :: "kernel \<Rightarrow> kernel result" where
  "Thread_Yield k =
     (let oldLevel = level k in
      rbind (set_level IntOff k) (\<lambda>k1.
      rbind (FindNextToRun k1) (\<lambda>(t, k2).
      case t of
        None \<Rightarrow> set_level oldLevel k2
      | Some nextThread \<Rightarrow>
          rbind (push [Yield_end oldLevel] k2) (\<lambda>k3.
          rbind (ReadyToRun (currentThread k3) k3) (Scheduler_Run nextThread False)))))"

section \<open>Synchronisation\<close>

definition Semaphore_P_loop :: "nat \<Rightarrow> IntStatus \<Rightarrow> kernel \<Rightarrow> kernel result" where
  "Semaphore_P_loop s oldLevel k =
     rbind (obj (sems k) s) (\<lambda>sem.
     if semValue sem = 0 then
       rbind (list_Append (currentThread k) (semQueue sem)) (\<lambda>q.
       rbind (push [SemP_loop s oldLevel] (k\<lparr>sems := (sems k)(s \<mapsto> sem\<lparr>semQueue := q\<rparr>)\<rparr>)) (Thread_Sleep False))
     else set_level oldLevel (k\<lparr>sems := (sems k)(s \<mapsto> sem\<lparr>semValue := semValue sem - 1\<rparr>)\<rparr>))"

definition Semaphore_P :: "nat \<Rightarrow> kernel \<Rightarrow> kernel result" where
  "Semaphore_P s k = (let oldLevel = level k in rbind (set_level IntOff k) (Semaphore_P_loop s oldLevel))"

definition Semaphore_V :: "nat \<Rightarrow> kernel \<Rightarrow> kernel result" where
  "Semaphore_V s k =
     (let oldLevel = level k in
      rbind (set_level IntOff k) (\<lambda>k1. rbind (V_body s k1) (set_level oldLevel)))"

definition Semaphore_new :: "int \<Rightarrow> kernel \<Rightarrow> nat \<times> kernel" where
  "Semaphore_new initialValue k =
     (brk_obj k, k\<lparr>sems := (sems k)(brk_obj k \<mapsto> \<lparr>semValue = initialValue, semQueue = []\<rparr>), brk_obj := brk_obj k + 1\<rparr>)"

definition IsHeldByCurrentThread :: "nat \<Rightarrow> kernel \<Rightarrow> bool result" where
  "IsHeldByCurrentThread l k = rbind (obj (locks k) l) (\<lambda>lk. Inr (lockHolder lk = Some (currentThread k)))"

definition Lock_Acquire :: "nat \<Rightarrow> kernel \<Rightarrow> kernel result" where
  "Lock_Acquire l k = rbind (obj (locks k) l) (\<lambda>lk. push [SemP (lockSem lk), Acquired l] k)"

definition Lock_Acquired :: "nat \<Rightarrow> kernel \<Rightarrow> kernel result" where
  "Lock_Acquired l k =
     rbind (obj (locks k) l) (\<lambda>lk. Inr (k\<lparr>locks := (locks k)(l \<mapsto> lk\<lparr>lockHolder := Some (currentThread k)\<rparr>)\<rparr>))"

definition Lock_Release :: "nat \<Rightarrow> kernel \<Rightarrow> kernel result" where
  "Lock_Release l k =
     rbind (IsHeldByCurrentThread l k) (\<lambda>held. require held
       (rbind (obj (locks k) l) (\<lambda>lk.
        Semaphore_V (lockSem lk) (k\<lparr>locks := (locks k)(l \<mapsto> lk\<lparr>lockHolder := None\<rparr>)\<rparr>))))"

definition Condition_Wait :: "nat \<Rightarrow> nat \<Rightarrow> kernel \<Rightarrow> kernel result" where
  "Condition_Wait c l k =
     rbind (IsHeldByCurrentThread l k) (\<lambda>held. require held
       (let (waiter, k1) = Semaphore_new 0 k in
        rbind (obj (conds k1) c) (\<lambda>q.
        rbind (list_Append waiter q) (\<lambda>q'.
        push [Release l, SemP waiter, Acquire l, Delete_sem waiter] (k1\<lparr>conds := (conds k1)(c \<mapsto> q')\<rparr>)))))"

definition Condition_Signal :: "nat \<Rightarrow> nat \<Rightarrow> kernel \<Rightarrow> kernel result" where
  "Condition_Signal c l k =
     rbind (IsHeldByCurrentThread l k) (\<lambda>held. require held
       (rbind (obj (conds k) c) (\<lambda>q.
        if q = [] then Inr k
        else rbind (list_RemoveFront q) (\<lambda>(waiter, q').
             Semaphore_V waiter (k\<lparr>conds := (conds k)(c \<mapsto> q')\<rparr>)))))"

definition Condition_Broadcast :: "nat \<Rightarrow> nat \<Rightarrow> kernel \<Rightarrow> kernel result" where
  "Condition_Broadcast c l k =
     rbind (obj (conds k) c) (\<lambda>q. if q = [] then Inr k else push [Signal c l, Broadcast c l] k)"

definition SynchList_Append :: "nat \<Rightarrow> int \<Rightarrow> kernel \<Rightarrow> kernel result" where
  "SynchList_Append a x k =
     rbind (obj (slists k) a) (\<lambda>sl.
     push [Acquire (listLock sl), Append_item a x, Signal (listEmpty sl) (listLock sl), Release (listLock sl)] k)"

definition SynchList_Append_item :: "nat \<Rightarrow> int \<Rightarrow> kernel \<Rightarrow> kernel result" where
  "SynchList_Append_item a x k =
     rbind (obj (slists k) a) (\<lambda>sl.
     rbind (list_Append x (items sl)) (\<lambda>xs. Inr (k\<lparr>slists := (slists k)(a \<mapsto> sl\<lparr>items := xs\<rparr>)\<rparr>)))"

definition SynchList_RemoveFront :: "nat \<Rightarrow> kernel \<Rightarrow> kernel result" where
  "SynchList_RemoveFront a k = rbind (obj (slists k) a) (\<lambda>sl. push [Acquire (listLock sl), Remove_loop a] k)"

definition SynchList_Remove_loop :: "nat \<Rightarrow> kernel \<Rightarrow> kernel result" where
  "SynchList_Remove_loop a k =
     rbind (obj (slists k) a) (\<lambda>sl.
     if items sl = [] then push [Wait (listEmpty sl) (listLock sl), Remove_loop a] k
     else
       rbind (list_RemoveFront (items sl)) (\<lambda>(x, xs).
       rbind (upd_thread (currentThread k) (\<lambda>r. r\<lparr>returned := x\<rparr>) (k\<lparr>slists := (slists k)(a \<mapsto> sl\<lparr>items := xs\<rparr>)\<rparr>))
         (push [Release (listLock sl)])))"

section \<open>One step of the kernel\<close>

text \<open>\<open>Machine::Run\<close>: one instruction, then the clock. It never returns.\<close>

definition run_user :: "kernel \<Rightarrow> kernel result" where
  "run_user k =
     rbind (OneInstruction ExceptionHandler k) (\<lambda>k1.
     rbind (push [RunUser] k1) (\<lambda>k2. after_tick (mstatus k2) (OneTick CallBack k2)))"

definition start_user :: "AddrSpace \<Rightarrow> kernel \<Rightarrow> kernel result" where
  "start_user sp k =
     rbind (upd_thread (currentThread k) (\<lambda>r. r\<lparr>space := Some sp\<rparr>) k) (\<lambda>k1.
     rbind (AddrSpace_Execute sp k1) (push [RunUser]))"

fun exec_frame :: "frame \<Rightarrow> kernel \<Rightarrow> kernel result" where
  "exec_frame Yield k = Thread_Yield k"
| "exec_frame Finish k = Thread_Finish k"
| "exec_frame (SemP s) k = Semaphore_P s k"
| "exec_frame (SemV s) k = Semaphore_V s k"
| "exec_frame (Acquire l) k = Lock_Acquire l k"
| "exec_frame (Release l) k = Lock_Release l k"
| "exec_frame (Wait c l) k = Condition_Wait c l k"
| "exec_frame (Signal c l) k = Condition_Signal c l k"
| "exec_frame (Broadcast c l) k = Condition_Broadcast c l k"
| "exec_frame (Append a x) k = SynchList_Append a x k"
| "exec_frame (RemoveFront a) k = SynchList_RemoveFront a k"
| "exec_frame (Fork func) k = (let (t, k1) = Thread_new k in Thread_Fork t func k1)"
| "exec_frame (Execute sp) k = start_user sp k"
| "exec_frame (AssertReturned x) k = rbind (obj (threads k) (currentThread k)) (\<lambda>r. require (returned r = x) (Inr k))"
| "exec_frame Begin k = Thread_Begin k"
| "exec_frame (Yield_end oldLevel) k = set_level oldLevel k"
| "exec_frame (Sleep_loop finishing) k = Thread_Sleep_loop finishing k"
| "exec_frame Run_back k = Scheduler_Run_back k"
| "exec_frame (SetStatus st) k = Inr (k\<lparr>mstatus := st\<rparr>)"
| "exec_frame (SemP_loop s oldLevel) k = Semaphore_P_loop s oldLevel k"
| "exec_frame (Acquired l) k = Lock_Acquired l k"
| "exec_frame (Delete_sem s) k = Inr (k\<lparr>sems := (sems k)(s := None)\<rparr>)"
| "exec_frame (Append_item a x) k = SynchList_Append_item a x k"
| "exec_frame (Remove_loop a) k = SynchList_Remove_loop a k"
| "exec_frame RunUser k = run_user k"

text \<open>The current thread runs its first frame; a thread ends with \<open>Finish\<close>, which never returns.\<close>

definition step :: "kernel \<Rightarrow> kernel result" where
  "step k =
     rbind (obj (threads k) (currentThread k)) (\<lambda>r.
     case frames r of [] \<Rightarrow> Inl WildAccess
     | f # fs \<Rightarrow> exec_frame f (k\<lparr>threads := (threads k)(currentThread k \<mapsto> r\<lparr>frames := fs\<rparr>)\<rparr>))"

primrec steps :: "nat \<Rightarrow> kernel \<Rightarrow> kernel result" where
  "steps 0 k = Inr k"
| "steps (Suc n) k = rbind (step k) (steps n)"

end
