(* ===== verification/Threads_Invariant.thy ===== *)
theory Threads_Invariant
  imports Threads_Kernel
begin

text \<open>
  The invariant of the multiprogrammed kernel of \<open>Threads_Kernel\<close> and what follows from it: every
  routine of \<open>thread.cc\<close>, \<open>scheduler.cc\<close>, \<open>synch.cc\<close> and \<open>synchlist.cc\<close>, the loop of
  \<open>Machine::Run\<close> and the interrupt handlers keep it. The interface \<open>devices\<close> of the interrupt
  hardware is interpreted here on the kernel's own handlers, and the interface \<open>trap_handler\<close> of
  the processor is used through its interpretation on \<open>ExceptionHandler\<close>.
\<close>

section \<open>Scheduling\<close>

definition status :: "kernel \<Rightarrow> nat \<Rightarrow> ThreadStatus option" where
  "status k t = map_option tstatus (threads k t)"

definition in_queue :: "kernel \<Rightarrow> nat \<Rightarrow> bool" where
  "in_queue k t \<longleftrightarrow> (\<exists>s sem. sems k s = Some sem \<and> t \<in> set (semQueue sem))"

text \<open>How the current thread stands: it runs, or its loop in \<open>Sleep\<close> waits to be woken up, or it is finished.\<close>

datatype cmode = Running | Waiting | Finishing

definition current_ok :: "cmode \<Rightarrow> kernel \<Rightarrow> bool" where
  "current_ok cm k = (case cm of
       Running \<Rightarrow> status k (currentThread k) = Some RUNNING
     | Waiting \<Rightarrow> currentThread k \<in> set (readyList k) \<or> in_queue k (currentThread k)
     | Finishing \<Rightarrow> status k (currentThread k) = Some BLOCKED \<and> \<not> in_queue k (currentThread k))"

text \<open>
  The ready list and the queues of the semaphores hold threads, each at most once and in at most
  one place, and with the status that says so; a thread that is neither current nor about to be
  destroyed is in one of them. No semaphore is negative, and the semaphores \<open>D\<close> of the devices
  exist.
\<close>

definition ready_ok :: "kernel \<Rightarrow> bool" where
  "ready_ok k \<longleftrightarrow> distinct (readyList k) \<and> (\<forall>t \<in> set (readyList k). status k t = Some READY)"

definition queues_ok :: "kernel \<Rightarrow> bool" where
  "queues_ok k \<longleftrightarrow>
     (\<forall>s sem. sems k s = Some sem \<longrightarrow> 0 \<le> semValue sem \<and> distinct (semQueue sem) \<and> (\<forall>t \<in> set (semQueue sem). status k t = Some BLOCKED)) \<and>
     (\<forall>s s' sem sem'. sems k s = Some sem \<and> sems k s' = Some sem' \<and> s \<noteq> s' \<longrightarrow> set (semQueue sem) \<inter> set (semQueue sem') = {})"

definition objects_ok :: "nat set \<Rightarrow> kernel \<Rightarrow> bool" where
  "objects_ok D k \<longleftrightarrow> (\<forall>s \<in> D. sems k s \<noteq> None) \<and> (\<forall>t. threads k t \<noteq> None \<longrightarrow> t < brk_obj k) \<and> (\<forall>s. sems k s \<noteq> None \<longrightarrow> s < brk_obj k)"

definition none_lost :: "kernel \<Rightarrow> bool" where
  "none_lost k \<longleftrightarrow> (\<forall>t. threads k t \<noteq> None \<and> t \<noteq> currentThread k \<and> toBeDestroyed k \<noteq> Some t \<longrightarrow> t \<in> set (readyList k) \<or> in_queue k t) \<and>
     (\<forall>u. toBeDestroyed k = Some u \<longrightarrow> u \<noteq> currentThread k \<and> status k u = Some BLOCKED \<and> \<not> in_queue k u)"

definition sched_ok :: "nat set \<Rightarrow> cmode \<Rightarrow> kernel \<Rightarrow> bool" where
  "sched_ok D cm k \<longleftrightarrow> ready_ok k \<and> queues_ok k \<and> objects_ok D k \<and> none_lost k \<and> current_ok cm k"

lemmas sched_defs = sched_ok_def ready_ok_def queues_ok_def objects_ok_def none_lost_def current_ok_def

text \<open>What an interrupt handler does not touch.\<close>

definition info :: "kernel \<Rightarrow> nat \<times> nat option \<times> (nat \<rightharpoonup> Lock) \<times> (nat \<rightharpoonup> Condition) \<times> (nat \<rightharpoonup> SynchList) \<times> nat \<times> (nat \<rightharpoonup> thread)" where
  "info k = (currentThread k, toBeDestroyed k, locks k, conds k, slists k, brk_obj k,
     \<lambda>t. map_option (tstatus_update (\<lambda>_. READY)) (threads k t))"

text \<open>Waking up the first thread in the queue of a semaphore.\<close>

definition woken :: "nat \<Rightarrow> kernel \<Rightarrow> kernel" where
  "woken s k = (case sems k s of None \<Rightarrow> k | Some sem \<Rightarrow>
     (case semQueue sem of
        [] \<Rightarrow> k\<lparr>sems := (sems k)(s \<mapsto> sem\<lparr>semValue := semValue sem + 1\<rparr>)\<rparr>
      | t # q \<Rightarrow> k\<lparr>threads := (threads k)(t := map_option (tstatus_update (\<lambda>_. READY)) (threads k t)), readyList := readyList k @ [t],
          sems := (sems k)(s \<mapsto> sem\<lparr>semQueue := q, semValue := semValue sem + 1\<rparr>)\<rparr>))"

lemma V_body_eq:
  assumes s: "sched_ok D cm k" and l: "level k = IntOff" and e: "sems k s = Some sem"
  shows "V_body s k = Inr (woken s k)"
proof (cases "semQueue sem")
  case Nil
  then show ?thesis by (simp add: V_body_def obj_def e woken_def)
next
  case (Cons t q)
  have b: "status k t = Some BLOCKED" using s e Cons by (auto simp: sched_defs)
  then obtain r where r: "threads k t = Some r" by (auto simp: status_def)
  have "t \<notin> set (readyList k)" using s b by (auto simp: sched_defs)
  then show ?thesis
    by (simp add: V_body_def obj_def e Cons list_RemoveFront_def ReadyToRun_def l upd_thread_def r list_Append_def woken_def)
qed

lemma woken_fields [simp]:
  "currentThread (woken s k) = currentThread k" "toBeDestroyed (woken s k) = toBeDestroyed k" "locks (woken s k) = locks k"
  "conds (woken s k) = conds k" "slists (woken s k) = slists k" "brk_obj (woken s k) = brk_obj k" "level (woken s k) = level k"
  "pendingList (woken s k) = pendingList k" "inHandler (woken s k) = inHandler k" "yieldOnReturn (woken s k) = yieldOnReturn k"
  "stats (woken s k) = stats k" "brk_int (woken s k) = brk_int k" "mstatus (woken s k) = mstatus k"
  "registers (woken s k) = registers k" "mainMemory (woken s k) = mainMemory k" "tlb (woken s k) = tlb k"
  "pageTable (woken s k) = pageTable k" "pageTableSize (woken s k) = pageTableSize k" "entropy (woken s k) = entropy k"
  by (simp_all add: woken_def split: option.splits list.splits)

lemma sched_woken:
  assumes s: "sched_ok D cm k" and e: "sems k s = Some sem"
  shows "sched_ok D cm (woken s k)" and "info (woken s k) = info k"
proof -
  have bs: "sems (woken s k) = (sems k)(s \<mapsto> sem\<lparr>semQueue := tl (semQueue sem), semValue := semValue sem + 1\<rparr>)"
    by (cases "semQueue sem"; cases sem) (simp_all add: woken_def e)
  have rl: "readyList (woken s k) = readyList k @ take (Suc 0) (semQueue sem)" by (simp add: woken_def e split: list.splits)
  define T where "T = set (take (Suc 0) (semQueue sem))"
  have T: "t \<in> T \<Longrightarrow> status k t = Some BLOCKED \<and> t \<in> set (semQueue sem)" for t
    using s e by (auto simp: sched_defs T_def dest: in_set_takeD)
  have T2: "t \<in> T \<Longrightarrow> in_queue k t" for t using T [of t] e by (auto simp: in_queue_def)
  have st: "status (woken s k) t = (if t \<in> T then Some READY else status k t)" for t
    using T [of t] by (auto simp: woken_def e status_def T_def split: list.splits)
  have th: "threads (woken s k) t \<noteq> None \<longleftrightarrow> threads k t \<noteq> None" for t by (auto simp: woken_def e split: list.splits)
  have qd: "distinct (semQueue sem)" using s e unfolding sched_ok_def queues_ok_def by blast
  have q: "t \<in> set (tl (semQueue sem)) \<longleftrightarrow> t \<in> set (semQueue sem) \<and> t \<notin> T" for t
    using qd by (cases "semQueue sem") (auto simp: T_def)
  have iq: "in_queue (woken s k) t \<longleftrightarrow> in_queue k t \<and> t \<notin> T" for t
  proof
    assume "in_queue (woken s k) t"
    then obtain s' sem' where "sems (woken s k) s' = Some sem'" "t \<in> set (semQueue sem')" unfolding in_queue_def by blast
    then show "in_queue k t \<and> t \<notin> T"
      using q [of t] e s T unfolding bs in_queue_def sched_defs by (cases "s' = s") (auto, blast)
  next
    assume a: "in_queue k t \<and> t \<notin> T"
    then obtain s' sem' where "sems k s' = Some sem'" "t \<in> set (semQueue sem')" unfolding in_queue_def by blast
    then show "in_queue (woken s k) t" using q [of t] e a unfolding in_queue_def bs by (cases "s' = s") auto
  qed
  have rd: "distinct (readyList k)" "t \<in> set (readyList k) \<Longrightarrow> t \<notin> T" for t
    using s T [of t] unfolding sched_ok_def ready_ok_def by auto
  have disj: "sems k s' = Some sem' \<Longrightarrow> s' \<noteq> s \<Longrightarrow> t \<in> set (semQueue sem') \<Longrightarrow> t \<notin> set (semQueue sem)" for s' sem' t
    using s e unfolding sched_ok_def queues_ok_def by blast
  have d: "distinct (readyList k @ take (Suc 0) (semQueue sem))"
    using rd qd by (auto simp: T_def)
  have "ready_ok (woken s k)" using s d unfolding ready_ok_def rl st sched_ok_def by (auto simp: T_def)
  moreover have "queues_ok (woken s k)"
    using s e q unfolding queues_ok_def bs sched_ok_def by (auto simp: st distinct_tl dest: T disj split: if_splits)
  moreover have "objects_ok D (woken s k)" using s e unfolding objects_ok_def bs th sched_ok_def by auto
  moreover have "none_lost (woken s k)"
    using s T T2 unfolding none_lost_def th iq st rl sched_ok_def woken_fields by (auto simp: T_def [symmetric])
  moreover have "current_ok cm (woken s k)"
    using s T T2 unfolding current_ok_def iq st rl sched_ok_def woken_fields
    by (cases cm) (auto simp: T_def [symmetric])
  ultimately show "sched_ok D cm (woken s k)" by (simp add: sched_ok_def)
  show "info (woken s k) = info k" by (auto simp: info_def woken_def e fun_eq_iff option.map_comp comp_def split: list.splits)
qed

section \<open>Interrupt handlers\<close>

fun device :: "nat set \<Rightarrow> callback \<Rightarrow> bool" where
  "device D TimerObj = True"
| "device D (DeviceObj s) = (s \<in> D)"

text \<open>
  The invariant that the handlers keep; the parameters are the semaphores of the devices, how
  the current thread stands and the part of the kernel that no handler touches.
\<close>

definition handler_inv :: "nat set \<Rightarrow> cmode \<Rightarrow> _ \<Rightarrow> kernel \<Rightarrow> bool" where
  "handler_inv D cm X k \<longleftrightarrow> sched_ok D cm k \<and> info k = X \<and> sys_ok k"

lemma status_neutral [simp]:
  "status (k\<lparr>pendingList := ps\<rparr>) = status k" "status (k\<lparr>inHandler := b\<rparr>) = status k" "status (k\<lparr>level := l\<rparr>) = status k"
  "status (k\<lparr>stats := st\<rparr>) = status k" "status (k\<lparr>mstatus := ms\<rparr>) = status k" "status (k\<lparr>registers := r\<rparr>) = status k"
  "status (k\<lparr>yieldOnReturn := b\<rparr>) = status k" "status (k\<lparr>drawn := n\<rparr>) = status k" "status (k\<lparr>brk_int := n\<rparr>) = status k"
  "status (k\<lparr>pageTable := pt\<rparr>) = status k" "status (k\<lparr>pageTableSize := sz\<rparr>) = status k"
  by (simp_all add: status_def fun_eq_iff)

lemma in_queue_neutral [simp]:
  "in_queue (k\<lparr>pendingList := ps\<rparr>) = in_queue k" "in_queue (k\<lparr>inHandler := b\<rparr>) = in_queue k" "in_queue (k\<lparr>level := l\<rparr>) = in_queue k"
  "in_queue (k\<lparr>stats := st\<rparr>) = in_queue k" "in_queue (k\<lparr>mstatus := ms\<rparr>) = in_queue k" "in_queue (k\<lparr>registers := r\<rparr>) = in_queue k"
  "in_queue (k\<lparr>yieldOnReturn := b\<rparr>) = in_queue k" "in_queue (k\<lparr>drawn := n\<rparr>) = in_queue k" "in_queue (k\<lparr>brk_int := n\<rparr>) = in_queue k"
  "in_queue (k\<lparr>pageTable := pt\<rparr>) = in_queue k" "in_queue (k\<lparr>pageTableSize := sz\<rparr>) = in_queue k"
  by (simp_all add: in_queue_def fun_eq_iff)

lemma sched_neutral [simp]:
  "sched_ok D cm (k\<lparr>pendingList := ps\<rparr>) = sched_ok D cm k" "sched_ok D cm (k\<lparr>inHandler := b\<rparr>) = sched_ok D cm k" "sched_ok D cm (k\<lparr>level := l\<rparr>) = sched_ok D cm k"
  "sched_ok D cm (k\<lparr>stats := st\<rparr>) = sched_ok D cm k" "sched_ok D cm (k\<lparr>mstatus := ms\<rparr>) = sched_ok D cm k" "sched_ok D cm (k\<lparr>registers := r\<rparr>) = sched_ok D cm k"
  "sched_ok D cm (k\<lparr>yieldOnReturn := b\<rparr>) = sched_ok D cm k" "sched_ok D cm (k\<lparr>drawn := n\<rparr>) = sched_ok D cm k" "sched_ok D cm (k\<lparr>brk_int := n\<rparr>) = sched_ok D cm k"
  "sched_ok D cm (k\<lparr>pageTable := pt\<rparr>) = sched_ok D cm k" "sched_ok D cm (k\<lparr>pageTableSize := sz\<rparr>) = sched_ok D cm k"
  by (simp_all add: sched_defs cong: cmode.case_cong)

lemma info_neutral [simp]:
  "info (k\<lparr>pendingList := ps\<rparr>) = info k" "info (k\<lparr>inHandler := b\<rparr>) = info k" "info (k\<lparr>level := l\<rparr>) = info k"
  "info (k\<lparr>stats := st\<rparr>) = info k" "info (k\<lparr>mstatus := ms\<rparr>) = info k" "info (k\<lparr>registers := r\<rparr>) = info k"
  "info (k\<lparr>yieldOnReturn := b\<rparr>) = info k" "info (k\<lparr>drawn := n\<rparr>) = info k" "info (k\<lparr>brk_int := n\<rparr>) = info k"
  "info (k\<lparr>pageTable := pt\<rparr>) = info k" "info (k\<lparr>pageTableSize := sz\<rparr>) = info k"
  by (simp_all add: info_def)

lemma sys_neutral [simp]:
  "sys_ok (k\<lparr>pendingList := ps\<rparr>) = sys_ok k" "sys_ok (k\<lparr>inHandler := b\<rparr>) = sys_ok k" "sys_ok (k\<lparr>level := l\<rparr>) = sys_ok (k :: kernel)"
  "sys_ok (k\<lparr>stats := st\<rparr>) = sys_ok k" "sys_ok (k\<lparr>mstatus := ms\<rparr>) = sys_ok k" "sys_ok (k\<lparr>registers := r\<rparr>) = sys_ok k"
  "sys_ok (k\<lparr>yieldOnReturn := b\<rparr>) = sys_ok k" "sys_ok (k\<lparr>drawn := n\<rparr>) = sys_ok k" "sys_ok (k\<lparr>brk_int := n\<rparr>) = sys_ok k"
  "sys_ok (k\<lparr>pageTable := pt\<rparr>) = sys_ok k" "sys_ok (k\<lparr>pageTableSize := sz\<rparr>) = sys_ok k"
  "sys_ok (k\<lparr>threads := th\<rparr>) = sys_ok k" "sys_ok (k\<lparr>currentThread := t\<rparr>) = sys_ok k" "sys_ok (k\<lparr>readyList := l'\<rparr>) = sys_ok k"
  "sys_ok (k\<lparr>toBeDestroyed := d\<rparr>) = sys_ok k" "sys_ok (k\<lparr>sems := ss\<rparr>) = sys_ok k" "sys_ok (k\<lparr>locks := ls\<rparr>) = sys_ok k"
  "sys_ok (k\<lparr>conds := cs\<rparr>) = sys_ok k" "sys_ok (k\<lparr>slists := sl\<rparr>) = sys_ok k" "sys_ok (k\<lparr>brk_obj := bo\<rparr>) = sys_ok k"
  by (simp_all add: sys_ok_def)

lemma sys_woken [simp]: "sys_ok (woken s k) = sys_ok k"
  by (simp add: woken_def split: option.splits list.splits)

interpretation hw: devices CallBack "device D" "handler_inv D cm X" for D cm X
proof unfold_locales
  fix k c
  assume a: "handler_inv D cm X k" "clock_ok k" "level k = IntOff" "inHandler k" "device D c" "pend_ok (device D) k"
  show "\<exists>k'. CallBack c k = Inr k' \<and> handler_inv D cm X k' \<and> pend_ok (device D) k' \<and> later k k'"
  proof (cases c)
    case TimerObj
    obtain ps y d b where t: "Timer_CallBack TimerObj k = Inr (k\<lparr>yieldOnReturn := y, drawn := d, pendingList := ps, brk_int := b\<rparr>)"
      "later k (k\<lparr>yieldOnReturn := y, drawn := d, pendingList := ps, brk_int := b\<rparr>)"
      "\<forall>p \<in> set ps - set (pendingList k). callOnInterrupt p = TimerObj"
      using Timer_CallBack_ok [OF a(2,4), of TimerObj] by blast
    have "pend_ok (device D) (k\<lparr>yieldOnReturn := y, drawn := d, pendingList := ps, brk_int := b\<rparr>)"
      using a(6) t(3) by (auto simp: pend_ok_def)
    then show ?thesis using TimerObj t a(1) by (simp add: handler_inv_def)
  next
    case (DeviceObj s)
    have s: "sched_ok D cm k" using a(1) by (simp add: handler_inv_def)
    then obtain sem where e: "sems k s = Some sem" using a(5) DeviceObj by (auto simp: sched_defs)
    have "CallBack c k = Inr (woken s k)" using V_body_eq [OF s a(3) e] DeviceObj by simp
    moreover have "handler_inv D cm X (woken s k)" using sched_woken [OF s e] a(1) by (simp add: handler_inv_def)
    moreover have "later k (woken s k)" using a(2) by (simp add: later_def clock_ok_def)
    moreover have "pend_ok (device D) (woken s k)" using a(6) by (simp add: pend_ok_def)
    ultimately show ?thesis by blast
  qed
qed (simp_all add: handler_inv_def)

section \<open>Legal kernel states\<close>

text \<open>
  The frames of a thread fit the interrupt level at which they run: \<open>on_frame\<close> are the pieces of
  code that run with interrupts on, and a thread's last frame is \<open>Finish\<close>; the rest of a routine
  that was interrupted at \<open>SWITCH\<close> runs with interrupts off and turns them on at its end.
\<close>

fun on_frame :: "frame \<Rightarrow> bool" where
  "on_frame (Fork func) = (\<forall>f \<in> set func. on_frame f \<and> f \<noteq> RunUser)"
| "on_frame Begin = False"
| "on_frame (Yield_end l) = False"
| "on_frame (Sleep_loop b) = False"
| "on_frame Run_back = False"
| "on_frame (SemP_loop s l) = False"
| "on_frame f = True"

primrec wf_on :: "frame list \<Rightarrow> bool" where
  "wf_on [] = False"
| "wf_on (f # fs) = (f = Finish \<or> on_frame f \<and> wf_on fs)"

definition cont_off :: "frame list \<Rightarrow> bool" where
  "cont_off fs \<longleftrightarrow> (\<exists>f rest. fs = f # rest \<and> wf_on rest \<and> (f = Yield_end IntOn \<or> (\<exists>s. f = SemP_loop s IntOn)))"

definition wf_off :: "frame list \<Rightarrow> bool" where
  "wf_off fs \<longleftrightarrow> cont_off fs \<or> (\<exists>rest. fs = Begin # rest \<and> wf_on rest) \<or>
     (\<exists>rest. (fs = Run_back # rest \<or> fs = Sleep_loop False # rest) \<and> cont_off rest) \<or> (\<exists>rest. fs = Sleep_loop True # rest)"

fun wf_frames :: "IntStatus \<Rightarrow> frame list \<Rightarrow> bool" where
  "wf_frames IntOn fs = wf_on fs"
| "wf_frames IntOff fs = wf_off fs"

definition regs_ok :: "i32 list \<Rightarrow> bool" where
  "regs_ok ws \<longleftrightarrow> length ws = NumTotalRegs \<and> unat (ws ! LoadReg) < 32 \<and> ws ! 0 = 0"

definition space_ok :: "thread \<Rightarrow> bool" where
  "space_ok r \<longleftrightarrow> (RunUser \<in> set (frames r) \<longrightarrow> space r \<noteq> None) \<and>
     (\<forall>sp. space r = Some sp \<longrightarrow> unat (numPages sp) \<le> length (spaceTable sp))"

text \<open>A thread that is not running will continue in \<open>ThreadRoot\<close> or behind \<open>SWITCH\<close>.\<close>

definition suspended :: "thread \<Rightarrow> bool" where
  "suspended r \<longleftrightarrow> space_ok r \<and>
     ((\<exists>rest. frames r = Begin # rest \<and> wf_on rest \<and> space r = None) \<or>
      (\<exists>rest. frames r = Run_back # rest \<and> cont_off rest \<and> (space r \<noteq> None \<longrightarrow> regs_ok (userRegisters r))))"

text \<open>The machine has the page table of the running thread.\<close>

definition loaded :: "kernel \<Rightarrow> thread \<Rightarrow> bool" where
  "loaded k r \<longleftrightarrow> (\<forall>sp. space r = Some sp \<longrightarrow>
     (\<exists>pt. pageTable k = Some pt \<and> pageTableSize k = numPages sp \<and> unat (numPages sp) \<le> length pt))"

definition hw_ok :: "nat set \<Rightarrow> kernel \<Rightarrow> bool" where
  "hw_ok D k \<longleftrightarrow> clock_ok k \<and> cpu_ok k \<and> \<not> inHandler k \<and> pend_ok (device D) k \<and> sys_ok k"

definition others_ok :: "kernel \<Rightarrow> bool" where
  "others_ok k \<longleftrightarrow> (\<forall>t r. threads k t = Some r \<and> t \<noteq> currentThread k \<and> toBeDestroyed k \<noteq> Some t \<longrightarrow> suspended r)"

fun mode_of :: "frame \<Rightarrow> cmode" where
  "mode_of (Sleep_loop finishing) = (if finishing then Finishing else Waiting)"
| "mode_of f = Running"

definition cur :: "kernel \<Rightarrow> thread option" where
  "cur k = threads k (currentThread k)"

definition kernel_ok :: "nat set \<Rightarrow> kernel \<Rightarrow> bool" where
  "kernel_ok D k \<longleftrightarrow> hw_ok D k \<and> others_ok k \<and>
     (\<exists>r f fs. cur k = Some r \<and> frames r = f # fs \<and> wf_frames (level k) (f # fs) \<and> sched_ok D (mode_of f) k \<and> space_ok r \<and>
        (toBeDestroyed k \<noteq> None \<longrightarrow> f = Run_back \<or> f = Begin) \<and>
        (if f = Run_back then space r \<noteq> None \<longrightarrow> regs_ok (userRegisters r) else loaded k r))"

text \<open>The state inside a step: the current thread \<open>r\<close> has the frames \<open>fs\<close> left.\<close>

definition mid :: "nat set \<Rightarrow> cmode \<Rightarrow> frame list \<Rightarrow> kernel \<Rightarrow> bool" where
  "mid D cm fs k \<longleftrightarrow> hw_ok D k \<and> others_ok k \<and> sched_ok D cm k \<and> toBeDestroyed k = None \<and>
     (\<exists>r. cur k = Some r \<and> frames r = fs \<and> space_ok r \<and> loaded k r)"

lemma mid_kernel_ok:
  assumes "mid D (mode_of f) (f # fs) k" and "wf_frames (level k) (f # fs)" and "f \<noteq> Run_back"
  shows "kernel_ok D k"
  using assms unfolding mid_def kernel_ok_def by auto

lemma mid_neutral [simp]:
  "mid D cm fs (k\<lparr>level := l\<rparr>) = mid D cm fs k" "mid D cm fs (k\<lparr>mstatus := ms\<rparr>) = mid D cm fs k"
  by (simp_all add: mid_def hw_ok_def others_ok_def cur_def loaded_def clock_ok_def cpu_ok_def reg_def)

lemma mid_push:
  assumes "mid D cm fs k" and "RunUser \<notin> set gs \<or> (\<exists>r. cur k = Some r \<and> space r \<noteq> None)"
  shows "\<exists>k'. push gs k = Inr k' \<and> mid D cm (gs @ fs) k' \<and> level k' = level k \<and> mstatus k' = mstatus k \<and>
    sems k' = sems k \<and> readyList k' = readyList k \<and> currentThread k' = currentThread k \<and> locks k' = locks k"
proof -
  obtain r where r: "threads k (currentThread k) = Some r" "frames r = fs" "space_ok r" "loaded k r"
    using assms(1) by (auto simp: mid_def cur_def)
  let ?k = "k\<lparr>threads := (threads k)(currentThread k \<mapsto> r\<lparr>frames := gs @ fs\<rparr>)\<rparr>"
  have "push gs k = Inr ?k" using r by (simp add: push_def upd_thread_def obj_def)
  moreover have st: "status ?k = status k" using r(1) by (auto simp: status_def fun_eq_iff)
  have iq: "in_queue ?k = in_queue k" by (simp add: in_queue_def fun_eq_iff)
  have "sched_ok D cm ?k = sched_ok D cm k" using r(1) by (auto simp: sched_defs st iq cong: cmode.case_cong)
  then have "mid D cm (gs @ fs) ?k"
    using assms r by (auto simp: mid_def hw_ok_def others_ok_def cur_def loaded_def space_ok_def clock_ok_def cpu_ok_def reg_def pend_ok_def)
  ultimately show ?thesis by auto
qed

text \<open>What the handlers of one tick, or of the idle loop, leave.\<close>

lemma mid_handled:
  assumes m: "mid D cm fs k" and i: "handler_inv D cm (info k) k'" and h: "hw_ok D k'"
    and p: "pageTable k' = pageTable k" "pageTableSize k' = pageTableSize k"
  shows "mid D cm fs k'"
proof -
  have e: "currentThread k' = currentThread k" "toBeDestroyed k' = toBeDestroyed k"
    and t: "map_option (tstatus_update (\<lambda>_. READY)) (threads k' t) = map_option (tstatus_update (\<lambda>_. READY)) (threads k t)" for t
    using i by (auto simp: handler_inv_def info_def fun_eq_iff)
  have u: "threads k' t = Some r' \<Longrightarrow> \<exists>r. threads k t = Some r \<and> frames r = frames r' \<and> space r = space r' \<and> userRegisters r = userRegisters r'" for t r'
    using t [of t] by (cases "threads k t") (auto, (metis thread.select_convs thread.surjective thread.update_convs)+)
  obtain r where r: "threads k (currentThread k) = Some r" "frames r = fs" "space_ok r" "loaded k r"
    using m by (auto simp: mid_def cur_def)
  obtain r' where r': "threads k' (currentThread k) = Some r'" using t [of "currentThread k"] r(1) by (cases "threads k' (currentThread k)") auto
  have q: "frames r' = fs" "space r' = space r" using u [OF r'] r by auto
  have o: "suspended r'" if "suspended r" "frames r = frames r'" "space r = space r'" "userRegisters r = userRegisters r'" for r r'
    using that by (simp add: suspended_def space_ok_def)
  have "others_ok k'" unfolding others_ok_def e
  proof (intro allI impI)
    fix t r'' assume a: "threads k' t = Some r'' \<and> t \<noteq> currentThread k \<and> toBeDestroyed k \<noteq> Some t"
    then obtain r0 where "threads k t = Some r0" "frames r0 = frames r''" "space r0 = space r''" "userRegisters r0 = userRegisters r''" using u by blast
    then show "suspended r''" using m a o [of r0 r''] by (auto simp: mid_def others_ok_def)
  qed
  then show ?thesis
    using i h m r r' q p e by (auto simp: mid_def handler_inv_def cur_def loaded_def space_ok_def)
qed

lemma sched_objects [simp]:
  "sched_ok D cm (k\<lparr>locks := ls\<rparr>) = sched_ok D cm k" "sched_ok D cm (k\<lparr>conds := cs\<rparr>) = sched_ok D cm k"
  "sched_ok D cm (k\<lparr>slists := sl\<rparr>) = sched_ok D cm k"
  by (simp_all add: sched_defs status_def in_queue_def cong: cmode.case_cong)

lemma mid_objects [simp]:
  "mid D cm fs (k\<lparr>locks := ls\<rparr>) = mid D cm fs k" "mid D cm fs (k\<lparr>conds := cs\<rparr>) = mid D cm fs k" "mid D cm fs (k\<lparr>slists := sl\<rparr>) = mid D cm fs k"
  by (simp_all add: mid_def hw_ok_def others_ok_def cur_def loaded_def clock_ok_def cpu_ok_def reg_def pend_ok_def)

lemma on_frame_mode: "f = Finish \<or> on_frame f \<Longrightarrow> f \<noteq> Run_back \<and> mode_of f = Running"
  by (cases f) auto

lemma mid_on_ok:
  assumes "mid D Running fs k" and "wf_on fs" and "level k = IntOn"
  shows "kernel_ok D k"
proof (cases fs)
  case (Cons f rest)
  then have "f \<noteq> Run_back \<and> mode_of f = Running" using assms(2) on_frame_mode [of f] by auto
  then show ?thesis using assms Cons by (intro mid_kernel_ok [of D f rest]) simp_all
qed (use assms in simp)

text \<open>A tick at the end of a routine: the handlers run, and the thread may have to yield.\<close>

lemma tick_ok:
  assumes m: "mid D Running fs k" and w: "wf_on fs"
  shows "\<exists>k'. after_tick ms (OneTick CallBack k) = Inr k' \<and> kernel_ok D k'"
proof -
  have h: "handler_inv D Running (info k) k" "clock_ok k" "\<not> inHandler k" "cpu_ok k" "pend_ok (device D) k"
    using m by (simp_all add: mid_def handler_inv_def hw_ok_def)
  from hw.OneTick_ok [OF h] obtain y s where s: "OneTick CallBack k = Inr (y, s)" "handler_inv D Running (info k) s" "clock_ok s"
    "level s = IntOn" "\<not> inHandler s" "cpu_ok s" "pend_ok (device D) s" "pageTable s = pageTable k" "pageTableSize s = pageTableSize k"
    by blast
  have ms: "mid D Running fs s"
    by (rule mid_handled [OF m s(2) _ s(8,9)]) (use s in \<open>simp add: hw_ok_def handler_inv_def\<close>)
  show ?thesis
  proof (cases y)
    case True
    from mid_push [OF ms, of "[Yield, SetStatus ms]"] obtain k' where
      "push [Yield, SetStatus ms] s = Inr k'" "mid D Running ([Yield, SetStatus ms] @ fs) k'" "level k' = IntOn" using s(4) by auto
    then show ?thesis using True s(1) w by (auto simp: after_tick_def intro!: mid_on_ok)
  next
    case False
    then show ?thesis using s(1,4) ms w by (simp add: after_tick_def mid_on_ok)
  qed
qed

lemma set_level_off [simp]: "set_level IntOff k = Inr (k\<lparr>level := IntOff\<rparr>)"
  by (simp add: set_level_def SetLevel_def ChangeLevel_def after_tick_def)

lemma set_level_on:
  assumes "mid D Running fs k" and "wf_on fs" and "level k = IntOff"
  shows "\<exists>k'. set_level IntOn k = Inr k' \<and> kernel_ok D k'"
proof -
  have "\<not> inHandler k" using assms(1) by (simp add: mid_def hw_ok_def)
  moreover have "mid D Running fs (k\<lparr>level := IntOn\<rparr>)" using assms(1) by simp
  ultimately show ?thesis
    using tick_ok [of D fs "k\<lparr>level := IntOn\<rparr>"] assms(2,3) by (simp add: set_level_def SetLevel_def ChangeLevel_def)
qed

section \<open>Context switches\<close>

text \<open>\<open>Run\<close> on the first thread of the ready list, from the loop of \<open>Sleep\<close> or from \<open>Yield\<close>.\<close>

lemma dispatch:
  assumes m: "mid D (if finishing then Finishing else Waiting) fs k" and l: "level k = IntOff" and rl: "readyList k = t # ts"
    and c: "\<not> finishing \<Longrightarrow> cont_off fs"
  shows "\<exists>k'. Scheduler_Run t finishing (k\<lparr>readyList := ts\<rparr>) = Inr k' \<and> kernel_ok D k' \<and> currentThread k' = t \<and> readyList k' = ts"
proof -
  let ?c = "currentThread k"
  obtain r where r: "threads k ?c = Some r" "frames r = fs" "space_ok r" "loaded k r" using m by (auto simp: mid_def cur_def)
  have hw: "hw_ok D k" and oth: "others_ok k" and sch: "sched_ok D (if finishing then Finishing else Waiting) k" and tbd: "toBeDestroyed k = None"
    using m by (simp_all add: mid_def)
  have "status k t = Some READY" using sch rl by (simp add: sched_defs)
  then obtain rt where rt: "threads k t = Some rt" "tstatus rt = READY" by (auto simp: status_def)
  have ct: "?c \<noteq> t" if finishing using that sch rt r(1) by (auto simp: sched_defs status_def)
  define r1 where "r1 = (case space r of None \<Rightarrow> r | Some sp \<Rightarrow> (SaveUserState k r)\<lparr>space := Some (AddrSpace_SaveState k sp)\<rparr>)"
  define r2 where "r2 = r1\<lparr>frames := Run_back # fs\<rparr>"
  define rn where "rn = (if t = ?c then r2 else rt)\<lparr>tstatus := RUNNING\<rparr>"
  define k1 where "k1 = (if finishing then k\<lparr>readyList := ts, toBeDestroyed := Some ?c\<rparr> else k\<lparr>readyList := ts\<rparr>)"
  define k' where "k' = k1\<lparr>threads := (threads k)(?c \<mapsto> r2, t \<mapsto> rn), currentThread := t\<rparr>"
  have f: "currentThread k' = t" "readyList k' = ts" "toBeDestroyed k' = (if finishing then Some ?c else None)" "sems k' = sems k" "brk_obj k' = brk_obj k"
    "level k' = level k" using tbd by (simp_all add: k'_def k1_def)
  have f1: "frames r1 = fs" "tstatus r1 = tstatus r" using r(2) by (simp_all add: r1_def SaveUserState_def split: option.splits)
  have f2: "registers k1 = registers k" "pageTable k1 = pageTable k" "threads k1 = threads k" by (simp_all add: k1_def)
  have save: "(case space r of None \<Rightarrow> r | Some sp \<Rightarrow> (SaveUserState k1 r)\<lparr>space := Some (AddrSpace_SaveState k1 sp)\<rparr>) = r1"
    using f2 by (simp add: r1_def SaveUserState_def AddrSpace_SaveState_def split: option.splits)
  have "Scheduler_Run t finishing (k\<lparr>readyList := ts\<rparr>) =
      rbind (upd_thread ?c (\<lambda>r. let r1 = (case space r of None \<Rightarrow> r
           | Some sp \<Rightarrow> (SaveUserState k1 r)\<lparr>space := Some (AddrSpace_SaveState k1 sp)\<rparr>) in r1\<lparr>frames := Run_back # frames r1\<rparr>) k1) (\<lambda>k2.
      upd_thread t (\<lambda>r. r\<lparr>tstatus := RUNNING\<rparr>) (k2\<lparr>currentThread := t\<rparr>))"
    using l tbd by (cases finishing) (simp_all add: Scheduler_Run_def k1_def Let_def cong: option.case_cong)
  also have "\<dots> = upd_thread t (\<lambda>r. r\<lparr>tstatus := RUNNING\<rparr>) (k1\<lparr>threads := (threads k)(?c \<mapsto> r2), currentThread := t\<rparr>)"
    using r(1) f2 f1 by (simp add: upd_thread_def obj_def save Let_def r2_def)
  also have "\<dots> = Inr k'"
    using rt(1) by (cases "t = ?c") (simp_all add: upd_thread_def obj_def k'_def rn_def)
  finally have run: "Scheduler_Run t finishing (k\<lparr>readyList := ts\<rparr>) = Inr k'" .
  have sv: "space_ok r2 \<and> (space r2 \<noteq> None \<longrightarrow> regs_ok (userRegisters r2))"
    using r hw by (auto simp: r2_def r1_def space_ok_def loaded_def SaveUserState_def AddrSpace_SaveState_def regs_ok_def hw_ok_def cpu_ok_def reg_def
        split: option.splits)
  have th: "threads k' u = (if u = t then Some rn else if u = ?c then Some r2 else threads k u)" for u by (simp add: k'_def)
  have sus: "suspended rt" if "t \<noteq> ?c" using oth that rt(1) tbd by (auto simp: others_ok_def)
  have "others_ok k'"
    unfolding others_ok_def
  proof (intro allI impI)
    fix u ru assume a: "threads k' u = Some ru \<and> u \<noteq> currentThread k' \<and> toBeDestroyed k' \<noteq> Some u"
    then have u: "u \<noteq> t" by (simp add: f)
    show "suspended ru"
    proof (cases "u = ?c")
      case True
      then have "\<not> finishing" "ru = r2" using a u th by (auto simp: f split: if_splits)
      then show ?thesis using c sv by (auto simp: suspended_def r2_def)
    next
      case False
      then show ?thesis using a u oth tbd th [of u] by (auto simp: others_ok_def)
    qed
  qed
  moreover have "sched_ok D Running k'"
  proof -
    have st: "status k' u = (if u = t then Some RUNNING else status k u)" for u
      using r(1) by (simp add: status_def th rn_def r2_def f1)
    have iq: "in_queue k' = in_queue k" by (simp add: in_queue_def f fun_eq_iff)
    have tq: "status k t = Some READY" using rt by (simp add: status_def)
    have dq: "\<And>s sem. sems k s = Some sem \<Longrightarrow> t \<notin> set (semQueue sem)" using sch tq by (fastforce simp: sched_ok_def queues_ok_def)
    then have ntq: "\<not> in_queue k t" by (auto simp: in_queue_def)
    have "ready_ok k'" using sch rl by (auto simp: sched_ok_def ready_ok_def f st)
    moreover have "queues_ok k'" using sch dq by (auto simp: sched_ok_def queues_ok_def f st)
    moreover have "objects_ok D k'" using sch r(1) rt(1) by (auto simp: sched_ok_def objects_ok_def f th)
    moreover have "none_lost k'"
      using sch ct tbd rl ntq by (cases finishing) (auto simp: sched_ok_def none_lost_def current_ok_def f th iq st split: if_splits)
    moreover have "current_ok Running k'" by (simp add: current_ok_def f st)
    ultimately show ?thesis by (simp add: sched_ok_def)
  qed
  moreover have "hw_ok D k'" using hw by (simp add: hw_ok_def k'_def k1_def clock_ok_def cpu_ok_def reg_def pend_ok_def)
  moreover have "cur k' = Some rn" by (simp add: cur_def k'_def)
  moreover have "\<exists>f rest. frames rn = f # rest \<and> wf_frames (level k') (f # rest) \<and> mode_of f = Running \<and> space_ok rn \<and> (f = Run_back \<or> f = Begin) \<and>
     (if f = Run_back then space rn \<noteq> None \<longrightarrow> regs_ok (userRegisters rn) else loaded k' rn)"
  proof (cases "t = ?c")
    case True
    then show ?thesis using c ct sv l by (auto simp: rn_def r2_def f wf_off_def space_ok_def)
  next
    case False
    from sus [OF this] show ?thesis
      using False l by (auto simp: rn_def f wf_off_def space_ok_def suspended_def loaded_def)
  qed
  ultimately have "kernel_ok D k'" unfolding kernel_ok_def by metis
  then show ?thesis using run f by blast
qed

section \<open>Changes of the state inside a step\<close>

lemma midE:
  assumes "mid D cm fs k"
  obtains r where "threads k (currentThread k) = Some r" "frames r = fs" "space_ok r" "loaded k r" "hw_ok D k" "others_ok k"
    "sched_ok D cm k" "toBeDestroyed k = None"
  using assms by (auto simp: mid_def cur_def)

text \<open>A change of the record of the current thread that keeps its frames and its address space.\<close>

lemma mid_current:
  assumes m: "mid D cm fs k" and k': "hw_ok D k'" "pageTable k' = pageTable k" "pageTableSize k' = pageTableSize k"
    "currentThread k' = currentThread k" "toBeDestroyed k' = None" "sched_ok D cm' k'"
    and th: "\<And>t. t \<noteq> currentThread k \<Longrightarrow> threads k' t = threads k t \<or> (\<exists>r. threads k' t = Some r \<and> suspended r)"
    and r': "threads k' (currentThread k) = Some r'" "\<And>r. threads k (currentThread k) = Some r \<Longrightarrow> space r' = space r"
      "frames r' = fs" 
  shows "mid D cm' fs k'"
proof -
  obtain r where r: "threads k (currentThread k) = Some r" "frames r = fs" "space_ok r" "loaded k r" "others_ok k" "toBeDestroyed k = None"
    by (rule midE [OF m])
  have "others_ok k'"
    unfolding others_ok_def
  proof (intro allI impI)
    fix t rt assume a: "threads k' t = Some rt \<and> t \<noteq> currentThread k' \<and> toBeDestroyed k' \<noteq> Some t"
    then have "threads k t = Some rt \<or> suspended rt" using th [of t] k'(4) by auto
    then show "suspended rt" using r(5,6) a k'(4) by (auto simp: others_ok_def)
  qed
  moreover have "space r' = space r" using r'(2) [OF r(1)] .
  ultimately show ?thesis using k' r' r by (auto simp: mid_def cur_def space_ok_def loaded_def)
qed

lemma hw_threads [simp]:
  "hw_ok D (k\<lparr>threads := th\<rparr>) = hw_ok D k" "hw_ok D (k\<lparr>readyList := rl\<rparr>) = hw_ok D k" "hw_ok D (k\<lparr>sems := ss\<rparr>) = hw_ok D k"
  "hw_ok D (k\<lparr>brk_obj := b\<rparr>) = hw_ok D k" "hw_ok D (k\<lparr>toBeDestroyed := d\<rparr>) = hw_ok D k" "hw_ok D (k\<lparr>currentThread := c\<rparr>) = hw_ok D k"
  "hw_ok D (k\<lparr>level := l\<rparr>) = hw_ok D k" "hw_ok D (k\<lparr>pageTable := pt\<rparr>) = hw_ok D k" "hw_ok D (k\<lparr>pageTableSize := ps\<rparr>) = hw_ok D k"
  by (simp_all add: hw_ok_def clock_ok_def cpu_ok_def reg_def pend_ok_def)

lemma hw_woken [simp]: "hw_ok D (woken s k) = hw_ok D k"
  by (simp add: hw_ok_def clock_ok_def cpu_ok_def reg_def pend_ok_def)

lemma queue_facts:
  assumes "queues_ok k" and "sems k s = Some sem"
  shows "0 \<le> semValue sem" "distinct (semQueue sem)" "t \<in> set (semQueue sem) \<Longrightarrow> status k t = Some BLOCKED"
    "sems k s' = Some sem' \<Longrightarrow> s \<noteq> s' \<Longrightarrow> t \<in> set (semQueue sem) \<Longrightarrow> t \<notin> set (semQueue sem')"
  using assms unfolding queues_ok_def by blast+

lemma queues_update:
  assumes k: "queues_ok k" and e: "sems k' = (sems k)(s \<mapsto> sem')" and "0 \<le> semValue sem'" "distinct (semQueue sem')"
    and b: "\<And>t. t \<in> set (semQueue sem') \<Longrightarrow> status k' t = Some BLOCKED"
    and o: "\<And>u sm t. u \<noteq> s \<Longrightarrow> sems k u = Some sm \<Longrightarrow> t \<in> set (semQueue sm) \<Longrightarrow> status k' t = Some BLOCKED \<and> t \<notin> set (semQueue sem')"
  shows "queues_ok k'"
  unfolding queues_ok_def
proof (intro conjI allI impI)
  fix u sm assume a: "sems k' u = Some sm"
  show "0 \<le> semValue sm" "distinct (semQueue sm)" "\<forall>t \<in> set (semQueue sm). status k' t = Some BLOCKED"
    using a assms(3,4) b o [of u sm] queue_facts(1,2) [OF k, of u sm] unfolding e by (cases "u = s"; simp)+
next
  fix u u' sm sm' assume a: "sems k' u = Some sm \<and> sems k' u' = Some sm' \<and> u \<noteq> u'"
  have "x \<notin> set (semQueue sm')" if "x \<in> set (semQueue sm)" for x
  proof (cases "u = s")
    case True
    then show ?thesis using a o [of u' sm' x] that unfolding e by auto
  next
    case u: False
    show ?thesis
    proof (cases "u' = s")
      case True
      then show ?thesis using a o [of u sm x] that u unfolding e by auto
    next
      case False
      then show ?thesis using a u queue_facts(4) [OF k, of u sm u' sm' x] that unfolding e by simp
    qed
  qed
  then show "set (semQueue sm) \<inter> set (semQueue sm') = {}" by blast
qed

text \<open>The current thread becomes ready.\<close>

lemma mid_ready:
  assumes m: "mid D Running fs k" and r: "threads k (currentThread k) = Some r"
  shows "mid D Waiting fs (k\<lparr>threads := (threads k)(currentThread k \<mapsto> r\<lparr>tstatus := READY\<rparr>), readyList := readyList k @ [currentThread k]\<rparr>)"
    and "currentThread k \<notin> set (readyList k)"
proof -
  let ?c = "currentThread k" and ?k = "k\<lparr>threads := (threads k)(currentThread k \<mapsto> r\<lparr>tstatus := READY\<rparr>), readyList := readyList k @ [currentThread k]\<rparr>"
  have s: "sched_ok D Running k" "hw_ok D k" "toBeDestroyed k = None" "frames r = fs" using m r by (auto simp: mid_def cur_def)
  have cs: "status k ?c = Some RUNNING" using s(1) by (simp add: sched_defs)
  have st: "status ?k t = (if t = ?c then Some READY else status k t)" for t by (simp add: status_def)
  have iq: "in_queue ?k = in_queue k" by (simp add: in_queue_def fun_eq_iff)
  show n: "?c \<notin> set (readyList k)" using s(1) cs by (auto simp: sched_ok_def ready_ok_def)
  have dq: "\<And>s sem. sems k s = Some sem \<Longrightarrow> ?c \<notin> set (semQueue sem)" using s(1) cs by (fastforce simp: sched_ok_def queues_ok_def)
  have "ready_ok ?k" using s(1) n by (auto simp: sched_ok_def ready_ok_def st)
  moreover have "queues_ok ?k" using s(1) dq by (auto simp: sched_ok_def queues_ok_def st)
  moreover have "objects_ok D ?k" using s(1) r by (auto simp: sched_ok_def objects_ok_def)
  moreover have "none_lost ?k" using s(1,3) by (auto simp: sched_ok_def none_lost_def iq)
  moreover have "current_ok Waiting ?k" by (simp add: current_ok_def)
  ultimately have "sched_ok D Waiting ?k" by (simp add: sched_ok_def)
  then show "mid D Waiting fs ?k"
    by (intro mid_current [OF m, where r' = "r\<lparr>tstatus := READY\<rparr>"]) (use s r in auto)
qed

text \<open>The current thread blocks in the queue of a semaphore.\<close>

lemma mid_blocked:
  assumes m: "mid D Running fs k" and r: "threads k (currentThread k) = Some r" and e: "sems k s = Some sem"
  shows "mid D Waiting fs (k\<lparr>threads := (threads k)(currentThread k \<mapsto> r\<lparr>tstatus := BLOCKED\<rparr>),
      sems := (sems k)(s \<mapsto> sem\<lparr>semQueue := semQueue sem @ [currentThread k]\<rparr>)\<rparr>)"
    and "currentThread k \<notin> set (semQueue sem)"
proof -
  let ?c = "currentThread k" and ?k = "k\<lparr>threads := (threads k)(currentThread k \<mapsto> r\<lparr>tstatus := BLOCKED\<rparr>),
      sems := (sems k)(s \<mapsto> sem\<lparr>semQueue := semQueue sem @ [currentThread k]\<rparr>)\<rparr>"
  have s: "sched_ok D Running k" "hw_ok D k" "toBeDestroyed k = None" "frames r = fs" using m r by (auto simp: mid_def cur_def)
  have cs: "status k ?c = Some RUNNING" using s(1) by (simp add: sched_defs)
  have st: "status ?k t = (if t = ?c then Some BLOCKED else status k t)" for t by (simp add: status_def)
  have n: "?c \<notin> set (readyList k)" using s(1) cs by (auto simp: sched_ok_def ready_ok_def)
  have dq: "\<And>s sem. sems k s = Some sem \<Longrightarrow> ?c \<notin> set (semQueue sem)" using s(1) cs by (fastforce simp: sched_ok_def queues_ok_def)
  show "?c \<notin> set (semQueue sem)" by (rule dq [OF e])
  have iq: "in_queue ?k t \<longleftrightarrow> in_queue k t \<or> t = ?c" for t
    using e by (auto simp: in_queue_def split: if_splits) (metis option.inject)
  have qk: "queues_ok k" using s(1) by (simp add: sched_ok_def)
  have "ready_ok ?k" using s(1) n by (auto simp: sched_ok_def ready_ok_def st)
  moreover have "queues_ok ?k"
  proof (rule queues_update [OF qk, of _ s "sem\<lparr>semQueue := semQueue sem @ [?c]\<rparr>"])
    fix u sm t assume u: "u \<noteq> s" "sems k u = Some sm" "t \<in> set (semQueue sm)"
    then have "t \<noteq> ?c" using dq by blast
    then show "status ?k t = Some BLOCKED \<and> t \<notin> set (semQueue (sem\<lparr>semQueue := semQueue sem @ [?c]\<rparr>))"
      using queue_facts(3,4) [OF qk u(2)] u e by (simp add: st)
  qed (use queue_facts(1-3) [OF qk e] dq [OF e] in \<open>auto simp: st\<close>)
  moreover have "objects_ok D ?k" using s(1) r e by (auto simp: sched_ok_def objects_ok_def)
  moreover have "none_lost ?k" using s(1,3) by (auto simp: sched_ok_def none_lost_def iq)
  moreover have "current_ok Waiting ?k" by (simp add: current_ok_def iq)
  ultimately have "sched_ok D Waiting ?k" by (simp add: sched_ok_def)
  then show "mid D Waiting fs ?k"
    by (intro mid_current [OF m, where r' = "r\<lparr>tstatus := BLOCKED\<rparr>"]) (use s r in auto)
qed

text \<open>The current thread is finished.\<close>

lemma mid_finishing:
  assumes m: "mid D Running fs k" and r: "threads k (currentThread k) = Some r"
  shows "mid D Finishing fs (k\<lparr>threads := (threads k)(currentThread k \<mapsto> r\<lparr>tstatus := BLOCKED\<rparr>)\<rparr>)"
proof -
  let ?c = "currentThread k" and ?k = "k\<lparr>threads := (threads k)(currentThread k \<mapsto> r\<lparr>tstatus := BLOCKED\<rparr>)\<rparr>"
  have s: "sched_ok D Running k" "hw_ok D k" "toBeDestroyed k = None" "frames r = fs" using m r by (auto simp: mid_def cur_def)
  have cs: "status k ?c = Some RUNNING" using s(1) by (simp add: sched_defs)
  have st: "status ?k t = (if t = ?c then Some BLOCKED else status k t)" for t by (simp add: status_def)
  have iq: "in_queue ?k = in_queue k" by (simp add: in_queue_def fun_eq_iff)
  have n: "?c \<notin> set (readyList k)" using s(1) cs by (auto simp: sched_ok_def ready_ok_def)
  have dq: "\<And>s sem. sems k s = Some sem \<Longrightarrow> ?c \<notin> set (semQueue sem)" using s(1) cs by (fastforce simp: sched_ok_def queues_ok_def)
  have "ready_ok ?k" using s(1) n by (auto simp: sched_ok_def ready_ok_def st)
  moreover have "queues_ok ?k" using s(1) dq by (auto simp: sched_ok_def queues_ok_def st)
  moreover have "objects_ok D ?k" using s(1) r by (auto simp: sched_ok_def objects_ok_def)
  moreover have "none_lost ?k" using s(1,3) by (auto simp: sched_ok_def none_lost_def iq)
  moreover have "current_ok Finishing ?k" using dq by (auto simp: current_ok_def st in_queue_def)
  ultimately have "sched_ok D Finishing ?k" by (simp add: sched_ok_def)
  then show ?thesis
    by (intro mid_current [OF m, where r' = "r\<lparr>tstatus := BLOCKED\<rparr>"]) (use s r in auto)
qed

text \<open>Semaphores change their values, come and go.\<close>

lemma mid_sems:
  assumes m: "mid D Running fs k" and "0 \<le> v" and "sems k s = Some sem"
  shows "mid D Running fs (k\<lparr>sems := (sems k)(s \<mapsto> sem\<lparr>semValue := v\<rparr>)\<rparr>)"
proof -
  let ?k = "k\<lparr>sems := (sems k)(s \<mapsto> sem\<lparr>semValue := v\<rparr>)\<rparr>"
  have s: "sched_ok D Running k" using m by (simp add: mid_def)
  have st: "status ?k = status k" by (simp add: status_def fun_eq_iff)
  have iq: "in_queue ?k = in_queue k" using assms(3) by (auto simp: in_queue_def fun_eq_iff split: if_splits) (metis option.inject)
  have qk: "queues_ok k" using s by (simp add: sched_ok_def)
  have "queues_ok ?k"
  proof (rule queues_update [OF qk, of _ s "sem\<lparr>semValue := v\<rparr>"])
    fix u sm t assume u: "u \<noteq> s" "sems k u = Some sm" "t \<in> set (semQueue sm)"
    then show "status ?k t = Some BLOCKED \<and> t \<notin> set (semQueue (sem\<lparr>semValue := v\<rparr>))"
      using queue_facts(3,4) [OF qk u(2)] assms(3) by (simp add: st)
  qed (use queue_facts(1-3) [OF qk assms(3)] assms(2) in \<open>auto simp: st\<close>)
  then have "sched_ok D Running ?k" using s assms(3) by (auto simp: sched_ok_def ready_ok_def objects_ok_def none_lost_def current_ok_def st iq)
  then show ?thesis using m by (auto simp: mid_def others_ok_def cur_def loaded_def)
qed

lemma mid_new_sem:
  assumes m: "mid D Running fs k" and "0 \<le> v" and k': "k' = k\<lparr>sems := (sems k)(brk_obj k \<mapsto> \<lparr>semValue = v, semQueue = []\<rparr>), brk_obj := Suc (brk_obj k)\<rparr>"
  shows "mid D Running fs k'"
proof -
  have s: "sched_ok D Running k" using m by (simp add: mid_def)
  then have f: "sems k (brk_obj k) = None" by (auto simp: sched_ok_def objects_ok_def)
  have e: "sems k' = (sems k)(brk_obj k \<mapsto> \<lparr>semValue = v, semQueue = []\<rparr>)" "readyList k' = readyList k" "currentThread k' = currentThread k"
    "toBeDestroyed k' = toBeDestroyed k" "threads k' = threads k" "brk_obj k' = Suc (brk_obj k)" by (simp_all add: k')
  have st: "status k' = status k" by (simp add: status_def fun_eq_iff e)
  have iq: "in_queue k' = in_queue k" using f by (auto simp: in_queue_def fun_eq_iff e split: if_splits) (metis option.distinct(1))
  have qk: "queues_ok k" using s by (simp add: sched_ok_def)
  have "queues_ok k'"
    by (rule queues_update [OF qk e(1)]) (use queue_facts(3) [OF qk] assms(2) in \<open>simp_all add: st\<close>)
  moreover have "objects_ok D k'" using s unfolding sched_ok_def objects_ok_def e by (auto simp: less_SucI)
  ultimately have "sched_ok D Running k'"
    using s by (simp add: sched_ok_def ready_ok_def none_lost_def current_ok_def st iq e)
  then show ?thesis using m by (simp add: mid_def others_ok_def cur_def loaded_def k')
qed

lemma mid_delete_sem:
  assumes m: "mid D Running fs k" and "s \<notin> D" and q: "\<And>sem. sems k s = Some sem \<Longrightarrow> semQueue sem = []"
  shows "mid D Running fs (k\<lparr>sems := (sems k)(s := None)\<rparr>)"
proof -
  let ?k = "k\<lparr>sems := (sems k)(s := None)\<rparr>"
  have s: "sched_ok D Running k" using m by (simp add: mid_def)
  have st: "status ?k = status k" by (simp add: status_def fun_eq_iff)
  have iq: "in_queue ?k = in_queue k" using q by (auto simp: in_queue_def fun_eq_iff) force
  have "queues_ok ?k" using s unfolding sched_ok_def queues_ok_def by (auto simp: st)
  then have "sched_ok D Running ?k"
    using s assms(2) by (auto simp: sched_ok_def ready_ok_def objects_ok_def none_lost_def current_ok_def st iq)
  then show ?thesis using m by (auto simp: mid_def others_ok_def cur_def loaded_def)
qed

lemma mid_woken:
  assumes m: "mid D Running fs k" and e: "sems k s = Some sem"
  shows "mid D Running fs (woken s k)"
proof (rule mid_handled [OF m])
  show "handler_inv D Running (info k) (woken s k)"
    using m sched_woken [OF _ e, of D Running] by (simp add: mid_def handler_inv_def hw_ok_def)
  show "hw_ok D (woken s k)" using m by (simp add: mid_def)
qed simp_all

text \<open>A new thread joins the ready list.\<close>

lemma mid_fork:
  assumes m: "mid D Running fs k" and w: "wf_on (func @ [Finish])" and u: "RunUser \<notin> set func"
  shows "mid D Running fs (k\<lparr>threads := (threads k)(brk_obj k \<mapsto> \<lparr>tstatus = READY, frames = Begin # func @ [Finish],
      userRegisters = replicate NumTotalRegs 0, space = None, returned = 0\<rparr>), brk_obj := Suc (brk_obj k), readyList := readyList k @ [brk_obj k]\<rparr>)"
proof -
  let ?n = "brk_obj k" and ?r = "\<lparr>tstatus = READY, frames = Begin # func @ [Finish], userRegisters = replicate NumTotalRegs 0, space = None, returned = 0\<rparr>"
  let ?k = "k\<lparr>threads := (threads k)(?n \<mapsto> ?r), brk_obj := Suc (brk_obj k), readyList := readyList k @ [?n]\<rparr>"
  obtain r where r: "threads k (currentThread k) = Some r" "frames r = fs" "hw_ok D k" "sched_ok D Running k" "toBeDestroyed k = None"
    by (rule midE [OF m])
  note s = r(4)
  have f: "threads k ?n = None" "currentThread k \<noteq> ?n" using s r(1) by (auto simp: sched_ok_def objects_ok_def)
  have st: "status ?k t = (if t = ?n then Some READY else status k t)" for t by (simp add: status_def)
  have fs: "status k ?n = None" using f by (simp add: status_def)
  have iq: "in_queue ?k = in_queue k" by (simp add: in_queue_def fun_eq_iff)
  have n: "?n \<notin> set (readyList k)" using s fs by (auto simp: sched_ok_def ready_ok_def)
  have dq: "\<And>s sem. sems k s = Some sem \<Longrightarrow> ?n \<notin> set (semQueue sem)" using s fs by (fastforce simp: sched_ok_def queues_ok_def)
  have "ready_ok ?k" using s n by (auto simp: sched_ok_def ready_ok_def st)
  moreover have "queues_ok ?k" using s dq by (auto simp: sched_ok_def queues_ok_def st)
  moreover have "objects_ok D ?k" using s by (auto simp: sched_ok_def objects_ok_def less_SucI)
  moreover have "none_lost ?k" using s r(5) by (auto simp: sched_ok_def none_lost_def iq)
  moreover have "current_ok Running ?k" using s f by (simp add: sched_ok_def current_ok_def st)
  ultimately have "sched_ok D Running ?k" by (simp add: sched_ok_def)
  moreover have "suspended ?r" using w u by (auto simp: suspended_def space_ok_def)
  ultimately show ?thesis
    by (intro mid_current [OF m, where r' = r]) (use r f in auto)
qed

section \<open>The routines keep the invariant\<close>

lemma mid_pushed:
  assumes "mid D cm fs k" and "RunUser \<notin> set gs" and "push gs k = Inr k'"
  shows "mid D cm (gs @ fs) k'" "level k' = level k"
  using mid_push [OF assms(1), of gs] assms(2,3) by auto

lemma kernel_sleeping:
  assumes "mid D (if finishing then Finishing else Waiting) fs k" and "push (Sleep_loop finishing # gs) k = Inr k'" and "level k = IntOff"
    and "RunUser \<notin> set gs" and "\<not> finishing \<Longrightarrow> cont_off (gs @ fs)"
  shows "kernel_ok D k'"
proof (rule mid_kernel_ok)
  show "mid D (mode_of (Sleep_loop finishing)) (Sleep_loop finishing # gs @ fs) k'"
    using mid_pushed(1) [OF assms(1) _ assms(2)] assms(4) by simp
  show "wf_frames (level k') (Sleep_loop finishing # gs @ fs)"
    using mid_pushed(2) [OF assms(1) _ assms(2)] assms(3,4,5) by (cases finishing) (auto simp: wf_off_def)
qed simp

lemma Yield_run:
  assumes m: "mid D Running fs k" and w: "wf_on fs" and l: "level k = IntOn"
  shows "\<exists>k'. Thread_Yield k = Inr k' \<and> kernel_ok D k' \<and>
    (\<forall>t ts. readyList k = t # ts \<longrightarrow> currentThread k' = t \<and> readyList k' = ts @ [currentThread k])"
proof (cases "readyList k")
  case Nil
  obtain k' where "set_level IntOn (k\<lparr>level := IntOff\<rparr>) = Inr k'" "kernel_ok D k'"
    using set_level_on [of D fs "k\<lparr>level := IntOff\<rparr>"] m w by auto
  then show ?thesis using Nil l by (simp add: Thread_Yield_def FindNextToRun_def)
next
  case (Cons t ts)
  let ?c = "currentThread k" and ?k = "k\<lparr>level := IntOff\<rparr>"
  have m1: "mid D Running fs ?k" using m by simp
  obtain k1 where p: "push [Yield_end IntOn] ?k = Inr k1" and m2: "mid D Running (Yield_end IntOn # fs) k1" and lv: "level k1 = IntOff"
    and e: "currentThread k1 = ?c" "readyList k1 = t # ts"
    using mid_push [OF m1, of "[Yield_end IntOn]"] Cons by auto
  obtain r where r: "threads k1 ?c = Some r" using m2 e by (auto simp: mid_def cur_def)
  let ?k2 = "k1\<lparr>threads := (threads k1)(?c \<mapsto> r\<lparr>tstatus := READY\<rparr>), readyList := readyList k1 @ [?c]\<rparr>"
  have m3: "mid D Waiting (Yield_end IntOn # fs) ?k2" and n: "?c \<notin> set (readyList k1)"
    using mid_ready [OF m2, of r] r e by simp_all
  have co: "cont_off (Yield_end IntOn # fs)" using w by (simp add: cont_off_def)
  obtain k' where k': "Scheduler_Run t False (?k2\<lparr>readyList := ts @ [?c]\<rparr>) = Inr k'" "kernel_ok D k'" "currentThread k' = t" "readyList k' = ts @ [?c]"
    using dispatch [of D False "Yield_end IntOn # fs" ?k2 t "ts @ [?c]"] m3 lv e co by auto
  have p2: "push [Yield_end IntOn] (?k\<lparr>readyList := ts\<rparr>) = Inr (k1\<lparr>readyList := ts\<rparr>)"
    using p by (auto simp: push_def upd_thread_def obj_def rbind_eq_Inr split: option.splits)
  have "Thread_Yield k = Scheduler_Run t False (?k2\<lparr>readyList := ts @ [?c]\<rparr>)"
    using l Cons p2 lv e r n
    by (simp add: Thread_Yield_def FindNextToRun_def list_RemoveFront_def ReadyToRun_def upd_thread_def obj_def list_Append_def)
  then show ?thesis using k' Cons by simp
qed

lemma push_stats: "push gs k = Inr k' \<Longrightarrow> stats k' = stats k"
  by (auto simp: push_def upd_thread_def rbind_eq_Inr)

lemma Sleep_loop_cases:
  assumes m: "mid D (if finishing then Finishing else Waiting) fs k" and l: "level k = IntOff" and c: "\<not> finishing \<Longrightarrow> cont_off fs"
  shows "readyList k = t # ts \<Longrightarrow> \<exists>k'. Thread_Sleep_loop finishing k = Inr k' \<and> kernel_ok D k' \<and> currentThread k' = t \<and> readyList k' = ts"
    and "readyList k = [] \<Longrightarrow> pendingList k = [] \<Longrightarrow> Thread_Sleep_loop finishing k = Inl Halt"
    and "readyList k = [] \<Longrightarrow> pendingList k = p # ps \<Longrightarrow>
      \<exists>k'. Thread_Sleep_loop finishing k = Inr k' \<and> kernel_ok D k' \<and> now k' = max (now k) (when p)"
proof -
  assume "readyList k = t # ts"
  then show "\<exists>k'. Thread_Sleep_loop finishing k = Inr k' \<and> kernel_ok D k' \<and> currentThread k' = t \<and> readyList k' = ts"
    using dispatch [OF m l _ c] l by (auto simp: Thread_Sleep_loop_def FindNextToRun_def list_RemoveFront_def)
next
  let ?cm = "if finishing then Finishing else Waiting" and ?k = "k\<lparr>mstatus := IdleMode\<rparr>"
  assume Nil: "readyList k = []"
  have h: "handler_inv D ?cm (info k) ?k" "clock_ok ?k" "level ?k = IntOff" "\<not> inHandler ?k" "cpu_ok ?k" "pend_ok (device D) ?k"
    using m l by (simp_all add: mid_def handler_inv_def hw_ok_def clock_ok_def cpu_ok_def reg_def)
  from hw.CheckIfDue_ok [OF h, of True] obtain s where s: "CheckIfDue CallBack True ?k = Inr (pendingList k \<noteq> [], s)"
    "handler_inv D ?cm (info k) s" "clock_ok s" "level s = IntOff" "\<not> inHandler s" "cpu_ok s" "pend_ok (device D) s"
    "pageTable s = pageTable k" "pageTableSize s = pageTableSize k"
    "now s = (if pendingList k \<noteq> [] then max (now k) (when (hd (pendingList k))) else now k)" by auto
  have e: "Thread_Sleep_loop finishing k = rbind (if pendingList k \<noteq> [] then Inr (s\<lparr>mstatus := SystemMode\<rparr>) else Inl Halt) (push [Sleep_loop finishing])"
    using Nil l s(1) by (simp add: Thread_Sleep_loop_def FindNextToRun_def Idle_def)
  show "Thread_Sleep_loop finishing k = Inl Halt" if "pendingList k = []" using e that by simp
  assume p: "pendingList k = p # ps"
  have ms: "mid D ?cm fs s"
    by (rule mid_handled [OF m s(2) _ s(8,9)]) (use s in \<open>simp add: hw_ok_def handler_inv_def\<close>)
  then have m2: "mid D ?cm fs (s\<lparr>mstatus := SystemMode\<rparr>)" by simp
  obtain k' where k': "push [Sleep_loop finishing] (s\<lparr>mstatus := SystemMode\<rparr>) = Inr k'" using mid_push [OF m2, of "[Sleep_loop finishing]"] by auto
  have "kernel_ok D k'" by (rule kernel_sleeping [OF m2 k']) (use s(4) c in simp_all)
  then show "\<exists>k'. Thread_Sleep_loop finishing k = Inr k' \<and> kernel_ok D k' \<and> now k' = max (now k) (when p)"
    using p e k' s(10) push_stats [OF k'] by simp
qed

lemma Sleep_loop_run:
  assumes m: "mid D (if finishing then Finishing else Waiting) fs k" and l: "level k = IntOff" and c: "\<not> finishing \<Longrightarrow> cont_off fs"
  shows "safe (if readyList k = [] \<and> pendingList k = [] then {Halt} else {}) (kernel_ok D) (Thread_Sleep_loop finishing k)"
  using Sleep_loop_cases [OF assms] by (cases "readyList k"; cases "pendingList k") auto

lemma P_loop_run:
  assumes m: "mid D Running fs k" and w: "wf_on fs" and l: "level k = IntOff" and e: "sems k s = Some sem"
  shows "\<exists>k'. Semaphore_P_loop s IntOn k = Inr k' \<and> kernel_ok D k'"
proof (cases "semValue sem = 0")
  case True
  let ?c = "currentThread k" and ?q = "semQueue sem @ [currentThread k]"
  obtain r where r: "threads k ?c = Some r" "frames r = fs" by (rule midE [OF m])
  let ?k = "k\<lparr>threads := (threads k)(?c \<mapsto> r\<lparr>tstatus := BLOCKED\<rparr>), sems := (sems k)(s \<mapsto> sem\<lparr>semQueue := ?q\<rparr>)\<rparr>"
  have m2: "mid D (if False then Finishing else Waiting) fs ?k" and n: "?c \<notin> set (semQueue sem)"
    using mid_blocked [OF m r(1) e] by simp_all
  obtain k' where p: "push (Sleep_loop False # [SemP_loop s IntOn]) ?k = Inr k'" using mid_push [OF m2, of "[Sleep_loop False, SemP_loop s IntOn]"] by auto
  have "kernel_ok D k'" by (rule kernel_sleeping [OF m2 p]) (use l w in \<open>simp_all add: cont_off_def\<close>)
  moreover have "Semaphore_P_loop s IntOn k = push (Sleep_loop False # [SemP_loop s IntOn]) ?k"
    using True e n l r by (simp add: Semaphore_P_loop_def obj_def list_Append_def push_def upd_thread_def Thread_Sleep_def)
  ultimately show ?thesis using p by simp
next
  case False
  have "0 \<le> semValue sem" using m e by (auto simp: mid_def sched_ok_def dest: queue_facts(1))
  then have "mid D Running fs (k\<lparr>sems := (sems k)(s \<mapsto> sem\<lparr>semValue := semValue sem - 1\<rparr>)\<rparr>)" using False by (intro mid_sems [OF m _ e]) simp
  from set_level_on [OF this w] l False e show ?thesis by (simp add: Semaphore_P_loop_def obj_def)
qed

lemma P_run:
  assumes "mid D Running fs k" and "wf_on fs" and "level k = IntOn" and "sems k s = Some sem"
  shows "\<exists>k'. Semaphore_P s k = Inr k' \<and> kernel_ok D k'"
  using P_loop_run [of D fs "k\<lparr>level := IntOff\<rparr>" s sem] assms by (simp add: Semaphore_P_def)

lemma V_run:
  assumes m: "mid D Running fs k" and w: "wf_on fs" and l: "level k = IntOn" and e: "sems k s = Some sem"
  shows "\<exists>k'. Semaphore_V s k = Inr k' \<and> kernel_ok D k'"
proof -
  let ?k = "k\<lparr>level := IntOff\<rparr>"
  have m1: "mid D Running fs ?k" using m by simp
  have "V_body s ?k = Inr (woken s ?k)" using m1 e by (intro V_body_eq [of D Running]) (simp_all add: mid_def)
  moreover have "mid D Running fs (woken s ?k)" using e by (intro mid_woken [OF m1]) simp
  ultimately show ?thesis using set_level_on [of D fs "woken s ?k"] w l by (simp add: Semaphore_V_def)
qed

lemma Finish_run:
  assumes m: "mid D Running fs k"
  shows "\<exists>k'. Thread_Finish k = Inr k' \<and> kernel_ok D k'"
proof -
  let ?k = "k\<lparr>level := IntOff\<rparr>"
  have m1: "mid D Running fs ?k" using m by simp
  obtain r where r: "threads ?k (currentThread ?k) = Some r" by (rule midE [OF m1])
  let ?k2 = "?k\<lparr>threads := (threads ?k)(currentThread ?k \<mapsto> r\<lparr>tstatus := BLOCKED\<rparr>)\<rparr>"
  have m2: "mid D (if True then Finishing else Waiting) fs ?k2" using mid_finishing [OF m1 r] by simp
  obtain k' where p: "push (Sleep_loop True # []) ?k2 = Inr k'" using mid_push [OF m2, of "[Sleep_loop True]"] by auto
  have "kernel_ok D k'" by (rule kernel_sleeping [OF m2 p]) simp_all
  then show ?thesis using p r by (simp add: Thread_Finish_def Thread_Sleep_def upd_thread_def obj_def)
qed

lemma Fork_run:
  assumes m: "mid D Running fs k" and w: "wf_on fs" and l: "level k = IntOn" and f: "on_frame (Fork func)"
  shows "\<exists>k'. exec_frame (Fork func) k = Inr k' \<and> kernel_ok D k'"
proof -
  let ?n = "brk_obj k" and ?r = "\<lparr>tstatus = READY, frames = Begin # func @ [Finish], userRegisters = replicate NumTotalRegs 0, space = None, returned = 0\<rparr>"
  let ?k = "k\<lparr>brk_obj := Suc ?n, level := IntOff, threads := (threads k)(?n \<mapsto> ?r), readyList := readyList k @ [?n]\<rparr>"
  have wf: "wf_on (func @ [Finish])" using f by (induction func) auto
  have u: "RunUser \<notin> set func" using f by auto
  have s: "sched_ok D Running k" using m by (simp add: mid_def)
  have n: "?n \<notin> set (readyList k)"
  proof
    assume "?n \<in> set (readyList k)"
    then have "status k ?n \<noteq> None" using s by (auto simp: sched_ok_def ready_ok_def)
    then show False using s by (auto simp: status_def sched_ok_def objects_ok_def)
  qed
  have "mid D Running fs (k\<lparr>threads := (threads k)(?n \<mapsto> ?r), brk_obj := Suc ?n, readyList := readyList k @ [?n]\<rparr>\<lparr>level := IntOff\<rparr>)"
    using mid_fork [OF m wf u] by (simp only: mid_neutral)
  moreover have "k\<lparr>threads := (threads k)(?n \<mapsto> ?r), brk_obj := Suc ?n, readyList := readyList k @ [?n]\<rparr>\<lparr>level := IntOff\<rparr> = ?k" by simp
  ultimately have "mid D Running fs ?k" by (simp only:)
  then obtain k' where k': "set_level IntOn ?k = Inr k'" "kernel_ok D k'" using set_level_on [of D fs ?k] w by auto
  have "exec_frame (Fork func) k = set_level IntOn ?k"
    using l n by (simp add: Thread_new_def Thread_Fork_def StackAllocate_def upd_thread_def obj_def ReadyToRun_def list_Append_def Let_def)
  then show ?thesis using k' by simp
qed

text \<open>The rest of \<open>Run\<close> and \<open>Begin\<close> destroy a thread that finished.\<close>

lemma destroy_ok:
  assumes "hw_ok D k" and "others_ok k" and s: "sched_ok D Running k"
  shows "\<exists>k'. CheckToBeDestroyed k = Inr k' \<and> hw_ok D k' \<and> others_ok k' \<and> sched_ok D Running k' \<and> toBeDestroyed k' = None \<and>
    currentThread k' = currentThread k \<and> cur k' = cur k \<and> pageTable k' = pageTable k \<and> pageTableSize k' = pageTableSize k \<and>
    level k' = level k"
proof (cases "toBeDestroyed k")
  case None
  then show ?thesis using assms by (simp add: CheckToBeDestroyed_def)
next
  case (Some u)
  define k' where "k' = k\<lparr>threads := (threads k)(u := None), toBeDestroyed := None\<rparr>"
  have e: "sems k' = sems k" "readyList k' = readyList k" "currentThread k' = currentThread k" "toBeDestroyed k' = None"
    "threads k' = (threads k)(u := None)" "brk_obj k' = brk_obj k" by (simp_all add: k'_def)
  have u: "u \<noteq> currentThread k" "status k u = Some BLOCKED" "\<not> in_queue k u" using s Some by (auto simp: sched_ok_def none_lost_def)
  have st: "status k' t = (if t = u then None else status k t)" for t by (simp add: k'_def status_def)
  have iq: "in_queue k' = in_queue k" by (simp add: in_queue_def k'_def fun_eq_iff)
  have nr: "u \<notin> set (readyList k)" using s u(2) by (auto simp: sched_ok_def ready_ok_def)
  have nq: "sems k a = Some sem \<Longrightarrow> u \<notin> set (semQueue sem)" for a sem using u(3) by (auto simp: in_queue_def)
  have "ready_ok k'" using s nr by (auto simp: sched_ok_def ready_ok_def st e)
  moreover have "queues_ok k'" using s nq by (auto simp: sched_ok_def queues_ok_def st e)
  moreover have "objects_ok D k'" using s by (auto simp: sched_ok_def objects_ok_def e)
  moreover have "none_lost k'" using s Some by (auto simp: sched_ok_def none_lost_def iq e)
  moreover have "current_ok Running k'" using s u(1) st [of "currentThread k"] by (simp add: sched_ok_def current_ok_def e)
  ultimately have "sched_ok D Running k'" by (simp add: sched_ok_def)
  moreover have "others_ok k'" using assms(2) Some by (auto simp: others_ok_def k'_def split: if_splits)
  moreover have "CheckToBeDestroyed k = Inr k'" using Some u(1) by (simp add: CheckToBeDestroyed_def k'_def)
  ultimately show ?thesis using assms(1) u(1) by (auto simp: k'_def cur_def)
qed

lemma Begin_run:
  assumes "hw_ok D k" and "others_ok k" and "sched_ok D Running k" and "cur k = Some r" and "frames r = fs" and "space_ok r" and "loaded k r"
    and w: "wf_on fs" and l: "level k = IntOff"
  shows "\<exists>k'. Thread_Begin k = Inr k' \<and> kernel_ok D k'"
proof -
  obtain k1 where k1: "CheckToBeDestroyed k = Inr k1" "hw_ok D k1" "others_ok k1" "sched_ok D Running k1" "toBeDestroyed k1 = None"
    "cur k1 = cur k" "pageTable k1 = pageTable k" "pageTableSize k1 = pageTableSize k" "level k1 = level k"
    using destroy_ok [OF assms(1-3)] by blast
  have "mid D Running fs k1" using k1 assms by (auto simp: mid_def loaded_def)
  from set_level_on [OF this w] k1 l show ?thesis by (simp add: Thread_Begin_def)
qed

lemma Run_back_run:
  assumes "hw_ok D k" and "others_ok k" and "sched_ok D Running k" and r: "cur k = Some r" "frames r = fs" "space_ok r"
    and g: "space r \<noteq> None \<longrightarrow> regs_ok (userRegisters r)" and c: "cont_off fs" and l: "level k = IntOff"
  shows "\<exists>k'. Scheduler_Run_back k = Inr k' \<and> kernel_ok D k'"
proof -
  obtain k1 where k1: "CheckToBeDestroyed k = Inr k1" "hw_ok D k1" "others_ok k1" "sched_ok D Running k1" "toBeDestroyed k1 = None"
    "cur k1 = cur k" "level k1 = level k" using destroy_ok [OF assms(1-3)] by blast
  define k2 where "k2 = (case space r of None \<Rightarrow> k1 | Some sp \<Rightarrow> AddrSpace_RestoreState sp (RestoreUserState r k1))"
  have run: "Scheduler_Run_back k = Inr k2" using k1 l r by (simp add: Scheduler_Run_back_def cur_def obj_def k2_def)
  have "mid D Running fs k2"
  proof (cases "space r")
    case None
    then show ?thesis using k1 r by (simp add: k2_def mid_def loaded_def)
  next
    case (Some sp)
    have "hw_ok D k2" using Some k1(2) g
      by (simp add: k2_def AddrSpace_RestoreState_def RestoreUserState_def hw_ok_def clock_ok_def cpu_ok_def reg_def regs_ok_def pend_ok_def)
    then show ?thesis using Some k1 r
      by (auto simp: k2_def AddrSpace_RestoreState_def RestoreUserState_def mid_def loaded_def others_ok_def cur_def space_ok_def)
  qed
  moreover have "level k2 = IntOff" using k1 l by (simp add: k2_def AddrSpace_RestoreState_def RestoreUserState_def split: option.splits)
  moreover obtain f rest where "fs = f # rest" "wf_on rest" "f = Yield_end IntOn \<or> (\<exists>s. f = SemP_loop s IntOn)" using c by (auto simp: cont_off_def)
  ultimately have "kernel_ok D k2" using c by (intro mid_kernel_ok [of D f rest]) (auto simp: wf_off_def)
  then show ?thesis using run by blast
qed

section \<open>User programs\<close>

lemma kernel_more:
  assumes "sysenv.more k' = sysenv.more (k :: kernel)"
  shows "level k' = level k" "pendingList k' = pendingList k" "inHandler k' = inHandler k" "brk_int k' = brk_int k" "threads k' = threads k"
    "currentThread k' = currentThread k" "readyList k' = readyList k" "toBeDestroyed k' = toBeDestroyed k" "sems k' = sems k" "brk_obj k' = brk_obj k"
  using assms by (cases k; cases k'; simp)+

lemma sched_fields:
  assumes "threads k' = threads k" "currentThread k' = currentThread k" "readyList k' = readyList k" "toBeDestroyed k' = toBeDestroyed k"
    "sems k' = sems k" "brk_obj k' = brk_obj k"
  shows "sched_ok D cm k' = sched_ok D cm k" "others_ok k' = others_ok k"
  using assms by (simp_all add: sched_defs status_def in_queue_def others_ok_def cong: cmode.case_cong)

lemma run_user_run:
  assumes m: "mid D Running fs k" and w: "wf_on fs" and sp: "\<exists>r. cur k = Some r \<and> space r \<noteq> None"
  shows "safe UNIV (kernel_ok D) (run_user k)"
proof -
  obtain r where r: "threads k (currentThread k) = Some r" "frames r = fs" "space_ok r" "loaded k r" "hw_ok D k" "others_ok k"
    "sched_ok D Running k" "toBeDestroyed k = None" by (rule midE [OF m])
  obtain s where s: "space r = Some s" using sp r(1) by (auto simp: cur_def)
  obtain pt where pt: "pageTable k = Some pt" "pageTableSize k = numPages s" "unat (numPages s) \<le> length pt"
    using r(4) s by (auto simp: loaded_def)
  have mo: "machine_ok k" using r(5) pt by (simp add: hw_ok_def cpu_ok_def machine_ok_def)
  have i: "sys_inv (entropy k) (sysenv.more k) (machine.more k)" using r(5) by (simp add: sys_inv_more hw_ok_def)
  show ?thesis
    unfolding run_user_def
  proof (rule safe_rbind [OF safe_weaken [OF eh.OneInstruction_safe [OF mo i] subset_UNIV]], elim conjE)
    fix k1 assume a: "machine_ok k1" "reg 0 k1 = 0" "same_space k k1" "sys_inv (entropy k) (sysenv.more k) (machine.more k1)"
    have b: "sys_ok k1" "entropy k1 = entropy k" "sysenv.more k1 = sysenv.more k" using a(4) by (simp_all add: sys_inv_more)
    note e = kernel_more [OF b(3)]
    have t: "tlb k1 = None" "pageTableSize k1 = pageTableSize k" using a(3) r(5) by (simp_all add: same_space_def hw_ok_def cpu_ok_def)
    then obtain pt1 where pt1: "pageTable k1 = Some pt1" "unat (pageTableSize k1) \<le> length pt1" using a(1) by (auto simp: machine_ok_def)
    have "hw_ok D k1" using r(5) a(1,2) b t e by (simp add: hw_ok_def clock_ok_def cpu_ok_def machine_ok_def pend_ok_def)
    then have m1: "mid D Running fs k1"
      using r s pt t pt1 e sched_fields [of k1 k] by (auto simp: mid_def cur_def loaded_def)
    have "\<exists>r. cur k1 = Some r \<and> space r \<noteq> None" using r(1) s e by (simp add: cur_def)
    then obtain k2 where k2: "push [RunUser] k1 = Inr k2" "mid D Running (RunUser # fs) k2" using mid_push [OF m1, of "[RunUser]"] by auto
    from tick_ok [OF k2(2), of "mstatus k2"] w k2(1)
    show "safe UNIV (kernel_ok D) (rbind (push [RunUser] k1) (\<lambda>k2. after_tick (mstatus k2) (OneTick CallBack k2)))" by auto
  qed
qed

lemma InitRegisters_regs:
  assumes "length (registers m) = NumTotalRegs"
  shows "\<exists>ws. AddrSpace_InitRegisters sp m = Inr (m\<lparr>registers := ws\<rparr>) \<and> regs_ok ws"
  using InitRegisters_ok [OF assms, of sp] by (auto simp: regs_ok_def init_regs_def reg_names)

lemma Execute_run:
  assumes m: "mid D Running fs k" and w: "wf_on fs" and l: "level k = IntOn" and sp: "unat (numPages sp) \<le> length (spaceTable sp)"
  shows "\<exists>k'. start_user sp k = Inr k' \<and> kernel_ok D k'"
proof -
  obtain r where r: "threads k (currentThread k) = Some r" "frames r = fs" "space_ok r" "loaded k r" "hw_ok D k" "others_ok k"
    "sched_ok D Running k" "toBeDestroyed k = None" by (rule midE [OF m])
  let ?th = "(threads k)(currentThread k \<mapsto> r\<lparr>space := Some sp\<rparr>)"
  obtain ws where ws: "AddrSpace_InitRegisters sp (k\<lparr>threads := ?th\<rparr>) = Inr (k\<lparr>threads := ?th\<rparr>\<lparr>registers := ws\<rparr>)" "regs_ok ws"
    using InitRegisters_regs [of "k\<lparr>threads := ?th\<rparr>" sp] r(5) by (auto simp: hw_ok_def cpu_ok_def)
  define k1 where "k1 = (AddrSpace_RestoreState sp (k\<lparr>threads := ?th\<rparr>\<lparr>registers := ws\<rparr>))\<lparr>mstatus := UserMode\<rparr>"
  have e: "threads k1 = ?th" "currentThread k1 = currentThread k" "readyList k1 = readyList k" "toBeDestroyed k1 = None"
    "sems k1 = sems k" "brk_obj k1 = brk_obj k" "pageTable k1 = Some (spaceTable sp)" "pageTableSize k1 = numPages sp" "level k1 = IntOn"
    using r(8) l by (simp_all add: k1_def AddrSpace_RestoreState_def)
  have st: "status k1 = status k" using r(1) by (auto simp: status_def e fun_eq_iff)
  have iq: "in_queue k1 = in_queue k" by (simp add: in_queue_def e fun_eq_iff)
  have "sched_ok D Running k1" using r(1,7,8) by (auto simp: sched_defs st iq e)
  moreover have "hw_ok D k1"
    using r(5) ws(2) by (simp add: k1_def AddrSpace_RestoreState_def hw_ok_def clock_ok_def cpu_ok_def reg_def regs_ok_def pend_ok_def)
  moreover have "others_ok k1" using r(6,8) by (auto simp: others_ok_def e)
  ultimately have m1: "mid D Running fs k1" using r sp by (auto simp: mid_def cur_def e loaded_def space_ok_def)
  have "\<exists>r. cur k1 = Some r \<and> space r \<noteq> None" by (simp add: cur_def e)
  then obtain k2 where k2: "push [RunUser] k1 = Inr k2" "mid D Running (RunUser # fs) k2" "level k2 = IntOn"
    using mid_push [OF m1, of "[RunUser]"] e by auto
  have "start_user sp k = push [RunUser] k1"
    using r(1) ws(1) by (simp add: start_user_def upd_thread_def obj_def AddrSpace_Execute_def k1_def)
  moreover have "kernel_ok D k2" by (rule mid_on_ok [OF k2(2)]) (use w k2(3) in simp_all)
  ultimately show ?thesis using k2(1) by simp
qed

section \<open>One step\<close>

text \<open>
  The frames that a caller uses in a way the routines forbid: an object that does not exist, a
  lock that the thread does not hold, an item that is already in a list, a false assertion, a
  semaphore deleted while threads wait for it, an address space whose table is too short.
\<close>

definition held :: "nat \<Rightarrow> kernel \<Rightarrow> bool" where
  "held l k = (case locks k l of None \<Rightarrow> False | Some lk \<Rightarrow> lockHolder lk = Some (currentThread k))"

fun misused :: "nat set \<Rightarrow> frame \<Rightarrow> kernel \<Rightarrow> bool" where
  "misused D (SemP s) k = (sems k s = None)"
| "misused D (SemV s) k = (sems k s = None)"
| "misused D (SemP_loop s l) k = (sems k s = None)"
| "misused D (Acquire l) k = (locks k l = None)"
| "misused D (Acquired l) k = (locks k l = None)"
| "misused D (Release l) k = (\<not> held l k \<or> (case locks k l of None \<Rightarrow> True | Some lk \<Rightarrow> sems k (lockSem lk) = None))"
| "misused D (Wait c l) k = (\<not> held l k \<or> (case conds k c of None \<Rightarrow> True | Some q \<Rightarrow> brk_obj k \<in> set q))"
| "misused D (Signal c l) k = (\<not> held l k \<or> (case conds k c of None \<Rightarrow> True | Some q \<Rightarrow> q \<noteq> [] \<and> sems k (hd q) = None))"
| "misused D (Broadcast c l) k = (conds k c = None)"
| "misused D (Append a x) k = (slists k a = None)"
| "misused D (RemoveFront a) k = (slists k a = None)"
| "misused D (Append_item a x) k = (case slists k a of None \<Rightarrow> True | Some sl \<Rightarrow> x \<in> set (items sl))"
| "misused D (Remove_loop a) k = (slists k a = None)"
| "misused D (Delete_sem s) k = (s \<in> D \<or> (case sems k s of None \<Rightarrow> False | Some sem \<Rightarrow> semQueue sem \<noteq> []))"
| "misused D (Execute sp) k = (length (spaceTable sp) < unat (numPages sp))"
| "misused D (AssertReturned x) k = (map_option returned (cur k) \<noteq> Some x)"
| "misused D f k = False"

lemma push_ok:
  assumes "mid D Running fs k" and "wf_on (gs @ fs)" and "RunUser \<notin> set gs" and "level k = IntOn"
  shows "\<exists>k'. push gs k = Inr k' \<and> kernel_ok D k'"
proof -
  obtain k' where "push gs k = Inr k'" "mid D Running (gs @ fs) k'" "level k' = IntOn" using mid_push [OF assms(1), of gs] assms(3,4) by auto
  then show ?thesis using mid_on_ok assms(2) by blast
qed

lemma held_lock: "held l k \<Longrightarrow> \<exists>lk. locks k l = Some lk \<and> IsHeldByCurrentThread l k = Inr True"
  by (auto simp: held_def IsHeldByCurrentThread_def obj_def split: option.splits)

lemma Wait_run:
  assumes m: "mid D Running fs k" and w: "wf_on fs" and l: "level k = IntOn" and u: "\<not> misused D (Wait c lk) k"
  shows "\<exists>k'. Condition_Wait c lk k = Inr k' \<and> kernel_ok D k'"
proof -
  obtain q where q: "conds k c = Some q" "brk_obj k \<notin> set q" "held lk k" using u by (auto split: option.splits)
  define k1 where "k1 = k\<lparr>sems := (sems k)(brk_obj k \<mapsto> \<lparr>semValue = 0, semQueue = []\<rparr>), brk_obj := Suc (brk_obj k)\<rparr>"
  have "mid D Running fs k1" by (rule mid_new_sem [OF m _ k1_def]) simp
  then have m1: "mid D Running fs (k1\<lparr>conds := (conds k1)(c \<mapsto> q @ [brk_obj k])\<rparr>)" by simp
  have "Condition_Wait c lk k = push [Release lk, SemP (brk_obj k), Acquire lk, Delete_sem (brk_obj k)] (k1\<lparr>conds := (conds k1)(c \<mapsto> q @ [brk_obj k])\<rparr>)"
    using held_lock [OF q(3)] q by (auto simp: Condition_Wait_def Semaphore_new_def obj_def list_Append_def k1_def)
  then show ?thesis using push_ok [OF m1, of "[Release lk, SemP (brk_obj k), Acquire lk, Delete_sem (brk_obj k)]"] w l by (simp add: k1_def)
qed

lemma Signal_run:
  assumes m: "mid D Running fs k" and w: "wf_on fs" and l: "level k = IntOn" and u: "\<not> misused D (Signal c lk) k"
  shows "\<exists>k'. Condition_Signal c lk k = Inr k' \<and> kernel_ok D k'"
proof -
  obtain q where q: "conds k c = Some q" "q \<noteq> [] \<Longrightarrow> \<exists>sem. sems k (hd q) = Some sem" "held lk k" using u by (auto split: option.splits)
  show ?thesis
  proof (cases q)
    case Nil
    then show ?thesis using held_lock [OF q(3)] q(1) mid_on_ok [OF m w l] by (auto simp: Condition_Signal_def obj_def)
  next
    case (Cons s q')
    then obtain sem where "sems k s = Some sem" using q(2) by auto
    then have "\<exists>k'. Semaphore_V s (k\<lparr>conds := (conds k)(c \<mapsto> q')\<rparr>) = Inr k' \<and> kernel_ok D k'"
      using m w l by (intro V_run [where fs = fs and sem = sem]) simp_all
    then show ?thesis using held_lock [OF q(3)] q(1) Cons by (auto simp: Condition_Signal_def obj_def list_RemoveFront_def)
  qed
qed

lemma Remove_run:
  assumes m: "mid D Running fs k" and w: "wf_on fs" and l: "level k = IntOn" and e: "slists k a = Some sl"
  shows "\<exists>k'. SynchList_Remove_loop a k = Inr k' \<and> kernel_ok D k'"
proof (cases "items sl")
  case Nil
  then show ?thesis using push_ok [OF m, of "[Wait (listEmpty sl) (listLock sl), Remove_loop a]"] w l e by (simp add: SynchList_Remove_loop_def obj_def)
next
  case (Cons x xs)
  obtain r where r: "threads k (currentThread k) = Some r" "frames r = fs" "hw_ok D k" "sched_ok D Running k" "toBeDestroyed k = None" by (rule midE [OF m])
  let ?k = "k\<lparr>threads := (threads k)(currentThread k \<mapsto> r\<lparr>returned := x\<rparr>)\<rparr>"
  have st: "status ?k = status k" using r(1) by (auto simp: status_def fun_eq_iff)
  have iq: "in_queue ?k = in_queue k" by (simp add: in_queue_def fun_eq_iff)
  have "sched_ok D Running ?k" using r(1,4) by (auto simp: sched_defs st iq)
  then have "mid D Running fs ?k" by (intro mid_current [OF m, where r' = "r\<lparr>returned := x\<rparr>"]) (use r in auto)
  then have m1: "mid D Running fs (?k\<lparr>slists := (slists k)(a \<mapsto> sl\<lparr>items := xs\<rparr>)\<rparr>)" by simp
  have "SynchList_Remove_loop a k = push [Release (listLock sl)] (?k\<lparr>slists := (slists k)(a \<mapsto> sl\<lparr>items := xs\<rparr>)\<rparr>)"
    using Cons e r(1) by (simp add: SynchList_Remove_loop_def obj_def list_RemoveFront_def upd_thread_def push_def)
  then show ?thesis using push_ok [OF m1, of "[Release (listLock sl)]"] w l by simp
qed

lemma exec_on:
  assumes m: "mid D Running fs k" and w: "wf_on (f # fs)" and l: "level k = IntOn" and u: "\<not> misused D f k"
    and sp: "f = RunUser \<Longrightarrow> \<exists>r. cur k = Some r \<and> space r \<noteq> None"
  shows "safe (if f = RunUser then UNIV else {}) (kernel_ok D) (exec_frame f k)"
proof (cases "f = Finish")
  case True
  then show ?thesis using Finish_run [OF m] by auto
next
  case False
  then have on: "on_frame f" and w': "wf_on fs" using w by auto
  have ok: "kernel_ok D k" by (rule mid_on_ok [OF m w' l])
  note P = push_ok [OF m _ _ l]
  show ?thesis
  proof (cases f)
    case Yield then show ?thesis using Yield_run [OF m w' l] by auto
  next
    case (SemP s) then show ?thesis using P_run [OF m w' l] u by (auto intro!: safe_ex)
  next
    case (SemV s) then show ?thesis using V_run [OF m w' l] u by (auto intro!: safe_ex)
  next
    case (Acquire a) then show ?thesis using P [of "[SemP (lockSem (the (locks k a))), Acquired a]"] w' u by (auto simp: Lock_Acquire_def obj_def)
  next
    case (Release a)
    then obtain lk sem where a: "locks k a = Some lk" "sems k (lockSem lk) = Some sem" "held a k" using u by (auto split: option.splits)
    have "\<exists>k'. Semaphore_V (lockSem lk) (k\<lparr>locks := (locks k)(a \<mapsto> lk\<lparr>lockHolder := None\<rparr>)\<rparr>) = Inr k' \<and> kernel_ok D k'"
      using m w' l a by (intro V_run [where fs = fs and sem = sem]) simp_all
    then show ?thesis using Release held_lock [OF a(3)] a(1) by (auto simp: Lock_Release_def obj_def)
  next
    case (Wait c a) then show ?thesis using Wait_run [OF m w' l] u by (auto intro!: safe_ex)
  next
    case (Signal c a) then show ?thesis using Signal_run [OF m w' l] u by (auto intro!: safe_ex)
  next
    case (Broadcast c a) then show ?thesis using P [of "[Signal c a, Broadcast c a]"] w' u ok by (auto simp: Condition_Broadcast_def obj_def)
  next
    case (Append a x)
    then obtain sl where "slists k a = Some sl" using u by auto
    then show ?thesis
      using Append P [of "[Acquire (listLock sl), Append_item a x, Signal (listEmpty sl) (listLock sl), Release (listLock sl)]"] w'
      by (auto simp: SynchList_Append_def obj_def)
  next
    case (RemoveFront a)
    then obtain sl where "slists k a = Some sl" using u by auto
    then show ?thesis using RemoveFront P [of "[Acquire (listLock sl), Remove_loop a]"] w' by (auto simp: SynchList_RemoveFront_def obj_def)
  next
    case (Fork func) then show ?thesis using Fork_run [OF m w' l] on by (auto intro!: safe_ex simp del: exec_frame.simps)
  next
    case (Execute s) then show ?thesis using Execute_run [OF m w' l, of s] u by (auto intro!: safe_ex)
  next
    case (AssertReturned x) then show ?thesis using u ok by (auto simp: cur_def obj_def)
  next
    case (SetStatus st) then show ?thesis using mid_on_ok [of D fs "k\<lparr>mstatus := st\<rparr>"] m w' l by simp
  next
    case (Acquired a) then show ?thesis using u m w' l by (auto simp: Lock_Acquired_def obj_def intro!: mid_on_ok)
  next
    case (Delete_sem s)
    then have "mid D Running fs (k\<lparr>sems := (sems k)(s := None)\<rparr>)" using u by (intro mid_delete_sem [OF m]) auto
    then show ?thesis using Delete_sem mid_on_ok w' l by simp
  next
    case (Append_item a x) then show ?thesis using u m w' l by (auto simp: SynchList_Append_item_def obj_def list_Append_def intro!: mid_on_ok split: option.splits)
  next
    case (Remove_loop a) then show ?thesis using Remove_run [OF m w' l] u by (auto intro!: safe_ex)
  next
    case RunUser then show ?thesis using run_user_run [OF m w'] sp by simp
  qed (use on False in auto)
qed

text \<open>
  The faults of a step: a user program may do anything that an instruction or a system call can
  end with; apart from that only the idle loop stops the machine, with nothing left to wait for.
\<close>

fun step_faults :: "frame \<Rightarrow> kernel \<Rightarrow> fault set" where
  "step_faults RunUser k = UNIV"
| "step_faults (Sleep_loop b) k = (if readyList k = [] \<and> pendingList k = [] then {Halt} else {})"
| "step_faults f k = {}"

lemma exec_off:
  assumes hw: "hw_ok D k" and oth: "others_ok k" and sch: "sched_ok D (mode_of f) k" and r: "cur k = Some r" "frames r = fs" "space_ok r"
    and w: "wf_off (f # fs)" and l: "level k = IntOff" and u: "\<not> misused D f k"
    and d: "toBeDestroyed k \<noteq> None \<longrightarrow> f = Run_back \<or> f = Begin"
    and g: "if f = Run_back then space r \<noteq> None \<longrightarrow> regs_ok (userRegisters r) else loaded k r"
  shows "safe (step_faults f k) (kernel_ok D) (exec_frame f k)"
proof -
  have m: "mid D (mode_of f) fs k" if "f \<noteq> Run_back" "f \<noteq> Begin"
    using that hw oth sch r d g by (auto simp: mid_def)
  consider "f = Yield_end IntOn" "wf_on fs" | s where "f = SemP_loop s IntOn" "wf_on fs" | "f = Begin" "wf_on fs"
    | "f = Run_back" "cont_off fs" | "f = Sleep_loop False" "cont_off fs" | "f = Sleep_loop True"
    using w by (auto simp: wf_off_def cont_off_def)
  then show ?thesis
  proof cases
    case 1
    then show ?thesis using set_level_on [of D fs k] m l by auto
  next
    case (2 s)
    then obtain sem where "sems k s = Some sem" using u by auto
    then show ?thesis using 2 P_loop_run [of D fs k s sem] m l by auto
  next
    case 3
    then show ?thesis using Begin_run [OF hw oth _ r] sch g l by auto
  next
    case 4
    then show ?thesis using Run_back_run [OF hw oth _ r] sch g l by auto
  next
    case 5
    then show ?thesis using Sleep_loop_run [of D False fs k] m l by simp
  next
    case 6
    then show ?thesis using Sleep_loop_run [of D True fs k] m l by simp
  qed
qed

text \<open>The state in which the first frame of the current thread runs.\<close>

lemma popped:
  assumes k: "kernel_ok D k" and f: "map_option frames (cur k) = Some (f # fs)"
  obtains k1 r where "step k = exec_frame f k1" and "hw_ok D k1" and "others_ok k1" and "sched_ok D (mode_of f) k1" and "cur k1 = Some r"
    and "frames r = fs" and "space_ok r" and "wf_frames (level k1) (f # fs)" and "f = RunUser \<longrightarrow> space r \<noteq> None"
    and "toBeDestroyed k1 \<noteq> None \<longrightarrow> f = Run_back \<or> f = Begin"
    and "if f = Run_back then space r \<noteq> None \<longrightarrow> regs_ok (userRegisters r) else loaded k1 r"
    and "misused D f k1 = misused D f k" and "level k1 = level k" and "currentThread k1 = currentThread k" and "readyList k1 = readyList k"
    and "pendingList k1 = pendingList k" and "stats k1 = stats k"
proof -
  obtain r where r: "cur k = Some r" "frames r = f # fs" "wf_frames (level k) (f # fs)" "sched_ok D (mode_of f) k" "space_ok r"
    "toBeDestroyed k \<noteq> None \<longrightarrow> f = Run_back \<or> f = Begin"
    "if f = Run_back then space r \<noteq> None \<longrightarrow> regs_ok (userRegisters r) else loaded k r"
    and hw: "hw_ok D k" and oth: "others_ok k"
    using k f unfolding kernel_ok_def by auto
  let ?c = "currentThread k" and ?r = "r\<lparr>frames := fs\<rparr>"
  define k1 where "k1 = k\<lparr>threads := (threads k)(?c \<mapsto> ?r)\<rparr>"
  have th: "threads k ?c = Some r" using r(1) by (simp add: cur_def)
  have step: "step k = exec_frame f k1" using th r(2) by (simp add: step_def obj_def k1_def)
  have e: "currentThread k1 = ?c" "readyList k1 = readyList k" "toBeDestroyed k1 = toBeDestroyed k" "sems k1 = sems k" "brk_obj k1 = brk_obj k"
    "level k1 = level k" "pendingList k1 = pendingList k" "threads k1 = (threads k)(?c \<mapsto> ?r)" "locks k1 = locks k" "conds k1 = conds k"
    "slists k1 = slists k" "stats k1 = stats k" by (simp_all add: k1_def)
  have st: "status k1 = status k" using th by (auto simp: status_def e fun_eq_iff)
  have iq: "in_queue k1 = in_queue k" by (simp add: in_queue_def e fun_eq_iff)
  have sch1: "sched_ok D cm k1 = sched_ok D cm k" for cm using th by (auto simp: sched_defs st iq e cong: cmode.case_cong)
  have oth1: "others_ok k1" using oth by (auto simp: others_ok_def e)
  have c1: "cur k1 = Some ?r" by (simp add: cur_def e)
  have h1: "held x k1 = held x k" for x by (simp add: held_def e cong: option.case_cong)
  have u1: "misused D f k1 = misused D f k" using r(1) by (cases f) (simp_all add: e c1 h1 cong: option.case_cong)
  have ld1: "loaded k1 ?r = loaded k r" by (simp add: loaded_def k1_def)
  show ?thesis
    by (rule that [OF step _ oth1 _ c1]) (use hw r sch1 ld1 e u1 in \<open>auto simp: k1_def space_ok_def\<close>)
qed

lemma step_run:
  assumes "kernel_ok D k" and "map_option frames (cur k) = Some (f # fs)" and u: "\<not> misused D f k"
  shows "safe (step_faults f k) (kernel_ok D) (step k)"
proof (rule popped [OF assms(1,2)])
  fix k1 r
  assume a: "step k = exec_frame f k1" "hw_ok D k1" "others_ok k1" "sched_ok D (mode_of f) k1" "cur k1 = Some r" "frames r = fs" "space_ok r"
    "wf_frames (level k1) (f # fs)" "f = RunUser \<longrightarrow> space r \<noteq> None" "toBeDestroyed k1 \<noteq> None \<longrightarrow> f = Run_back \<or> f = Begin"
    "if f = Run_back then space r \<noteq> None \<longrightarrow> regs_ok (userRegisters r) else loaded k1 r" "misused D f k1 = misused D f k"
    "readyList k1 = readyList k" "pendingList k1 = pendingList k"
  have u1: "\<not> misused D f k1" using u a(12) by simp
  have fl: "step_faults f k1 = step_faults f k" by (cases f) (simp_all add: a(13,14))
  show ?thesis
  proof (cases "level k1")
    case IntOn
    then have w: "wf_on (f # fs)" using a(8) by simp
    then have fm: "f \<noteq> Run_back" "mode_of f = Running" "f \<noteq> Begin" using on_frame_mode [of f] by auto
    then have "mid D Running fs k1" using a by (auto simp: mid_def)
    then have "safe (if f = RunUser then UNIV else {}) (kernel_ok D) (exec_frame f k1)"
      using IntOn w u1 a(5,9) by (intro exec_on [where fs = fs]) auto
    then show ?thesis unfolding a(1) by (rule safe_weaken) (auto split: if_splits)
  next
    case IntOff
    have "safe (step_faults f k1) (kernel_ok D) (exec_frame f k1)"
      by (rule exec_off [OF a(2-7)]) (use a(8-11) IntOff u1 in auto)
    then show ?thesis unfolding a(1) fl .
  qed
qed

section \<open>Properties of the kernel\<close>

text \<open>A kernel with one thread that runs the frames \<open>prog\<close>, for the examples.\<close>

definition main_kernel :: "frame list \<Rightarrow> kernel" where
  "main_kernel prog = \<lparr>registers = registers boot_sys, mainMemory = mainMemory boot_sys, tlb = None, pageTable = None, pageTableSize = 0,
     mstatus = SystemMode, openf = openf boot_sys, names = Map.empty, inodes = \<lambda>_. [], fds = Map.empty, brk_host = 0, creatable = \<lambda>_. True,
     junk = \<lambda>_. 0, conIn = [], conEof = False, conOut = [], entropy = \<lambda>_. 0, drawn = 0,
     level = IntOn, pendingList = [], inHandler = False, yieldOnReturn = False, stats = Statistics_new, brk_int = 0, randomize = False,
     disable = True,
     threads = [0 \<mapsto> \<lparr>tstatus = RUNNING, frames = prog @ [Finish], userRegisters = [], space = None, returned = 0\<rparr>], currentThread = 0,
     readyList = [], toBeDestroyed = None, sems = Map.empty, locks = Map.empty, conds = Map.empty, slists = Map.empty, brk_obj = 1\<rparr>"

lemma main_kernel_mid:
  assumes "RunUser \<notin> set prog"
  shows "mid {} Running (prog @ [Finish]) (main_kernel prog)"
proof -
  have b: "machine_ok boot_sys" "sys_ok boot_sys" "reg 0 boot_sys = 0" "openf boot_sys = replicate 15 None"
    using boot_sys_ok by (simp_all add: boot_sys_def machine.defs sysenv.defs reg_def one_page_def Machine_new_def NumTotalRegs_def)
  then have "sys_ok (main_kernel prog)" by (auto simp: sys_ok_def main_kernel_def MAX_FILE_OPEN_def)
  moreover have "cpu_ok (main_kernel prog)" using b by (simp add: cpu_ok_def main_kernel_def machine_ok_def reg_def)
  ultimately have "hw_ok {} (main_kernel prog)" by (simp add: hw_ok_def clock_ok_def pend_ok_def main_kernel_def)
  moreover have "sched_ok {} Running (main_kernel prog)" 
    by (auto simp: sched_defs status_def in_queue_def main_kernel_def)
  ultimately show ?thesis
    using assms by (auto simp: mid_def others_ok_def cur_def space_ok_def loaded_def main_kernel_def)
qed

text \<open>
  C1: No step of the kernel fails an assertion, uses a dangling pointer or leaves the legal
  states. From a legal state the current thread runs its first frame, unless it calls a routine
  in a way the routine forbids (\<open>misused\<close>), and the state after it is legal again: the threads,
  the ready list and the queues of the semaphores agree, every thread's remaining code fits the
  interrupt level at which it will run, saved and loaded user states are well-formed. Only a user
  program and the idle loop end with a fault.
\<close>

theorem step_safe:
  assumes "kernel_ok D k" and "map_option frames (cur k) = Some (f # fs)" and "\<not> misused D f k"
  shows "safe (step_faults f k) (kernel_ok D) (step k)"
  using assms by (rule step_run)

lemma main_kernel_ok: "wf_on (prog @ [Finish]) \<Longrightarrow> RunUser \<notin> set prog \<Longrightarrow> kernel_ok {} (main_kernel prog)"
  by (rule mid_on_ok [OF main_kernel_mid]) (simp_all add: main_kernel_def)

theorem step_safe_witness: "safe {} (kernel_ok {}) (step (main_kernel [Fork [Yield], Yield]))"
  using step_safe [of "{}" "main_kernel [Fork [Yield], Yield]" "Fork [Yield]" "[Yield, Finish]"] main_kernel_ok [of "[Fork [Yield], Yield]"]
  by (simp add: cur_def main_kernel_def)

text \<open>Runs of the kernel in which no routine is misused.\<close>

inductive reaches :: "nat set \<Rightarrow> kernel \<Rightarrow> kernel \<Rightarrow> bool" for D where
  reaches_refl: "reaches D k k"
| reaches_step: "reaches D k k' \<Longrightarrow> map_option frames (cur k') = Some (f # fs) \<Longrightarrow> \<not> misused D f k' \<Longrightarrow> step k' = Inr k'' \<Longrightarrow> reaches D k k''"

lemma reaches_ok: "reaches D k k' \<Longrightarrow> kernel_ok D k \<Longrightarrow> kernel_ok D k'"
proof (induction rule: reaches.induct)
  case (reaches_step k k' f fs k'')
  then show ?case using step_run [of D k' f fs] by simp
qed

text \<open>
  C2: No thread is lost. In every state that the kernel reaches from a legal one, each thread is
  the current one, or about to be destroyed, or ready and on the ready list, or blocked and in
  the queue of exactly one semaphore; the ready list and the queues have no duplicates.
\<close>

theorem no_thread_lost:
  assumes "kernel_ok D k" and "reaches D k k'" and "threads k' t = Some r"
  shows "distinct (readyList k') \<and> (\<forall>s sem. sems k' s = Some sem \<longrightarrow> 0 \<le> semValue sem \<and> distinct (semQueue sem)) \<and>
    (t = currentThread k' \<or> toBeDestroyed k' = Some t \<or>
     tstatus r = READY \<and> t \<in> set (readyList k') \<and> \<not> in_queue k' t \<or>
     tstatus r = BLOCKED \<and> t \<notin> set (readyList k') \<and> (\<exists>!s. \<exists>sem. sems k' s = Some sem \<and> t \<in> set (semQueue sem)))"
proof -
  have "kernel_ok D k'" using reaches_ok assms(1,2) by blast
  then obtain cm where s: "sched_ok D cm k'" by (auto simp: kernel_ok_def)
  then have q: "queues_ok k'" and rd: "ready_ok k'" and nl: "none_lost k'" by (simp_all add: sched_ok_def)
  have st: "status k' t = Some (tstatus r)" using assms(3) by (simp add: status_def)
  have blocked: "tstatus r = BLOCKED" if "in_queue k' t" using that queue_facts(3) [OF q] st by (auto simp: in_queue_def)
  have ready: "tstatus r = READY" if "t \<in> set (readyList k')" using that rd st by (auto simp: ready_ok_def)
  have one: "\<exists>!s. \<exists>sem. sems k' s = Some sem \<and> t \<in> set (semQueue sem)" if "in_queue k' t"
    using that queue_facts(4) [OF q] unfolding in_queue_def by metis
  have "t = currentThread k' \<or> toBeDestroyed k' = Some t \<or> t \<in> set (readyList k') \<or> in_queue k' t"
    using nl assms(3) by (auto simp: none_lost_def)
  then have "t = currentThread k' \<or> toBeDestroyed k' = Some t \<or>
     tstatus r = READY \<and> t \<in> set (readyList k') \<and> \<not> in_queue k' t \<or>
     tstatus r = BLOCKED \<and> t \<notin> set (readyList k') \<and> (\<exists>!s. \<exists>sem. sems k' s = Some sem \<and> t \<in> set (semQueue sem))"
  proof (elim disjE)
    assume a: "t \<in> set (readyList k')"
    then have "\<not> in_queue k' t" using blocked ready by fastforce
    then show ?thesis using a ready by blast
  next
    assume a: "in_queue k' t"
    then have "t \<notin> set (readyList k')" using blocked ready by fastforce
    then show ?thesis using one [OF a] blocked [OF a] by blast
  qed blast+
  then show ?thesis using rd queue_facts(1,2) [OF q] by (simp add: ready_ok_def)
qed

theorem no_thread_lost_witness:
  "\<exists>k'. reaches {} (main_kernel [Fork [Yield], Yield]) k' \<and> (\<forall>t r. threads k' t = Some r \<longrightarrow> distinct (readyList k') \<and>
     (t = currentThread k' \<or> toBeDestroyed k' = Some t \<or> tstatus r = READY \<or> tstatus r = BLOCKED))"
proof -
  let ?k = "main_kernel [Fork [Yield], Yield]"
  have ok: "kernel_ok {} ?k" by (rule main_kernel_ok) simp_all
  have f: "map_option frames (cur ?k) = Some (Fork [Yield] # [Yield, Finish])" by (simp add: cur_def main_kernel_def)
  have u: "\<not> misused {} (Fork [Yield]) ?k" by simp
  have "safe {} (kernel_ok {}) (step ?k)" using step_run [OF ok f u] by (simp only: step_faults.simps)
  then obtain k' where "step ?k = Inr k'" by (blast dest: safe_emptyD)
  then have r: "reaches {} ?k k'" by (rule reaches_step [OF reaches_refl f u])
  from no_thread_lost [OF ok this] show ?thesis using r by blast
qed

text \<open>
  C23: \<open>Yield\<close> is round robin. In a legal state, a thread that calls \<open>Yield\<close> while others are ready
  gives the processor to the first thread of the ready list and becomes its last.
\<close>

theorem Yield_round_robin:
  assumes "kernel_ok D k" and "map_option frames (cur k) = Some (Yield # fs)" and "readyList k = t # ts"
  shows "\<exists>k'. step k = Inr k' \<and> kernel_ok D k' \<and> currentThread k' = t \<and> readyList k' = ts @ [currentThread k]"
proof (rule popped [OF assms(1,2)])
  fix k1 r
  assume a: "step k = exec_frame Yield k1" "hw_ok D k1" "others_ok k1" "sched_ok D (mode_of Yield) k1" "cur k1 = Some r" "frames r = fs" "space_ok r"
    "wf_frames (level k1) (Yield # fs)" "toBeDestroyed k1 \<noteq> None \<longrightarrow> Yield = Run_back \<or> Yield = Begin"
    "if Yield = Run_back then space r \<noteq> None \<longrightarrow> regs_ok (userRegisters r) else loaded k1 r"
    "currentThread k1 = currentThread k" "readyList k1 = readyList k"
  have l: "level k1 = IntOn" using a(8) by (cases "level k1") (auto simp: wf_off_def cont_off_def)
  then have "wf_on fs" using a(8) by simp
  moreover have "mid D Running fs k1" using a by (simp add: mid_def)
  ultimately show ?thesis using Yield_run [of D fs k1] l a(1,11,12) assms(3) by auto
qed

definition two_threads :: kernel where
  "two_threads = (main_kernel [Yield])\<lparr>threads := (threads (main_kernel [Yield]))(1 \<mapsto> \<lparr>tstatus = READY, frames = Begin # [Finish],
     userRegisters = replicate NumTotalRegs 0, space = None, returned = 0\<rparr>), brk_obj := 2, readyList := [1]\<rparr>"

lemma two_threads_ok: "kernel_ok {} two_threads"
proof -
  let ?k = "main_kernel [Yield]"
  have m: "mid {} Running ([Yield] @ [Finish]) ?k" by (rule main_kernel_mid) simp_all
  have "mid {} Running ([Yield] @ [Finish]) (?k\<lparr>threads := (threads ?k)(brk_obj ?k \<mapsto> \<lparr>tstatus = READY, frames = Begin # [] @ [Finish],
      userRegisters = replicate NumTotalRegs 0, space = None, returned = 0\<rparr>), brk_obj := Suc (brk_obj ?k), readyList := readyList ?k @ [brk_obj ?k]\<rparr>)"
    by (rule mid_fork [OF m]) simp_all
  then have "mid {} Running ([Yield] @ [Finish]) two_threads" by (simp add: two_threads_def main_kernel_def numeral_2_eq_2)
  then show ?thesis by (rule mid_on_ok) (simp_all add: two_threads_def main_kernel_def)
qed

theorem Yield_round_robin_witness: "\<exists>k'. step two_threads = Inr k' \<and> kernel_ok {} k' \<and> currentThread k' = 1 \<and> readyList k' = [0]"
  using Yield_round_robin [OF two_threads_ok, of "[Finish]" 1 "[]"] by (simp add: two_threads_def cur_def main_kernel_def)


definition sleeping :: kernel where
  "sleeping = (main_kernel [])\<lparr>threads := [0 \<mapsto> \<lparr>tstatus = BLOCKED, frames = [Sleep_loop True], userRegisters = [], space = None, returned = 0\<rparr>], level := IntOff\<rparr>"

lemma sleeping_ok: "kernel_ok {} sleeping"
proof -
  have "sched_ok {} Finishing sleeping" by (auto simp: sched_defs status_def in_queue_def sleeping_def main_kernel_def)
  moreover have "hw_ok {} sleeping" using main_kernel_mid [of "[]"] by (simp add: mid_def sleeping_def)
  ultimately show ?thesis
    by (auto simp: kernel_ok_def others_ok_def cur_def space_ok_def loaded_def wf_off_def sleeping_def main_kernel_def)
qed


end
