(* ===== verification/Threads_Lock.thy ===== *)
theory Threads_Lock
  imports Threads_Invariant
begin

text \<open>
  The constructors of \<open>threads/synch.cc\<close> and \<open>synchlist.cc\<close>, and mutual exclusion: in every
  interleaving of the threads of \<open>Threads_Kernel\<close>, with interrupts and context switches anywhere
  the code allows them, at most one thread is inside a lock.

  The proof counts. The semaphore of the lock, its holder and the threads that have passed \<open>P\<close> but
  not yet stored themselves as the holder add up to one; a thread's share is read off the frames
  that it still has to run.
\<close>

section \<open>Constructors\<close>

definition Lock_new :: "kernel \<Rightarrow> nat \<times> kernel" where
  "Lock_new k =
     (let (s, k1) = Semaphore_new 1 k in
      (brk_obj k1, k1\<lparr>locks := (locks k1)(brk_obj k1 \<mapsto> \<lparr>lockSem = s, lockHolder = None\<rparr>), brk_obj := brk_obj k1 + 1\<rparr>))"

definition Condition_new :: "kernel \<Rightarrow> nat \<times> kernel" where
  "Condition_new k = (brk_obj k, k\<lparr>conds := (conds k)(brk_obj k \<mapsto> []), brk_obj := brk_obj k + 1\<rparr>)"

definition SynchList_new :: "kernel \<Rightarrow> nat \<times> kernel" where
  "SynchList_new k =
     (let (l, k1) = Lock_new k; (c, k2) = Condition_new k1 in
      (brk_obj k2, k2\<lparr>slists := (slists k2)(brk_obj k2 \<mapsto> \<lparr>items = [], listLock = l, listEmpty = c\<rparr>), brk_obj := brk_obj k2 + 1\<rparr>))"

section \<open>Counting\<close>

text \<open>Code that uses a lock \<open>l\<close> through its methods only, and leaves its semaphore \<open>s\<close> alone.\<close>

fun clean :: "nat \<Rightarrow> nat \<Rightarrow> frame \<Rightarrow> bool" where
  "clean l s (Fork fs) = list_all (clean l s) fs"
| "clean l s (SemP s') = (s' \<noteq> s)"
| "clean l s (SemV s') = (s' \<noteq> s)"
| "clean l s (SemP_loop s' lv) = (s' \<noteq> s)"
| "clean l s (Delete_sem s') = (s' \<noteq> s)"
| "clean l s (Acquired l') = (l' \<noteq> l)"
| "clean l s f = True"

text \<open>
  The frames of a thread: who waits for the semaphore becomes the holder next, and what comes
  after the end of the thread is clean.
\<close>

fun framed :: "nat \<Rightarrow> nat \<Rightarrow> frame list \<Rightarrow> bool" where
  "framed l s [] = True"
| "framed l s (f # fs) = ((case f of
       SemP s' \<Rightarrow> s' = s \<longrightarrow> fs \<noteq> [] \<and> hd fs = Acquired l
     | SemP_loop s' lv \<Rightarrow> s' = s \<longrightarrow> fs \<noteq> [] \<and> hd fs = Acquired l
     | Acquired l' \<Rightarrow> True
     | Finish \<Rightarrow> list_all (clean l s) fs
     | Sleep_loop b \<Rightarrow> b \<longrightarrow> list_all (clean l s) fs
     | _ \<Rightarrow> clean l s f) \<and> framed l s fs)"

text \<open>A wait for the semaphore counts \<open>-1\<close>, the becoming holder after it \<open>1\<close>.\<close>

definition weight :: "nat \<Rightarrow> nat \<Rightarrow> frame \<Rightarrow> int" where
  "weight l s f = (case f of
       SemP s' \<Rightarrow> if s' = s then -1 else 0
     | SemP_loop s' lv \<Rightarrow> if s' = s then -1 else 0
     | Acquired l' \<Rightarrow> if l' = l then 1 else 0
     | _ \<Rightarrow> 0)"

definition share :: "nat \<Rightarrow> nat \<Rightarrow> frame list \<Rightarrow> int" where
  "share l s fs = sum_list (map (weight l s) fs)"

lemma share_simps [simp]:
  "share l s [] = 0" "share l s (f # fs) = weight l s f + share l s fs" "share l s (fs @ gs) = share l s fs + share l s gs"
  by (simp_all add: share_def)

lemma clean_weight [simp]: "clean l s f \<Longrightarrow> weight l s f = 0"
  by (cases f) (auto simp: weight_def)

lemma clean_share: "list_all (clean l s) fs \<Longrightarrow> share l s fs = 0"
  by (induction fs) simp_all

lemma clean_framed: "list_all (clean l s) fs \<Longrightarrow> framed l s fs"
  by (induction fs) (auto split: frame.split)

lemma share_nonneg: "framed l s fs \<Longrightarrow> 0 \<le> share l s fs \<and> (fs \<noteq> [] \<and> hd fs = Acquired l \<longrightarrow> 1 \<le> share l s fs)"
proof (induction fs)
  case (Cons f fs)
  then show ?case by (cases f) (auto simp: weight_def)
qed simp

text \<open>Frames that may be pushed at any point.\<close>

definition light :: "nat \<Rightarrow> nat \<Rightarrow> frame \<Rightarrow> bool" where
  "light l s f \<longleftrightarrow> clean l s f \<and> f \<noteq> Finish \<and> f \<noteq> Sleep_loop True"

lemma light_framed: "list_all (light l s) fs \<Longrightarrow> framed l s gs \<Longrightarrow> framed l s (fs @ gs)"
  by (induction fs) (auto simp: light_def split: frame.split)

lemma light_clean: "list_all (light l s) fs \<Longrightarrow> list_all (clean l s) fs"
  by (auto simp: list_all_iff light_def)

section \<open>The invariant\<close>

definition frs :: "kernel \<Rightarrow> nat \<Rightarrow> frame list" where
  "frs k t = (case threads k t of None \<Rightarrow> [] | Some r \<Rightarrow> frames r)"

text \<open>The sum is \<open>n\<close>: one, except in the middle of a step.\<close>

definition lock_inv :: "nat set \<Rightarrow> nat \<Rightarrow> nat \<Rightarrow> int \<Rightarrow> kernel \<Rightarrow> bool" where
  "lock_inv D l s n k \<longleftrightarrow> pend_ok (device D) k \<and> s \<notin> D \<and> s < brk_obj k \<and> (\<forall>t. threads k t \<noteq> None \<longrightarrow> t < brk_obj k) \<and>
     (\<forall>c q. conds k c = Some q \<longrightarrow> s \<notin> set q) \<and> (\<forall>l' lk. locks k l' = Some lk \<and> l' \<noteq> l \<longrightarrow> lockSem lk \<noteq> s) \<and>
     (\<forall>t. framed l s (frs k t)) \<and> (\<forall>t. toBeDestroyed k = Some t \<longrightarrow> list_all (clean l s) (frs k t)) \<and>
     (\<exists>lk sem. locks k l = Some lk \<and> lockSem lk = s \<and> sems k s = Some sem \<and> 0 \<le> semValue sem \<and>
        semValue sem + (if lockHolder lk = None then 0 else 1) + (\<Sum>t < brk_obj k. share l s (frs k t)) = n)"

text \<open>What most operations leave alone.\<close>

definition unmoved :: "nat \<Rightarrow> kernel \<Rightarrow> kernel \<Rightarrow> bool" where
  "unmoved s k k' \<longleftrightarrow> (\<forall>t. map_option frames (threads k' t) = map_option frames (threads k t)) \<and>
     map_option semValue (sems k' s) = map_option semValue (sems k s) \<and> locks k' = locks k \<and> conds k' = conds k \<and>
     brk_obj k' = brk_obj k \<and> toBeDestroyed k' = toBeDestroyed k \<and> currentThread k' = currentThread k"

lemma unmoved_refl: "unmoved s k k"
  by (simp add: unmoved_def)

lemma unmoved_trans: "unmoved s k k1 \<Longrightarrow> unmoved s k1 k2 \<Longrightarrow> unmoved s k k2"
  by (simp add: unmoved_def)

lemma unmoved_frs: "unmoved s k k' \<Longrightarrow> frs k' = frs k"
  unfolding unmoved_def frs_def fun_eq_iff by (metis (no_types, lifting) option.case_eq_if option.map_disc_iff option.map_sel)

lemma unmoved_inv:
  assumes "unmoved s k k'" and "pend_ok (device D) k'" and "lock_inv D l s n k"
  shows "lock_inv D l s n k'"
proof -
  have f: "frs k' = frs k" using unmoved_frs [OF assms(1)] .
  have t: "threads k' t \<noteq> None \<longleftrightarrow> threads k t \<noteq> None" for t
    using assms(1) unfolding unmoved_def by (metis option.map_disc_iff)
  obtain sem where "sems k s = Some sem" using assms(3) by (auto simp: lock_inv_def)
  then obtain sem' where "sems k' s = Some sem'" "semValue sem' = semValue sem" using assms(1) by (auto simp: unmoved_def)
  then show ?thesis
    using assms \<open>sems k s = Some sem\<close> unfolding lock_inv_def f t by (auto simp: unmoved_def)
qed

section \<open>Interrupts\<close>

lemma ReadyToRun_unmoved:
  assumes "ReadyToRun t k = Inr k'"
  shows "unmoved s k k' \<and> pendingList k' = pendingList k"
  using assms by (auto simp: ReadyToRun_def upd_thread_def obj_def unmoved_def rbind_eq_Inr require_eq_Inr list_Append_def split: option.splits)

lemma V_body_moves:
  assumes "V_body v k = Inr k'"
  shows "(v \<noteq> s \<longrightarrow> unmoved s k k') \<and> pendingList k' = pendingList k \<and>
    (\<exists>sem sem'. sems k v = Some sem \<and> sems k' = (sems k)(v \<mapsto> sem') \<and> semValue sem' = semValue sem + 1) \<and>
    frs k' = frs k \<and> (\<forall>t. threads k' t \<noteq> None \<longleftrightarrow> threads k t \<noteq> None) \<and> locks k' = locks k \<and> conds k' = conds k \<and>
    brk_obj k' = brk_obj k \<and> toBeDestroyed k' = toBeDestroyed k \<and> currentThread k' = currentThread k"
proof -
  obtain sem where sem: "sems k v = Some sem" using assms by (auto simp: V_body_def obj_def split: option.splits)
  show ?thesis
  proof (cases "semQueue sem")
    case Nil
    then show ?thesis using assms sem by (auto simp: V_body_def obj_def unmoved_def frs_def)
  next
    case (Cons t q)
    then obtain k1 where k1: "ReadyToRun t k = Inr k1" "k' = k1\<lparr>sems := (sems k1)(v \<mapsto> sem\<lparr>semQueue := q, semValue := semValue sem + 1\<rparr>)\<rparr>"
      using assms sem by (auto simp: V_body_def obj_def list_RemoveFront_def rbind_eq_Inr)
    have u: "unmoved x k k1" "pendingList k1 = pendingList k" for x using ReadyToRun_unmoved [OF k1(1)] by simp_all
    have "sems k1 = sems k" using k1(1) by (auto simp: ReadyToRun_def upd_thread_def obj_def rbind_eq_Inr require_eq_Inr split: option.splits)
    moreover have "threads k1 t \<noteq> None \<longleftrightarrow> threads k t \<noteq> None" for t using u(1) unfolding unmoved_def by (metis option.map_disc_iff)
    moreover have "frs k' = frs k" using unmoved_frs [OF u(1)] k1(2) by (simp add: frs_def fun_eq_iff)
    ultimately show ?thesis using u sem k1(2) by (auto simp: unmoved_def)
  qed
qed

lemma Timer_CallBack_unmoved:
  assumes "Timer_CallBack TimerObj k = Inr k'" and "pend_ok (device D) k"
  shows "unmoved s k k' \<and> pend_ok (device D) k'"
proof -
  have sch: "unmoved s k1 k2 \<and> pend_ok (device D) k2" if "Schedule TimerObj d ty k1 = Inr k2" "pend_ok (device D) k1" for d ty and k1 k2 :: kernel
  proof -
    define p where "p = \<lparr>address = brk_int k1, callOnInterrupt = TimerObj, when = now k1 + d, kind = ty\<rparr>"
    define ps where "ps = before PendingCompare p (pendingList k1) @ p # after PendingCompare p (pendingList k1)"
    have "k2 = k1\<lparr>pendingList := ps, brk_int := brk_int k1 + 1\<rparr>"
      using that(1) by (auto simp: Schedule_def Let_def rbind_eq_Inr require_eq_Inr list_Insert_def p_def ps_def split: if_splits)
    moreover have "set ps = insert p (set (pendingList k1))" unfolding ps_def by (rule set_insert_pending)
    ultimately show ?thesis using that(2) by (simp add: unmoved_def pend_ok_def p_def)
  qed
  have al: "unmoved s k k1 \<and> pend_ok (device D) k1" if "Alarm_CallBack k = Inr k1" for k1
    using that assms(2) by (auto simp: Alarm_CallBack_def YieldOnReturn_def require_eq_Inr unmoved_def pend_ok_def split: if_splits)
  have st: "unmoved s k1 k2 \<and> pend_ok (device D) k2" if t: "Timer_SetInterrupt TimerObj k1 = Inr k2" "pend_ok (device D) k1" for k1 k2 :: kernel
  proof (cases "disable k1")
    case True
    then show ?thesis using t by (simp add: Timer_SetInterrupt_def unmoved_refl)
  next
    case False
    then obtain d k3 where "Schedule TimerObj d TimerInt k3 = Inr k2" "k3 = k1 \<or> k3 = k1\<lparr>drawn := drawn k1 + 1\<rparr>"
      using t(1) by (auto simp: Timer_SetInterrupt_def RandomNumber_def Let_def split: if_splits)
    moreover have "unmoved s k1 k3 \<and> pend_ok (device D) k3" using calculation(2) t(2) by (auto simp: unmoved_def pend_ok_def)
    ultimately show ?thesis using sch unmoved_trans by blast
  qed
  show ?thesis using assms(1) al st unmoved_trans by (auto simp: Timer_CallBack_def rbind_eq_Inr)
qed

lemma CallBack_unmoved:
  assumes "CallBack c k = Inr k'" and "pend_ok (device D) k" and "device D c" and "s \<notin> D"
  shows "unmoved s k k' \<and> pend_ok (device D) k'"
proof (cases c)
  case TimerObj
  then show ?thesis using Timer_CallBack_unmoved assms by auto
next
  case (DeviceObj v)
  then have "v \<noteq> s" "V_body v k = Inr k'" using assms by auto
  then show ?thesis using V_body_moves [of v k k' s] assms(2) by (simp add: pend_ok_def)
qed

lemma handle_due_unmoved:
  assumes "handle_due CallBack n k = Inr k'" and "pend_ok (device D) k" and "s \<notin> D"
  shows "unmoved s k k' \<and> pend_ok (device D) k'"
  using assms
proof (induction n arbitrary: k)
  case (Suc n)
  obtain p ps where p: "pendingList k = p # ps"
    using Suc.prems(1) by (cases "pendingList k") (auto simp: list_RemoveFront_def)
  let ?k = "k\<lparr>pendingList := ps\<rparr>"
  obtain k1 where k1: "CallBack (callOnInterrupt p) ?k = Inr k1"
    "(if pendingList k1 \<noteq> [] \<and> when (hd (pendingList k1)) \<le> now k1 then handle_due CallBack n k1 else Inr k1) = Inr k'"
    using Suc.prems(1) p by (auto simp: list_RemoveFront_def rbind_eq_Inr)
  have "unmoved s k ?k" "pend_ok (device D) ?k" "device D (callOnInterrupt p)"
    using Suc.prems(2) p by (auto simp: unmoved_def pend_ok_def)
  then have "unmoved s k k1" "pend_ok (device D) k1"
    using CallBack_unmoved [OF k1(1)] Suc.prems(3) unmoved_trans by blast+
  then show ?case using Suc.IH [of k1] k1(2) Suc.prems(3) unmoved_trans by (auto split: if_splits)
qed simp

lemma CheckIfDue_unmoved:
  assumes "CheckIfDue CallBack adv k = Inr (b, k')" and "pend_ok (device D) k" and "s \<notin> D"
  shows "unmoved s k k' \<and> pend_ok (device D) k'"
proof (cases "pendingList k = [] \<or> when (hd (pendingList k)) > now k \<and> \<not> adv")
  case True
  then have "k' = k" using assms(1) by (cases "pendingList k") (auto simp: CheckIfDue_def require_eq_Inr)
  then show ?thesis using assms(2) by (simp add: unmoved_refl)
next
  case False
  then obtain p ps where p: "pendingList k = p # ps" by (cases "pendingList k") auto
  define k1 where "k1 = (if when p > now k
    then k\<lparr>stats := (stats k)\<lparr>idleTicks := idleTicks (stats k) + (when p - now k), totalTicks := when p\<rparr>\<rparr> else k)"
  have "rbind (DelayedLoad 0 0 k1) (\<lambda>k2. rbind (handle_due CallBack (Suc (length (pendingList k2))) (k2\<lparr>inHandler := True\<rparr>)) (\<lambda>k3.
      Inr (True, k3\<lparr>inHandler := False\<rparr>))) = Inr (b, k')"
    using assms(1) False p unfolding CheckIfDue_def k1_def Let_def require_eq_Inr by (simp del: handle_due.simps split: if_splits)
  then obtain k2 k3 where r: "DelayedLoad 0 0 k1 = Inr k2" "handle_due CallBack (Suc (length (pendingList k2))) (k2\<lparr>inHandler := True\<rparr>) = Inr k3"
    "k' = k3\<lparr>inHandler := False\<rparr>" by (auto simp: rbind_eq_Inr simp del: handle_due.simps)
  have r': "unmoved s k k1" "pendingList k1 = pendingList k" by (simp_all add: k1_def unmoved_def)
  have "unmoved s k1 (k2\<lparr>inHandler := True\<rparr>)" "pendingList k2 = pendingList k1"
    using r(1) by (auto simp: DelayedLoad_def rbind_eq_Inr arr_set_def unmoved_def split: if_splits)
  moreover have "unmoved s (k2\<lparr>inHandler := True\<rparr>) k3 \<and> pend_ok (device D) k3"
    using handle_due_unmoved [OF r(2), of D s] assms(2,3) calculation(2) r'(2) by (simp add: pend_ok_def)
  moreover have "unmoved s k3 k'" "pend_ok (device D) k' = pend_ok (device D) k3" by (simp_all add: r(3) unmoved_def)
  ultimately show ?thesis using r'(1) unmoved_trans by blast
qed

lemma OneTick_unmoved:
  assumes "OneTick CallBack k = Inr (y, k')" and "pend_ok (device D) k" and "s \<notin> D"
  shows "unmoved s k k' \<and> pend_ok (device D) k'"
proof -
  obtain k1 b k2 where r: "CheckIfDue CallBack False k1 = Inr (b, k2)" "unmoved s k k1" "pendingList k1 = pendingList k"
    "unmoved s k2 k'" "pendingList k' = pendingList k2"
    using assms(1) by (auto simp: OneTick_def ChangeLevel_def Let_def rbind_eq_Inr unmoved_def split: if_splits)
  have "unmoved s k1 k2 \<and> pend_ok (device D) k2"
    using CheckIfDue_unmoved [OF r(1), of D s] assms(2,3) r(3) by (simp add: pend_ok_def)
  then show ?thesis using r(2,4,5) unmoved_trans by (simp add: pend_ok_def) blast
qed

lemma SetLevel_unmoved:
  assumes "SetLevel CallBack lv k = Inr (y, k')" and "pend_ok (device D) k" and "s \<notin> D"
  shows "unmoved s k k' \<and> pend_ok (device D) k'"
proof -
  have c: "unmoved s k (ChangeLevel lv k)" "pend_ok (device D) (ChangeLevel lv k)" using assms(2) by (simp_all add: ChangeLevel_def unmoved_def)
  show ?thesis
  proof (cases "lv = IntOn \<and> level k = IntOff")
    case True
    then have "OneTick CallBack (ChangeLevel lv k) = Inr (y, k')" using assms(1) by (simp add: SetLevel_def require_eq_Inr)
    then show ?thesis using OneTick_unmoved c assms(3) unmoved_trans by blast
  next
    case False
    then have "k' = ChangeLevel lv k" using assms(1) by (auto simp: SetLevel_def require_eq_Inr Let_def)
    then show ?thesis using c by simp
  qed
qed

section \<open>The invariant through the routines\<close>

lemma lock_invD:
  assumes "lock_inv D l s n k"
  shows "pend_ok (device D) k" "s \<notin> D" "s < brk_obj k" "\<forall>t. threads k t \<noteq> None \<longrightarrow> t < brk_obj k"
    "conds k c = Some q \<Longrightarrow> s \<notin> set q" "locks k l' = Some lk \<Longrightarrow> l' \<noteq> l \<Longrightarrow> lockSem lk \<noteq> s"
    "framed l s (frs k t)" "toBeDestroyed k = Some t \<Longrightarrow> list_all (clean l s) (frs k t)"
  using assms unfolding lock_inv_def by blast+

text \<open>Replacing the frames of one thread.\<close>

lemma sum_replace:
  assumes "t < (N :: nat)"
  shows "(\<Sum>x < N. share l s ((F(t := fs)) x)) = (\<Sum>x < N. share l s (F x)) - share l s (F t) + share l s fs"
proof -
  have "(\<Sum>x < N. share l s ((F(t := fs)) x)) = share l s fs + (\<Sum>x \<in> {..< N} - {t}. share l s ((F(t := fs)) x))"
    using assms by (subst sum.remove [of _ t]) simp_all
  moreover have "(\<Sum>x \<in> {..< N} - {t}. share l s ((F(t := fs)) x)) = (\<Sum>x \<in> {..< N} - {t}. share l s (F x))"
    by (rule sum.cong) simp_all
  moreover have "(\<Sum>x < N. share l s (F x)) = share l s (F t) + (\<Sum>x \<in> {..< N} - {t}. share l s (F x))"
    using assms by (subst sum.remove [of _ t]) simp_all
  ultimately show ?thesis by simp
qed

lemma frames_inv:
  assumes i: "lock_inv D l s n k" and r: "threads k t = Some r" and f: "frames r' = fs" "framed l s fs"
    and d: "toBeDestroyed k = Some t \<longrightarrow> list_all (clean l s) fs"
  shows "lock_inv D l s (n - share l s (frames r) + share l s fs) (k\<lparr>threads := (threads k)(t \<mapsto> r')\<rparr>)"
proof -
  let ?k = "k\<lparr>threads := (threads k)(t \<mapsto> r')\<rparr>"
  have F: "frs ?k = (frs k)(t := fs)" using f(1) by (auto simp: frs_def)
  have "t < brk_obj k" using lock_invD(4) [OF i] r by auto
  from sum_replace [OF this] have "(\<Sum>x < brk_obj k. share l s (frs ?k x)) = (\<Sum>x < brk_obj k. share l s (frs k x)) - share l s (frames r) + share l s fs"
    unfolding F using r by (simp add: frs_def)
  moreover have "framed l s (frs ?k x)" for x unfolding F using lock_invD(7) [OF i] f(2) by simp
  moreover have "toBeDestroyed ?k = Some x \<Longrightarrow> list_all (clean l s) (frs ?k x)" for x unfolding F using lock_invD(8) [OF i] d by auto
  ultimately show ?thesis using i \<open>t < brk_obj k\<close> unfolding lock_inv_def pend_ok_def by auto
qed

text \<open>A push adds the weight of what is pushed.\<close>

lemma push_inv:
  assumes i: "lock_inv D l s n k" and p: "push fs k = Inr k'" and f: "framed l s (fs @ frs k (currentThread k))"
    and c: "toBeDestroyed k = Some (currentThread k) \<longrightarrow> list_all (clean l s) fs"
  shows "lock_inv D l s (n + share l s fs) k' \<and> currentThread k' = currentThread k \<and> frs k' (currentThread k) = fs @ frs k (currentThread k)"
proof -
  let ?c = "currentThread k"
  obtain r where r: "threads k ?c = Some r" "k' = k\<lparr>threads := (threads k)(?c \<mapsto> r\<lparr>frames := fs @ frames r\<rparr>)\<rparr>"
    using p by (auto simp: push_def upd_thread_def obj_def split: option.splits)
  have F: "frs k ?c = frames r" using r(1) by (simp add: frs_def)
  have "toBeDestroyed k = Some ?c \<longrightarrow> list_all (clean l s) (fs @ frames r)" using c lock_invD(8) [OF i] F by auto
  from frames_inv [OF i r(1) _ _ this, of "r\<lparr>frames := fs @ frames r\<rparr>"] f F
  show ?thesis by (simp add: r(2)) (simp add: frs_def)
qed

lemma push_light:
  assumes i: "lock_inv D l s n k" and p: "push fs k = Inr k'" and f: "list_all (light l s) fs"
  shows "lock_inv D l s n k'"
  using push_inv [OF i p light_framed [OF f lock_invD(7) [OF i]]] clean_share [OF light_clean [OF f]] light_clean [OF f] by simp

lemma after_tick_inv:
  assumes "after_tick st m = Inr k'" and "\<And>y k1. m = Inr (y, k1) \<Longrightarrow> lock_inv D l s n k1"
  shows "lock_inv D l s n k'"
proof -
  obtain y k1 where m: "m = Inr (y, k1)" "(if y then push [Yield, SetStatus st] k1 else Inr k1) = Inr k'"
    using assms(1) by (auto simp: after_tick_def rbind_eq_Inr)
  then show ?thesis using assms(2) [OF m(1)] push_light [of D l s n k1 "[Yield, SetStatus st]" k'] by (auto simp: light_def split: if_splits)
qed

lemma set_level_inv:
  assumes i: "lock_inv D l s n k" and "set_level lv k = Inr k'"
  shows "lock_inv D l s n k'"
  using assms(2) unfolding set_level_def
proof (rule after_tick_inv)
  fix y k1 assume "SetLevel CallBack lv k = Inr (y, k1)"
  from SetLevel_unmoved [OF this lock_invD(1,2) [OF i]] show "lock_inv D l s n k1" using unmoved_inv i by blast
qed

lemma off_inv [simp]: "lock_inv D l s n (k\<lparr>level := lv\<rparr>) = lock_inv D l s n k" "frs (k\<lparr>level := lv\<rparr>) = frs k"
proof -
  show "frs (k\<lparr>level := lv\<rparr>) = frs k" by (simp add: frs_def fun_eq_iff)
  then show "lock_inv D l s n (k\<lparr>level := lv\<rparr>) = lock_inv D l s n k" by (simp add: lock_inv_def)
qed

lemma status_inv:
  assumes i: "lock_inv D l s n k" and u: "upd_thread t f k = Inr k'" and f: "\<And>r. frames (f r) = frames r"
  shows "lock_inv D l s n k' \<and> currentThread k' = currentThread k \<and> frs k' = frs k \<and> toBeDestroyed k' = toBeDestroyed k"
proof -
  obtain r where r: "threads k t = Some r" "k' = k\<lparr>threads := (threads k)(t \<mapsto> f r)\<rparr>"
    using u by (auto simp: upd_thread_def obj_def split: option.splits)
  then have "unmoved s k k'" "pendingList k' = pendingList k" using f by (auto simp: unmoved_def)
  then show ?thesis using unmoved_inv [of s k k' D l n] unmoved_frs [of s k k'] lock_invD(1) [OF i] i
    by (simp add: pend_ok_def) (simp add: unmoved_def)
qed

lemma FindNextToRun_inv:
  assumes "lock_inv D l s n k" and "FindNextToRun k = Inr (t, k')"
  shows "lock_inv D l s n k' \<and> currentThread k' = currentThread k \<and> frs k' = frs k"
proof -
  have "unmoved s k k'" "pendingList k' = pendingList k"
    using assms(2) by (auto simp: FindNextToRun_def require_eq_Inr rbind_eq_Inr unmoved_def split: if_splits)
  then show ?thesis using unmoved_inv [of s k k' D l n] unmoved_frs [of s k k'] lock_invD(1) [OF assms(1)] assms(1)
    by (simp add: pend_ok_def) (simp add: unmoved_def)
qed

text \<open>A context switch. A thread that ends leaves nothing but clean frames behind.\<close>

lemma Scheduler_Run_inv:
  assumes i: "lock_inv D l s n k" and r: "Scheduler_Run t fin k = Inr k'" and c: "fin \<longrightarrow> list_all (clean l s) (frs k (currentThread k))"
  shows "lock_inv D l s n k'"
proof -
  let ?c = "currentThread k"
  obtain k1 k2 where k1: "k1 = (if fin then k\<lparr>toBeDestroyed := Some ?c\<rparr> else k)"
    and k2: "upd_thread ?c (\<lambda>r. let r1 = (case space r of None \<Rightarrow> r | Some sp \<Rightarrow> (SaveUserState k1 r)\<lparr>space := Some (AddrSpace_SaveState k1 sp)\<rparr>)
               in r1\<lparr>frames := Run_back # frames r1\<rparr>) k1 = Inr k2"
    and k': "upd_thread t (\<lambda>r. r\<lparr>tstatus := RUNNING\<rparr>) (k2\<lparr>currentThread := t\<rparr>) = Inr k'"
    using r by (auto simp: Scheduler_Run_def Let_def require_eq_Inr rbind_eq_Inr split: if_splits)
  have F: "frs k1 = frs k" by (simp add: k1 frs_def fun_eq_iff)
  have i1: "lock_inv D l s n k1"
  proof (cases fin)
    case True
    then have "frs (k\<lparr>toBeDestroyed := Some ?c\<rparr>) = frs k" using F k1 by simp
    then show ?thesis using i c True unfolding k1 lock_inv_def pend_ok_def by simp
  qed (use i k1 in simp)
  define g where "g = (\<lambda>r. let r1 = (case space r of None \<Rightarrow> r | Some sp \<Rightarrow> (SaveUserState k1 r)\<lparr>space := Some (AddrSpace_SaveState k1 sp)\<rparr>)
    in r1\<lparr>frames := Run_back # frames r1\<rparr>)"
  have g: "frames (g r) = Run_back # frames r" for r by (simp add: g_def Let_def SaveUserState_def split: option.split)
  obtain r where r: "threads k1 ?c = Some r" "k2 = k1\<lparr>threads := (threads k1)(?c \<mapsto> g r)\<rparr>"
    using k2 unfolding g_def [symmetric] by (auto simp: upd_thread_def obj_def split: option.splits)
  note r2 = r(1) g [of r] r(2)
  have fr: "frames r = frs k ?c" using r2(1) F [symmetric] by (simp add: frs_def)
  have "framed l s (Run_back # frames r)" using lock_invD(7) [OF i] by (simp add: fr)
  moreover have "toBeDestroyed k1 = Some ?c \<longrightarrow> list_all (clean l s) (Run_back # frames r)"
    using lock_invD(8) [OF i1, of ?c] by (simp add: F fr)
  ultimately have "lock_inv D l s n k2"
    using frames_inv [OF i1 r2(1,2)] r2(3) by (simp add: weight_def)
  then have "lock_inv D l s n (k2\<lparr>currentThread := t\<rparr>)" by (simp add: lock_inv_def frs_def pend_ok_def)
  then show ?thesis using status_inv [OF _ k'] by simp
qed

lemma Sleep_inv:
  assumes i: "lock_inv D l s n k" and r: "Thread_Sleep fin k = Inr k'" and c: "fin \<longrightarrow> list_all (clean l s) (frs k (currentThread k))"
  shows "lock_inv D l s n k'"
proof -
  obtain k1 where k1: "upd_thread (currentThread k) (\<lambda>r. r\<lparr>tstatus := BLOCKED\<rparr>) k = Inr k1" "push [Sleep_loop fin] k1 = Inr k'"
    using r by (auto simp: Thread_Sleep_def require_eq_Inr rbind_eq_Inr)
  have s1: "lock_inv D l s n k1" "currentThread k1 = currentThread k" "frs k1 = frs k" using status_inv [OF i k1(1)] by simp_all
  have "framed l s ([Sleep_loop fin] @ frs k1 (currentThread k1))" using c lock_invD(7) [OF i] s1 by simp
  from push_inv [OF s1(1) k1(2) this] show ?thesis by (simp add: weight_def)
qed

lemma V_body_inv:
  assumes i: "lock_inv D l s n k" and r: "V_body v k = Inr k'"
  shows "lock_inv D l s (n + (if v = s then 1 else 0)) k'"
proof (cases "v = s")
  case False
  then show ?thesis using V_body_moves [OF r, of s] i unmoved_inv [of s k k' D l n] by (simp add: pend_ok_def lock_inv_def)
next
  case True
  note m = V_body_moves [OF r, of s]
  then show ?thesis using i True unfolding lock_inv_def by (auto simp: pend_ok_def)
qed

lemma Semaphore_V_inv:
  assumes i: "lock_inv D l s n k" and r: "Semaphore_V v k = Inr k'"
  shows "lock_inv D l s (n + (if v = s then 1 else 0)) k'"
proof -
  obtain k1 k2 where k1: "set_level IntOff k = Inr k1" and k2: "V_body v k1 = Inr k2" and k': "set_level (level k) k2 = Inr k'"
    using r by (auto simp: Semaphore_V_def rbind_eq_Inr)
  show ?thesis by (rule set_level_inv [OF V_body_inv [OF set_level_inv [OF i k1] k2] k'])
qed

text \<open>\<open>P\<close>: when it does not wait, the semaphore goes down; otherwise the thread will try again.\<close>

lemma P_loop_inv:
  assumes i: "lock_inv D l s n k" and r: "Semaphore_P_loop v lv k = Inr k'"
    and h: "v = s \<longrightarrow> frs k (currentThread k) \<noteq> [] \<and> hd (frs k (currentThread k)) = Acquired l"
  shows "lock_inv D l s (n - (if v = s then 1 else 0)) k'"
proof -
  obtain sem where sem: "sems k v = Some sem" using r by (auto simp: Semaphore_P_loop_def obj_def split: option.splits)
  show ?thesis
  proof (cases "semValue sem = 0")
    case True
    then obtain q k1 where k1: "push [SemP_loop v lv] (k\<lparr>sems := (sems k)(v \<mapsto> sem\<lparr>semQueue := q\<rparr>)\<rparr>) = Inr k1" "Thread_Sleep False k1 = Inr k'"
      using r sem by (auto simp: Semaphore_P_loop_def obj_def rbind_eq_Inr)
    let ?k = "k\<lparr>sems := (sems k)(v \<mapsto> sem\<lparr>semQueue := q\<rparr>)\<rparr>"
    have "unmoved s k ?k" using sem by (simp add: unmoved_def)
    then have i1: "lock_inv D l s n ?k" and F: "frs ?k = frs k"
      using unmoved_inv [of s k ?k D l n] unmoved_frs lock_invD(1) [OF i] i by (simp_all add: pend_ok_def)
    have "framed l s ([SemP_loop v lv] @ frs ?k (currentThread ?k))" using h lock_invD(7) [OF i] F by simp
    moreover have "toBeDestroyed ?k = Some (currentThread ?k) \<longrightarrow> list_all (clean l s) [SemP_loop v lv]"
      using h lock_invD(8) [OF i, of "currentThread k"] by (cases "frs k (currentThread k)") auto
    ultimately have "lock_inv D l s (n - (if v = s then 1 else 0)) k1" using push_inv [OF i1 k1(1)] by (cases "v = s") (simp_all add: weight_def)
    then show ?thesis using Sleep_inv [OF _ k1(2)] by simp
  next
    case False
    let ?k = "k\<lparr>sems := (sems k)(v \<mapsto> sem\<lparr>semValue := semValue sem - 1\<rparr>)\<rparr>"
    have l: "set_level lv ?k = Inr k'" using r sem False by (simp add: Semaphore_P_loop_def obj_def)
    have F: "frs ?k = frs k" by (simp add: frs_def fun_eq_iff)
    have "lock_inv D l s (n - (if v = s then 1 else 0)) ?k"
    proof (cases "v = s")
      case True
      then show ?thesis using i sem False unfolding lock_inv_def F by (auto simp: pend_ok_def)
    next
      case False
      then show ?thesis using i unfolding lock_inv_def F by (auto simp: pend_ok_def)
    qed
    then show ?thesis using set_level_inv l by blast
  qed
qed

lemma CheckToBeDestroyed_inv:
  assumes i: "lock_inv D l s n k" and r: "CheckToBeDestroyed k = Inr k'"
  shows "lock_inv D l s n k'"
proof (cases "toBeDestroyed k")
  case None
  then show ?thesis using i r by (simp add: CheckToBeDestroyed_def)
next
  case (Some t)
  then have k': "k' = k\<lparr>threads := (threads k)(t := None), toBeDestroyed := None\<rparr>"
    using r by (simp add: CheckToBeDestroyed_def require_eq_Inr)
  have F: "frs k' = (frs k)(t := [])" by (auto simp: k' frs_def fun_eq_iff)
  have z: "share l s (frs k t) = 0" using lock_invD(8) [OF i Some] by (rule clean_share)
  have "(\<Sum>x < brk_obj k. share l s (((frs k)(t := [])) x)) = (\<Sum>x < brk_obj k. share l s (frs k x))"
    by (rule sum.cong) (auto simp: z)
  then show ?thesis using i unfolding lock_inv_def F by (auto simp: k' pend_ok_def)
qed

text \<open>New objects do not touch the lock.\<close>

lemma grow_inv:
  assumes i: "lock_inv D l s n k" and e: "\<And>t. t \<noteq> brk_obj k \<Longrightarrow> threads k' t = threads k t" "\<And>x. x \<noteq> brk_obj k \<Longrightarrow> sems k' x = sems k x"
    "locks k' = locks k" "conds k' = conds k" "brk_obj k' = brk_obj k + 1" "toBeDestroyed k' = toBeDestroyed k" "pendingList k' = pendingList k"
    and c: "list_all (clean l s) (frs k' (brk_obj k))"
  shows "lock_inv D l s n k'"
proof -
  have F: "t \<noteq> brk_obj k \<Longrightarrow> frs k' t = frs k t" for t using e(1) by (simp add: frs_def)
  have "(\<Sum>t < brk_obj k. share l s (frs k' t)) = (\<Sum>t < brk_obj k. share l s (frs k t))" by (rule sum.cong) (auto simp: F)
  then have S: "(\<Sum>t < Suc (brk_obj k). share l s (frs k' t)) = (\<Sum>t < brk_obj k. share l s (frs k t))" using clean_share [OF c] by simp
  have "framed l s (frs k' t)" for t using F [of t] lock_invD(7) [OF i] clean_framed [OF c] by (cases "t = brk_obj k") simp_all
  moreover have "list_all (clean l s) (frs k' t)" if "toBeDestroyed k = Some t" for t
    using F [of t] lock_invD(8) [OF i that] c by (cases "t = brk_obj k") simp_all
  moreover have "threads k' t \<noteq> None \<Longrightarrow> t < Suc (brk_obj k)" for t using lock_invD(4) [OF i] e(1) [of t] by (cases "t = brk_obj k") auto
  moreover have "sems k' s = sems k s" using lock_invD(3) [OF i] e(2) by simp
  ultimately show ?thesis using i unfolding lock_inv_def e(3-6) pend_ok_def e(7) by (simp add: S less_SucI del: sum.lessThan_Suc)
qed

section \<open>Every frame\<close>

lemma Yield_inv:
  assumes i: "lock_inv D l s n k" and r: "Thread_Yield k = Inr k'"
  shows "lock_inv D l s n k'"
proof -
  obtain k1 t k2 where k1: "set_level IntOff k = Inr k1" and k2: "FindNextToRun k1 = Inr (t, k2)"
    and rest: "(case t of None \<Rightarrow> set_level (level k) k2 | Some u \<Rightarrow> rbind (push [Yield_end (level k)] k2) (\<lambda>k3.
        rbind (ReadyToRun (currentThread k3) k3) (Scheduler_Run u False))) = Inr k'"
    using r by (auto simp: Thread_Yield_def Let_def rbind_eq_Inr)
  have i2: "lock_inv D l s n k2" using FindNextToRun_inv [OF set_level_inv [OF i k1] k2] by simp
  show ?thesis
  proof (cases t)
    case None
    then show ?thesis using rest set_level_inv [OF i2] by simp
  next
    case (Some u)
    then obtain k3 k4 where k3: "push [Yield_end (level k)] k2 = Inr k3" and k4: "ReadyToRun (currentThread k3) k3 = Inr k4"
      and k': "Scheduler_Run u False k4 = Inr k'" using rest by (auto simp: rbind_eq_Inr)
    have i3: "lock_inv D l s n k3" by (rule push_light [OF i2 k3]) (simp add: light_def)
    have "lock_inv D l s n k4"
      using ReadyToRun_unmoved [OF k4, of s] unmoved_inv i3 lock_invD(1) [OF i3] by (simp add: pend_ok_def) (metis lock_invD(1) pend_ok_def)
    then show ?thesis using Scheduler_Run_inv [OF _ k'] by simp
  qed
qed

lemma Sleep_loop_inv:
  assumes i: "lock_inv D l s n k" and r: "Thread_Sleep_loop fin k = Inr k'" and c: "fin \<longrightarrow> list_all (clean l s) (frs k (currentThread k))"
  shows "lock_inv D l s n k'"
proof -
  obtain t k1 where k1: "FindNextToRun k = Inr (t, k1)"
    and rest: "(case t of None \<Rightarrow> rbind (Idle CallBack k1) (push [Sleep_loop fin]) | Some u \<Rightarrow> Scheduler_Run u fin k1) = Inr k'"
    using r by (auto simp: Thread_Sleep_loop_def rbind_eq_Inr)
  have i1: "lock_inv D l s n k1" "currentThread k1 = currentThread k" "frs k1 = frs k" using FindNextToRun_inv [OF i k1] by simp_all
  show ?thesis
  proof (cases t)
    case (Some u)
    then show ?thesis using rest Scheduler_Run_inv [OF i1(1)] i1 c by simp
  next
    case None
    then obtain k2 where k2: "Idle CallBack k1 = Inr k2" and k': "push [Sleep_loop fin] k2 = Inr k'" using rest by (auto simp: rbind_eq_Inr)
    obtain k3 where k3: "CheckIfDue CallBack True (k1\<lparr>mstatus := IdleMode\<rparr>) = Inr (True, k3)" "k2 = k3\<lparr>mstatus := SystemMode\<rparr>"
      using k2 by (auto simp: Idle_def rbind_eq_Inr split: if_splits)
    have "unmoved s (k1\<lparr>mstatus := IdleMode\<rparr>) k3 \<and> pend_ok (device D) k3"
      using CheckIfDue_unmoved [OF k3(1), of D s] lock_invD(1,2) [OF i1(1)] by (simp add: pend_ok_def)
    then have u: "unmoved s k1 k2" "pend_ok (device D) k2" by (simp_all add: k3(2) unmoved_def)
    have i2: "lock_inv D l s n k2" "currentThread k2 = currentThread k" "frs k2 = frs k"
      using unmoved_inv [OF u i1(1)] i1 u(1) unmoved_frs [OF u(1)] by (simp_all add: unmoved_def)
    have "framed l s ([Sleep_loop fin] @ frs k2 (currentThread k2))" using c lock_invD(7) [OF i] i2(2,3) by simp
    from push_inv [OF i2(1) k' this] show ?thesis by (simp add: weight_def)
  qed
qed

text \<open>The two methods of the lock.\<close>

lemma sum_share_nonneg:
  assumes "lock_inv D l s n k"
  shows "0 \<le> (\<Sum>t < brk_obj k. share l s (frs k t))"
  by (rule sum_nonneg) (simp add: lock_invD(7) [OF assms] share_nonneg)

lemma Acquire_inv:
  assumes i: "lock_inv D l s n k" and r: "Lock_Acquire l' k = Inr k'" and d: "toBeDestroyed k = None"
  shows "lock_inv D l s n k'"
proof -
  obtain lk where lk: "locks k l' = Some lk" and p: "push [SemP (lockSem lk), Acquired l'] k = Inr k'"
    using r by (auto simp: Lock_Acquire_def obj_def split: option.splits)
  show ?thesis
  proof (cases "l' = l")
    case False
    then have "lockSem lk \<noteq> s" using lock_invD(6) [OF i lk] by simp
    then show ?thesis using push_light [OF i p] False by (simp add: light_def)
  next
    case True
    then have s: "lockSem lk = s" using i lk by (auto simp: lock_inv_def)
    have "framed l s ([SemP (lockSem lk), Acquired l'] @ frs k (currentThread k))" using lock_invD(7) [OF i] True by simp
    then show ?thesis using push_inv [OF i p] True s d by (simp add: weight_def)
  qed
qed

text \<open>A thread about to become the holder finds the lock without one.\<close>

lemma Acquired_inv:
  assumes i: "lock_inv D l s (n - (if l' = l then 1 else 0)) k" and r: "Lock_Acquired l' k = Inr k'" and n: "n = 1"
  shows "lock_inv D l s n k'"
proof -
  obtain lk where lk: "locks k l' = Some lk" and k': "k' = k\<lparr>locks := (locks k)(l' \<mapsto> lk\<lparr>lockHolder := Some (currentThread k)\<rparr>)\<rparr>"
    using r by (auto simp: Lock_Acquired_def obj_def split: option.splits)
  have F: "frs k' = frs k" by (simp add: k' frs_def fun_eq_iff)
  show ?thesis
  proof (cases "l' = l")
    case False
    then show ?thesis using i lk unfolding lock_inv_def F by (auto simp: k' pend_ok_def)
  next
    case True
    obtain sem where s: "lockSem lk = s" "sems k s = Some sem" "0 \<le> semValue sem"
      "semValue sem + (if lockHolder lk = None then 0 else 1) + (\<Sum>t < brk_obj k. share l s (frs k t)) = 0"
      using i lk True n by (auto simp: lock_inv_def)
    then have "lockHolder lk = None" "semValue sem + (\<Sum>t < brk_obj k. share l s (frs k t)) = 0"
      using sum_share_nonneg [OF i] by (auto split: if_splits)
    then show ?thesis using i s True n unfolding lock_inv_def F by (auto simp: k' pend_ok_def)
  qed
qed

lemma Release_inv:
  assumes i: "lock_inv D l s n k" and r: "Lock_Release l' k = Inr k'"
  shows "lock_inv D l s n k'"
proof -
  obtain lk where lk: "locks k l' = Some lk" "lockHolder lk = Some (currentThread k)"
    and v: "Semaphore_V (lockSem lk) (k\<lparr>locks := (locks k)(l' \<mapsto> lk\<lparr>lockHolder := None\<rparr>)\<rparr>) = Inr k'"
    using r by (auto simp: Lock_Release_def IsHeldByCurrentThread_def obj_def rbind_eq_Inr require_eq_Inr split: option.splits)
  let ?k = "k\<lparr>locks := (locks k)(l' \<mapsto> lk\<lparr>lockHolder := None\<rparr>)\<rparr>"
  have F: "frs ?k = frs k" by (simp add: frs_def fun_eq_iff)
  have s: "lockSem lk = s \<longleftrightarrow> l' = l" using i lk(1) by (auto simp: lock_inv_def)
  have "lock_inv D l s (n - (if l' = l then 1 else 0)) ?k"
    using i lk unfolding lock_inv_def F by (auto simp: pend_ok_def)
  from Semaphore_V_inv [OF this v] show ?thesis using s by (simp split: if_splits)
qed

text \<open>Conditions, synchronised lists and new threads use the lock's methods, or leave it alone.\<close>

lemma Wait_inv:
  assumes i: "lock_inv D l s n k" and r: "Condition_Wait c l' k = Inr k'"
  shows "lock_inv D l s n k'"
proof -
  let ?w = "brk_obj k" and ?k = "snd (Semaphore_new 0 k)"
  obtain q where q: "conds k c = Some q"
    and p: "push [Release l', SemP ?w, Acquire l', Delete_sem ?w] (?k\<lparr>conds := (conds k)(c \<mapsto> q @ [?w])\<rparr>) = Inr k'"
    using r by (auto simp: Condition_Wait_def Semaphore_new_def IsHeldByCurrentThread_def obj_def rbind_eq_Inr require_eq_Inr list_Append_def
        split: option.splits if_splits)
  have w: "?w \<noteq> s" "threads k ?w = None" using lock_invD(3,4) [OF i] by auto
  have i1: "lock_inv D l s n ?k" using grow_inv [OF i, of ?k] w by (simp add: Semaphore_new_def frs_def)
  have "frs (?k\<lparr>conds := (conds k)(c \<mapsto> q @ [?w])\<rparr>) = frs ?k" by (simp add: frs_def fun_eq_iff)
  then have "lock_inv D l s n (?k\<lparr>conds := (conds k)(c \<mapsto> q @ [?w])\<rparr>)"
    using i1 lock_invD(5) [OF i q] w(1) unfolding lock_inv_def by (auto simp: pend_ok_def Semaphore_new_def)
  from push_light [OF this p] w(1) show ?thesis by (simp add: light_def)
qed

lemma Signal_inv:
  assumes i: "lock_inv D l s n k" and r: "Condition_Signal c l' k = Inr k'"
  shows "lock_inv D l s n k'"
proof -
  obtain q where q: "conds k c = Some q" using r
    by (auto simp: Condition_Signal_def IsHeldByCurrentThread_def obj_def rbind_eq_Inr require_eq_Inr split: option.splits)
  show ?thesis
  proof (cases q)
    case Nil
    then have "k' = k" using r q
      by (auto simp: Condition_Signal_def IsHeldByCurrentThread_def obj_def rbind_eq_Inr require_eq_Inr split: option.splits)
    then show ?thesis using i by simp
  next
    case (Cons w q')
    then have v: "Semaphore_V w (k\<lparr>conds := (conds k)(c \<mapsto> q')\<rparr>) = Inr k'" using r q
      by (auto simp: Condition_Signal_def IsHeldByCurrentThread_def obj_def rbind_eq_Inr require_eq_Inr list_RemoveFront_def split: option.splits)
    have n: "s \<notin> set q" using lock_invD(5) [OF i q] .
    have "frs (k\<lparr>conds := (conds k)(c \<mapsto> q')\<rparr>) = frs k" by (simp add: frs_def fun_eq_iff)
    then have "lock_inv D l s n (k\<lparr>conds := (conds k)(c \<mapsto> q')\<rparr>)" using i n Cons unfolding lock_inv_def by (auto simp: pend_ok_def)
    from Semaphore_V_inv [OF this v] show ?thesis using n Cons by auto
  qed
qed

lemma slists_inv:
  assumes "lock_inv D l s n k"
  shows "lock_inv D l s n (k\<lparr>slists := f\<rparr>)"
proof -
  have "frs (k\<lparr>slists := f\<rparr>) = frs k" by (simp add: frs_def fun_eq_iff)
  then show ?thesis using assms by (simp add: lock_inv_def pend_ok_def)
qed

lemma Remove_loop_inv:
  assumes i: "lock_inv D l s n k" and r: "SynchList_Remove_loop a k = Inr k'"
  shows "lock_inv D l s n k'"
proof -
  obtain sl where sl: "slists k a = Some sl" using r by (auto simp: SynchList_Remove_loop_def obj_def split: option.splits)
  show ?thesis
  proof (cases "items sl")
    case Nil
    then have "push [Wait (listEmpty sl) (listLock sl), Remove_loop a] k = Inr k'" using r sl by (simp add: SynchList_Remove_loop_def obj_def)
    from push_light [OF i this] show ?thesis by (simp add: light_def)
  next
    case (Cons x xs)
    then obtain k1 where k1: "upd_thread (currentThread k) (\<lambda>r. r\<lparr>returned := x\<rparr>) (k\<lparr>slists := (slists k)(a \<mapsto> sl\<lparr>items := xs\<rparr>)\<rparr>) = Inr k1"
      and p: "push [Release (listLock sl)] k1 = Inr k'"
      using r sl by (auto simp: SynchList_Remove_loop_def obj_def list_RemoveFront_def rbind_eq_Inr)
    have "lock_inv D l s n k1" using status_inv [OF slists_inv [OF i] k1] by simp
    from push_light [OF this p] show ?thesis by (simp add: light_def)
  qed
qed

lemma Fork_inv:
  assumes i: "lock_inv D l s n k" and r: "Thread_Fork (fst (Thread_new k)) fs (snd (Thread_new k)) = Inr k'" and c: "list_all (clean l s) fs"
  shows "lock_inv D l s n k'"
proof -
  let ?t = "brk_obj k" and ?k = "snd (Thread_new k)"
  obtain k1 k2 where k1: "upd_thread ?t (\<lambda>r. r\<lparr>frames := Begin # fs @ [Finish]\<rparr>) ?k = Inr k1"
    and k2: "ReadyToRun ?t (k1\<lparr>level := IntOff\<rparr>) = Inr k2" and k': "set_level (level k1) k2 = Inr k'"
    using r by (auto simp: Thread_Fork_def Thread_new_def StackAllocate_def Let_def rbind_eq_Inr)
  have t: "?t \<noteq> s" "threads k ?t = None" using lock_invD(3,4) [OF i] by auto
  have "\<exists>x. k1 = ?k\<lparr>threads := (threads ?k)(?t \<mapsto> x\<lparr>frames := Begin # fs @ [Finish]\<rparr>)\<rparr>"
    using k1 by (auto simp: upd_thread_def obj_def split: option.splits)
  then obtain x where x: "k1 = ?k\<lparr>threads := (threads ?k)(?t \<mapsto> x\<lparr>frames := Begin # fs @ [Finish]\<rparr>)\<rparr>" ..
  have "frs k1 ?t = Begin # fs @ [Finish]" by (simp add: x frs_def)
  then have "lock_inv D l s n k1" using grow_inv [OF i, of k1] c by (simp add: x Thread_new_def)
  then have "lock_inv D l s n (k1\<lparr>level := IntOff\<rparr>)" by simp
  then have "lock_inv D l s n k2"
    using ReadyToRun_unmoved [OF k2, of s] unmoved_inv [of s "k1\<lparr>level := IntOff\<rparr>" k2 D l n] lock_invD(1) by (simp add: pend_ok_def)
  then show ?thesis using set_level_inv k' by blast
qed

text \<open>User code changes the machine, not the kernel's objects.\<close>

lemma same_kernel_inv:
  assumes "lock_inv D l s n k" and "threads k' = threads k" "sems k' = sems k" "locks k' = locks k" "conds k' = conds k" "brk_obj k' = brk_obj k"
    "toBeDestroyed k' = toBeDestroyed k" "currentThread k' = currentThread k" "pendingList k' = pendingList k"
  shows "lock_inv D l s n k'"
  using unmoved_inv [of s k k' D l n] assms lock_invD(1) [OF assms(1)] by (simp add: unmoved_def pend_ok_def)

lemma user_inv:
  assumes i: "lock_inv D l s n k" and hw: "hw_ok D k" and pt: "pageTable k = Some pt" "unat (pageTableSize k) \<le> length pt"
    and r: "run_user k = Inr k'"
  shows "lock_inv D l s n k'"
proof -
  obtain k1 k2 where k1: "OneInstruction ExceptionHandler k = Inr k1" and k2: "push [RunUser] k1 = Inr k2"
    and k': "after_tick (mstatus k2) (OneTick CallBack k2) = Inr k'" using r by (auto simp: run_user_def rbind_eq_Inr)
  have mo: "machine_ok k" using hw pt by (simp add: hw_ok_def cpu_ok_def machine_ok_def)
  have "sys_inv (entropy k) (sysenv.more k) (machine.more k)" using hw by (simp add: sys_inv_more hw_ok_def)
  from eh.OneInstruction_safe [OF mo this] have "sysenv.more k1 = sysenv.more k" by (simp add: k1 sys_inv_more)
  then have "locks k1 = locks k \<and> conds k1 = conds k" by (cases k; cases k1) simp
  then have "lock_inv D l s n k1" using same_kernel_inv [OF i, of k1] kernel_more [OF \<open>sysenv.more k1 = sysenv.more k\<close>] by simp
  then have i2: "lock_inv D l s n k2" using push_light [OF _ k2] by (simp add: light_def)
  show ?thesis
  proof (rule after_tick_inv [OF k'])
    fix y k3 assume "OneTick CallBack k2 = Inr (y, k3)"
    from OneTick_unmoved [OF this lock_invD(1,2) [OF i2]] show "lock_inv D l s n k3" using unmoved_inv i2 by blast
  qed
qed

lemma Execute_inv:
  assumes i: "lock_inv D l s n k" and r: "start_user sp k = Inr k'" and hw: "hw_ok D k"
  shows "lock_inv D l s n k'"
proof -
  obtain k1 k2 where k1: "upd_thread (currentThread k) (\<lambda>r. r\<lparr>space := Some sp\<rparr>) k = Inr k1" and k2: "AddrSpace_Execute sp k1 = Inr k2"
    and k': "push [RunUser] k2 = Inr k'" using r by (auto simp: start_user_def rbind_eq_Inr)
  have i1: "lock_inv D l s n k1" using status_inv [OF i k1] by simp
  have "length (registers k1) = NumTotalRegs" using k1 hw by (auto simp: upd_thread_def obj_def hw_ok_def cpu_ok_def split: option.splits)
  from InitRegisters_regs [OF this, of sp] k2 obtain ws where "k2 = (AddrSpace_RestoreState sp (k1\<lparr>registers := ws\<rparr>))\<lparr>mstatus := UserMode\<rparr>"
    by (auto simp: AddrSpace_Execute_def)
  then have "lock_inv D l s n k2" using same_kernel_inv [OF i1, of k2] by (simp add: AddrSpace_RestoreState_def)
  from push_light [OF this k'] show ?thesis by (simp add: light_def)
qed

lemma frame_inv:
  assumes k: "kernel_ok D k" and f: "map_option frames (cur k) = Some (f # fs)" and r: "step k = Inr k'" and i: "lock_inv D l s 1 k"
  shows "lock_inv D l s 1 k'"
proof -
  let ?c = "currentThread k"
  obtain r where th: "threads k ?c = Some r" "frames r = f # fs" using f by (auto simp: cur_def)
  define k1 where "k1 = k\<lparr>threads := (threads k)(?c \<mapsto> r\<lparr>frames := fs\<rparr>)\<rparr>"
  have run: "exec_frame f k1 = Inr k'" using r th by (simp add: step_def obj_def k1_def)
  have F: "frs k ?c = f # fs" "frs k1 ?c = fs" "currentThread k1 = ?c" using th by (simp_all add: frs_def k1_def)
  have fr: "framed l s (f # fs)" using lock_invD(7) [OF i, of ?c] F(1) by simp
  have d: "toBeDestroyed k1 \<noteq> None \<longrightarrow> f = Run_back \<or> f = Begin" "hw_ok D k1" "f \<noteq> Run_back \<longrightarrow> loaded k1 r" "space_ok r"
    using k f th by (auto simp: kernel_ok_def cur_def k1_def hw_ok_def clock_ok_def cpu_ok_def reg_def pend_ok_def loaded_def)
  have "toBeDestroyed k = Some ?c \<longrightarrow> list_all (clean l s) fs" using lock_invD(8) [OF i, of ?c] F(1) by simp
  from frames_inv [OF i th(1) _ _ this, of "r\<lparr>frames := fs\<rparr>"] fr th(2)
  have i1: "lock_inv D l s (1 - weight l s f) k1" by (simp add: k1_def)
  show ?thesis
  proof (cases f)
    case (SemP v)
    then have "Semaphore_P_loop v (level k1) (k1\<lparr>level := IntOff\<rparr>) = Inr k'" using run by (simp add: Semaphore_P_def Let_def)
    from P_loop_inv [OF _ this, of D l s "1 - weight l s f"] i1 fr F SemP show ?thesis by (auto simp: weight_def split: if_splits)
  next
    case (SemP_loop v lv)
    then show ?thesis using P_loop_inv [OF i1, of v lv k'] run fr F by (auto simp: weight_def split: if_splits)
  next
    case (Acquired l')
    then show ?thesis using Acquired_inv [of D l s 1 l' k1 k'] i1 run by (simp add: weight_def split: if_splits)
  next
    case Yield then show ?thesis using Yield_inv i1 run by (simp add: weight_def)
  next
    case Finish
    then show ?thesis using Sleep_inv [of D l s 1 "k1\<lparr>level := IntOff\<rparr>" True k'] i1 run fr F by (simp add: Thread_Finish_def weight_def)
  next
    case (SemV v)
    then show ?thesis using Semaphore_V_inv [of D l s 1 k1 v k'] i1 run fr by (simp add: weight_def)
  next
    case (Acquire l') then show ?thesis using Acquire_inv [of D l s 1 k1 l' k'] i1 run d(1) by (simp add: weight_def)
  next
    case (Release l') then show ?thesis using Release_inv i1 run by (simp add: weight_def)
  next
    case (Wait c l') then show ?thesis using Wait_inv i1 run by (simp add: weight_def)
  next
    case (Signal c l') then show ?thesis using Signal_inv i1 run by (simp add: weight_def)
  next
    case (Broadcast c l')
    then have "push [Signal c l', Broadcast c l'] k1 = Inr k' \<or> k' = k1"
      using run by (auto simp: Condition_Broadcast_def obj_def split: option.splits if_splits)
    then show ?thesis using push_light [of D l s 1 k1 "[Signal c l', Broadcast c l']" k'] i1 Broadcast by (auto simp: weight_def light_def)
  next
    case (Append a x)
    then obtain sl :: SynchList where "push [Acquire (listLock sl), Append_item a x, Signal (listEmpty sl) (listLock sl), Release (listLock sl)] k1 = Inr k'"
      using run by (auto simp: SynchList_Append_def obj_def split: option.splits)
    from push_light [OF _ this, of D l s 1] i1 Append show ?thesis by (simp add: weight_def light_def)
  next
    case (RemoveFront a)
    then obtain sl :: SynchList where "push [Acquire (listLock sl), Remove_loop a] k1 = Inr k'"
      using run by (auto simp: SynchList_RemoveFront_def obj_def split: option.splits)
    from push_light [OF _ this, of D l s 1] i1 RemoveFront show ?thesis by (simp add: weight_def light_def)
  next
    case (Fork gs) then show ?thesis using Fork_inv [of D l s 1 k1 gs k'] i1 run fr by (simp add: weight_def split: prod.splits)
  next
    case (Execute sp) then show ?thesis using Execute_inv [of D l s 1 k1 sp k'] i1 run d(2) by (simp add: weight_def)
  next
    case (AssertReturned x) then show ?thesis using i1 run by (auto simp: weight_def obj_def require_eq_Inr split: option.splits)
  next
    case Begin
    then obtain k2 where "CheckToBeDestroyed k1 = Inr k2" "set_level IntOn k2 = Inr k'" using run by (auto simp: Thread_Begin_def rbind_eq_Inr)
    then show ?thesis using set_level_inv [OF CheckToBeDestroyed_inv] i1 Begin by (simp add: weight_def)
  next
    case (Yield_end lv) then show ?thesis using set_level_inv i1 run by (simp add: weight_def)
  next
    case (Sleep_loop fin) then show ?thesis using Sleep_loop_inv [of D l s 1 k1 fin k'] i1 run fr F by (simp add: weight_def)
  next
    case Run_back
    then obtain k2 r2 where k2: "CheckToBeDestroyed k1 = Inr k2"
      and k': "k' = (case space r2 of None \<Rightarrow> k2 | Some sp \<Rightarrow> AddrSpace_RestoreState sp (RestoreUserState r2 k2))"
      using run by (auto simp: Scheduler_Run_back_def require_eq_Inr rbind_eq_Inr)
    have "lock_inv D l s 1 k2" using CheckToBeDestroyed_inv [OF _ k2] i1 Run_back by (simp add: weight_def)
    then show ?thesis by (rule same_kernel_inv) (simp_all add: k' AddrSpace_RestoreState_def RestoreUserState_def split: option.split)
  next
    case (SetStatus st)
    then have "k' = k1\<lparr>mstatus := st\<rparr>" using run by simp
    then show ?thesis using same_kernel_inv [of D l s 1 k1 k'] i1 SetStatus by (simp add: weight_def)
  next
    case (Delete_sem v)
    then have "unmoved s k1 k'" "pendingList k' = pendingList k1" using run fr by (auto simp: unmoved_def)
    then show ?thesis using unmoved_inv [of s k1 k' D l 1] i1 lock_invD(1) [OF i1] Delete_sem by (simp add: weight_def pend_ok_def)
  next
    case (Append_item a x)
    then obtain g where "k' = k1\<lparr>slists := g\<rparr>" using run by (auto simp: SynchList_Append_item_def obj_def rbind_eq_Inr split: option.splits)
    then show ?thesis using slists_inv i1 Append_item by (simp add: weight_def)
  next
    case (Remove_loop a) then show ?thesis using Remove_loop_inv i1 run by (simp add: weight_def)
  next
    case RunUser
    then obtain sp pt where "space r = Some sp" "pageTable k1 = Some pt" "unat (pageTableSize k1) \<le> length pt"
      using d(3,4) th(2) by (auto simp: space_ok_def loaded_def)
    then show ?thesis using user_inv [OF _ d(2)] i1 run RunUser by (simp add: weight_def)
  qed
qed

lemma reaches_inv:
  assumes "reaches D k k'" and "kernel_ok D k" and "lock_inv D l s 1 k"
  shows "lock_inv D l s 1 k'"
  using assms
proof (induction rule: reaches.induct)
  case (reaches_step k k' f fs k'')
  then show ?case using frame_inv [of D k' f fs k'' l s] reaches_ok [of D k k'] by simp
qed

section \<open>Mutual exclusion\<close>

text \<open>Every object of the kernel lies below the next free address.\<close>

definition addresses_ok :: "kernel \<Rightarrow> bool" where
  "addresses_ok k \<longleftrightarrow> (\<forall>c q w. conds k c = Some q \<longrightarrow> w \<in> set q \<longrightarrow> w < brk_obj k) \<and>
     (\<forall>l lk. locks k l = Some lk \<longrightarrow> l < brk_obj k \<and> lockSem lk < brk_obj k)"

lemma Lock_new_eq:
  "Lock_new k = (brk_obj k + 1, k\<lparr>sems := (sems k)(brk_obj k \<mapsto> \<lparr>semValue = 1, semQueue = []\<rparr>), brk_obj := brk_obj k + 2,
     locks := (locks k)(brk_obj k + 1 \<mapsto> \<lparr>lockSem = brk_obj k, lockHolder = None\<rparr>)\<rparr>)"
  by (simp add: Lock_new_def Semaphore_new_def)

lemma Lock_new_ok:
  assumes "kernel_ok D k"
  shows "kernel_ok D (snd (Lock_new k))"
proof -
  define k' where "k' = snd (Lock_new k)"
  have e: "threads k' = threads k" "currentThread k' = currentThread k" "readyList k' = readyList k" "toBeDestroyed k' = toBeDestroyed k"
    "sems k' = (sems k)(brk_obj k \<mapsto> \<lparr>semValue = 1, semQueue = []\<rparr>)" "brk_obj k' = brk_obj k + 2" "level k' = level k"
    "pageTable k' = pageTable k" "pageTableSize k' = pageTableSize k"
    by (simp_all add: k'_def Lock_new_eq)
  have hw: "hw_ok D k' = hw_ok D k"
    by (simp add: k'_def Lock_new_eq hw_ok_def clock_ok_def cpu_ok_def reg_def pend_ok_def)
  have st: "status k' = status k" by (simp add: status_def e fun_eq_iff)
  have sc: "sched_ok D cm k'" if s: "sched_ok D cm k" for cm
  proof -
    have n: "sems k (brk_obj k) = None" using s by (auto simp: sched_ok_def objects_ok_def)
    have iq: "in_queue k' = in_queue k" unfolding in_queue_def fun_eq_iff e using n by (auto split: if_splits) (metis option.distinct(1))
    have "queues_ok k'" using s n unfolding sched_ok_def queues_ok_def e st by auto
    moreover have "objects_ok D k'" using s unfolding sched_ok_def objects_ok_def e by (auto simp: less_SucI)
    ultimately show ?thesis using s unfolding sched_ok_def ready_ok_def none_lost_def current_ok_def e st iq by (simp cong: cmode.case_cong)
  qed
  have o: "others_ok k' = others_ok k" "cur k' = cur k" "\<And>r. loaded k' r = loaded k r" by (simp_all add: others_ok_def cur_def loaded_def e)
  obtain r f fs where "hw_ok D k" "others_ok k" "cur k = Some r" "frames r = f # fs" "wf_frames (level k) (f # fs)" "sched_ok D (mode_of f) k" "space_ok r"
    "toBeDestroyed k \<noteq> None \<longrightarrow> f = Run_back \<or> f = Begin" "if f = Run_back then space r \<noteq> None \<longrightarrow> regs_ok (userRegisters r) else loaded k r"
    using assms unfolding kernel_ok_def by blast
  then have "kernel_ok D k'" using sc [of "mode_of f"] unfolding kernel_ok_def hw e o by (intro conjI exI [of _ r] exI [of _ f] exI [of _ fs]) simp_all
  then show ?thesis by (simp add: k'_def)
qed

lemma Lock_new_inv:
  assumes k: "kernel_ok D k" and a: "addresses_ok k" and c: "\<forall>t. list_all (clean (brk_obj k + 1) (brk_obj k)) (frs k t)"
  shows "lock_inv D (brk_obj k + 1) (brk_obj k) 1 (snd (Lock_new k))"
proof -
  let ?k = "snd (Lock_new k)" and ?l = "brk_obj k + 1" and ?s = "brk_obj k"
  obtain cm where "sched_ok D cm k" and hw: "hw_ok D k" using k by (auto simp: kernel_ok_def)
  then have ob: "\<forall>s \<in> D. sems k s \<noteq> None" "\<forall>t. threads k t \<noteq> None \<longrightarrow> t < ?s" "\<forall>s. sems k s \<noteq> None \<longrightarrow> s < ?s"
    by (simp_all add: sched_ok_def objects_ok_def)
  have F: "frs ?k = frs k" by (simp add: Lock_new_eq frs_def fun_eq_iff)
  have "(\<Sum>t < ?s + 2. share ?l ?s (frs k t)) = 0" by (rule sum.neutral) (use c clean_share in blast)
  moreover have "pend_ok (device D) ?k" using hw by (simp add: hw_ok_def pend_ok_def Lock_new_eq)
  moreover have "?s \<notin> D" using ob(1,3) by blast
  moreover have "framed ?l ?s (frs k t)" for t using c clean_framed by blast
  ultimately show ?thesis
    using a c ob(2) unfolding lock_inv_def F by (fastforce simp: Lock_new_eq addresses_ok_def)
qed

text \<open>
  A thread is inside the lock from the moment its \<open>P\<close> on the lock's semaphore has gone through
  until it gives the semaphore back in \<open>Release\<close>: it is the holder, or it is about to store itself
  as the holder.
\<close>

definition inside :: "nat \<Rightarrow> kernel \<Rightarrow> nat \<Rightarrow> bool" where
  "inside l k t = (case locks k l of None \<Rightarrow> False
     | Some lk \<Rightarrow> lockHolder lk = Some t \<or> 0 < share l (lockSem lk) (frs k t))"

lemma inside_unique:
  assumes i: "lock_inv D l s 1 k" and t: "inside l k t" and u: "inside l k u"
  shows "t = u"
proof -
  obtain lk and sem :: Semaphore where k: "locks k l = Some lk" "lockSem lk = s" "0 \<le> semValue sem"
    "semValue sem + (if lockHolder lk = None then 0 else 1) + (\<Sum>t < brk_obj k. share l s (frs k t)) = 1"
    using i unfolding lock_inv_def by blast
  have nn: "0 \<le> share l s (frs k x)" for x using share_nonneg lock_invD(7) [OF i] by blast
  have dom: "x < brk_obj k" if "0 < share l s (frs k x)" for x
    using that lock_invD(4) [OF i] by (cases "threads k x") (auto simp: frs_def)
  have one: "share l s (frs k x) \<le> (\<Sum>t < brk_obj k. share l s (frs k t))" if "x < brk_obj k" for x
    using that nn by (intro member_le_sum) auto
  have two: "share l s (frs k x) + share l s (frs k y) \<le> (\<Sum>t < brk_obj k. share l s (frs k t))" if "x < brk_obj k" "y < brk_obj k" "x \<noteq> y" for x y
    using sum_mono2 [of "{..< brk_obj k}" "{x, y}" "\<lambda>t. share l s (frs k t)"] that nn by auto
  show ?thesis
  proof (cases "lockHolder lk")
    case None
    then have p: "0 < share l s (frs k t)" "0 < share l s (frs k u)" using t u k(1,2) by (auto simp: inside_def)
    then show ?thesis using two [of t u] dom k(3,4) None by fastforce
  next
    case (Some h)
    then have z: "(\<Sum>t < brk_obj k. share l s (frs k t)) \<le> 0" using k(3,4) by simp
    have "\<not> 0 < share l s (frs k x)" for x using one [of x] dom [of x] z by fastforce
    then show ?thesis using t u k(1,2) Some by (auto simp: inside_def)
  qed
qed

lemma lock_value:
  assumes i: "lock_inv D l s 1 k"
  shows "\<exists>lk sem. locks k l = Some lk \<and> sems k (lockSem lk) = Some sem \<and> semValue sem = (if \<exists>t. inside l k t then 0 else 1)"
proof -
  obtain lk sem where k: "locks k l = Some lk" "lockSem lk = s" "sems k s = Some sem" "0 \<le> semValue sem"
    "semValue sem + (if lockHolder lk = None then 0 else 1) + (\<Sum>t < brk_obj k. share l s (frs k t)) = 1"
    using i unfolding lock_inv_def by blast
  have nn: "0 \<le> share l s (frs k x)" for x using share_nonneg lock_invD(7) [OF i] by blast
  have "semValue sem = (if \<exists>t. inside l k t then 0 else 1)"
  proof (cases "\<exists>t. inside l k t")
    case True
    then obtain t where t: "inside l k t" ..
    then consider "lockHolder lk \<noteq> None" | "0 < share l s (frs k t)" using k(1,2) by (auto simp: inside_def)
    then have "semValue sem \<le> 0"
    proof cases
      case 1
      then show ?thesis using k(5) sum_share_nonneg [OF i] by (auto split: if_splits)
    next
      case 2
      then have "t < brk_obj k" using lock_invD(4) [OF i] by (cases "threads k t") (auto simp: frs_def)
      then have "share l s (frs k t) \<le> (\<Sum>t < brk_obj k. share l s (frs k t))" using nn by (intro member_le_sum) auto
      then show ?thesis using 2 k(5) by (simp split: if_splits)
    qed
    then show ?thesis using True k(4) by simp
  next
    case False
    then have "lockHolder lk = None" using k(1) by (cases "lockHolder lk") (auto simp: inside_def)
    moreover have "share l s (frs k t) = 0" for t using False k(1,2) nn [of t] by (auto simp: inside_def less_le)
    ultimately show ?thesis using False k(5) by simp
  qed
  then show ?thesis using k by blast
qed

text \<open>
  C4: locks exclude. Take a kernel in a legal state, create a lock, and let the threads run,
  in any interleaving, with programs that use the lock through its methods. Then in every state they
  reach at most one thread is inside the lock; its semaphore is 1 when no thread is inside, so the
  lock is never lost, and 0 otherwise; and a thread that is about to store itself as the holder
  finds none.
\<close>

theorem lock_mutual_exclusion:
  assumes "kernel_ok D k0" and "addresses_ok k0" and "Lock_new k0 = (l, k)"
    and "\<forall>t r. threads k0 t = Some r \<longrightarrow> list_all (clean l (brk_obj k0)) (frames r)" and "reaches D k k'"
  shows "\<exists>lk sem. locks k' l = Some lk \<and> sems k' (lockSem lk) = Some sem \<and>
    (\<forall>t u. inside l k' t \<and> inside l k' u \<longrightarrow> t = u) \<and>
    semValue sem = (if \<exists>t. inside l k' t then 0 else 1) \<and>
    (\<forall>fs. map_option frames (cur k') = Some (Acquired l # fs) \<longrightarrow> lockHolder lk = None)"
proof -
  let ?s = "brk_obj k0"
  have l: "l = ?s + 1" "k = snd (Lock_new k0)" using assms(3) by (auto simp: Lock_new_eq)
  have "\<forall>t. list_all (clean l ?s) (frs k0 t)" using assms(4) by (simp add: frs_def split: option.split)
  then have "lock_inv D l ?s 1 k" using Lock_new_inv [OF assms(1,2)] unfolding l by simp
  moreover have "kernel_ok D k" using Lock_new_ok [OF assms(1)] l(2) by simp
  ultimately have i: "lock_inv D l ?s 1 k'" using reaches_inv [OF assms(5)] by blast
  from lock_value [OF i] obtain lk sem where v: "locks k' l = Some lk" "sems k' (lockSem lk) = Some sem"
    "semValue sem = (if \<exists>t. inside l k' t then 0 else 1)" by blast
  have "lockHolder lk = None" if f: "map_option frames (cur k') = Some (Acquired l # fs)" for fs
  proof (rule ccontr)
    assume h: "lockHolder lk \<noteq> None"
    have F: "frs k' (currentThread k') = Acquired l # fs" using f by (auto simp: frs_def cur_def)
    have "currentThread k' < brk_obj k'" using f lock_invD(4) [OF i] by (auto simp: cur_def)
    then have "share l ?s (frs k' (currentThread k')) \<le> (\<Sum>t < brk_obj k'. share l ?s (frs k' t))"
      using share_nonneg lock_invD(7) [OF i] by (intro member_le_sum) auto
    moreover have "1 \<le> share l ?s (frs k' (currentThread k'))" using share_nonneg [OF lock_invD(7) [OF i], of "currentThread k'"] F by (simp add: weight_def)
    moreover obtain sem' where "sems k' ?s = Some sem'" "0 \<le> semValue sem'"
      "semValue sem' + 1 + (\<Sum>t < brk_obj k'. share l ?s (frs k' t)) = 1" using i v(1) h unfolding lock_inv_def by auto
    ultimately show False by simp
  qed
  then show ?thesis using v inside_unique [OF i] by blast
qed

text \<open>The main thread enters a critical section.\<close>

definition locking :: kernel where
  "locking = main_kernel [Acquire 2, Yield, Release 2]"

theorem lock_mutual_exclusion_witness:
  "\<exists>k k' lk sem. Lock_new locking = (2, k) \<and> step k = Inr k' \<and> locks k' 2 = Some lk \<and> sems k' (lockSem lk) = Some sem \<and> semValue sem = 1"
proof -
  have e: "brk_obj locking = 1" "threads locking = [0 \<mapsto> \<lparr>tstatus = RUNNING, frames = [Acquire 2, Yield, Release 2, Finish], userRegisters = [], space = None, returned = 0\<rparr>]"
    "locks locking = Map.empty" "conds locking = Map.empty" "currentThread locking = 0"
    by (simp_all add: locking_def main_kernel_def)
  have ok: "kernel_ok {} locking" unfolding locking_def by (rule main_kernel_ok) simp_all
  obtain k where k: "Lock_new locking = (2, k)" "threads k = threads locking" "currentThread k = 0"
    "locks k = [2 \<mapsto> \<lparr>lockSem = 1, lockHolder = None\<rparr>]" using e by (simp add: Lock_new_eq numeral_2_eq_2)
  have f: "map_option frames (cur k) = Some (Acquire 2 # [Yield, Release 2, Finish])" using k e by (simp add: cur_def)
  have c: "\<forall>t r. threads locking t = Some r \<longrightarrow> list_all (clean 2 (brk_obj locking)) (frames r)" using e by simp
  have u: "\<not> misused {} (Acquire 2) k" using k(4) by simp
  have "\<exists>k'. step k = Inr k'" using k e by (simp add: step_def obj_def Lock_Acquire_def push_def upd_thread_def)
  then obtain k' where k': "step k = Inr k'" ..
  have "addresses_ok locking" using e by (simp add: addresses_ok_def)
  from lock_mutual_exclusion [OF ok this k(1) c reaches_step [OF reaches_refl f u k']]
  obtain lk sem where s: "locks k' 2 = Some lk" "sems k' (lockSem lk) = Some sem" "semValue sem = (if \<exists>t. inside 2 k' t then 0 else 1)" by blast
  have "threads k' = (threads k)(0 \<mapsto> (the (threads k 0))\<lparr>frames := [SemP 1, Acquired 2, Yield, Release 2, Finish]\<rparr>)" "locks k' = locks k"
    using k' k e by (auto simp: step_def obj_def Lock_Acquire_def push_def upd_thread_def)
  then have "\<not> inside 2 k' t" for t using k e by (auto simp: inside_def frs_def weight_def)
  then show ?thesis using k(1) k' s by auto
qed

end
