(* ===== verification/Threads_Boot.thy ===== *)
theory Threads_Boot
  imports Threads_Options Threads_Lock
begin

text \<open>
  \<open>Kernel::Initialize\<close> of \<open>threads/kernel.cc\<close> in the build with \<open>FILESYS_STUB\<close>: the first
  thread, statistics, interrupts, scheduler, alarm, machine and file system, and the interrupts
  turned on. The constructors of the consoles, of the disk and of the post office, which the code
  calls in between, are those of the theories of these devices. Every start succeeds and ends in a
  legal state of the kernel, with the timer running. The end of \<open>main\<close> starts the user program.
\<close>

section \<open>Constructors\<close>

definition Interrupt_new :: "('c, 'a) interrupt_scheme \<Rightarrow> ('c, 'a) interrupt_scheme" where
  "Interrupt_new s = s\<lparr>level := IntOff, pendingList := [], inHandler := False, yieldOnReturn := False, mstatus := SystemMode\<rparr>"

definition Scheduler_new :: "kernel \<Rightarrow> kernel" where
  "Scheduler_new k = k\<lparr>readyList := [], toBeDestroyed := None\<rparr>"

text \<open>The alarm's timer calls back the alarm.\<close>

definition Alarm_new :: "bool \<Rightarrow> kernel \<Rightarrow> kernel result" where
  "Alarm_new doRandom k = Timer_new TimerObj doRandom k"

text \<open>\<open>new Machine\<close> in a kernel: the machine's own fields; the mode belongs to \<open>Interrupt\<close>.\<close>

definition Machine_place :: "'a machine_scheme \<Rightarrow> 'a machine_scheme" where
  "Machine_place m = m\<lparr>registers := registers Machine_new, mainMemory := mainMemory Machine_new, tlb := tlb Machine_new,
     pageTable := pageTable Machine_new, pageTableSize := pageTableSize Machine_new\<rparr>"

text \<open>The thread that runs \<open>main\<close> has the rest of \<open>main\<close> as its frames.\<close>

definition Kernel_Initialize :: "kernel_options \<Rightarrow> frame list \<Rightarrow> kernel \<Rightarrow> kernel result" where
  "Kernel_Initialize ko rest k =
     (let (t, k1) = Thread_new k in
      rbind (upd_thread t (\<lambda>r. r\<lparr>tstatus := RUNNING, frames := rest\<rparr>) (k1\<lparr>currentThread := t\<rparr>)) (\<lambda>k2.
      let k3 = Scheduler_new (Interrupt_new (k2\<lparr>stats := Statistics_new\<rparr>)) in
      rbind (Alarm_new (randomSlice ko) k3) (\<lambda>k4.
      rbind (StubFS_new (Machine_place k4)) (set_level IntOn))))"

section \<open>The stub file system starts\<close>

text \<open>A host whose descriptors and files are in order, on which the two standard files can be made.\<close>

definition host_ok :: "'a sysenv_scheme \<Rightarrow> bool" where
  "host_ok m \<longleftrightarrow> (\<forall>fd d. fds m fd = Some d \<longrightarrow> fd < brk_host m \<and> inode d < brk_host m \<and> 0 \<le> offset d) \<and>
     (\<forall>name i. names m name = Some i \<longrightarrow> i < brk_host m) \<and> (\<forall>i. 0 \<le> entropy m i) \<and>
     (\<forall>name \<in> {ascii ''stdin'', ascii ''stdout''}. names m name \<noteq> None \<or> creatable m name)"

text \<open>The changes that calls on UNIX files make.\<close>

definition host_change :: "'a sysenv_scheme \<Rightarrow> 'a sysenv_scheme \<Rightarrow> bool" where
  "host_change m m' \<longleftrightarrow> (\<exists>nm ino f b. m' = m\<lparr>names := nm, inodes := ino, fds := f, brk_host := b\<rparr> \<and> dom (names m) \<subseteq> dom nm)"

lemma host_changeI: "m' = m\<lparr>names := nm, inodes := ino, fds := f, brk_host := b\<rparr> \<Longrightarrow> dom (names m) \<subseteq> dom nm \<Longrightarrow> host_change m m'"
  unfolding host_change_def by blast

lemma host_change_refl: "host_change m m"
  by (rule host_changeI [where nm = "names m" and ino = "inodes m" and f = "fds m" and b = "brk_host m"]) simp_all

lemma host_change_trans:
  assumes "host_change m m'" and "host_change m' m''"
  shows "host_change m m''"
proof -
  obtain nm ino f b nm' ino' f' b' where "m' = m\<lparr>names := nm, inodes := ino, fds := f, brk_host := b\<rparr>" "dom (names m) \<subseteq> dom nm"
    "m'' = m'\<lparr>names := nm', inodes := ino', fds := f', brk_host := b'\<rparr>" "dom (names m') \<subseteq> dom nm'"
    using assms unfolding host_change_def by blast
  then show ?thesis by (intro host_changeI [where nm = nm' and ino = ino' and f = f' and b = b']) auto
qed

lemma host_ok_fresh: "host_ok m \<Longrightarrow> brk_host m \<le> fd \<Longrightarrow> fds m fd = None"
  unfolding host_ok_def by (cases "fds m fd") (auto dest: leD)

text \<open>A new descriptor on a file of the host.\<close>

lemma host_new_fd:
  assumes "host_ok m" and "i < brk_host m"
  shows "host_ok (snd (new_fd i w m))" and "host_change m (snd (new_fd i w m))" and "fst (new_fd i w m) = brk_host m"
    and "fds (snd (new_fd i w m)) = (fds m)(brk_host m \<mapsto> \<lparr>inode = i, offset = 0, writable = w\<rparr>)"
proof -
  show "host_change m (snd (new_fd i w m))"
    by (rule host_changeI [where nm = "names m" and ino = "inodes m" and b = "brk_host m + 1" and
         f = "(fds m)(brk_host m \<mapsto> \<lparr>inode = i, offset = 0, writable = w\<rparr>)"])
      (simp_all add: new_fd_def)
  show "host_ok (snd (new_fd i w m))" using assms by (auto simp: host_ok_def new_fd_def less_Suc_eq)
qed (simp_all add: new_fd_def)

lemma host_OpenForWrite:
  assumes m: "host_ok m" and "names m name \<noteq> None \<or> creatable m name"
  shows "\<exists>fd e m'. OpenForWrite name m = Inr (fd, m') \<and> host_change m m' \<and> host_ok m' \<and> names m' name \<noteq> None \<and>
    fds m fd = None \<and> fds m' = (fds m)(fd \<mapsto> e)"
proof -
  have "\<exists>i m1. OpenForWrite name m = Inr (new_fd i True m1) \<and> host_change m m1 \<and> host_ok m1 \<and> i < brk_host m1 \<and> names m1 name \<noteq> None \<and>
    fds m1 = fds m \<and> brk_host m \<le> brk_host m1"
  proof (cases "names m name")
    case None
    let ?i = "brk_host m"
    let ?m = "m\<lparr>names := (names m)(name \<mapsto> ?i), inodes := (inodes m)(?i := []), brk_host := ?i + 1\<rparr>"
    have "host_change m ?m"
      by (rule host_changeI [where nm = "(names m)(name \<mapsto> ?i)" and ino = "(inodes m)(?i := [])" and f = "fds m" and b = "?i + 1"]) auto
    moreover have "host_ok ?m" using m by (auto simp: host_ok_def less_Suc_eq)
    ultimately show ?thesis using None assms(2) by (intro exI [of _ ?i] exI [of _ ?m]) (simp add: OpenForWrite_def Let_def)
  next
    case (Some i)
    let ?m = "m\<lparr>inodes := (inodes m)(i := [])\<rparr>"
    have "host_change m ?m" by (rule host_changeI [where nm = "names m" and ino = "(inodes m)(i := [])" and f = "fds m" and b = "brk_host m"]) auto
    moreover have "host_ok ?m" "i < brk_host ?m" using m Some by (auto simp: host_ok_def)
    ultimately show ?thesis using Some by (intro exI [of _ i] exI [of _ ?m]) (simp add: OpenForWrite_def)
  qed
  then obtain i m1 where m1: "OpenForWrite name m = Inr (new_fd i True m1)" "host_change m m1" "host_ok m1" "i < brk_host m1"
    "names m1 name \<noteq> None" "fds m1 = fds m" "brk_host m \<le> brk_host m1" by blast
  note n = host_new_fd [OF m1(3,4), of True]
  obtain fd m' where e: "new_fd i True m1 = (fd, m')" by fastforce
  have "names m' = names m1" using e by (auto simp: new_fd_def)
  then show ?thesis using m1 n host_change_trans [OF m1(2)] host_ok_fresh [OF m, of fd] unfolding e by auto
qed

lemma host_openf:
  "host_ok (m\<lparr>openf := os\<rparr>) = host_ok m" "host_change m m' \<Longrightarrow> host_change (m\<lparr>openf := os\<rparr>) (m'\<lparr>openf := os\<rparr>)"
proof -
  show "host_ok (m\<lparr>openf := os\<rparr>) = host_ok m" by (simp add: host_ok_def)
  assume "host_change m m'"
  then obtain nm ino f b where "m' = m\<lparr>names := nm, inodes := ino, fds := f, brk_host := b\<rparr>" "dom (names m) \<subseteq> dom nm"
    unfolding host_change_def by blast
  then show "host_change (m\<lparr>openf := os\<rparr>) (m'\<lparr>openf := os\<rparr>)"
    by (intro host_changeI [where nm = nm and ino = ino and f = f and b = b]) simp_all
qed

lemma host_change_same:
  assumes "host_change m m'"
  shows "openf m' = openf m" "creatable m' = creatable m" "dom (names m) \<subseteq> dom (names m')"
  using assms by (auto simp: host_change_def)

lemma host_Create:
  assumes "host_ok m" and "names m name \<noteq> None \<or> creatable m name"
  shows "\<exists>m'. StubFS_Create name m = Inr (True, m') \<and> host_change m m' \<and> host_ok m' \<and> names m' name \<noteq> None \<and> fds m' = fds m"
proof -
  obtain fd e m1 where o: "OpenForWrite name m = Inr (fd, m1)" "host_change m m1" "host_ok m1" "names m1 name \<noteq> None"
    "fds m fd = None" "fds m1 = (fds m)(fd \<mapsto> e)"
    using host_OpenForWrite [OF assms] by blast
  let ?m = "m1\<lparr>fds := (fds m1)(fd := None)\<rparr>"
  have "host_change m1 ?m"
    by (rule host_changeI [where nm = "names m1" and ino = "inodes m1" and f = "(fds m1)(fd := None)" and b = "brk_host m1"]) simp_all
  then have "host_change m ?m" by (rule host_change_trans [OF o(2)])
  moreover have "host_ok ?m" using o(3) by (auto simp: host_ok_def)
  ultimately show ?thesis using o by (intro exI [of _ ?m]) (simp add: StubFS_Create_def Close_def fun_upd_idem)
qed

text \<open>The table of open files with the two standard files.\<close>

lemma standard_sys_ok:
  assumes "host_ok m" and "openf m = [Some f, Some g] @ replicate 13 None" and "ofile f \<noteq> ofile g"
    and "fds m (ofile f) \<noteq> None" "fds m (ofile g) \<noteq> None" "otype f \<noteq> 0" "otype g \<noteq> 0"
  shows "sys_ok m"
proof -
  have cases: "i = 0 \<and> x = f \<or> i = 1 \<and> x = g" if "i < length (openf m)" "openf m ! i = Some x" for i x
    using that by (auto simp: assms(2) nth_append nth_Cons' split: if_splits)
  have h: "\<forall>fd d. fds m fd = Some d \<longrightarrow> fd < brk_host m \<and> inode d < brk_host m \<and> 0 \<le> offset d"
    "\<forall>name i. names m name = Some i \<longrightarrow> i < brk_host m" "\<forall>i. 0 \<le> entropy m i" using assms(1) by (auto simp: host_ok_def)
  have a: "(\<exists>d. fds m (ofile x) = Some d \<and> (otype x = 0 \<longrightarrow> writable d)) \<and> (2 \<le> i \<longrightarrow> otype x = 0 \<or> otype x = 1)"
    if "i < length (openf m)" "openf m ! i = Some x" for i x
    using cases [OF that] assms(4-7) by auto
  have b: "ofile x \<noteq> ofile y" if "i < length (openf m)" "j < length (openf m)" "i \<noteq> j" "openf m ! i = Some x" "openf m ! j = Some y" for i j x y
    using cases [OF that(1,4)] cases [OF that(2,5)] that(3) assms(3) by auto
  have l: "int (length (openf m)) = MAX_FILE_OPEN" by (simp add: assms(2) MAX_FILE_OPEN_def)
  show ?thesis unfolding sys_ok_def using l a b h by blast
qed

lemma StubFS_new_ok:
  assumes m: "host_ok m"
  shows "\<exists>m' os. StubFS_new m = Inr m' \<and> sys_ok m' \<and> host_change (m\<lparr>openf := os\<rparr>) m'"
proof -
  let ?in = "ascii ''stdin''" and ?out = "ascii ''stdout''"
  let ?m0 = "m\<lparr>openf := replicate (nat MAX_FILE_OPEN) None\<rparr>"
  have can: "names x n \<noteq> None \<or> creatable x n" if "host_ok x" "n \<in> {?in, ?out}" for n and x :: "'a sysenv_scheme"
    using that unfolding host_ok_def by blast
  have m0: "host_ok ?m0" using m by (simp add: host_openf)
  obtain m1 where m1: "StubFS_Create ?in ?m0 = Inr (True, m1)" "host_change ?m0 m1" "host_ok m1" "names m1 ?in \<noteq> None"
    using host_Create [OF m0 can [OF m0]] by blast
  obtain m2 where m2: "StubFS_Create ?out m1 = Inr (True, m2)" "host_change m1 m2" "host_ok m2"
    using host_Create [OF m1(3) can [OF m1(3)]] by blast
  obtain i where i: "names m2 ?in = Some i" "i < brk_host m2" using m1(4) host_change_same(3) [OF m2(2)] m2(3) unfolding host_ok_def by fastforce
  define m3 where "m3 = snd (new_fd i False m2)"
  note n = host_new_fd [OF m2(3) i(2), of False, folded m3_def]
  let ?f = "\<lparr>ofile = brk_host m2, otype = 2, currentOffset = 0\<rparr>"
  have nf: "new_fd i False m2 = (brk_host m2, m3)" using n(3) by (simp add: m3_def prod_eq_iff)
  have o1: "StubFS_Open ?in 2 m2 = Inr (Some ?f, m3)"
    using i(1) nf by (simp add: StubFS_Open_def OpenForRead_def open_existing_def)
  have of3: "openf m3 = replicate 15 None"
    using host_change_same(1) [OF n(2)] host_change_same(1) [OF m2(2)] host_change_same(1) [OF m1(2)] by (simp add: MAX_FILE_OPEN_def)
  let ?o = "Some ?f # replicate 14 None" and ?m3 = "m3\<lparr>openf := Some ?f # replicate 14 None\<rparr>"
  have s1: "arr_set (openf m3) 0 (Some ?f) = Inr ?o" by (simp add: arr_set_def of3 numeral_eq_Suc)
  have m3: "host_ok ?m3" using n(1) by (simp add: host_openf)
  obtain fd e m4 where m4: "OpenForWrite ?out ?m3 = Inr (fd, m4)" "host_change ?m3 m4" "host_ok m4" "fds ?m3 fd = None" "fds m4 = (fds ?m3)(fd \<mapsto> e)"
    using host_OpenForWrite [OF m3 can [OF m3]] by blast
  let ?g = "\<lparr>ofile = fd, otype = 3, currentOffset = 0\<rparr>"
  let ?o' = "[Some ?f, Some ?g] @ replicate 13 None" and ?m5 = "m4\<lparr>openf := [Some ?f, Some ?g] @ replicate 13 None\<rparr>"
  have o2: "StubFS_Open ?out 3 ?m3 = Inr (Some ?g, m4)" using m4(1) by (simp add: StubFS_Open_def)
  have s2: "arr_set (openf m4) 1 (Some ?g) = Inr ?o'"
    using host_change_same(1) [OF m4(2)] by (simp add: arr_set_def numeral_eq_Suc)
  have run: "StubFS_new m = Inr ?m5" by (simp add: StubFS_new_def Let_def m1(1) m2(1) o1 s1 o2 s2)
  have ne: "fd \<noteq> brk_host m2" using m4(4) n(4) by auto
  have ok: "sys_ok ?m5"
    by (rule standard_sys_ok [where f = ?f and g = ?g]) (use m4(3,5) n(4) ne in \<open>simp_all add: host_openf\<close>)
  have "host_change ?m0 m3" using host_change_trans m1(2) m2(2) n(2) by blast
  from host_openf(2) [OF this] host_openf(2) [OF m4(2)]
  have "host_change (m\<lparr>openf := ?o'\<rparr>) (m3\<lparr>openf := ?o'\<rparr>)" "host_change (m3\<lparr>openf := ?o'\<rparr>) ?m5" by simp_all
  then have "host_change (m\<lparr>openf := ?o'\<rparr>) ?m5" by (rule host_change_trans)
  then show ?thesis using run ok by blast
qed

section \<open>The kernel starts\<close>

text \<open>Before the start no thread and no semaphore exists, and the host is in order.\<close>

definition cold :: "kernel \<Rightarrow> bool" where
  "cold k \<longleftrightarrow> threads k = Map.empty \<and> sems k = Map.empty \<and> host_ok k"

lemma Alarm_new_ok:
  assumes c: "clock_ok k" and p: "pendingList k = []"
  shows "\<exists>dr ps bi. Alarm_new b k = Inr (k\<lparr>randomize := b, disable := False, drawn := dr, pendingList := ps, brk_int := bi\<rparr>) \<and>
    clock_ok (k\<lparr>randomize := b, disable := False, drawn := dr, pendingList := ps, brk_int := bi\<rparr>) \<and>
    (\<forall>p \<in> set ps. callOnInterrupt p = TimerObj)"
proof -
  have e: "0 \<le> entropy k i" for i using c by (simp add: clock_ok_def)
  define dr where "dr = (if b then drawn k + 1 else drawn k)"
  define t where "t = (if b then 1 + entropy k (drawn k) smod 200 else 100)"
  let ?k = "k\<lparr>randomize := b, disable := False, drawn := dr\<rparr>"
  have "0 < t" using e [of "drawn k"] by (auto simp: t_def smod_nonneg)
  moreover have ck: "clock_ok ?k" using c by (simp add: clock_ok_def)
  ultimately obtain q ps where q: "Schedule TimerObj t TimerInt ?k = Inr (?k\<lparr>pendingList := ps, brk_int := brk_int ?k + 1\<rparr>)"
    "set ps = insert q (set (pendingList ?k))" "callOnInterrupt q = TimerObj" "clock_ok (?k\<lparr>pendingList := ps, brk_int := brk_int ?k + 1\<rparr>)"
    using Schedule_ok [of ?k t TimerObj TimerInt] by blast
  have "Alarm_new b k = Schedule TimerObj t TimerInt ?k"
    by (simp add: Alarm_new_def Timer_new_def Timer_SetInterrupt_def RandomNumber_def TimerTicks_def t_def dr_def)
  then have "Alarm_new b k = Inr (k\<lparr>randomize := b, disable := False, drawn := dr, pendingList := ps, brk_int := brk_int k + 1\<rparr>)"
    using q(1) by simp
  moreover have "clock_ok (k\<lparr>randomize := b, disable := False, drawn := dr, pendingList := ps, brk_int := brk_int k + 1\<rparr>)" using q(4) by simp
  moreover have "\<forall>x \<in> set ps. callOnInterrupt x = TimerObj" using q(2,3) p by simp
  ultimately show ?thesis by blast
qed

lemma host_ok_cong:
  assumes "fds m' = fds m" "brk_host m' = brk_host m" "names m' = names m" "entropy m' = entropy m" "creatable m' = creatable m"
  shows "host_ok m' = host_ok m"
  using assms by (simp add: host_ok_def)

lemma Kernel_Initialize_mid:
  assumes k: "cold k" and run: "RunUser \<notin> set rest"
  shows "\<exists>k6. Kernel_Initialize ko rest k = set_level IntOn k6 \<and> mid {} Running rest k6 \<and> level k6 = IntOff"
proof -
  let ?t = "brk_obj k" and ?r = "\<lparr>tstatus = RUNNING, frames = rest, userRegisters = replicate NumTotalRegs 0, space = None, returned = 0\<rparr>"
  define k3 where "k3 = Scheduler_new (Interrupt_new (k\<lparr>threads := [?t \<mapsto> ?r], brk_obj := ?t + 1, currentThread := ?t, stats := Statistics_new\<rparr>))"
  have th: "threads k = Map.empty" "sems k = Map.empty" and host: "host_ok k" using k by (simp_all add: cold_def)
  have f3: "threads k3 = [?t \<mapsto> ?r]" "brk_obj k3 = ?t + 1" "currentThread k3 = ?t" "pendingList k3 = []" "readyList k3 = []" "toBeDestroyed k3 = None"
    "sems k3 = Map.empty" "level k3 = IntOff" "inHandler k3 = False" "entropy k3 = entropy k" "fds k3 = fds k" "brk_host k3 = brk_host k"
    "names k3 = names k" "creatable k3 = creatable k"
    by (simp_all add: k3_def Scheduler_new_def Interrupt_new_def th)
  have "clock_ok k3" using host by (simp add: clock_ok_def f3 host_ok_def)
  from Alarm_new_ok [OF this f3(4), of "randomSlice ko"] obtain dr ps bi where
    al: "Alarm_new (randomSlice ko) k3 = Inr (k3\<lparr>randomize := randomSlice ko, disable := False, drawn := dr, pendingList := ps, brk_int := bi\<rparr>)"
    "clock_ok (k3\<lparr>randomize := randomSlice ko, disable := False, drawn := dr, pendingList := ps, brk_int := bi\<rparr>)"
    "\<forall>p \<in> set ps. callOnInterrupt p = TimerObj" by blast
  define k4 where "k4 = k3\<lparr>randomize := randomSlice ko, disable := False, drawn := dr, pendingList := ps, brk_int := bi\<rparr>"
  define k5 where "k5 = Machine_place k4"
  have "host_ok k5" using host by (subst host_ok_cong [of _ k]) (simp_all add: k5_def Machine_place_def k4_def f3)
  from StubFS_new_ok [OF this] obtain k6 os where s: "StubFS_new k5 = Inr k6" "sys_ok k6" "host_change (k5\<lparr>openf := os\<rparr>) k6" by blast
  obtain nm ino f b where k6: "k6 = k5\<lparr>openf := os, names := nm, inodes := ino, fds := f, brk_host := b\<rparr>"
    using s(3) by (auto simp: host_change_def)
  have f6: "threads k6 = [?t \<mapsto> ?r]" "brk_obj k6 = ?t + 1" "currentThread k6 = ?t" "readyList k6 = []" "toBeDestroyed k6 = None"
    "sems k6 = Map.empty" "level k6 = IntOff" "inHandler k6 = False" "pendingList k6 = ps"
    by (simp_all add: k6 k5_def Machine_place_def k4_def f3)
  have "clock_ok k6" using al(2) by (simp add: clock_ok_def k6 k5_def Machine_place_def k4_def)
  moreover have "cpu_ok k6"
    by (simp add: cpu_ok_def k6 k5_def Machine_place_def Machine_new_def reg_def NumTotalRegs_def LoadReg_def)
  moreover have "pend_ok (device {}) k6" using al(3) by (simp add: pend_ok_def f6)
  ultimately have "hw_ok {} k6" using s(2) by (simp add: hw_ok_def f6)
  moreover have "sched_ok {} Running k6" by (auto simp: sched_defs status_def in_queue_def f6)
  ultimately have "mid {} Running rest k6" using run by (auto simp: mid_def others_ok_def cur_def space_ok_def loaded_def f6)
  moreover have "Kernel_Initialize ko rest k = set_level IntOn k6"
  proof -
    have u: "upd_thread ?t (\<lambda>r. r\<lparr>tstatus := RUNNING, frames := rest\<rparr>) ((snd (Thread_new k))\<lparr>currentThread := ?t\<rparr>) =
      Inr (k\<lparr>threads := [?t \<mapsto> ?r], brk_obj := ?t + 1, currentThread := ?t\<rparr>)"
      using th by (simp add: Thread_new_def upd_thread_def obj_def)
    have t: "Thread_new k = (?t, snd (Thread_new k))" by (simp add: Thread_new_def)
    show ?thesis unfolding Kernel_Initialize_def
      by (subst t) (simp only: u al(1) s(1) Let_def rbind_Inr prod.case k3_def [symmetric] k4_def [symmetric] k5_def [symmetric])
  qed
  ultimately show ?thesis using f6(7) by blast
qed



section \<open>The user program\<close>

text \<open>
  The end of \<open>main\<close> in the build with \<open>FILESYS_STUB\<close>: the program named on the command line is
  loaded and started, up to the endless loop of \<open>Machine::Run\<close>; without one, or when it cannot be
  loaded, the machine halts. \<open>hb\<close> and \<open>j\<close> are the uninitialised header and number of pages.
\<close>

definition main_user :: "byte list \<Rightarrow> i32 \<Rightarrow> main_options \<Rightarrow> 'a sysenv_scheme \<Rightarrow> 'a sysenv_scheme result" where
  "main_user hb j opts m =
     (case userProgName opts of
        None \<Rightarrow> Inl Halt
      | Some nm \<Rightarrow>
          let (sp, m1) = AddrSpace_new j m in
          rbind (AddrSpace_Load hb (map_option (inodes m1) (names m1 nm)) sp m1) (\<lambda>(loaded, sp1, m2).
          if loaded then AddrSpace_Execute sp1 m2 else Inl Halt))"

text \<open>
  \<open>nachos -x prog\<close> starts a legal program at address 0, in user mode and on a legal machine, with
  its code at its place in memory, and halts when there is no such file.
\<close>

theorem main_starts_program:
  assumes "length (registers m) = NumTotalRegs" "tlb m = None" and "length hb = 52"
    and i: "names m nm = Some i" and ok: "noff_ok (inodes m i)"
  shows "\<exists>opts m'. main_args True [ascii ''-x'', nm] main_defaults = Inr opts \<and> main_user hb j opts m = Inr m' \<and>
    machine_ok m' \<and> mstatus m' = UserMode \<and> reg PCReg m' = 0 \<and> reg NextPCReg m' = 4 \<and>
    (let g = code (noff_of_bytes (take 52 (inodes m i))) in \<forall>a < MemorySize. a \<in> covers g \<longrightarrow> mainMemory m' ! a = inodes m i ! in_file g a) \<and>
    main_user hb j main_defaults m = Inl Halt"
proof -
  let ?o = "main_defaults\<lparr>userProgName := Some nm\<rparr>" and ?sp = "fst (AddrSpace_new j m)" and ?m = "snd (AddrSpace_new j m)"
  have a: "main_args True [ascii ''-x'', nm] main_defaults = Inr ?o" by (simp add: main_args.simps(2))
  obtain sp m1 where l: "AddrSpace_Load hb (Some (inodes m i)) ?sp ?m = Inr (True, sp, m1)"
    "\<forall>a < MemorySize. a \<in> covers (code (noff_of_bytes (take 52 (inodes m i)))) \<longrightarrow>
       mainMemory m1 ! a = inodes m i ! in_file (code (noff_of_bytes (take 52 (inodes m i)))) a"
    and x: "\<exists>m''. AddrSpace_Execute sp m1 = Inr m'' \<and> machine_ok m'' \<and> reg PCReg m'' = 0 \<and> mainMemory m'' = mainMemory m1"
    using AddrSpace_Load_correct [OF ok assms(1-3), of j] by (fastforce simp: Let_def)
  obtain m2 where m2: "AddrSpace_Execute sp m1 = Inr m2" "machine_ok m2" "reg PCReg m2 = 0" "mainMemory m2 = mainMemory m1" using x by blast
  have "reg NextPCReg m2 = 4" "mstatus m2 = UserMode"
    using m2(1) by (auto simp: AddrSpace_Execute_def AddrSpace_InitRegisters_def AddrSpace_RestoreState_def rbind_eq_Inr Machine_WriteRegister_def
        require_eq_Inr arr_set_Inr reg_def reg_names NumTotalRegs_def)
  moreover have "names ?m = names m" "inodes ?m = inodes m" by (simp_all add: AddrSpace_new_def)
  then have "main_user hb j ?o m = Inr m2" using l(1) m2(1) i by (simp add: main_user_def Let_def case_prod_unfold)
  ultimately show ?thesis using a l(2) m2 by (intro exI [of _ ?o] exI [of _ m2]) (simp add: main_user_def main_defaults_def)
qed

theorem main_starts_program_witness:
  "\<exists>opts m'. main_args True [ascii ''-x'', [112]] main_defaults = Inr opts \<and>
     main_user (replicate 52 9) 7 opts (boot_sys\<lparr>names := [[112] \<mapsto> 0], inodes := (\<lambda>_. tiny_program)\<rparr>) = Inr m' \<and> reg PCReg m' = 0"
proof -
  let ?m = "boot_sys\<lparr>names := [[112] \<mapsto> 0], inodes := (\<lambda>_. tiny_program)\<rparr>"
  have "length (registers ?m) = NumTotalRegs" "tlb ?m = None" by (simp_all add: boot_sys_def machine.defs one_page_def Machine_new_def)
  from main_starts_program [OF this, of "replicate 52 9" "[112]" 0 7] show ?thesis by (auto simp: tiny_program_ok)
qed

end
