(* ===== verification/Threads_Semaphore.thy ===== *)
theory Threads_Semaphore
  imports Threads_Lock
begin

text \<open>
  No wakeup is lost (\<open>Semaphore\<close> of \<open>threads/synch.cc\<close>, \<open>Thread::Sleep\<close>, \<open>Scheduler::Run\<close>): a thread
  that \<open>V\<close> takes out of the queue of a semaphore is awake until it has looked at the semaphore
  again, whatever runs in between. \<open>P\<close> tests the value in a loop, so another thread may take the
  semaphore first; the proof counts the threads that will still look.
\<close>

section \<open>Threads that will look at a semaphore again\<close>

text \<open>A thread with these frames continues in the loop of \<open>P\<close> on the semaphore \<open>s\<close>.\<close>

primrec resumes :: "nat \<Rightarrow> frame list \<Rightarrow> bool" where
  "resumes s [] = False"
| "resumes s (f # fs) = (case f of
       Run_back \<Rightarrow> resumes s fs
     | Sleep_loop finishing \<Rightarrow> \<not> finishing \<and> resumes s fs
     | SemP_loop s' lv \<Rightarrow> s' = s
     | _ \<Rightarrow> False)"

lemma resumes_unique: "resumes s fs \<Longrightarrow> resumes s' fs \<Longrightarrow> s' = s"
  by (induction fs) (auto split: frame.splits)

definition resuming :: "nat set \<Rightarrow> nat \<Rightarrow> kernel \<Rightarrow> nat set" where
  "resuming X s k = {t. t \<notin> X \<and> toBeDestroyed k \<noteq> Some t \<and> resumes s (frs k t)}"

text \<open>
  The invariant. Who is in the queue of a semaphore will look at it again, and unless the queue
  is empty, so will at least as many others as the value says. The threads \<open>X\<close> do not count, and
  \<open>e s\<close> may be missing: in the middle of a step the current thread is left out.
\<close>

definition wake_inv :: "(nat \<Rightarrow> int) \<Rightarrow> nat set \<Rightarrow> kernel \<Rightarrow> bool" where
  "wake_inv e X k \<longleftrightarrow> finite (dom (threads k)) \<and>
     (\<forall>s sem. sems k s = Some sem \<longrightarrow> set (semQueue sem) \<subseteq> resuming X s k \<and> distinct (semQueue sem) \<and>
        (semQueue sem \<noteq> [] \<longrightarrow> semValue sem + int (length (semQueue sem)) \<le> int (card (resuming X s k)) + e s))"

lemma wake_invD:
  assumes "wake_inv e X k"
  shows "finite (dom (threads k))" "sems k s = Some sem \<Longrightarrow> set (semQueue sem) \<subseteq> resuming X s k"
    "sems k s = Some sem \<Longrightarrow> distinct (semQueue sem)"
    "sems k s = Some sem \<Longrightarrow> semQueue sem \<noteq> [] \<Longrightarrow> semValue sem + int (length (semQueue sem)) \<le> int (card (resuming X s k)) + e s"
  using assms unfolding wake_inv_def by blast+

lemma resuming_finite: "finite (dom (threads k)) \<Longrightarrow> finite (resuming X s k)"
  by (rule finite_subset [of _ "dom (threads k)"]) (auto simp: resuming_def frs_def split: option.splits)

text \<open>More threads may count, and more may be missing.\<close>

lemma wake_mono:
  assumes "wake_inv e X k" and "finite (dom (threads k'))" and "sems k' = sems k" and "\<And>s. resuming X s k \<subseteq> resuming Y s k'" and "\<And>s. e s \<le> e' s"
  shows "wake_inv e' Y k'"
  unfolding wake_inv_def
proof (intro conjI allI impI)
  fix s sem
  assume s: "sems k' s = Some sem"
  have c: "card (resuming X s k) \<le> card (resuming Y s k')" by (rule card_mono [OF resuming_finite [OF assms(2)] assms(4)])
  show "set (semQueue sem) \<subseteq> resuming Y s k'" "distinct (semQueue sem)" using wake_invD(2,3) [OF assms(1)] s assms(3,4) by fastforce+
  show "semValue sem + int (length (semQueue sem)) \<le> int (card (resuming Y s k')) + e' s" if "semQueue sem \<noteq> []"
    using wake_invD(4) [OF assms(1), of s sem] s assms(3) that assms(5) [of s] c by simp
qed (rule assms(2))

text \<open>
  Steps of the interrupt handlers and of the scheduler: they leave the frames alone, and to a
  semaphore they do no more than some calls of \<open>V\<close>.
\<close>

definition calm :: "kernel \<Rightarrow> kernel \<Rightarrow> bool" where
  "calm k k' \<longleftrightarrow> frs k' = frs k \<and> dom (threads k') = dom (threads k) \<and> toBeDestroyed k' = toBeDestroyed k \<and> currentThread k' = currentThread k \<and>
     (\<forall>s sem'. sems k' s = Some sem' \<longrightarrow>
        (\<exists>sem n. sems k s = Some sem \<and> semQueue sem' = drop n (semQueue sem) \<and> semValue sem' \<le> semValue sem + int n))"

lemma calm_semD:
  assumes "calm k k'" and "sems k' s = Some sem'"
  obtains sem n where "sems k s = Some sem" "semQueue sem' = drop n (semQueue sem)" "semValue sem' \<le> semValue sem + int n"
  using assms unfolding calm_def by blast

lemma calm_same:
  assumes "threads k' = threads k" "sems k' = sems k" "toBeDestroyed k' = toBeDestroyed k" "currentThread k' = currentThread k"
  shows "calm k k'"
proof -
  have "\<exists>n. semQueue sem = drop n (semQueue sem) \<and> semValue sem \<le> semValue sem + int n" for sem by (rule exI [of _ 0]) simp
  then show ?thesis using assms by (auto simp: calm_def frs_def fun_eq_iff)
qed

lemma calm_trans:
  assumes "calm k k1" and "calm k1 k2"
  shows "calm k k2"
proof -
  have "\<exists>sem n. sems k s = Some sem \<and> semQueue sem2 = drop n (semQueue sem) \<and> semValue sem2 \<le> semValue sem + int n" if s2: "sems k2 s = Some sem2" for s sem2
  proof -
    obtain sem1 m where 1: "sems k1 s = Some sem1" "semQueue sem2 = drop m (semQueue sem1)" "semValue sem2 \<le> semValue sem1 + int m"
      using calm_semD [OF assms(2) s2] .
    obtain sem n where 2: "sems k s = Some sem" "semQueue sem1 = drop n (semQueue sem)" "semValue sem1 \<le> semValue sem + int n"
      using calm_semD [OF assms(1) 1(1)] .
    show ?thesis using 1 2 by (intro exI [of _ sem] exI [of _ "m + n"]) simp
  qed
  then show ?thesis using assms unfolding calm_def by simp
qed

lemma calm_inv:
  assumes c: "calm k k'" and i: "wake_inv e X k"
  shows "wake_inv e X k'"
proof -
  have r: "resuming X s k' = resuming X s k" for s using c by (simp add: calm_def resuming_def)
  show ?thesis unfolding wake_inv_def r
  proof (intro conjI allI impI)
    fix s sem'
    assume s': "sems k' s = Some sem'"
    obtain sem n where s: "sems k s = Some sem" "semQueue sem' = drop n (semQueue sem)" "semValue sem' \<le> semValue sem + int n"
      using calm_semD [OF c s'] .
    show "set (semQueue sem') \<subseteq> resuming X s k" using wake_invD(2) [OF i s(1)] s(2) set_drop_subset by fastforce
    show "distinct (semQueue sem')" using wake_invD(3) [OF i s(1)] s(2) by simp
    assume "semQueue sem' \<noteq> []"
    then have "n < length (semQueue sem)" using s(2) by (simp add: not_le)
    then show "semValue sem' + int (length (semQueue sem')) \<le> int (card (resuming X s k)) + e s"
      using wake_invD(4) [OF i s(1)] s(2,3) by (cases "semQueue sem") (auto simp: of_nat_diff)
  qed (use c wake_invD(1) [OF i] in \<open>simp add: calm_def\<close>)
qed

lemma calm_thread:
  assumes "upd_thread t f k = Inr k'" and "\<And>r. frames (f r) = frames r"
  shows "calm k k'"
proof -
  obtain r where r: "threads k t = Some r" "k' = k\<lparr>threads := (threads k)(t \<mapsto> f r)\<rparr>"
    using assms(1) by (auto simp: upd_thread_def obj_def split: option.splits)
  have "\<exists>n. semQueue sem = drop n (semQueue sem) \<and> semValue sem \<le> semValue sem + int n" for sem by (rule exI [of _ 0]) simp
  then show ?thesis using r assms(2) by (auto simp: calm_def frs_def fun_eq_iff)
qed

lemma ReadyToRun_calm:
  assumes "ReadyToRun t k = Inr k'"
  shows "calm k k'"
proof -
  obtain k1 where k1: "upd_thread t (\<lambda>r. r\<lparr>tstatus := READY\<rparr>) k = Inr k1" and l: "\<exists>l. k' = k1\<lparr>readyList := l\<rparr>"
    using assms by (auto simp: ReadyToRun_def require_eq_Inr rbind_eq_Inr)
  have "calm k1 k'" using l by (auto intro: calm_same)
  then show ?thesis using calm_trans [OF calm_thread [OF k1]] by simp
qed

lemma V_body_calm:
  assumes "V_body v k = Inr k'"
  shows "calm k k'"
proof -
  obtain sem where sem: "sems k v = Some sem" using assms by (auto simp: V_body_def obj_def split: option.splits)
  have up: "calm k (k\<lparr>sems := (sems k)(v \<mapsto> sem\<lparr>semQueue := drop 1 (semQueue sem), semValue := semValue sem + 1\<rparr>)\<rparr>)"
  proof -
    have "\<exists>n. drop 1 (semQueue sem) = drop n (semQueue sem) \<and> semValue sem + 1 \<le> semValue sem + int n" by (rule exI [of _ 1]) simp
    moreover have "\<exists>n. semQueue x = drop n (semQueue x) \<and> semValue x \<le> semValue x + int n" for x by (rule exI [of _ 0]) simp
    ultimately show ?thesis using sem by (auto simp: calm_def frs_def fun_eq_iff)
  qed
  show ?thesis
  proof (cases "semQueue sem")
    case Nil
    then have "k' = k\<lparr>sems := (sems k)(v \<mapsto> sem\<lparr>semQueue := drop 1 (semQueue sem), semValue := semValue sem + 1\<rparr>)\<rparr>"
      using assms sem by (cases sem) (simp add: V_body_def obj_def)
    then show ?thesis using up by simp
  next
    case (Cons t q)
    then obtain k1 where k1: "ReadyToRun t k = Inr k1" "k' = k1\<lparr>sems := (sems k1)(v \<mapsto> sem\<lparr>semQueue := q, semValue := semValue sem + 1\<rparr>)\<rparr>"
      using assms sem by (auto simp: V_body_def obj_def list_RemoveFront_def rbind_eq_Inr)
    have "sems k1 = sems k" using k1(1) by (auto simp: ReadyToRun_def upd_thread_def obj_def rbind_eq_Inr require_eq_Inr split: option.splits)
    then show ?thesis using ReadyToRun_calm [OF k1(1)] up Cons by (simp add: calm_def k1(2) frs_def fun_eq_iff)
  qed
qed

lemma CallBack_calm:
  assumes "CallBack c k = Inr k'"
  shows "calm k k'"
proof (cases c)
  case TimerObj
  then have "Timer_CallBack TimerObj k = Inr k'" using assms by simp
  then show ?thesis
    by (intro calm_same) (auto simp: Timer_CallBack_def Alarm_CallBack_def YieldOnReturn_def Timer_SetInterrupt_def Schedule_def RandomNumber_def
        Let_def rbind_eq_Inr require_eq_Inr split: if_splits)
qed (use assms V_body_calm in auto)

lemma handle_due_calm: "handle_due CallBack n k = Inr k' \<Longrightarrow> calm k k'"
proof (induction n arbitrary: k)
  case (Suc n)
  obtain p :: "callback PendingInterrupt" and ps k1 where p: "CallBack (callOnInterrupt p) (k\<lparr>pendingList := ps\<rparr>) = Inr k1"
    and rest: "(if pendingList k1 \<noteq> [] \<and> when (hd (pendingList k1)) \<le> now k1 then handle_due CallBack n k1 else Inr k1) = Inr k'"
    using Suc.prems by (auto simp: rbind_eq_Inr)
  have "calm k (k\<lparr>pendingList := ps\<rparr>)" by (rule calm_same) simp_all
  then have "calm k k1" using CallBack_calm [OF p] calm_trans by blast
  then show ?case using rest Suc.IH [of k1] calm_trans by (auto split: if_splits)
qed simp

lemma CheckIfDue_calm:
  assumes "CheckIfDue CallBack adv k = Inr (b, k')"
  shows "calm k k'"
proof (cases "pendingList k = [] \<or> when (hd (pendingList k)) > now k \<and> \<not> adv")
  case True
  then have "k' = k" using assms(1) by (cases "pendingList k") (auto simp: CheckIfDue_def require_eq_Inr)
  then show ?thesis by (simp add: calm_same)
next
  case False
  then obtain p ps where p: "pendingList k = p # ps" by (cases "pendingList k") auto
  define k1 where "k1 = (if when p > now k
    then k\<lparr>stats := (stats k)\<lparr>idleTicks := idleTicks (stats k) + (when p - now k), totalTicks := when p\<rparr>\<rparr> else k)"
  have "rbind (DelayedLoad 0 0 k1) (\<lambda>k2. rbind (handle_due CallBack (Suc (length (pendingList k2))) (k2\<lparr>inHandler := True\<rparr>)) (\<lambda>k3.
      Inr (True, k3\<lparr>inHandler := False\<rparr>))) = Inr (b, k')"
    using assms(1) False p unfolding CheckIfDue_def k1_def Let_def require_eq_Inr by (simp del: handle_due.simps split: if_splits)
  then obtain k2 k3 n where r: "DelayedLoad 0 0 k1 = Inr k2" "handle_due CallBack n (k2\<lparr>inHandler := True\<rparr>) = Inr k3"
    "k' = k3\<lparr>inHandler := False\<rparr>" by (auto simp: rbind_eq_Inr simp del: handle_due.simps)
  have "calm k k1" by (rule calm_same) (simp_all add: k1_def)
  moreover have "calm k1 (k2\<lparr>inHandler := True\<rparr>)"
    using r(1) by (intro calm_same) (auto simp: DelayedLoad_def rbind_eq_Inr arr_set_def split: if_splits)
  moreover have "calm k3 k'" by (rule calm_same) (simp_all add: r(3))
  ultimately show ?thesis using handle_due_calm [OF r(2)] calm_trans by blast
qed

lemma OneTick_calm:
  assumes "OneTick CallBack k = Inr (y, k')"
  shows "calm k k'"
proof -
  obtain k1 b k2 where r: "CheckIfDue CallBack False k1 = Inr (b, k2)" "calm k k1" "calm k2 k'"
    using assms(1) by (auto simp: OneTick_def ChangeLevel_def Let_def rbind_eq_Inr calm_same split: if_splits)
  then show ?thesis using CheckIfDue_calm [OF r(1)] calm_trans by blast
qed

lemma SetLevel_calm:
  assumes "SetLevel CallBack lv k = Inr (y, k')"
  shows "calm k k'"
proof -
  have c: "calm k (ChangeLevel lv k)" by (rule calm_same) (simp_all add: ChangeLevel_def)
  have "k' = ChangeLevel lv k \<or> OneTick CallBack (ChangeLevel lv k) = Inr (y, k')"
    using assms by (auto simp: SetLevel_def require_eq_Inr Let_def split: if_splits)
  then show ?thesis using c OneTick_calm calm_trans by blast
qed

lemma FindNextToRun_calm: "FindNextToRun k = Inr (t, k') \<Longrightarrow> calm k k'"
  by (rule calm_same) (auto simp: FindNextToRun_def require_eq_Inr rbind_eq_Inr split: if_splits)

section \<open>The routines of the current thread\<close>

text \<open>The current thread \<open>c\<close> is on its way through a routine, and does not count.\<close>

definition on_way :: "nat \<Rightarrow> kernel \<Rightarrow> bool" where
  "on_way c k \<longleftrightarrow> wake_inv (\<lambda>_. 0) {c} k \<and> currentThread k = c"

lemma calm_on_way: "calm k k' \<Longrightarrow> on_way c k \<Longrightarrow> on_way c k'"
  using calm_inv [of k k' "\<lambda>_. 0" "{c}"] by (simp add: on_way_def calm_def)

lemma upd_own:
  assumes "upd_thread t f k = Inr k'" and "wake_inv e {t} k"
  shows "wake_inv e {t} k' \<and> currentThread k' = currentThread k"
proof -
  obtain r where r: "threads k t = Some r" "k' = k\<lparr>threads := (threads k)(t \<mapsto> f r)\<rparr>"
    using assms(1) by (auto simp: upd_thread_def obj_def split: option.splits)
  have "resuming {t} s k \<subseteq> resuming {t} s k'" for s by (auto simp: resuming_def r(2) frs_def)
  then show ?thesis using wake_mono [OF assms(2), of k' "{t}" "e"] wake_invD(1) [OF assms(2)] by (simp add: r(2))
qed

lemma push_own: "push fs k = Inr k' \<Longrightarrow> on_way c k \<Longrightarrow> on_way c k'"
  unfolding push_def on_way_def using upd_own by fastforce

lemma after_tick_own:
  assumes "after_tick st m = Inr k'" and "\<And>y k1. m = Inr (y, k1) \<Longrightarrow> on_way c k1"
  shows "on_way c k'"
proof -
  obtain y k1 where m: "m = Inr (y, k1)" "(if y then push [Yield, SetStatus st] k1 else Inr k1) = Inr k'"
    using assms(1) by (auto simp: after_tick_def rbind_eq_Inr)
  then show ?thesis using assms(2) [OF m(1)] push_own by (auto split: if_splits)
qed

lemma set_level_own: "set_level lv k = Inr k' \<Longrightarrow> on_way c k \<Longrightarrow> on_way c k'"
  unfolding set_level_def by (erule after_tick_own) (blast dest: SetLevel_calm calm_on_way)

lemma on_way_done: "on_way c k \<Longrightarrow> wake_inv (\<lambda>_. 0) {} k"
  by (rule wake_mono [of "\<lambda>_. 0" "{c}" k]) (auto simp: on_way_def resuming_def dest: wake_invD(1))

lemma V_own:
  assumes "Semaphore_V v k = Inr k'" and "on_way c k"
  shows "on_way c k'"
proof -
  obtain k1 k2 where k1: "set_level IntOff k = Inr k1" and k2: "V_body v k1 = Inr k2" and k': "set_level (level k) k2 = Inr k'"
    using assms(1) by (auto simp: Semaphore_V_def rbind_eq_Inr)
  show ?thesis by (rule set_level_own [OF k' calm_on_way [OF V_body_calm [OF k2] set_level_own [OF k1 assms(2)]]])
qed

text \<open>
  The loop of \<open>P\<close>. A thread that waits joins the queue and counts from then on; one that takes the
  semaphore counted before, if it had been waiting, and counts no more.
\<close>

lemma P_loop_wake:
  assumes i: "wake_inv ((\<lambda>_. 0)(v := 1)) {c} k" and c: "currentThread k = c" "toBeDestroyed k = None" and r: "Semaphore_P_loop v lv k = Inr k'"
  shows "wake_inv (\<lambda>_. 0) {} k'"
proof -
  obtain sem where sem: "sems k v = Some sem" using r by (auto simp: Semaphore_P_loop_def obj_def split: option.splits)
  note q = wake_invD(2-4) [OF i]
  have fin: "finite (dom (threads k))" "finite (resuming {c} s k)" for s using wake_invD(1) [OF i] resuming_finite by blast+
  show ?thesis
  proof (cases "semValue sem = 0")
    case True
    then obtain r0 where r0: "threads k c = Some r0"
      and k': "k' = k\<lparr>sems := (sems k)(v \<mapsto> sem\<lparr>semQueue := semQueue sem @ [c]\<rparr>),
        threads := (threads k)(c \<mapsto> r0\<lparr>tstatus := BLOCKED, frames := [Sleep_loop False, SemP_loop v lv] @ frames r0\<rparr>)\<rparr>"
      using r sem c(1) by (auto simp: Semaphore_P_loop_def obj_def rbind_eq_Inr require_eq_Inr push_def upd_thread_def Thread_Sleep_def
          list_Append_def split: option.splits if_splits)
    have R: "resuming {} s k' = (if s = v then insert c (resuming {c} s k) else resuming {c} s k)" for s
      using c(2) by (auto simp: resuming_def k' frs_def)
    show ?thesis unfolding wake_inv_def R
    proof (intro conjI allI impI)
      fix s sem'
      assume s: "sems k' s = Some sem'"
      have cq: "c \<notin> set (semQueue sem)" using q(1) [OF sem] by (auto simp: resuming_def)
      have len: "length (semQueue sem) \<le> card (resuming {c} v k)"
        using card_mono [OF fin(2) q(1) [OF sem]] distinct_card [OF q(2) [OF sem]] by simp
      have "card (insert c (resuming {c} v k)) = Suc (card (resuming {c} v k))" using fin(2) by (auto simp: resuming_def)
      then show "semValue sem' + int (length (semQueue sem')) \<le> int (card (if s = v then insert c (resuming {c} s k) else resuming {c} s k)) + 0"
        if "semQueue sem' \<noteq> []" using s sem True len q(3) [of s sem'] that by (auto simp: k' split: if_splits)
      show "set (semQueue sem') \<subseteq> (if s = v then insert c (resuming {c} s k) else resuming {c} s k)"
        using s q(1) [of s] q(1) [OF sem] by (auto simp: k' split: if_splits)
      show "distinct (semQueue sem')" using s q(2) [of s] q(2) [OF sem] cq by (auto simp: k' split: if_splits)
    qed (use fin(1) r0 in \<open>simp add: k'\<close>)
  next
    case False
    let ?k = "k\<lparr>sems := (sems k)(v \<mapsto> sem\<lparr>semValue := semValue sem - 1\<rparr>)\<rparr>"
    have l: "set_level lv ?k = Inr k'" using r sem False by (simp add: Semaphore_P_loop_def obj_def)
    have R: "resuming {c} s ?k = resuming {c} s k" for s by (simp add: resuming_def frs_def)
    have "wake_inv (\<lambda>_. 0) {c} ?k" unfolding wake_inv_def R
    proof (intro conjI allI impI)
      fix s sem'
      assume s: "sems ?k s = Some sem'"
      show "set (semQueue sem') \<subseteq> resuming {c} s k" "distinct (semQueue sem')"
        using s q(1,2) [of s] q(1,2) [OF sem] by (auto split: if_splits)
      show "semValue sem' + int (length (semQueue sem')) \<le> int (card (resuming {c} s k)) + 0" if "semQueue sem' \<noteq> []"
        using s q(3) [of s sem'] q(3) [OF sem] that by (auto split: if_splits)
    qed (simp add: fin(1))
    then have "on_way c ?k" using c(1) by (simp add: on_way_def)
    then show ?thesis using on_way_done [OF set_level_own [OF l]] by blast
  qed
qed

lemma Scheduler_Run_wake:
  assumes i: "wake_inv (\<lambda>_. 0) (if fin then {currentThread k} else X) k" and r: "Scheduler_Run t fin k = Inr k'"
  shows "wake_inv (\<lambda>_. 0) {} k'"
proof -
  let ?c = "currentThread k"
  obtain k1 k2 where k1: "k1 = (if fin then k\<lparr>toBeDestroyed := Some ?c\<rparr> else k)" "fin \<longrightarrow> toBeDestroyed k = None"
    and k2: "upd_thread ?c (\<lambda>r. let r1 = (case space r of None \<Rightarrow> r | Some sp \<Rightarrow> (SaveUserState k1 r)\<lparr>space := Some (AddrSpace_SaveState k1 sp)\<rparr>)
               in r1\<lparr>frames := Run_back # frames r1\<rparr>) k1 = Inr k2"
    and k': "upd_thread t (\<lambda>r. r\<lparr>tstatus := RUNNING\<rparr>) (k2\<lparr>currentThread := t\<rparr>) = Inr k'"
    using r by (auto simp: Scheduler_Run_def Let_def require_eq_Inr rbind_eq_Inr split: if_splits)
  define g where "g = (\<lambda>r. let r1 = (case space r of None \<Rightarrow> r | Some sp \<Rightarrow> (SaveUserState k1 r)\<lparr>space := Some (AddrSpace_SaveState k1 sp)\<rparr>)
    in r1\<lparr>frames := Run_back # frames r1\<rparr>)"
  have g: "frames (g r) = Run_back # frames r" for r by (simp add: g_def Let_def SaveUserState_def split: option.split)
  obtain r where r2: "threads k1 ?c = Some r" "k2 = k1\<lparr>threads := (threads k1)(?c \<mapsto> g r)\<rparr>"
    using k2 unfolding g_def [symmetric] by (auto simp: upd_thread_def obj_def split: option.splits)
  have th: "threads k ?c = Some r" using r2(1) k1(1) by (simp split: if_splits)
  have "resumes s (frs k2 u) = resumes s (frs k u)" for s u using g th by (auto simp: r2(2) k1(1) frs_def)
  then have "resuming (if fin then {?c} else X) s k \<subseteq> resuming {} s (k2\<lparr>currentThread := t\<rparr>)" for s
    using k1 r2(2) by (auto simp: resuming_def frs_def)
  then have "wake_inv (\<lambda>_. 0) {} (k2\<lparr>currentThread := t\<rparr>)"
    using wake_mono [OF i, of "k2\<lparr>currentThread := t\<rparr>" "{}" "\<lambda>_. 0"] wake_invD(1) [OF i] by (simp add: r2(2) k1(1))
  then show ?thesis using calm_inv [OF calm_thread [OF k']] by simp
qed

lemma CheckToBeDestroyed_wake:
  assumes i: "wake_inv e X k" and r: "CheckToBeDestroyed k = Inr k'"
  shows "wake_inv e X k' \<and> currentThread k' = currentThread k"
proof (cases "toBeDestroyed k")
  case None
  then show ?thesis using i r by (simp add: CheckToBeDestroyed_def)
next
  case (Some t)
  then have k': "k' = k\<lparr>threads := (threads k)(t := None), toBeDestroyed := None\<rparr>"
    using r by (simp add: CheckToBeDestroyed_def require_eq_Inr)
  have "resuming X s k \<subseteq> resuming X s k'" for s using Some by (auto simp: resuming_def k' frs_def)
  then show ?thesis using wake_mono [OF i, of k' X e] wake_invD(1) [OF i] by (simp add: k')
qed

lemma Yield_wake:
  assumes "Thread_Yield k = Inr k'" and "on_way c k"
  shows "wake_inv (\<lambda>_. 0) {} k'"
proof -
  obtain k1 t k2 where k1: "set_level IntOff k = Inr k1" and k2: "FindNextToRun k1 = Inr (t, k2)"
    and rest: "(case t of None \<Rightarrow> set_level (level k) k2 | Some u \<Rightarrow> rbind (push [Yield_end (level k)] k2) (\<lambda>k3.
        rbind (ReadyToRun (currentThread k3) k3) (Scheduler_Run u False))) = Inr k'"
    using assms(1) by (auto simp: Thread_Yield_def Let_def rbind_eq_Inr)
  have i2: "on_way c k2" using calm_on_way [OF FindNextToRun_calm [OF k2]] set_level_own [OF k1] assms(2) by blast
  show ?thesis
  proof (cases t)
    case None
    then show ?thesis using rest on_way_done [OF set_level_own] i2 by simp
  next
    case (Some u)
    then obtain k3 k4 where k3: "push [Yield_end (level k)] k2 = Inr k3" and k4: "ReadyToRun (currentThread k3) k3 = Inr k4"
      and k': "Scheduler_Run u False k4 = Inr k'" using rest by (auto simp: rbind_eq_Inr)
    have "on_way c k4" using calm_on_way [OF ReadyToRun_calm [OF k4]] push_own [OF k3 i2] by blast
    then show ?thesis using Scheduler_Run_wake [of False k4 "{c}", OF _ k'] by (simp add: on_way_def)
  qed
qed

lemma Sleep_loop_wake:
  assumes i: "wake_inv (\<lambda>_. 0) (if fin then {currentThread k} else {}) k" and r: "Thread_Sleep_loop fin k = Inr k'"
  shows "wake_inv (\<lambda>_. 0) {} k'"
proof -
  obtain t k1 where k1: "FindNextToRun k = Inr (t, k1)"
    and rest: "(case t of None \<Rightarrow> rbind (Idle CallBack k1) (push [Sleep_loop fin]) | Some u \<Rightarrow> Scheduler_Run u fin k1) = Inr k'"
    using r by (auto simp: Thread_Sleep_loop_def rbind_eq_Inr)
  have c1: "calm k k1" by (rule FindNextToRun_calm [OF k1])
  then have e: "currentThread k1 = currentThread k" by (simp add: calm_def)
  show ?thesis
  proof (cases t)
    case (Some u)
    then show ?thesis using rest Scheduler_Run_wake [of fin k1 "{}", unfolded e, OF calm_inv [OF c1 i]] by simp
  next
    case None
    then obtain k2 where k2: "Idle CallBack k1 = Inr k2" and k': "push [Sleep_loop fin] k2 = Inr k'" using rest by (auto simp: rbind_eq_Inr)
    obtain k3 where k3: "CheckIfDue CallBack True (k1\<lparr>mstatus := IdleMode\<rparr>) = Inr (True, k3)" "k2 = k3\<lparr>mstatus := SystemMode\<rparr>"
      using k2 by (auto simp: Idle_def rbind_eq_Inr split: if_splits)
    have "calm k1 (k1\<lparr>mstatus := IdleMode\<rparr>)" "calm k3 k2" by (simp_all add: calm_same k3(2))
    then have c2: "calm k k2" using CheckIfDue_calm [OF k3(1)] c1 calm_trans by blast
    then have e2: "currentThread k2 = currentThread k" by (simp add: calm_def)
    note i2 = calm_inv [OF c2 i]
    obtain x where x: "threads k2 (currentThread k2) = Some x"
      "k' = k2\<lparr>threads := (threads k2)(currentThread k2 \<mapsto> x\<lparr>frames := Sleep_loop fin # frames x\<rparr>)\<rparr>"
      using k' by (auto simp: push_def upd_thread_def obj_def split: option.splits)
    have "resuming (if fin then {currentThread k} else {}) s k2 \<subseteq> resuming {} s k'" for s
      using x e2 by (auto simp: resuming_def frs_def split: if_splits)
    then show ?thesis using wake_mono [OF i2, of k' "{}" "\<lambda>_. 0"] wake_invD(1) [OF i2] by (simp add: x(2))
  qed
qed

text \<open>A new semaphore has no queue, and one that is deleted needs none.\<close>

lemma sems_own:
  assumes i: "on_way c k" and "threads k' = threads k" "toBeDestroyed k' = toBeDestroyed k" "currentThread k' = currentThread k"
    and s: "\<And>s sem. sems k' s = Some sem \<Longrightarrow> sems k s = Some sem \<or> semQueue sem = []"
  shows "on_way c k'"
proof -
  have "resuming X s k' = resuming X s k" for X s using assms(2,3) by (simp add: resuming_def frs_def)
  then show ?thesis using i s assms(2,4) unfolding on_way_def wake_inv_def by fastforce
qed

lemma Wait_own:
  assumes "Condition_Wait x l k = Inr k'" and i: "on_way c k"
  shows "on_way c k'"
proof -
  obtain q where p: "push [Release l, SemP (brk_obj k), Acquire l, Delete_sem (brk_obj k)]
      (k\<lparr>sems := (sems k)(brk_obj k \<mapsto> \<lparr>semValue = 0, semQueue = []\<rparr>), brk_obj := Suc (brk_obj k), conds := (conds k)(x \<mapsto> q)\<rparr>) = Inr k'"
    using assms(1) by (auto simp: Condition_Wait_def Semaphore_new_def rbind_eq_Inr require_eq_Inr)
  show ?thesis by (rule push_own [OF p sems_own [OF i]]) (auto split: if_splits)
qed

lemma same_own:
  assumes "on_way c k" and "threads k' = threads k" "sems k' = sems k" "toBeDestroyed k' = toBeDestroyed k" "currentThread k' = currentThread k"
  shows "on_way c k'"
  using calm_on_way [OF calm_same] assms by blast

lemma Signal_own:
  assumes r: "Condition_Signal x l k = Inr k'" and i: "on_way c k"
  shows "on_way c k'"
proof -
  have "k' = k \<or> (\<exists>w q. Semaphore_V w (k\<lparr>conds := (conds k)(x \<mapsto> q)\<rparr>) = Inr k')"
    using r by (auto simp: Condition_Signal_def rbind_eq_Inr require_eq_Inr split: if_splits)
  moreover have "on_way c (k\<lparr>conds := (conds k)(x \<mapsto> q)\<rparr>)" for q by (rule same_own [OF i]) simp_all
  ultimately show ?thesis using V_own i by blast
qed

lemma Release_own:
  assumes r: "Lock_Release l k = Inr k'" and i: "on_way c k"
  shows "on_way c k'"
proof -
  obtain lk where "Semaphore_V (lockSem lk) (k\<lparr>locks := (locks k)(l \<mapsto> lk\<lparr>lockHolder := None\<rparr>)\<rparr>) = Inr k'"
    using r by (auto simp: Lock_Release_def rbind_eq_Inr require_eq_Inr)
  then show ?thesis by (rule V_own) (rule same_own [OF i], simp_all)
qed

lemma Remove_own:
  assumes r: "SynchList_Remove_loop a k = Inr k'" and i: "on_way c k"
  shows "on_way c k'"
proof -
  obtain sl where sl: "slists k a = Some sl" using r by (auto simp: SynchList_Remove_loop_def obj_def split: option.splits)
  show ?thesis
  proof (cases "items sl")
    case Nil
    then show ?thesis using r sl push_own i by (simp add: SynchList_Remove_loop_def obj_def)
  next
    case (Cons x xs)
    then obtain k1 where k1: "upd_thread (currentThread k) (\<lambda>r. r\<lparr>returned := x\<rparr>) (k\<lparr>slists := (slists k)(a \<mapsto> sl\<lparr>items := xs\<rparr>)\<rparr>) = Inr k1"
      and p: "push [Release (listLock sl)] k1 = Inr k'"
      using r sl by (auto simp: SynchList_Remove_loop_def obj_def list_RemoveFront_def rbind_eq_Inr)
    have "on_way c (k\<lparr>slists := (slists k)(a \<mapsto> sl\<lparr>items := xs\<rparr>)\<rparr>)" by (rule same_own [OF i]) simp_all
    then show ?thesis using push_own [OF p] calm_on_way [OF calm_thread [OF k1]] by simp
  qed
qed

lemma Fork_own:
  assumes r: "exec_frame (Fork fs) k = Inr k'" and i: "on_way c k" and n: "threads k (brk_obj k) = None"
  shows "on_way c k'"
proof -
  let ?t = "brk_obj k" and ?k = "snd (Thread_new k)"
  obtain k1 k2 where k1: "upd_thread ?t (\<lambda>r. r\<lparr>frames := Begin # fs @ [Finish]\<rparr>) ?k = Inr k1"
    and k2: "ReadyToRun ?t (k1\<lparr>level := IntOff\<rparr>) = Inr k2" and k': "set_level (level k1) k2 = Inr k'"
    using r by (auto simp: Thread_Fork_def Thread_new_def StackAllocate_def Let_def rbind_eq_Inr)
  obtain x where x: "k1 = ?k\<lparr>threads := (threads k)(?t \<mapsto> x)\<rparr>" "frames x = Begin # fs @ [Finish]"
    using k1 by (auto simp: upd_thread_def obj_def Thread_new_def split: option.splits)
  have "resuming {c} s k \<subseteq> resuming {c} s k1" for s using n by (auto simp: resuming_def x(1) Thread_new_def frs_def)
  then have "on_way c k1"
    using i wake_mono [of "\<lambda>_. 0" "{c}" k k1 "{c}" "\<lambda>_. 0"] wake_invD(1) [of "\<lambda>_. 0" "{c}" k] by (simp add: on_way_def x(1) Thread_new_def)
  then have "on_way c (k1\<lparr>level := IntOff\<rparr>)" by (rule same_own) simp_all
  then show ?thesis using set_level_own [OF k'] calm_on_way [OF ReadyToRun_calm [OF k2]] by blast
qed

lemma Execute_own:
  assumes r: "start_user sp k = Inr k'" and i: "on_way c k" and hw: "hw_ok D k"
  shows "on_way c k'"
proof -
  obtain k1 k2 where k1: "upd_thread (currentThread k) (\<lambda>r. r\<lparr>space := Some sp\<rparr>) k = Inr k1" and k2: "AddrSpace_Execute sp k1 = Inr k2"
    and k': "push [RunUser] k2 = Inr k'" using r by (auto simp: start_user_def rbind_eq_Inr)
  have "length (registers k1) = NumTotalRegs" using k1 hw by (auto simp: upd_thread_def obj_def hw_ok_def cpu_ok_def split: option.splits)
  from InitRegisters_regs [OF this, of sp] k2 obtain ws where "k2 = (AddrSpace_RestoreState sp (k1\<lparr>registers := ws\<rparr>))\<lparr>mstatus := UserMode\<rparr>"
    by (auto simp: AddrSpace_Execute_def)
  then have "calm k1 k2" by (intro calm_same) (simp_all add: AddrSpace_RestoreState_def)
  then show ?thesis using push_own [OF k'] calm_on_way calm_thread [OF k1] i by (metis (no_types, lifting) thread.ext_inject thread.surjective thread.update_convs(4))
qed

lemma user_own:
  assumes r: "run_user k = Inr k'" and i: "on_way c k" and hw: "hw_ok D k" and pt: "pageTable k = Some pt" "unat (pageTableSize k) \<le> length pt"
  shows "on_way c k'"
proof -
  obtain k1 k2 where k1: "OneInstruction ExceptionHandler k = Inr k1" and k2: "push [RunUser] k1 = Inr k2"
    and k': "after_tick (mstatus k2) (OneTick CallBack k2) = Inr k'" using r by (auto simp: run_user_def rbind_eq_Inr)
  have mo: "machine_ok k" using hw pt by (simp add: hw_ok_def cpu_ok_def machine_ok_def)
  have "sys_inv (entropy k) (sysenv.more k) (machine.more k)" using hw by (simp add: sys_inv_more hw_ok_def)
  from eh.OneInstruction_safe [OF mo this] have e: "sysenv.more k1 = sysenv.more k" by (simp add: k1 sys_inv_more)
  have "on_way c k1" by (rule same_own [OF i]) (simp_all add: kernel_more [OF e])
  then have "on_way c k2" using push_own [OF k2] by blast
  then show ?thesis by (intro after_tick_own [OF k']) (blast dest: OneTick_calm calm_on_way)
qed

section \<open>Every step\<close>

text \<open>The state in which the first frame of the current thread runs.\<close>

lemma pop_wake:
  assumes i: "wake_inv (\<lambda>_. 0) {} k" and th: "threads k (currentThread k) = Some r" "frames r = f # fs"
    and k1: "k1 = k\<lparr>threads := (threads k)(currentThread k \<mapsto> r\<lparr>frames := fs\<rparr>)\<rparr>"
  shows "f = Run_back \<or> f = Sleep_loop False \<Longrightarrow> wake_inv (\<lambda>_. 0) {} k1"
    and "f = SemP_loop v lv \<Longrightarrow> \<not> in_queue k (currentThread k) \<Longrightarrow> wake_inv ((\<lambda>_. 0)(v := 1)) {currentThread k} k1"
    and "f \<noteq> Run_back \<Longrightarrow> f \<noteq> Sleep_loop False \<Longrightarrow> (\<And>v lv. f \<noteq> SemP_loop v lv) \<Longrightarrow> on_way (currentThread k) k1"
proof -
  let ?c = "currentThread k"
  have fin: "finite (dom (threads k1))" and e: "sems k1 = sems k" using wake_invD(1) [OF i] k1 by simp_all
  show "wake_inv (\<lambda>_. 0) {} k1" if "f = Run_back \<or> f = Sleep_loop False"
    by (rule wake_mono [OF i fin e]) (use th that in \<open>auto simp: resuming_def k1 frs_def split: if_splits\<close>)
  show "on_way ?c k1" if a: "f \<noteq> Run_back" "f \<noteq> Sleep_loop False" "\<And>v lv. f \<noteq> SemP_loop v lv"
  proof -
    have "\<not> resumes s (f # fs)" for s using a by (cases f) auto
    then have "resuming {} s k \<subseteq> resuming {?c} s k1" for s using th by (auto simp: resuming_def k1 frs_def)
    then show ?thesis using wake_mono [OF i fin e, of "{?c}" "\<lambda>_. 0"] by (simp add: on_way_def k1)
  qed
  show "wake_inv ((\<lambda>_. 0)(v := 1)) {?c} k1" if a: "f = SemP_loop v lv" "\<not> in_queue k ?c"
    unfolding wake_inv_def
  proof (intro conjI allI impI)
    fix s sem
    assume "sems k1 s = Some sem"
    then have s: "sems k s = Some sem" by (simp add: e)
    have R: "resuming {} s k = (if s = v \<and> toBeDestroyed k \<noteq> Some ?c then insert ?c (resuming {?c} s k1) else resuming {?c} s k1)"
      using th a(1) by (auto simp: resuming_def k1 frs_def)
    have "?c \<notin> set (semQueue sem)" using a(2) s by (auto simp: in_queue_def)
    then show "set (semQueue sem) \<subseteq> resuming {?c} s k1" using wake_invD(2) [OF i s] R by (auto split: if_splits)
    show "distinct (semQueue sem)" using wake_invD(3) [OF i s] .
    have "card (resuming {} s k) \<le> card (resuming {?c} s k1) + (if s = v then 1 else 0)"
      using R card_insert_le_m1 resuming_finite [OF fin] by (auto simp: card_insert_if)
    then show "semValue sem + int (length (semQueue sem)) \<le> int (card (resuming {?c} s k1)) + ((\<lambda>_. 0)(v := 1)) s" if "semQueue sem \<noteq> []"
      using wake_invD(4) [OF i s that] by (auto split: if_splits)
  qed (rule fin)
qed

lemma frame_own:
  assumes run: "exec_frame f k = Inr k'" and i: "on_way c k" and hw: "hw_ok D k" and n: "threads k (brk_obj k) = None"
    and t: "f \<noteq> Run_back \<and> f \<noteq> Begin \<longrightarrow> toBeDestroyed k = None"
    and u: "f = RunUser \<Longrightarrow> \<exists>pt. pageTable k = Some pt \<and> unat (pageTableSize k) \<le> length pt"
    and f: "f \<noteq> Run_back" "f \<noteq> Sleep_loop False" "\<And>v lv. f \<noteq> SemP_loop v lv"
  shows "wake_inv (\<lambda>_. 0) {} k'"
proof -
  have d: "currentThread k = c" and s0: "on_way c k' \<Longrightarrow> ?thesis" using i on_way_done by (auto simp: on_way_def)
  show ?thesis
  proof (cases f)
    case (SemP v)
    then have p: "Semaphore_P_loop v (level k) (k\<lparr>level := IntOff\<rparr>) = Inr k'" using run by (simp add: Semaphore_P_def Let_def)
    have "wake_inv ((\<lambda>_. 0)(v := 1)) {c} (k\<lparr>level := IntOff\<rparr>)"
      by (rule wake_mono [of "\<lambda>_. 0" "{c}" k]) (use i wake_invD(1) in \<open>auto simp: on_way_def resuming_def frs_def\<close>)
    then show ?thesis by (rule P_loop_wake [OF _ _ _ p]) (use d t SemP in simp_all)
  next
    case Yield then show ?thesis using Yield_wake i run by simp
  next
    case Finish
    then obtain k1 where k1: "upd_thread c (\<lambda>r. r\<lparr>tstatus := BLOCKED\<rparr>) (k\<lparr>level := IntOff\<rparr>) = Inr k1" "push [Sleep_loop True] k1 = Inr k'"
      using run d by (auto simp: Thread_Finish_def Thread_Sleep_def rbind_eq_Inr)
    have "on_way c (k\<lparr>level := IntOff\<rparr>)" by (rule same_own [OF i]) simp_all
    then show ?thesis using s0 push_own [OF k1(2)] calm_on_way [OF calm_thread [OF k1(1)]] by simp
  next
    case (SemV v) then show ?thesis using s0 V_own i run by simp
  next
    case (Acquire l) then show ?thesis using s0 push_own i run by (auto simp: Lock_Acquire_def rbind_eq_Inr)
  next
    case (Release l) then show ?thesis using s0 Release_own i run by simp
  next
    case (Wait x l) then show ?thesis using s0 Wait_own i run by simp
  next
    case (Signal x l) then show ?thesis using s0 Signal_own i run by simp
  next
    case (Broadcast x l) then show ?thesis using s0 push_own i run by (auto simp: Condition_Broadcast_def rbind_eq_Inr split: if_splits)
  next
    case (Append a x) then show ?thesis using s0 push_own i run by (auto simp: SynchList_Append_def rbind_eq_Inr)
  next
    case (RemoveFront a) then show ?thesis using s0 push_own i run by (auto simp: SynchList_RemoveFront_def rbind_eq_Inr)
  next
    case (Fork gs) then show ?thesis using s0 Fork_own [of gs k k' c] i run n by simp
  next
    case (Execute sp) then show ?thesis using s0 Execute_own [OF _ i hw] run by simp
  next
    case (AssertReturned x) then show ?thesis using s0 i run by (auto simp: rbind_eq_Inr require_eq_Inr)
  next
    case Begin
    then obtain k2 where "CheckToBeDestroyed k = Inr k2" "set_level IntOn k2 = Inr k'" using run by (auto simp: Thread_Begin_def rbind_eq_Inr)
    then show ?thesis using s0 set_level_own CheckToBeDestroyed_wake i unfolding on_way_def by blast
  next
    case (Yield_end lv) then show ?thesis using s0 set_level_own i run by simp
  next
    case (Sleep_loop b) then show ?thesis using Sleep_loop_wake [of b k k'] i d run f(2) by (simp add: on_way_def)
  next
    case (SetStatus st) then show ?thesis using s0 same_own [OF i, of k'] run by auto
  next
    case (Acquired l) then show ?thesis using s0 same_own [OF i, of k'] run by (auto simp: Lock_Acquired_def rbind_eq_Inr)
  next
    case (Delete_sem v)
    then have "on_way c k'" using run by (intro sems_own [OF i]) (auto split: if_splits)
    then show ?thesis by (rule s0)
  next
    case (Append_item a x) then show ?thesis using s0 same_own [OF i, of k'] run by (auto simp: SynchList_Append_item_def rbind_eq_Inr)
  next
    case (Remove_loop a) then show ?thesis using s0 Remove_own i run by simp
  next
    case RunUser then show ?thesis using s0 user_own [OF _ i hw] u run by auto
  qed (use f in simp_all)
qed

lemma step_wake:
  assumes k: "kernel_ok D k" and f: "map_option frames (cur k) = Some (f # fs)" and r: "step k = Inr k'" and i: "wake_inv (\<lambda>_. 0) {} k"
  shows "wake_inv (\<lambda>_. 0) {} k'"
proof -
  let ?c = "currentThread k"
  obtain r where th: "threads k ?c = Some r" "frames r = f # fs" using f by (auto simp: cur_def)
  define k1 where "k1 = k\<lparr>threads := (threads k)(?c \<mapsto> r\<lparr>frames := fs\<rparr>)\<rparr>"
  have run: "exec_frame f k1 = Inr k'" using r th by (simp add: step_def obj_def k1_def)
  have d: "toBeDestroyed k1 \<noteq> None \<longrightarrow> f = Run_back \<or> f = Begin" "hw_ok D k1" "f \<noteq> Run_back \<longrightarrow> loaded k1 r" "space_ok r" "sched_ok D (mode_of f) k"
    using k f th by (auto simp: kernel_ok_def cur_def k1_def hw_ok_def clock_ok_def cpu_ok_def reg_def pend_ok_def loaded_def)
  have n: "threads k (brk_obj k) = None" using d(5) by (auto simp: sched_ok_def objects_ok_def)
  note pop = pop_wake [OF i th k1_def]
  consider (resumed) "f = Run_back" | (sleep) "f = Sleep_loop False" | (loop) v lv where "f = SemP_loop v lv"
    | (other) "f \<noteq> Run_back" "f \<noteq> Sleep_loop False" "\<And>v lv. f \<noteq> SemP_loop v lv" by blast
  then show ?thesis
  proof cases
    case resumed
    then obtain k2 r2 where k2: "CheckToBeDestroyed k1 = Inr k2"
      and k': "k' = (case space r2 of None \<Rightarrow> k2 | Some sp \<Rightarrow> AddrSpace_RestoreState sp (RestoreUserState r2 k2))"
      using run by (auto simp: Scheduler_Run_back_def require_eq_Inr rbind_eq_Inr)
    have "calm k2 k'" by (rule calm_same) (simp_all add: k' AddrSpace_RestoreState_def RestoreUserState_def split: option.split)
    then show ?thesis using calm_inv CheckToBeDestroyed_wake [OF pop(1) k2] resumed by blast
  next
    case sleep
    then show ?thesis using Sleep_loop_wake [of False k1 k'] pop(1) run by simp
  next
    case loop
    have "status k ?c = Some RUNNING" using d(5) loop by (simp add: sched_ok_def current_ok_def)
    then have "\<not> in_queue k ?c" using d(5) by (auto simp: sched_ok_def queues_ok_def in_queue_def)
    from pop(2) [OF loop this] show ?thesis by (rule P_loop_wake) (use run d(1) loop in \<open>simp_all add: k1_def\<close>)
  next
    case other
    show ?thesis
    proof (rule frame_own [OF run pop(3) [OF other] d(2) _ _ _ other])
      show "threads k1 (brk_obj k1) = None" using n th(1) by (auto simp: k1_def)
      show "\<exists>pt. pageTable k1 = Some pt \<and> unat (pageTableSize k1) \<le> length pt" if "f = RunUser"
        using that d(3,4) th(2) by (auto simp: space_ok_def loaded_def)
    qed (use d(1) in blast)
  qed
qed

lemma reaches_wake: "reaches D k k' \<Longrightarrow> kernel_ok D k \<Longrightarrow> wake_inv (\<lambda>_. 0) {} k \<Longrightarrow> wake_inv (\<lambda>_. 0) {} k'"
proof (induction rule: reaches.induct)
  case (reaches_step k k' f fs k'')
  then show ?case using step_wake [of D k' f fs k''] reaches_ok [of D k k'] by simp
qed

section \<open>No wakeup is lost\<close>

text \<open>Whoever resumes a semaphore without being in its queue is in no queue.\<close>

lemma awake_runs:
  assumes i: "wake_inv (\<lambda>_. 0) {} k" and nl: "none_lost k" and t: "t \<in> resuming {} s k" and q: "sems k s = Some sem" "t \<notin> set (semQueue sem)"
  shows "\<not> in_queue k t" "t = currentThread k \<or> t \<in> set (readyList k)"
proof -
  show n: "\<not> in_queue k t"
  proof
    assume "in_queue k t"
    then obtain s' sem' where s': "sems k s' = Some sem'" "t \<in> set (semQueue sem')" by (auto simp: in_queue_def)
    then have "resumes s' (frs k t)" using wake_invD(2) [OF i] by (auto simp: resuming_def)
    then have "s' = s" using t resumes_unique by (auto simp: resuming_def)
    then show False using s' q by simp
  qed
  have "threads k t \<noteq> None" "toBeDestroyed k \<noteq> Some t" using t by (auto simp: resuming_def frs_def split: option.splits)
  then show "t = currentThread k \<or> t \<in> set (readyList k)" using nl n by (auto simp: none_lost_def)
qed

lemma fresh_wake:
  assumes "kernel_ok D k" and "\<forall>s sem. sems k s = Some sem \<longrightarrow> semQueue sem = []"
  shows "wake_inv (\<lambda>_. 0) {} k"
proof -
  have "dom (threads k) \<subseteq> {..<brk_obj k}" using assms(1) by (auto simp: kernel_ok_def sched_ok_def objects_ok_def)
  then show ?thesis using assms(2) finite_subset by (fastforce simp: wake_inv_def)
qed

text \<open>
  C5: no wakeup is lost. From a legal kernel in which nobody waits, in every interleaving of the
  threads and the interrupt handlers, whenever threads are in the queue of a semaphore, each of
  them will look at the semaphore again when it is woken up, and at least as many others as the
  value of the semaphore says have been woken up, are current or ready, and will look at it. So the
  machine idles, or halts, only when every semaphore that a thread waits for is zero.
\<close>

theorem no_lost_wakeup:
  assumes "kernel_ok D k" and "\<forall>s sem. sems k s = Some sem \<longrightarrow> semQueue sem = []" and "reaches D k k'"
    and s: "sems k' s = Some sem" "semQueue sem \<noteq> []"
  shows "(\<forall>t \<in> set (semQueue sem). resumes s (frs k' t)) \<and>
    semValue sem \<le> int (card {t. resumes s (frs k' t) \<and> t \<notin> set (semQueue sem) \<and> (t = currentThread k' \<or> t \<in> set (readyList k'))}) \<and>
    (\<forall>b fs. map_option frames (cur k') = Some (Sleep_loop b # fs) \<and> readyList k' = [] \<longrightarrow> semValue sem = 0)"
proof -
  have i: "wake_inv (\<lambda>_. 0) {} k'" by (rule reaches_wake [OF assms(3,1) fresh_wake [OF assms(1,2)]])
  have ok: "kernel_ok D k'" by (rule reaches_ok [OF assms(3,1)])
  then obtain r f fs where r: "cur k' = Some r" "frames r = f # fs" "sched_ok D (mode_of f) k'" by (auto simp: kernel_ok_def)
  then have nl: "none_lost k'" and cu: "current_ok (mode_of f) k'" and v: "0 \<le> semValue sem"
    using s(1) by (simp_all add: sched_ok_def queues_ok_def)
  let ?R = "resuming {} s k'" and ?A = "{t. resumes s (frs k' t) \<and> t \<notin> set (semQueue sem) \<and> (t = currentThread k' \<or> t \<in> set (readyList k'))}"
  note awake = awake_runs [OF i nl _ s(1)]
  have fin: "finite ?R" by (rule resuming_finite [OF wake_invD(1) [OF i]])
  have "card (?R - set (semQueue sem)) = card ?R - length (semQueue sem)"
    using card_Diff_subset [OF _ wake_invD(2) [OF i s(1)]] distinct_card [OF wake_invD(3) [OF i s(1)]] by simp
  then have le: "semValue sem \<le> int (card (?R - set (semQueue sem)))" using wake_invD(4) [OF i s] v by simp
  have "finite ?A" by (rule finite_subset [of _ "insert (currentThread k') (set (readyList k'))"]) auto
  moreover have "?R - set (semQueue sem) \<subseteq> ?A" using awake(2) by (auto simp: resuming_def)
  ultimately have "semValue sem \<le> int (card ?A)" using le card_mono [of ?A "?R - set (semQueue sem)"] by linarith
  moreover have "semValue sem = 0" if "map_option frames (cur k') = Some (Sleep_loop b # gs)" "readyList k' = []" for b gs
  proof -
    have f: "f = Sleep_loop b" "fs = gs" using that(1) r by simp_all
    have "?R - set (semQueue sem) = {}"
    proof (rule ccontr)
      assume "?R - set (semQueue sem) \<noteq> {}"
      then obtain t where t: "t \<in> ?R" "t \<notin> set (semQueue sem)" by blast
      then have c: "t = currentThread k'" "\<not> in_queue k' t" using awake that(2) by auto
      then have "\<not> b" using t(1) r f by (auto simp: resuming_def frs_def cur_def)
      then show False using cu c that(2) f by (simp add: current_ok_def)
    qed
    then show ?thesis using le v by (simp only: card.empty)
  qed
  moreover have "\<forall>t \<in> set (semQueue sem). resumes s (frs k' t)" using wake_invD(2) [OF i s(1)] by (auto simp: resuming_def)
  ultimately show ?thesis by blast
qed

text \<open>The only thread waits for a semaphore that is zero.\<close>

definition one_waits :: kernel where
  "one_waits = (main_kernel [SemP 1])\<lparr>sems := [1 \<mapsto> \<lparr>semValue = 0, semQueue = []\<rparr>], brk_obj := 2\<rparr>"

theorem no_lost_wakeup_witness:
  "\<exists>k' sem. step one_waits = Inr k' \<and> sems k' 1 = Some sem \<and> semQueue sem = [0] \<and> readyList k' = [] \<and> semValue sem = 0 \<and> resumes 1 (frs k' 0)"
proof -
  have "mid {} Running ([SemP 1] @ [Finish]) one_waits"
    by (rule mid_new_sem [OF main_kernel_mid, of _ 0]) (simp_all add: one_waits_def main_kernel_def)
  then have ok: "kernel_ok {} one_waits" by (rule mid_on_ok) (simp_all add: one_waits_def main_kernel_def)
  have f: "map_option frames (cur one_waits) = Some (SemP 1 # [Finish])" by (simp add: cur_def one_waits_def main_kernel_def)
  have u: "\<not> misused {} (SemP 1) one_waits" by (simp add: one_waits_def main_kernel_def)
  obtain k' where k': "step one_waits = Inr k'" "sems k' 1 = Some \<lparr>semValue = 0, semQueue = [0]\<rparr>" "readyList k' = []"
    "map_option frames (cur k') = Some (Sleep_loop False # [SemP_loop 1 IntOn, Finish])"
    by (simp add: step_def obj_def one_waits_def main_kernel_def Semaphore_P_def Semaphore_P_loop_def list_Append_def push_def upd_thread_def
        Thread_Sleep_def cur_def)
  have "\<forall>s sem. sems one_waits s = Some sem \<longrightarrow> semQueue sem = []" by (simp add: one_waits_def)
  from no_lost_wakeup [OF ok this reaches_step [OF reaches_refl f u k'(1)] k'(2)] show ?thesis using k' by simp
qed

end
