(* ===== verification/Filesys_Dir.thy ===== *)
theory Filesys_Dir
  imports Filesys_File
begin

text \<open>
  \<open>filesys/pbitmap.cc\<close> (a bitmap kept in a file) and \<open>filesys/directory.h\<close>, \<open>directory.cc\<close>
  (the table of file names, kept in a file). A directory entry takes 20 bytes on the 32 bit
  host: the flag, three bytes of padding, the sector, the ten bytes of the name and two bytes
  of padding; the padding travels with the entry, as the code writes whole structures.

  A name is the byte string a \<open>char *\<close> points to, where the end of the list is its zero byte.
\<close>

section \<open>Persistent bitmaps\<close>

text \<open>\<open>ReadAt\<close> overwrites the front of the map's words in memory.\<close>

definition PersistentBitmap_FetchFrom :: "OpenFile \<Rightarrow> Bitmap \<Rightarrow> disk \<Rightarrow> Bitmap result" where
  "PersistentBitmap_FetchFrom file b d =
     rbind (OpenFile_ReadAt (numWords b * 4) 0 file d) (\<lambda>bs.
     rbind (copy_to (word_bytes (bmap b)) 0 bs) (\<lambda>ws. Inr (b\<lparr>bmap := bytes_words ws\<rparr>)))"

definition PersistentBitmap_WriteBack :: "(int \<Rightarrow> byte) \<Rightarrow> OpenFile \<Rightarrow> Bitmap \<Rightarrow> disk \<Rightarrow> disk result" where
  "PersistentBitmap_WriteBack junk file b d =
     rbind (copy_from (word_bytes (bmap b)) 0 (numWords b * 4)) (\<lambda>bs.
     rbind (OpenFile_WriteAt junk bs 0 file d) (\<lambda>(n, d'). Inr d'))"

text \<open>The two constructors.\<close>

definition PersistentBitmap_new :: "int \<Rightarrow> Bitmap result" where
  "PersistentBitmap_new numItems = Bitmap_new numItems"

definition PersistentBitmap_load :: "OpenFile \<Rightarrow> int \<Rightarrow> disk \<Rightarrow> Bitmap result" where
  "PersistentBitmap_load file numItems d =
     rbind (Bitmap_new numItems) (\<lambda>b. PersistentBitmap_FetchFrom file b d)"

section \<open>Names\<close>

definition FileNameMaxLen :: nat where "FileNameMaxLen = 9"

text \<open>The C library's \<open>strncmp\<close> and \<open>strncpy\<close>.\<close>

primrec strncmp :: "nat \<Rightarrow> byte list \<Rightarrow> byte list \<Rightarrow> int" where
  "strncmp 0 s t = 0"
| "strncmp (Suc n) s t =
     (let a = (case s of [] \<Rightarrow> 0 | a # _ \<Rightarrow> a); b = (case t of [] \<Rightarrow> 0 | b # _ \<Rightarrow> b) in
      if a \<noteq> b then (if a < b then -1 else 1)
      else if a = 0 then 0
      else strncmp n (tl s) (tl t))"

definition strncpy :: "byte list \<Rightarrow> byte list \<Rightarrow> nat \<Rightarrow> byte list" where
  "strncpy dst src n = take n (takeWhile (\<lambda>c. c \<noteq> 0) src @ replicate n 0) @ drop n dst"

section \<open>Directories\<close>

record DirectoryEntry =
  inUse :: bool
  entry_pad1 :: "byte list"
  entry_sector :: int
  entry_name :: "byte list"
  entry_pad2 :: "byte list"

record Directory =
  tableSize :: int
  "table" :: "DirectoryEntry list"

definition entry_bytes :: "DirectoryEntry \<Rightarrow> byte list" where
  "entry_bytes e = (if inUse e then 1 else 0) # entry_pad1 e @ word_bytes [word_of_int (entry_sector e)] @
     entry_name e @ entry_pad2 e"

definition entry_of_bytes :: "byte list \<Rightarrow> DirectoryEntry" where
  "entry_of_bytes bs =
     \<lparr>inUse = (bs ! 0 \<noteq> 0), entry_pad1 = take 3 (drop 1 bs),
      entry_sector = sint (le_word (bs ! 4) (bs ! 5) (bs ! 6) (bs ! 7)),
      entry_name = take 10 (drop 8 bs), entry_pad2 = take 2 (drop 18 bs)\<rparr>"

definition table_bytes :: "DirectoryEntry list \<Rightarrow> byte list" where
  "table_bytes t = concat (map entry_bytes t)"

definition table_of_bytes :: "int \<Rightarrow> byte list \<Rightarrow> DirectoryEntry list" where
  "table_of_bytes n bs = map (\<lambda>i. entry_of_bytes (take 20 (drop (20 * i) bs))) [0..<nat n]"

text \<open>The constructor sets the flags only; \<open>fresh\<close> is the rest of the new entries.\<close>

definition Directory_new :: "(int \<Rightarrow> DirectoryEntry) \<Rightarrow> int \<Rightarrow> Directory" where
  "Directory_new fresh n = \<lparr>tableSize = n, table = map (\<lambda>i. (fresh i)\<lparr>inUse := False\<rparr>) [0..n - 1]\<rparr>"

definition Directory_FetchFrom :: "OpenFile \<Rightarrow> Directory \<Rightarrow> disk \<Rightarrow> Directory result" where
  "Directory_FetchFrom file dir d =
     rbind (OpenFile_ReadAt (tableSize dir * 20) 0 file d) (\<lambda>bs.
     rbind (copy_to (table_bytes (table dir)) 0 bs) (\<lambda>tb.
       Inr (dir\<lparr>table := table_of_bytes (tableSize dir) tb\<rparr>)))"

definition Directory_WriteBack :: "(int \<Rightarrow> byte) \<Rightarrow> OpenFile \<Rightarrow> Directory \<Rightarrow> disk \<Rightarrow> disk result" where
  "Directory_WriteBack junk file dir d =
     rbind (copy_from (table_bytes (table dir)) 0 (tableSize dir * 20)) (\<lambda>bs.
     rbind (OpenFile_WriteAt junk bs 0 file d) (\<lambda>(n, d'). Inr d'))"

text \<open>The search loop from index \<open>i\<close>, over the entries that are left.\<close>

primrec FindIndex_from :: "int \<Rightarrow> byte list \<Rightarrow> DirectoryEntry list \<Rightarrow> int" where
  "FindIndex_from i nm [] = -1"
| "FindIndex_from i nm (e # es) =
     (if inUse e \<and> strncmp FileNameMaxLen (entry_name e) nm = 0 then i else FindIndex_from (i + 1) nm es)"

definition FindIndex :: "byte list \<Rightarrow> Directory \<Rightarrow> int" where
  "FindIndex nm dir = FindIndex_from 0 nm (table dir)"

definition Directory_Find :: "byte list \<Rightarrow> Directory \<Rightarrow> int result" where
  "Directory_Find nm dir =
     (let i = FindIndex nm dir in
      if i \<noteq> -1 then rbind (arr_get (table dir) i) (\<lambda>e. Inr (entry_sector e)) else Inr (-1))"

primrec Add_from :: "byte list \<Rightarrow> int \<Rightarrow> DirectoryEntry list \<Rightarrow> bool \<times> DirectoryEntry list" where
  "Add_from nm newSector [] = (False, [])"
| "Add_from nm newSector (e # es) =
     (if \<not> inUse e then
        (True, e\<lparr>inUse := True, entry_name := strncpy (entry_name e) nm FileNameMaxLen, entry_sector := newSector\<rparr> # es)
      else let (ok, es') = Add_from nm newSector es in (ok, e # es'))"

definition Directory_Add :: "byte list \<Rightarrow> int \<Rightarrow> Directory \<Rightarrow> bool \<times> Directory" where
  "Directory_Add nm newSector dir =
     (if FindIndex nm dir \<noteq> -1 then (False, dir)
      else let (ok, t) = Add_from nm newSector (table dir) in (ok, dir\<lparr>table := t\<rparr>))"

definition Directory_Remove :: "byte list \<Rightarrow> Directory \<Rightarrow> (bool \<times> Directory) result" where
  "Directory_Remove nm dir =
     (let i = FindIndex nm dir in
      if i = -1 then Inr (False, dir)
      else rbind (arr_get (table dir) i) (\<lambda>e.
           rbind (arr_set (table dir) i (e\<lparr>inUse := False\<rparr>)) (\<lambda>t. Inr (True, dir\<lparr>table := t\<rparr>))))"

text \<open>
  What \<open>printf("%s\n")\<close> shows of a name: the bytes up to the first zero byte; without one in the
  ten bytes of the array it runs past its end.
\<close>

definition print_name :: "byte list \<Rightarrow> byte list result" where
  "print_name nm = (if 0 \<in> set nm then Inr (takeWhile (\<lambda>c. c \<noteq> 0) nm) else Inl WildAccess)"

definition Directory_List :: "Directory \<Rightarrow> byte list list result" where
  "Directory_List dir =
     rfold (\<lambda>e out. if inUse e then rbind (print_name (entry_name e)) (\<lambda>nm. Inr (out @ [nm])) else Inr out)
       (table dir) []"

section \<open>Names and their keys\<close>

text \<open>The part of a name that \<open>strncmp\<close> and \<open>strncpy\<close> look at: what identifies a file.\<close>

definition key :: "byte list \<Rightarrow> byte list" where
  "key nm = takeWhile (\<lambda>c. c \<noteq> 0) (take FileNameMaxLen nm)"

lemma takeWhile_take: "takeWhile P (take n xs) = take n (takeWhile P xs)"
proof (induction n arbitrary: xs)
  case (Suc n)
  then show ?case by (cases xs) auto
qed simp

lemma strncmp_0_iff:
  "strncmp n s t = 0 \<longleftrightarrow> takeWhile (\<lambda>c. c \<noteq> 0) (take n s) = takeWhile (\<lambda>c. c \<noteq> 0) (take n t)"
proof (induction n arbitrary: s t)
  case (Suc n)
  show ?case by (cases s; cases t) (auto simp: Let_def Suc)
qed simp

lemma strncmp_key: "strncmp FileNameMaxLen s t = 0 \<longleftrightarrow> key s = key t"
  by (simp add: strncmp_0_iff key_def)

lemma key_strncpy: "key (strncpy dst nm FileNameMaxLen) = key nm"
proof -
  let ?w = "takeWhile (\<lambda>c. c \<noteq> 0) nm"
  have "takeWhile (\<lambda>c. c \<noteq> 0) (?w @ replicate n 0) = ?w" for n
    by (simp add: takeWhile_append takeWhile_replicate)
  moreover have "take FileNameMaxLen (strncpy dst nm FileNameMaxLen) = take FileNameMaxLen (?w @ replicate FileNameMaxLen 0)"
    unfolding strncpy_def by (subst take_append) (simp del: take_append)
  ultimately show ?thesis unfolding key_def by (simp only: takeWhile_take)
qed

lemma length_strncpy: "n \<le> length dst \<Longrightarrow> length (strncpy dst nm n) = length dst"
  by (simp add: strncpy_def)

section \<open>Legal directories\<close>

definition entry_wf :: "DirectoryEntry \<Rightarrow> bool" where
  "entry_wf e \<longleftrightarrow> length (entry_pad1 e) = 3 \<and> length (entry_name e) = 10 \<and> length (entry_pad2 e) = 2 \<and>
     - (2 ^ 31) \<le> entry_sector e \<and> entry_sector e < 2 ^ 31"

definition used_names :: "DirectoryEntry list \<Rightarrow> (byte list \<times> int) list" where
  "used_names t = map (\<lambda>e. (key (entry_name e), entry_sector e)) (filter inUse t)"

definition Directory_wf :: "Directory \<Rightarrow> bool" where
  "Directory_wf dir \<longleftrightarrow> tableSize dir = int (length (table dir)) \<and> (\<forall>e \<in> set (table dir). entry_wf e) \<and>
     distinct (map fst (used_names (table dir)))"

text \<open>The abstract directory: a finite map from keys to the sectors of file headers.\<close>

definition entries :: "Directory \<Rightarrow> (byte list \<rightharpoonup> int)" where
  "entries dir = map_of (used_names (table dir))"

lemma used_names_append: "used_names (us @ vs) = used_names us @ used_names vs"
  by (simp add: used_names_def)

lemma used_names_Cons: "used_names (e # es) = (if inUse e then [(key (entry_name e), entry_sector e)] else []) @ used_names es"
  by (simp add: used_names_def)

lemma in_used_names: "k \<in> fst ` set (used_names t) \<longleftrightarrow> (\<exists>e \<in> set t. inUse e \<and> key (entry_name e) = k)"
  by (auto simp: used_names_def image_image)

lemma dom_entries: "dom (entries dir) = fst ` set (used_names (table dir))"
  by (simp add: entries_def dom_map_of_conv_image_fst)

lemma card_dom_entries: "Directory_wf dir \<Longrightarrow> card (dom (entries dir)) = length (filter inUse (table dir))"
  using distinct_card [of "map fst (used_names (table dir))"]
  by (simp add: Directory_wf_def dom_entries) (simp add: used_names_def)

lemma finite_dom_entries [simp]: "finite (dom (entries dir))"
  by (simp add: dom_entries)

section \<open>The search loops\<close>

lemma FindIndex_from_cases:
  "0 \<le> i \<Longrightarrow> (FindIndex_from i nm t = -1 \<and> key nm \<notin> fst ` set (used_names t)) \<or>
   (\<exists>us e vs. t = us @ e # vs \<and> FindIndex_from i nm t = i + int (length us) \<and> inUse e \<and> key (entry_name e) = key nm)"
proof (induction t arbitrary: i)
  case (Cons e t)
  show ?case
  proof (cases "inUse e \<and> key (entry_name e) = key nm")
    case True
    then show ?thesis by (intro disjI2 exI [of _ "[]"] exI [of _ e] exI [of _ t]) (simp add: strncmp_key)
  next
    case False
    then have s: "FindIndex_from i nm (e # t) = FindIndex_from (i + 1) nm t" by (auto simp: strncmp_key)
    from Cons.IH [of "i + 1"] Cons.prems consider
      "FindIndex_from (i + 1) nm t = -1" "key nm \<notin> fst ` set (used_names t)"
      | us e' vs where "t = us @ e' # vs" "FindIndex_from (i + 1) nm t = i + 1 + int (length us)" "inUse e'" "key (entry_name e') = key nm"
      by auto
    then show ?thesis
    proof cases
      case 1
      then show ?thesis using False s by (auto simp: used_names_Cons)
    next
      case 2
      then show ?thesis using s by (intro disjI2 exI [of _ "e # us"] exI [of _ e'] exI [of _ vs]) simp
    qed
  qed
qed (simp add: used_names_def)

lemma Add_from_cases:
  "(Add_from nm s t = (False, t) \<and> (\<forall>e \<in> set t. inUse e)) \<or>
   (\<exists>us e vs. t = us @ e # vs \<and> \<not> inUse e \<and> Add_from nm s t =
      (True, us @ e\<lparr>inUse := True, entry_name := strncpy (entry_name e) nm FileNameMaxLen, entry_sector := s\<rparr> # vs))"
proof (induction t)
  case (Cons e t)
  show ?case
  proof (cases "inUse e")
    case False
    then show ?thesis by (intro disjI2 exI [of _ "[]"] exI [of _ e] exI [of _ t]) simp
  next
    case True
    from Cons.IH show ?thesis
    proof (elim disjE exE conjE)
      fix us e' vs assume "t = us @ e' # vs" "\<not> inUse e'" "Add_from nm s t =
        (True, us @ e'\<lparr>inUse := True, entry_name := strncpy (entry_name e') nm FileNameMaxLen, entry_sector := s\<rparr> # vs)"
      then show ?thesis using True by (intro disjI2 exI [of _ "e # us"] exI [of _ e'] exI [of _ vs]) simp
    qed (use True in simp)
  qed
qed simp

section \<open>The interface of a name table\<close>

text \<open>
  What the file system relies on: a table of bounded capacity that maps the keys of names to
  sector numbers.
\<close>

locale name_table =
  fixes invar :: "'d \<Rightarrow> bool"
    and capacity :: "'d \<Rightarrow> int"
    and entries :: "'d \<Rightarrow> ('k \<rightharpoonup> int)"
    and key :: "'n \<Rightarrow> 'k"
    and find :: "'n \<Rightarrow> 'd \<Rightarrow> int result"
    and add :: "'n \<Rightarrow> int \<Rightarrow> 'd \<Rightarrow> bool \<times> 'd"
    and remove :: "'n \<Rightarrow> 'd \<Rightarrow> (bool \<times> 'd) result"
  assumes find_ok: "invar t \<Longrightarrow> find nm t = Inr (case entries t (key nm) of None \<Rightarrow> -1 | Some s \<Rightarrow> s)"
    and add_ok: "invar t \<Longrightarrow> 0 \<le> s \<Longrightarrow> s < 2 ^ 31 \<Longrightarrow> entries t (key nm) = None \<Longrightarrow>
      int (card (dom (entries t))) < capacity t \<Longrightarrow>
      \<exists>t'. add nm s t = (True, t') \<and> invar t' \<and> capacity t' = capacity t \<and> entries t' = (entries t)(key nm \<mapsto> s)"
    and add_fails: "invar t \<Longrightarrow> entries t (key nm) \<noteq> None \<or> capacity t \<le> int (card (dom (entries t))) \<Longrightarrow>
      add nm s t = (False, t)"
    and remove_ok: "invar t \<Longrightarrow> entries t (key nm) = Some s \<Longrightarrow>
      \<exists>t'. remove nm t = Inr (True, t') \<and> invar t' \<and> capacity t' = capacity t \<and> entries t' = (entries t)(key nm := None)"
    and remove_absent: "invar t \<Longrightarrow> entries t (key nm) = None \<Longrightarrow> remove nm t = Inr (False, t)"
begin

lemma find_after_add:
  assumes "invar t" and "0 \<le> s" and "s < 2 ^ 31" and "add nm s t = (True, t')"
  shows "find nm t' = Inr s" and "key nm' \<noteq> key nm \<Longrightarrow> find nm' t' = find nm' t" and "invar t'"
proof -
  have "\<not> (entries t (key nm) \<noteq> None \<or> capacity t \<le> int (card (dom (entries t))))"
  proof
    assume "entries t (key nm) \<noteq> None \<or> capacity t \<le> int (card (dom (entries t)))"
    from add_fails [OF assms(1) this, of s] show False using assms(4) by simp
  qed
  then have c: "entries t (key nm) = None" "int (card (dom (entries t))) < capacity t" by auto
  from add_ok [OF assms(1-3) c] show "find nm t' = Inr s" "invar t'"
    "key nm' \<noteq> key nm \<Longrightarrow> find nm' t' = find nm' t"
    using assms(1,4) by (auto simp: find_ok)
qed

lemma find_after_remove:
  assumes "invar t" and "remove nm t = Inr (b, t')"
  shows "find nm t' = Inr (-1)" and "key nm' \<noteq> key nm \<Longrightarrow> find nm' t' = find nm' t" and "invar t'"
proof -
  have "invar t' \<and> entries t' = (entries t)(key nm := None)"
    using remove_ok [OF assms(1), of nm] remove_absent [OF assms(1), of nm] assms
    by (cases "entries t (key nm)") (auto simp: fun_upd_idem)
  then show "find nm t' = Inr (-1)" "invar t'" "key nm' \<noteq> key nm \<Longrightarrow> find nm' t' = find nm' t"
    using assms(1) by (auto simp: find_ok)
qed

end

lemma FindIndex_cases:
  obtains (absent) "FindIndex nm dir = -1" "entries dir (key nm) = None"
  | (found) us e vs where "table dir = us @ e # vs" "FindIndex nm dir = int (length us)" "inUse e" "key (entry_name e) = key nm"
proof -
  from FindIndex_from_cases [of 0 nm "table dir"] consider
    "FindIndex nm dir = -1" "key nm \<notin> fst ` set (used_names (table dir))"
    | us e vs where "table dir = us @ e # vs" "FindIndex nm dir = int (length us)" "inUse e" "key (entry_name e) = key nm"
    unfolding FindIndex_def by auto
  then show thesis using that by cases (auto simp: entries_def map_of_eq_None_iff)
qed

lemma entries_split:
  assumes "Directory_wf dir" and "table dir = us @ e # vs" and "inUse e"
  shows "entries dir (key (entry_name e)) = Some (entry_sector e)"
    and "map_of (used_names (us @ vs)) = (entries dir)(key (entry_name e) := None)"
    and "key (entry_name e) \<notin> fst ` set (used_names us)" and "key (entry_name e) \<notin> fst ` set (used_names vs)"
proof -
  let ?k = "key (entry_name e)"
  show n: "?k \<notin> fst ` set (used_names us)" "?k \<notin> fst ` set (used_names vs)"
    using assms by (auto simp: Directory_wf_def used_names_append used_names_Cons)
  have nv: "map_of (used_names us) ?k = None" "map_of (used_names vs) ?k = None"
    using n by (simp_all add: map_of_eq_None_iff)
  show "entries dir ?k = Some (entry_sector e)"
    using nv assms(2,3) by (simp add: entries_def used_names_append used_names_Cons map_add_def)
  show "map_of (used_names (us @ vs)) = (entries dir)(?k := None)"
    using assms(2,3) nv by (auto simp: entries_def used_names_append used_names_Cons map_add_def fun_eq_iff split: option.splits)
qed

lemma Directory_Find_ok:
  assumes "Directory_wf dir"
  shows "Directory_Find nm dir = Inr (case entries dir (key nm) of None \<Rightarrow> -1 | Some s \<Rightarrow> s)"
proof (cases rule: FindIndex_cases [of nm dir])
  case absent
  then show ?thesis by (simp add: Directory_Find_def)
next
  case (found us e vs)
  then show ?thesis using entries_split(1) [OF assms found(1,3)] by (simp add: Directory_Find_def)
qed

lemma Directory_Add_ok:
  assumes wf: "Directory_wf dir" and s: "0 \<le> s" "s < 2 ^ 31" and new: "entries dir (key nm) = None"
    and room: "int (card (dom (entries dir))) < tableSize dir"
  shows "\<exists>dir'. Directory_Add nm s dir = (True, dir') \<and> Directory_wf dir' \<and> tableSize dir' = tableSize dir \<and>
    entries dir' = (entries dir)(key nm \<mapsto> s)"
proof -
  have i: "FindIndex nm dir = -1"
    by (cases rule: FindIndex_cases [of nm dir]) (use new entries_split(1) [OF wf] in fastforce)+
  have "\<not> (\<forall>e \<in> set (table dir). inUse e)"
  proof
    assume "\<forall>e \<in> set (table dir). inUse e"
    then have "filter inUse (table dir) = table dir" by (rule filter_True)
    then show False using room wf card_dom_entries [OF wf] by (simp add: Directory_wf_def)
  qed
  then obtain us e vs where t: "table dir = us @ e # vs" "\<not> inUse e" "Add_from nm s (table dir) =
      (True, us @ e\<lparr>inUse := True, entry_name := strncpy (entry_name e) nm FileNameMaxLen, entry_sector := s\<rparr> # vs)"
    using Add_from_cases [of nm s "table dir"] by blast
  let ?e = "e\<lparr>inUse := True, entry_name := strncpy (entry_name e) nm FileNameMaxLen, entry_sector := s\<rparr>"
  let ?dir = "dir\<lparr>table := us @ ?e # vs\<rparr>"
  have "Directory_Add nm s dir = (True, ?dir)" using i t(3) by (simp add: Directory_Add_def)
  moreover have k: "key (entry_name ?e) = key nm" by (simp add: key_strncpy)
  have n: "key nm \<notin> fst ` set (used_names (us @ vs))"
    using new t(1,2) by (auto simp: entries_def map_of_eq_None_iff used_names_append used_names_Cons)
  have "entry_wf ?e" using wf t(1) s by (auto simp: Directory_wf_def entry_wf_def length_strncpy FileNameMaxLen_def)
  then have "Directory_wf ?dir"
    using wf t(1,2) n k by (auto simp: Directory_wf_def used_names_append used_names_Cons)
  moreover have "entries ?dir = (entries dir)(key nm \<mapsto> s)"
  proof -
    have "map_of (used_names us) (key nm) = None"
      using n by (auto simp: map_of_eq_None_iff used_names_append)
    then show ?thesis
      using t(1,2) k by (simp add: entries_def used_names_append used_names_Cons fun_eq_iff map_add_def split: option.splits)
  qed
  ultimately show ?thesis by auto
qed

lemma Directory_Add_fails:
  assumes wf: "Directory_wf dir" and no: "entries dir (key nm) \<noteq> None \<or> tableSize dir \<le> int (card (dom (entries dir)))"
  shows "Directory_Add nm s dir = (False, dir)"
proof (cases rule: FindIndex_cases [of nm dir])
  case absent
  then have "length (table dir) \<le> length (filter inUse (table dir))"
    using no wf card_dom_entries [OF wf] by (simp add: Directory_wf_def)
  then have "\<forall>e \<in> set (table dir). inUse e"
    by (metis filter_id_conv length_filter_le le_antisym length_filter_less linorder_not_less)
  then show ?thesis using absent Add_from_cases [of nm s "table dir"] by (auto simp: Directory_Add_def)
next
  case found
  then show ?thesis by (simp add: Directory_Add_def)
qed

lemma Directory_Remove_ok:
  assumes wf: "Directory_wf dir" and "entries dir (key nm) = Some s"
  shows "\<exists>dir'. Directory_Remove nm dir = Inr (True, dir') \<and> Directory_wf dir' \<and> tableSize dir' = tableSize dir \<and>
    entries dir' = (entries dir)(key nm := None)"
proof (cases rule: FindIndex_cases [of nm dir])
  case absent
  then show ?thesis using assms(2) by simp
next
  case (found us e vs)
  let ?dir = "dir\<lparr>table := us @ e\<lparr>inUse := False\<rparr> # vs\<rparr>"
  have "Directory_Remove nm dir = Inr (True, ?dir)" using found by (simp add: Directory_Remove_def)
  moreover have "Directory_wf ?dir"
    using wf found by (auto simp: Directory_wf_def used_names_append used_names_Cons entry_wf_def)
  moreover have "entries ?dir = (entries dir)(key nm := None)"
    using entries_split(2) [OF wf found(1,3)] found(4) by (simp add: entries_def used_names_append used_names_Cons)
  ultimately show ?thesis by auto
qed

lemma Directory_Remove_absent:
  assumes "Directory_wf dir" and "entries dir (key nm) = None"
  shows "Directory_Remove nm dir = Inr (False, dir)"
  by (cases rule: FindIndex_cases [of nm dir])
    (use assms entries_split(1) [OF assms(1)] in \<open>fastforce simp: Directory_Remove_def\<close>)+

interpretation dt: name_table Directory_wf tableSize entries key Directory_Find Directory_Add Directory_Remove
  by unfold_locales
    (simp_all add: Directory_Find_ok Directory_Add_ok Directory_Add_fails Directory_Remove_ok Directory_Remove_absent)

section \<open>Directories and bitmaps in files\<close>

lemma length_entry_bytes: "entry_wf e \<Longrightarrow> length (entry_bytes e) = 20"
  by (simp add: entry_wf_def entry_bytes_def)

lemma entry_roundtrip: "entry_wf e \<Longrightarrow> entry_of_bytes (entry_bytes e) = e"
proof -
  assume e: "entry_wf e"
  let ?w = "word_of_int (entry_sector e) :: i32"
  obtain p0 p1 p2 where p: "entry_pad1 e = [p0, p1, p2]"
    using e by (auto simp: entry_wf_def length_Suc_conv numeral_eq_Suc)
  have b: "entry_bytes e = [if inUse e then 1 else 0, p0, p1, p2, byte_of 0 ?w, byte_of 1 ?w, byte_of 2 ?w, byte_of 3 ?w] @ entry_name e @ entry_pad2 e"
    by (simp add: entry_bytes_def p)
  have "sint ?w = entry_sector e" using e by (simp add: entry_wf_def sint_word_of_int32)
  then have w: "sint (le_word (byte_of 0 ?w) (byte_of 1 ?w) (byte_of 2 ?w) (byte_of 3 ?w)) = entry_sector e"
    by (simp only: le_word_byte_of)
  show ?thesis using e w unfolding entry_of_bytes_def b
    by (simp add: entry_wf_def p nth_append)
qed

lemma entry_of_bytes_wf: "length bs = 20 \<Longrightarrow> entry_wf (entry_of_bytes bs)"
  using sint_range_size [of "le_word (bs ! 4) (bs ! 5) (bs ! 6) (bs ! 7)"]
  by (simp add: entry_wf_def entry_of_bytes_def word_size)

lemma length_table_bytes: "\<forall>e \<in> set t. entry_wf e \<Longrightarrow> length (table_bytes t) = 20 * length t"
  by (induction t) (auto simp: table_bytes_def length_entry_bytes)

lemma nth_table_bytes:
  "\<forall>e \<in> set t. entry_wf e \<Longrightarrow> i < length t \<Longrightarrow> take 20 (drop (20 * i) (table_bytes t)) = entry_bytes (t ! i)"
proof (induction t arbitrary: i)
  case (Cons e t)
  then have l: "length (entry_bytes e) = 20" by (simp add: length_entry_bytes)
  show ?case
  proof (cases i)
    case 0
    then show ?thesis using l by (simp add: table_bytes_def)
  next
    case (Suc j)
    then show ?thesis using Cons.IH [of j] Cons.prems l by (simp add: table_bytes_def)
  qed
qed simp

lemma table_roundtrip: "\<forall>e \<in> set t. entry_wf e \<Longrightarrow> table_of_bytes (int (length t)) (table_bytes t) = t"
  by (rule nth_equalityI) (simp_all add: table_of_bytes_def nth_table_bytes entry_roundtrip)

lemma table_of_bytes_wf: "20 * n \<le> length bs \<Longrightarrow> e \<in> set (table_of_bytes (int n) bs) \<Longrightarrow> entry_wf e"
  by (auto simp: table_of_bytes_def intro!: entry_of_bytes_wf)

lemma copy_to_all: "length bs = length buf \<Longrightarrow> copy_to buf 0 bs = Inr bs"
  by (simp add: copy_to_def)

lemma ReadAt_all:
  assumes "header_ok (hdr f)" and "disk_ok d"
  shows "OpenFile_ReadAt (numBytes (hdr f)) 0 f d = Inr (contents (hdr f) d)"
  using ReadAt_eq [OF assms, of 0 "numBytes (hdr f)"] length_contents [OF assms] by simp

lemma WriteAt_all:
  assumes "header_ok (hdr f)" and "disk_ok d" and "int (length bs) = numBytes (hdr f)"
  shows "\<exists>d'. OpenFile_WriteAt junk bs 0 f d = Inr (numBytes (hdr f), d') \<and> disk_ok d' \<and> contents (hdr f) d' = bs \<and>
    (\<forall>s. 0 \<le> s \<and> s \<notin> set (data (hdr f)) \<longrightarrow> d' ! nat s = d ! nat s)"
proof -
  have "length (contents (hdr f) d) = length bs" using length_contents [OF assms(1,2)] assms(3) by simp
  then show ?thesis using WriteAt_ok [OF assms(1,2), of 0 junk bs] assms(3) by (simp add: overwrite_def)
qed

lemma contents_cong: "(\<And>s. s \<in> set (data h) \<Longrightarrow> d' ! nat s = d ! nat s) \<Longrightarrow> contents h d' = contents h d"
  unfolding contents_def raw_def by (metis (no_types, lifting) map_eq_conv)

text \<open>A directory file and a bitmap file have exactly the size of what is stored in them.\<close>

lemma Directory_FetchFrom_ok:
  assumes f: "header_ok (hdr f)" "disk_ok d" "numBytes (hdr f) = tableSize dir * 20"
    and dir: "tableSize dir = int (length (table dir))" "\<forall>e \<in> set (table dir). entry_wf e"
  shows "Directory_FetchFrom f dir d = Inr (dir\<lparr>table := table_of_bytes (tableSize dir) (contents (hdr f) d)\<rparr>)"
proof -
  have "length (contents (hdr f) d) = length (table_bytes (table dir))"
    using length_contents [OF f(1,2)] f(3) dir by (simp add: length_table_bytes)
  then show ?thesis using ReadAt_all [OF f(1,2)] f(3) by (simp add: Directory_FetchFrom_def copy_to_all)
qed

lemma Directory_WriteBack_ok:
  assumes f: "header_ok (hdr f)" "disk_ok d" "numBytes (hdr f) = tableSize dir * 20" and dir: "Directory_wf dir"
  shows "\<exists>d'. Directory_WriteBack junk f dir d = Inr d' \<and> disk_ok d' \<and> contents (hdr f) d' = table_bytes (table dir) \<and>
    (\<forall>s. 0 \<le> s \<and> s \<notin> set (data (hdr f)) \<longrightarrow> d' ! nat s = d ! nat s)"
proof -
  have l: "int (length (table_bytes (table dir))) = numBytes (hdr f)"
    using dir f(3) by (simp add: Directory_wf_def length_table_bytes)
  then have "copy_from (table_bytes (table dir)) 0 (tableSize dir * 20) = Inr (table_bytes (table dir))"
    using f(3) dir by (simp add: copy_from_def Directory_wf_def)
  then show ?thesis using WriteAt_all [OF f(1,2) l, of junk] by (auto simp: Directory_WriteBack_def)
qed

lemma PersistentBitmap_load_ok:
  assumes f: "header_ok (hdr f)" "disk_ok d" "numBytes (hdr f) * 8 = n" "0 < n" "32 dvd n"
  shows "\<exists>b. PersistentBitmap_load f n d = Inr b \<and> Bitmap_wf b \<and> numBits b = n \<and> bmap b = bytes_words (contents (hdr f) d)"
proof -
  obtain b where b: "Bitmap_new n = Inr b" "Bitmap_wf b" "numBits b = n" using Bitmap_new_ok [OF f(4)] by auto
  obtain k where k: "n = 32 * k" using f(5) by blast
  then have w: "numWords b = k" using b f(4) by (simp add: Bitmap_wf_def divRoundUp_nonneg)
  then have w4: "numWords b * 4 = numBytes (hdr f)" "int (length (bmap b)) = k" using k f(3) b(2) by (auto simp: Bitmap_wf_def)
  have l: "length (contents (hdr f) d) = length (word_bytes (bmap b))"
    using length_contents [OF f(1,2)] w4 w by simp
  then have "length (bytes_words (contents (hdr f) d)) = length (bmap b)" by (simp add: length_bytes_words)
  then have "Bitmap_wf (b\<lparr>bmap := bytes_words (contents (hdr f) d)\<rparr>)" using b(2) by (simp add: Bitmap_wf_def)
  then show ?thesis using b(1,3) w4 l ReadAt_all [OF f(1,2)]
    by (simp add: PersistentBitmap_load_def PersistentBitmap_FetchFrom_def copy_to_all)
qed

lemma PersistentBitmap_WriteBack_ok:
  assumes f: "header_ok (hdr f)" "disk_ok d" "numBytes (hdr f) * 8 = numBits b" and b: "Bitmap_wf b" "32 dvd numBits b"
  shows "\<exists>d'. PersistentBitmap_WriteBack junk f b d = Inr d' \<and> disk_ok d' \<and> contents (hdr f) d' = word_bytes (bmap b) \<and>
    (\<forall>s. 0 \<le> s \<and> s \<notin> set (data (hdr f)) \<longrightarrow> d' ! nat s = d ! nat s)"
proof -
  obtain k where k: "numBits b = 32 * k" using b(2) by blast
  then have w: "numWords b * 4 = numBytes (hdr f)" "numWords b = int (length (bmap b))"
    using b f(3) by (auto simp: Bitmap_wf_def divRoundUp_nonneg)
  then have l: "int (length (word_bytes (bmap b))) = numBytes (hdr f)" by simp
  then have "copy_from (word_bytes (bmap b)) 0 (numWords b * 4) = Inr (word_bytes (bmap b))"
    using w by (simp add: copy_from_def)
  then show ?thesis using WriteAt_all [OF f(1,2) l, of junk] by (auto simp: PersistentBitmap_WriteBack_def)
qed

section \<open>New directories\<close>

lemma Directory_new_wf:
  assumes "0 \<le> n" and "\<forall>i. entry_wf (fresh i)"
  shows "Directory_wf (Directory_new fresh n)" and "tableSize (Directory_new fresh n) = n" and "entries (Directory_new fresh n) = Map.empty"
proof -
  have "filter inUse (table (Directory_new fresh n)) = []" by (simp add: Directory_new_def filter_empty_conv)
  then have e: "used_names (table (Directory_new fresh n)) = []" by (simp add: used_names_def)
  then show "entries (Directory_new fresh n) = Map.empty" by (simp add: entries_def)
  show "tableSize (Directory_new fresh n) = n" by (simp add: Directory_new_def)
  show "Directory_wf (Directory_new fresh n)" using assms e
    by (auto simp: Directory_wf_def Directory_new_def entry_wf_def)
qed

section \<open>Properties\<close>

text \<open>
  C31: a directory is a finite map from names, of which the first nine characters count, to
  sectors. \<open>Find\<close> looks a name up, giving -1 for an absent one; \<open>Add\<close> adds exactly one entry
  when the name is new and an entry is free, and otherwise fails and changes nothing; \<open>Remove\<close>
  removes exactly the entry of the name, and reports an absent name.
\<close>

theorem Directory_refines_map:
  assumes "Directory_wf dir" and "0 \<le> s" and "s < 2 ^ 31"
  shows "Directory_Find nm dir = Inr (case entries dir (key nm) of None \<Rightarrow> -1 | Some s \<Rightarrow> s) \<and>
    (if entries dir (key nm) = None \<and> int (card (dom (entries dir))) < tableSize dir
     then \<exists>dir'. Directory_Add nm s dir = (True, dir') \<and> Directory_wf dir' \<and> entries dir' = (entries dir)(key nm \<mapsto> s) \<and>
       Directory_Find nm dir' = Inr s
     else Directory_Add nm s dir = (False, dir)) \<and>
    (\<exists>dir'. Directory_Remove nm dir = Inr (entries dir (key nm) \<noteq> None, dir') \<and> Directory_wf dir' \<and>
       entries dir' = (entries dir)(key nm := None) \<and> Directory_Find nm dir' = Inr (-1))"
proof (intro conjI)
  show "Directory_Find nm dir = Inr (case entries dir (key nm) of None \<Rightarrow> -1 | Some s \<Rightarrow> s)"
    by (rule dt.find_ok [OF assms(1)])
  show "if entries dir (key nm) = None \<and> int (card (dom (entries dir))) < tableSize dir
     then \<exists>dir'. Directory_Add nm s dir = (True, dir') \<and> Directory_wf dir' \<and> entries dir' = (entries dir)(key nm \<mapsto> s) \<and>
       Directory_Find nm dir' = Inr s
     else Directory_Add nm s dir = (False, dir)"
    using dt.add_ok [OF assms, of nm] dt.add_fails [OF assms(1), of nm s] dt.find_after_add(1) [OF assms] by auto
  show "\<exists>dir'. Directory_Remove nm dir = Inr (entries dir (key nm) \<noteq> None, dir') \<and> Directory_wf dir' \<and>
       entries dir' = (entries dir)(key nm := None) \<and> Directory_Find nm dir' = Inr (-1)"
  proof (cases "entries dir (key nm)")
    case None
    then show ?thesis using dt.remove_absent [OF assms(1)] dt.find_ok [OF assms(1)] assms(1) by (simp add: fun_upd_idem)
  next
    case (Some t)
    from dt.remove_ok [OF assms(1) Some] show ?thesis using dt.find_after_remove(1) [OF assms(1)] Some by auto
  qed
qed

definition blank_entry :: "byte \<Rightarrow> DirectoryEntry" where
  "blank_entry c = \<lparr>inUse = True, entry_pad1 = [c, c, c], entry_sector = 5, entry_name = replicate 10 c, entry_pad2 = [c, c]\<rparr>"

lemma blank_entry_wf: "entry_wf (blank_entry c)"
  by (simp add: blank_entry_def entry_wf_def)

theorem Directory_refines_map_witness:
  "\<exists>dir'. Directory_Add [115, 104] 7 (Directory_new (\<lambda>_. blank_entry 77) 10) = (True, dir') \<and>
     Directory_Find [115, 104] dir' = Inr 7"
  using Directory_refines_map [of "Directory_new (\<lambda>_. blank_entry 77) 10" 7 "[115, 104]"]
    Directory_new_wf [of 10 "\<lambda>_. blank_entry 77"] blank_entry_wf by auto

text \<open>
  C35: a directory written to its file is fetched back exactly, whatever the memory of the
  directory object that fetches it held, and writing it changes no sector of another file. The
  same holds of a bitmap.
\<close>

theorem Directory_and_bitmap_persist:
  assumes "header_ok (hdr f)" and "disk_ok d" and "header_ok (hdr g)" and "set (data (hdr g)) \<inter> set (data (hdr f)) = {}"
    and "Directory_wf dir" and "numBytes (hdr f) = tableSize dir * 20" and "\<forall>i. entry_wf (fresh i)"
    and "Bitmap_wf b" and "numBytes (hdr g) * 8 = numBits b" and "32 dvd numBits b"
  shows "\<exists>d1 d2. Directory_WriteBack junk f dir d = Inr d1 \<and> PersistentBitmap_WriteBack junk g b d1 = Inr d2 \<and>
    Directory_FetchFrom f (Directory_new fresh (tableSize dir)) d2 = Inr dir \<and>
    PersistentBitmap_load g (numBits b) d2 = Inr b \<and>
    (\<forall>s. 0 \<le> s \<and> s \<notin> set (data (hdr f)) \<union> set (data (hdr g)) \<longrightarrow> d2 ! nat s = d ! nat s)"
proof -
  obtain d1 where d1: "Directory_WriteBack junk f dir d = Inr d1" "disk_ok d1" "contents (hdr f) d1 = table_bytes (table dir)"
    "\<forall>s. 0 \<le> s \<and> s \<notin> set (data (hdr f)) \<longrightarrow> d1 ! nat s = d ! nat s"
    using Directory_WriteBack_ok [OF assms(1,2,6,5)] by blast
  obtain d2 where d2: "PersistentBitmap_WriteBack junk g b d1 = Inr d2" "disk_ok d2" "contents (hdr g) d2 = word_bytes (bmap b)"
    "\<forall>s. 0 \<le> s \<and> s \<notin> set (data (hdr g)) \<longrightarrow> d2 ! nat s = d1 ! nat s"
    using PersistentBitmap_WriteBack_ok [OF assms(3) d1(2) assms(9,8,10)] by blast
  have "contents (hdr f) d2 = contents (hdr f) d1"
  proof (rule contents_cong)
    fix s assume "s \<in> set (data (hdr f))"
    then have "0 \<le> s" "s \<notin> set (data (hdr g))" using assms(4) header_okD(7) [OF assms(1)] by (meson atLeastLessThan_iff subsetD, blast)
    then show "d2 ! nat s = d1 ! nat s" using d2(4) by blast
  qed
  then have c: "contents (hdr f) d2 = table_bytes (table dir)" using d1(3) by simp
  have n: "0 \<le> tableSize dir" "0 < numBits b" using assms(5,8) by (auto simp: Directory_wf_def Bitmap_wf_def)
  let ?n = "Directory_new fresh (tableSize dir)"
  have wf: "Directory_wf ?n" "tableSize ?n = tableSize dir" using Directory_new_wf [OF n(1) assms(7)] by auto
  then have "Directory_FetchFrom f ?n d2 = Inr (?n\<lparr>table := table_of_bytes (tableSize dir) (table_bytes (table dir))\<rparr>)"
    using Directory_FetchFrom_ok [OF assms(1) d2(2), of ?n] assms(6) c by (simp add: Directory_wf_def)
  moreover have "table_of_bytes (tableSize dir) (table_bytes (table dir)) = table dir"
    using assms(5) table_roundtrip [of "table dir"] by (simp add: Directory_wf_def)
  moreover obtain b' where b': "PersistentBitmap_load g (numBits b) d2 = Inr b'" "Bitmap_wf b'" "numBits b' = numBits b" "bmap b' = bmap b"
    using PersistentBitmap_load_ok [OF assms(3) d2(2) assms(9) n(2) assms(10)] d2(3) by auto
  moreover have "numWords b' = numWords b" using b'(2,3) assms(8) unfolding Bitmap_wf_def by (elim conjE) (simp only: )
  then have "b' = b" using b'(3,4) by (intro Bitmap.equality) simp_all
  moreover have "?n\<lparr>table := table dir\<rparr> = dir" by (simp add: Directory_new_def)
  ultimately show ?thesis using d1 d2 by auto
qed

definition one_sector_file :: OpenFile where
  "one_sector_file = \<lparr>hdr = \<lparr>numBytes = 128, numSectors = 1, dataSectors = [5] @ replicate 29 0\<rparr>,
     seekPosition = 0, type = 0\<rparr>"

theorem Directory_and_bitmap_persist_witness:
  "\<exists>b d1 d2. Bitmap_new 1024 = Inr b \<and>
     Directory_WriteBack (\<lambda>_. 3) two_sector_file (Directory_new (\<lambda>_. blank_entry 77) 10) blank_disk = Inr d1 \<and>
     PersistentBitmap_WriteBack (\<lambda>_. 3) one_sector_file b d1 = Inr d2 \<and>
     Directory_FetchFrom two_sector_file (Directory_new (\<lambda>_. blank_entry 12) 10) d2 =
       Inr (Directory_new (\<lambda>_. blank_entry 77) 10) \<and>
     PersistentBitmap_load one_sector_file 1024 d2 = Inr b"
proof -
  let ?d = "Directory_new (\<lambda>_. blank_entry 77) 10"
  obtain b where b: "Bitmap_new 1024 = Inr b" "Bitmap_wf b" "numBits b = 1024" using Bitmap_new_ok [of 1024] by auto
  have d: "Directory_wf ?d" "tableSize ?d = 10" using Directory_new_wf [of 10 "\<lambda>_. blank_entry 77"] blank_entry_wf by auto
  have "header_ok (hdr one_sector_file)" "set (data (hdr one_sector_file)) \<inter> set (data (hdr two_sector_file)) = {}"
    "numBytes (hdr two_sector_file) = 200" "numBytes (hdr one_sector_file) = 128"
    by (simp_all add: one_sector_file_def two_sector_file_def header_ok_def NumDirect_def data_def divRoundUp_128)
  note f = this
  from Directory_and_bitmap_persist [OF two_sector_file_ok blank_disk_ok f(1,2) d(1) _ _ b(2), of "\<lambda>_. blank_entry 12" "\<lambda>_. 3"]
  show ?thesis using f(3,4) b d(2) blank_entry_wf by auto
qed

text \<open>
  \<open>List\<close> prints the names of the files when every stored name is terminated; but \<open>Add\<close> copies
  nine characters and never sets the tenth byte of the array, so that for a name of nine
  characters or more \<open>List\<close> runs past the array when that byte was not zero before.
\<close>

theorem Directory_List_unterminated:
  assumes "Directory_wf dir" and "table dir = us @ e # vs" and "\<not> inUse e" and "\<forall>u \<in> set us. inUse u \<and> 0 \<in> set (entry_name u)"
    and "entry_name e ! 9 \<noteq> 0" and "9 \<le> length (key nm)" and "entries dir (key nm) = None"
  shows "\<exists>dir'. Directory_Add nm s dir = (True, dir') \<and> Directory_List dir' = Inl WildAccess"
proof -
  let ?e = "e\<lparr>inUse := True, entry_name := strncpy (entry_name e) nm FileNameMaxLen, entry_sector := s\<rparr>"
  have a: "Add_from nm s (us @ e # vs) = (True, us @ ?e # vs)" if "\<forall>u \<in> set us. inUse u" for us
    using that assms(3) by (induction us) auto
  have "FindIndex nm dir = -1"
    by (cases rule: FindIndex_cases [of nm dir]) (use assms(1,7) entries_split(1) [OF assms(1)] in fastforce)+
  then have add: "Directory_Add nm s dir = (True, dir\<lparr>table := us @ ?e # vs\<rparr>)"
    using assms(2,4) a [of us] by (simp add: Directory_Add_def)
  have e10: "length (entry_name e) = 10" using assms(1,2) by (simp add: Directory_wf_def entry_wf_def)
  have l9: "9 \<le> length (takeWhile (\<lambda>c. c \<noteq> 0) nm)"
    using assms(6) by (simp add: key_def takeWhile_take FileNameMaxLen_def)
  then have "set (take 9 (takeWhile (\<lambda>c. c \<noteq> 0) nm)) \<subseteq> {c. c \<noteq> 0}"
    by (auto dest: in_set_takeD set_takeWhileD)
  moreover have "drop 9 (entry_name e) = [entry_name e ! 9]"
    using e10 by (simp add: Cons_nth_drop_Suc [symmetric])
  ultimately have "0 \<notin> set (strncpy (entry_name e) nm FileNameMaxLen)"
    using l9 assms(5) by (auto simp: strncpy_def FileNameMaxLen_def)
  moreover have "\<exists>out'. rfold (\<lambda>e out. if inUse e then rbind (print_name (entry_name e)) (\<lambda>nm. Inr (out @ [nm])) else Inr out) us out = Inr out'"
    if "\<forall>u \<in> set us. inUse u \<and> 0 \<in> set (entry_name u)" for out us
    using that by (induction us arbitrary: out) (auto simp: print_name_def)
  then obtain out where "rfold (\<lambda>e out. if inUse e then rbind (print_name (entry_name e)) (\<lambda>nm. Inr (out @ [nm])) else Inr out) us [] = Inr out"
    using assms(4) by blast
  ultimately have "Directory_List (dir\<lparr>table := us @ ?e # vs\<rparr>) = Inl WildAccess"
    by (simp add: Directory_List_def rfold_append print_name_def)
  then show ?thesis using add by blast
qed

theorem Directory_List_unterminated_witness:
  "\<exists>dir'. Directory_Add (replicate 9 65) 7 (Directory_new (\<lambda>_. blank_entry 77) 10) = (True, dir') \<and>
     Directory_List dir' = Inl WildAccess"
proof -
  let ?d = "Directory_new (\<lambda>_. blank_entry 77) 10" and ?e = "(blank_entry 77)\<lparr>inUse := False\<rparr>"
  have t: "table ?d = [] @ ?e # replicate 9 ?e"
    by (simp add: Directory_new_def upto_rec1 numeral_eq_Suc)
  show ?thesis
    by (rule Directory_List_unterminated [OF _ t])
      (use Directory_new_wf [of 10 "\<lambda>_. blank_entry 77"] blank_entry_wf in
        \<open>auto simp: blank_entry_def key_def FileNameMaxLen_def takeWhile_replicate\<close>)
qed

end
