(* ===== verification/Filesys_System.thy ===== *)
theory Filesys_System
  imports Filesys_Dir
begin

text \<open>
  \<open>filesys/filesys.h\<close> and \<open>filesys/filesys.cc\<close>: the file system on the simulated disk, with its
  table of open files. Every operation reads the directory and the map of free sectors from
  their files into new objects, works on them in memory and writes them back; the uninitialised
  parts of those objects are the argument \<open>g\<close>.
\<close>

section \<open>State\<close>

definition FreeMapSector :: int where "FreeMapSector = 0"
definition DirectorySector :: int where "DirectorySector = 1"
definition FreeMapFileSize :: int where "FreeMapFileSize = 128"
definition NumDirEntries :: int where "NumDirEntries = 10"
definition DirectoryFileSize :: int where "DirectoryFileSize = 20 * NumDirEntries"
definition MAX_FILE_OPEN :: int where "MAX_FILE_OPEN = 15"

text \<open>Uninitialised memory: of a byte buffer, of a file header, of directory entries, of a type.\<close>

record garbage =
  buf_junk :: "int \<Rightarrow> byte"
  hdr_junk :: FileHeader
  dir_junk :: "int \<Rightarrow> DirectoryEntry"
  type_junk :: int

text \<open>
  The table \<open>openf\<close> holds pointers, and two of its slots may hold the same one: it is a list of
  optional positions in the list \<open>files\<close> of the open file objects.
\<close>

record FileSystem =
  freeMapFile :: OpenFile
  directoryFile :: OpenFile
  files :: "OpenFile list"
  openf :: "nat option list"
  findex :: int

section \<open>Operations\<close>

definition fetch_directory :: "garbage \<Rightarrow> FileSystem \<Rightarrow> disk \<Rightarrow> Directory result" where
  "fetch_directory g fs d = Directory_FetchFrom (directoryFile fs) (Directory_new (dir_junk g) NumDirEntries) d"

definition FileSystem_Create :: "garbage \<Rightarrow> byte list \<Rightarrow> int \<Rightarrow> FileSystem \<Rightarrow> disk \<Rightarrow> (bool \<times> disk) result" where
  "FileSystem_Create g nm initialSize fs d =
     rbind (fetch_directory g fs d) (\<lambda>directory.
     rbind (Directory_Find nm directory) (\<lambda>found.
     if found \<noteq> -1 then Inr (False, d)
     else
       rbind (PersistentBitmap_load (freeMapFile fs) NumSectors d) (\<lambda>freeMap.
       rbind (Bitmap_FindAndSet freeMap) (\<lambda>(sector, freeMap1).
       if sector = -1 then Inr (False, d)
       else
         let (added, directory1) = Directory_Add nm sector directory in
         if \<not> added then Inr (False, d)
         else
           rbind (FileHeader_Allocate initialSize (hdr_junk g) freeMap1) (\<lambda>(allocated, h, freeMap2).
           if \<not> allocated then Inr (False, d)
           else
             rbind (FileHeader_WriteBack sector h d) (\<lambda>d1.
             rbind (Directory_WriteBack (buf_junk g) (directoryFile fs) directory1 d1) (\<lambda>d2.
             rbind (PersistentBitmap_WriteBack (buf_junk g) (freeMapFile fs) freeMap2 d2) (\<lambda>d3.
             Inr (True, d3)))))))))"

definition FileSystem_Open :: "garbage \<Rightarrow> byte list \<Rightarrow> FileSystem \<Rightarrow> disk \<Rightarrow> OpenFile option result" where
  "FileSystem_Open g nm fs d =
     rbind (fetch_directory g fs d) (\<lambda>directory.
     rbind (Directory_Find nm directory) (\<lambda>sector.
     if sector \<ge> 0 then rbind (OpenFile_new sector (type_junk g) d) (\<lambda>f. Inr (Some f))
     else Inr None))"

primrec FindFreeSlot_from :: "int \<Rightarrow> nat option list \<Rightarrow> int" where
  "FindFreeSlot_from i [] = -1"
| "FindFreeSlot_from i (p # ps) = (if p = None then i else FindFreeSlot_from (i + 1) ps)"

definition FindFreeSlot :: "FileSystem \<Rightarrow> int" where
  "FindFreeSlot fs = FindFreeSlot_from 2 (drop 2 (openf fs))"

definition FileSystem_Open_type ::
  "garbage \<Rightarrow> byte list \<Rightarrow> int \<Rightarrow> FileSystem \<Rightarrow> disk \<Rightarrow> (nat option \<times> FileSystem) result" where
  "FileSystem_Open_type g nm ty fs d =
     (let freeSlot = FindFreeSlot fs in
      rbind (fetch_directory g fs d) (\<lambda>directory.
      rbind (Directory_Find nm directory) (\<lambda>sector.
      rbind (if sector \<ge> 0 then
               rbind (OpenFile_new sector ty d) (\<lambda>f.
               rbind (arr_set (openf fs) freeSlot (Some (length (files fs)))) (\<lambda>slots.
               Inr (fs\<lparr>files := files fs @ [f], openf := slots\<rparr>)))
             else Inr fs) (\<lambda>fs'.
      rbind (arr_get (openf fs') freeSlot) (\<lambda>p. Inr (p, fs'))))))"

definition FileSystem_Remove :: "garbage \<Rightarrow> byte list \<Rightarrow> FileSystem \<Rightarrow> disk \<Rightarrow> (bool \<times> disk) result" where
  "FileSystem_Remove g nm fs d =
     rbind (fetch_directory g fs d) (\<lambda>directory.
     rbind (Directory_Find nm directory) (\<lambda>sector.
     if sector = -1 then Inr (False, d)
     else
       rbind (FileHeader_FetchFrom sector d) (\<lambda>fileHdr.
       rbind (PersistentBitmap_load (freeMapFile fs) NumSectors d) (\<lambda>freeMap.
       rbind (FileHeader_Deallocate fileHdr freeMap) (\<lambda>freeMap1.
       rbind (Bitmap_Clear sector freeMap1) (\<lambda>freeMap2.
       rbind (Directory_Remove nm directory) (\<lambda>(removed, directory1).
       rbind (PersistentBitmap_WriteBack (buf_junk g) (freeMapFile fs) freeMap2 d) (\<lambda>d1.
       rbind (Directory_WriteBack (buf_junk g) (directoryFile fs) directory1 d1) (\<lambda>d2.
       Inr (True, d2))))))))))"

definition FileSystem_List :: "garbage \<Rightarrow> FileSystem \<Rightarrow> disk \<Rightarrow> byte list list result" where
  "FileSystem_List g fs d = rbind (fetch_directory g fs d) Directory_List"

text \<open>The constructor: the files of the map and of the directory, then the table of open files.\<close>

definition format_disk :: "garbage \<Rightarrow> disk \<Rightarrow> (OpenFile \<times> OpenFile \<times> disk) result" where
  "format_disk g d =
     rbind (PersistentBitmap_new NumSectors) (\<lambda>freeMap.
     rbind (Bitmap_Mark FreeMapSector freeMap) (\<lambda>freeMap1.
     rbind (Bitmap_Mark DirectorySector freeMap1) (\<lambda>freeMap2.
     rbind (FileHeader_Allocate FreeMapFileSize (hdr_junk g) freeMap2) (\<lambda>(ok1, mapHdr, freeMap3). require ok1 (
     rbind (FileHeader_Allocate DirectoryFileSize (hdr_junk g) freeMap3) (\<lambda>(ok2, dirHdr, freeMap4). require ok2 (
     rbind (FileHeader_WriteBack FreeMapSector mapHdr d) (\<lambda>d1.
     rbind (FileHeader_WriteBack DirectorySector dirHdr d1) (\<lambda>d2.
     rbind (OpenFile_new FreeMapSector (type_junk g) d2) (\<lambda>mapFile.
     rbind (OpenFile_new DirectorySector (type_junk g) d2) (\<lambda>dirFile.
     rbind (PersistentBitmap_WriteBack (buf_junk g) mapFile freeMap4 d2) (\<lambda>d3.
     rbind (Directory_WriteBack (buf_junk g) dirFile (Directory_new (dir_junk g) NumDirEntries) d3) (\<lambda>d4.
     Inr (mapFile, dirFile, d4))))))))))))))"

definition mount_disk :: "garbage \<Rightarrow> disk \<Rightarrow> (OpenFile \<times> OpenFile \<times> disk) result" where
  "mount_disk g d =
     rbind (OpenFile_new FreeMapSector (type_junk g) d) (\<lambda>mapFile.
     rbind (OpenFile_new DirectorySector (type_junk g) d) (\<lambda>dirFile. Inr (mapFile, dirFile, d)))"

definition stdin_name :: "byte list" where "stdin_name = [115, 116, 100, 105, 110]"
definition stdout_name :: "byte list" where "stdout_name = [115, 116, 100, 111, 117, 116]"

text \<open>\<open>openf[index++] = Open(name, type)\<close>\<close>

definition open_standard :: "garbage \<Rightarrow> byte list \<Rightarrow> int \<Rightarrow> FileSystem \<Rightarrow> disk \<Rightarrow> FileSystem result" where
  "open_standard g nm ty fs d =
     rbind (FileSystem_Open_type g nm ty fs d) (\<lambda>(p, fs').
     rbind (arr_set (openf fs') (findex fs') p) (\<lambda>slots.
     Inr (fs'\<lparr>openf := slots, findex := findex fs' + 1\<rparr>)))"

definition FileSystem_new :: "garbage \<Rightarrow> bool \<Rightarrow> disk \<Rightarrow> (FileSystem \<times> disk) result" where
  "FileSystem_new g format d =
     rbind (if format then format_disk g d else mount_disk g d) (\<lambda>(mapFile, dirFile, d0).
     let fs = \<lparr>freeMapFile = mapFile, directoryFile = dirFile, files = [],
               openf = replicate (nat MAX_FILE_OPEN) None, findex = 0\<rparr> in
     rbind (open_standard g stdin_name 2 fs d0) (\<lambda>fs1.
     rbind (open_standard g stdout_name 3 fs1 d0) (\<lambda>fs2.
     rbind (FileSystem_Create g stdin_name 0 fs2 d0) (\<lambda>(ok1, d1).
     rbind (FileSystem_Create g stdout_name 0 fs2 d1) (\<lambda>(ok2, d2).
     Inr (fs2, d2))))))"

section \<open>What is on the disk\<close>

text \<open>
  The directory and the free map as the disk holds them, the header stored in a sector, and
  the sectors a file occupies with its header.
\<close>

definition dir_on :: "FileSystem \<Rightarrow> disk \<Rightarrow> Directory" where
  "dir_on fs d = \<lparr>tableSize = 10, table = table_of_bytes 10 (contents (hdr (directoryFile fs)) d)\<rparr>"

definition map_on :: "FileSystem \<Rightarrow> disk \<Rightarrow> Bitmap" where
  "map_on fs d = \<lparr>numBits = 1024, numWords = 32, bmap = bytes_words (contents (hdr (freeMapFile fs)) d)\<rparr>"

definition hdr_on :: "disk \<Rightarrow> int \<Rightarrow> FileHeader" where
  "hdr_on d s = header_of_bytes (d ! nat s)"

definition extent :: "disk \<Rightarrow> int \<Rightarrow> int set" where
  "extent d s = insert s (set (data (hdr_on d s)))"

definition system_sectors :: "FileSystem \<Rightarrow> int set" where
  "system_sectors fs = {0, 1} \<union> set (data (hdr (freeMapFile fs))) \<union> set (data (hdr (directoryFile fs)))"

definition file_ok :: "FileSystem \<Rightarrow> disk \<Rightarrow> int \<Rightarrow> bool" where
  "file_ok fs d s \<longleftrightarrow> 0 \<le> s \<and> s < NumSectors \<and> header_ok (hdr_on d s) \<and> s \<notin> set (data (hdr_on d s)) \<and>
     extent d s \<inter> system_sectors fs = {}"

text \<open>The two system files.\<close>

definition system_ok :: "FileSystem \<Rightarrow> disk \<Rightarrow> bool" where
  "system_ok fs d \<longleftrightarrow> disk_ok d \<and> header_ok (hdr (freeMapFile fs)) \<and> header_ok (hdr (directoryFile fs)) \<and>
     numBytes (hdr (freeMapFile fs)) = 128 \<and> numBytes (hdr (directoryFile fs)) = 200 \<and>
     hdr_on d 0 = hdr (freeMapFile fs) \<and> hdr_on d 1 = hdr (directoryFile fs) \<and>
     {0, 1} \<inter> set (data (hdr (freeMapFile fs))) = {} \<and> {0, 1} \<inter> set (data (hdr (directoryFile fs))) = {} \<and>
     set (data (hdr (freeMapFile fs))) \<inter> set (data (hdr (directoryFile fs))) = {}"

text \<open>
  Consistency: the directory is legal, every file has a legal header and its own sectors, and
  the map marks exactly the sectors in use.
\<close>

definition fs_ok :: "FileSystem \<Rightarrow> disk \<Rightarrow> bool" where
  "fs_ok fs d \<longleftrightarrow> system_ok fs d \<and> Directory_wf (dir_on fs d) \<and>
     (\<forall>s \<in> ran (entries (dir_on fs d)). file_ok fs d s) \<and>
     (\<forall>k k' s s'. k \<noteq> k' \<and> entries (dir_on fs d) k = Some s \<and> entries (dir_on fs d) k' = Some s' \<longrightarrow>
        extent d s \<inter> extent d s' = {}) \<and>
     Bitmap_bits (map_on fs d) = system_sectors fs \<union> (\<Union>s \<in> ran (entries (dir_on fs d)). extent d s)"

text \<open>The files a user sees: a finite map from keys to byte strings.\<close>

definition fs_files :: "FileSystem \<Rightarrow> disk \<Rightarrow> (byte list \<rightharpoonup> byte list)" where
  "fs_files fs d k = map_option (\<lambda>s. contents (hdr_on d s) d) (entries (dir_on fs d) k)"

lemma system_okD:
  assumes "system_ok fs d"
  shows "disk_ok d" "header_ok (hdr (freeMapFile fs))" "header_ok (hdr (directoryFile fs))"
    "numBytes (hdr (freeMapFile fs)) = 128" "numBytes (hdr (directoryFile fs)) = 200"
    "0 \<notin> set (data (hdr (freeMapFile fs)))" "1 \<notin> set (data (hdr (freeMapFile fs)))"
    "0 \<notin> set (data (hdr (directoryFile fs)))" "1 \<notin> set (data (hdr (directoryFile fs)))"
    "set (data (hdr (freeMapFile fs))) \<inter> set (data (hdr (directoryFile fs))) = {}"
  using assms by (auto simp: system_ok_def)

lemma fs_okD:
  assumes "fs_ok fs d"
  shows "system_ok fs d" "Directory_wf (dir_on fs d)" "s \<in> ran (entries (dir_on fs d)) \<Longrightarrow> file_ok fs d s"
    "entries (dir_on fs d) k = Some s \<Longrightarrow> file_ok fs d s"
    "k \<noteq> k' \<Longrightarrow> entries (dir_on fs d) k = Some s \<Longrightarrow> entries (dir_on fs d) k' = Some s' \<Longrightarrow> extent d s \<inter> extent d s' = {}"
    "Bitmap_bits (map_on fs d) = system_sectors fs \<union> (\<Union>s \<in> ran (entries (dir_on fs d)). extent d s)"
  using assms by (auto simp: fs_ok_def ranI)

lemma map_on_wf: "system_ok fs d \<Longrightarrow> Bitmap_wf (map_on fs d)"
  using length_contents [of "hdr (freeMapFile fs)" d]
  by (simp add: system_ok_def Bitmap_wf_def map_on_def divRoundUp_nonneg length_bytes_words)

lemma fetch_directory_ok:
  assumes "system_ok fs d" and "\<forall>i. entry_wf (dir_junk g i)"
  shows "fetch_directory g fs d = Inr (dir_on fs d)"
proof -
  let ?n = "Directory_new (dir_junk g) NumDirEntries"
  have n: "Directory_wf ?n" "tableSize ?n = 10"
    using Directory_new_wf [of NumDirEntries "dir_junk g"] assms(2) by (simp_all add: NumDirEntries_def)
  then have "fetch_directory g fs d = Inr (?n\<lparr>table := table_of_bytes 10 (contents (hdr (directoryFile fs)) d)\<rparr>)"
    using Directory_FetchFrom_ok [of "directoryFile fs" d ?n] system_okD [OF assms(1)]
    by (simp add: fetch_directory_def Directory_wf_def)
  moreover have "?n\<lparr>table := t\<rparr> = \<lparr>tableSize = 10, table = t\<rparr>" for t by (simp add: Directory_new_def NumDirEntries_def)
  ultimately show ?thesis by (simp add: dir_on_def)
qed

lemma load_map_ok:
  assumes "system_ok fs d"
  shows "PersistentBitmap_load (freeMapFile fs) NumSectors d = Inr (map_on fs d)"
proof -
  obtain b where b: "PersistentBitmap_load (freeMapFile fs) NumSectors d = Inr b" "Bitmap_wf b" "numBits b = 1024"
    "bmap b = bytes_words (contents (hdr (freeMapFile fs)) d)"
    using PersistentBitmap_load_ok [of "freeMapFile fs" d NumSectors] system_okD [OF assms] by auto
  then have "numWords b = 32" by (simp add: Bitmap_wf_def divRoundUp_nonneg)
  then have "b = map_on fs d" using b by (intro Bitmap.equality) (simp_all add: map_on_def)
  then show ?thesis using b(1) by simp
qed

section \<open>Writing the system files back\<close>

text \<open>A file keeps its header, its extent and its contents when none of its sectors is written.\<close>

lemma same_file:
  assumes "\<And>t. t \<in> extent d s \<Longrightarrow> d' ! nat t = d ! nat t"
  shows "hdr_on d' s = hdr_on d s" and "extent d' s = extent d s" and "contents (hdr_on d' s) d' = contents (hdr_on d s) d"
proof -
  show h: "hdr_on d' s = hdr_on d s" using assms [of s] by (simp add: hdr_on_def extent_def)
  then show "extent d' s = extent d s" by (simp add: extent_def)
  show "contents (hdr_on d' s) d' = contents (hdr_on d s) d"
    unfolding h by (rule contents_cong) (use assms in \<open>simp add: extent_def\<close>)
qed

definition agree :: "int set \<Rightarrow> disk \<Rightarrow> disk \<Rightarrow> bool" where
  "agree X d d' \<longleftrightarrow> (\<forall>s. 0 \<le> s \<and> s \<notin> X \<longrightarrow> d' ! nat s = d ! nat s)"

text \<open>
  The state after the directory \<open>dir\<close> and the map \<open>m\<close> have been written and a set \<open>X\<close> of
  sectors outside the system files may have changed.
\<close>

lemma system_update:
  assumes s: "system_ok fs d" and d': "disk_ok d'"
    and dir: "contents (hdr (directoryFile fs)) d' = table_bytes (table dir)" "Directory_wf dir" "tableSize dir = 10"
    and m: "contents (hdr (freeMapFile fs)) d' = word_bytes (bmap m)" "Bitmap_wf m" "numBits m = 1024"
    and X: "agree (X \<union> set (data (hdr (freeMapFile fs))) \<union> set (data (hdr (directoryFile fs)))) d d'" "X \<inter> system_sectors fs = {}"
  shows "system_ok fs d'" and "dir_on fs d' = dir" and "map_on fs d' = m"
proof -
  have "d' ! nat 0 = d ! nat 0" "d' ! nat 1 = d ! nat 1"
    using X(1) [unfolded agree_def, rule_format, of 0] X(1) [unfolded agree_def, rule_format, of 1]
      X(2) system_okD(6-9) [OF s] by (simp_all add: system_sectors_def)
  then have "hdr_on d' 0 = hdr_on d 0" "hdr_on d' 1 = hdr_on d 1" by (simp_all add: hdr_on_def)
  then show "system_ok fs d'" using s d' unfolding system_ok_def by metis
  have "length (table dir) = 10" using dir by (simp add: Directory_wf_def)
  then have "table_of_bytes 10 (table_bytes (table dir)) = table dir"
    using table_roundtrip [of "table dir"] dir(2) by (simp add: Directory_wf_def)
  then show "dir_on fs d' = dir" using dir by (intro Directory.equality) (simp_all add: dir_on_def)
  have "numWords m = 32" using m by (simp add: Bitmap_wf_def divRoundUp_nonneg)
  then show "map_on fs d' = m" using m by (intro Bitmap.equality) (simp_all add: map_on_def)
qed

lemma system_in_map: "fs_ok fs d \<Longrightarrow> system_sectors fs \<subseteq> Bitmap_bits (map_on fs d)"
  using fs_okD(6) by blast

lemma extent_in_map: "fs_ok fs d \<Longrightarrow> entries (dir_on fs d) k = Some s \<Longrightarrow> extent d s \<subseteq> Bitmap_bits (map_on fs d)"
  using fs_okD(6) by (fastforce intro: ranI)

lemma extent_nonneg: "file_ok fs d s \<Longrightarrow> t \<in> extent d s \<Longrightarrow> 0 \<le> t"
  using header_okD(7) [of "hdr_on d s"] by (auto simp: file_ok_def extent_def)

lemma file_agree:
  assumes "file_ok fs d s" and "agree (X \<union> set (data (hdr (freeMapFile fs))) \<union> set (data (hdr (directoryFile fs)))) d d'"
    and "extent d s \<inter> X = {}" and "t \<in> extent d s"
  shows "d' ! nat t = d ! nat t"
proof -
  have "t \<notin> X \<union> set (data (hdr (freeMapFile fs))) \<union> set (data (hdr (directoryFile fs)))"
    using assms(1,3,4) by (auto simp: file_ok_def system_sectors_def)
  then show ?thesis using assms(2) extent_nonneg [OF assms(1,4)] by (auto simp: agree_def)
qed

section \<open>Create\<close>

definition free_sectors :: "FileSystem \<Rightarrow> disk \<Rightarrow> int" where
  "free_sectors fs d = NumSectors - int (card (Bitmap_bits (map_on fs d)))"

definition garbage_ok :: "garbage \<Rightarrow> bool" where
  "garbage_ok g \<longleftrightarrow> header_repr (hdr_junk g) \<and> (\<forall>i. entry_wf (dir_junk g i))"

lemma numBits_map_on [simp]: "numBits (map_on fs d) = 1024"
  by (simp add: map_on_def)

lemma tableSize_dir_on [simp]: "tableSize (dir_on fs d) = 10"
  by (simp add: dir_on_def)

lemma dom_fs_files: "dom (fs_files fs d) = dom (entries (dir_on fs d))"
  by (auto simp: fs_files_def dom_def)

text \<open>The state after a file with header \<open>h\<close> has been added in the free sector \<open>sec\<close>.\<close>

lemma fs_ok_add:
  assumes ok: "fs_ok fs d" and new: "entries (dir_on fs d) k = None"
    and sys: "system_ok fs d'" and dir: "Directory_wf (dir_on fs d')" "entries (dir_on fs d') = (entries (dir_on fs d))(k \<mapsto> sec)"
    and bits: "Bitmap_bits (map_on fs d') = insert sec (Bitmap_bits (map_on fs d)) \<union> set (data h)"
    and fresh: "sec \<notin> Bitmap_bits (map_on fs d)" "set (data h) \<inter> insert sec (Bitmap_bits (map_on fs d)) = {}"
    and sec: "0 \<le> sec" "sec < NumSectors" "header_ok h" "hdr_on d' sec = h"
    and agr: "agree ({sec} \<union> set (data (hdr (freeMapFile fs))) \<union> set (data (hdr (directoryFile fs)))) d d'"
  shows "fs_ok fs d'" and "fs_files fs d' = (fs_files fs d)(k \<mapsto> contents h d')"
proof -
  let ?E = "entries (dir_on fs d)"
  have old: "hdr_on d' s = hdr_on d s" "extent d' s = extent d s" "contents (hdr_on d' s) d' = contents (hdr_on d s) d"
    if "?E k' = Some s" for k' s
  proof -
    have "extent d s \<inter> {sec} = {}" using extent_in_map [OF ok that] fresh(1) by blast
    from file_agree [OF fs_okD(4) [OF ok that] agr this] same_file [of d s d']
    show "hdr_on d' s = hdr_on d s" "extent d' s = extent d s" "contents (hdr_on d' s) d' = contents (hdr_on d s) d"
      by blast+
  qed
  have x: "extent d' sec = insert sec (set (data h))" by (simp add: extent_def sec(4))
  have ran: "ran (entries (dir_on fs d')) = insert sec (ran ?E)" using dir(2) new by (simp add: ran_map_upd)
  have xb: "extent d' sec \<inter> Bitmap_bits (map_on fs d) = {}" using fresh unfolding x by blast
  have "file_ok fs d' s" if s: "s \<in> ran ?E" for s
  proof -
    obtain k' where k': "?E k' = Some s" using s by (auto simp: ran_def)
    show ?thesis using fs_okD(4) [OF ok k'] by (simp add: file_ok_def old(1,2) [OF k'])
  qed
  moreover have "file_ok fs d' sec"
    using sec fresh(2) xb system_in_map [OF ok] unfolding file_ok_def by auto
  ultimately have f: "\<forall>s \<in> ran (entries (dir_on fs d')). file_ok fs d' s" unfolding ran by blast
  have dis: "extent d' s \<inter> extent d' s' = {}"
    if q: "k1 \<noteq> k2" "entries (dir_on fs d') k1 = Some s" "entries (dir_on fs d') k2 = Some s'" for k1 k2 s s'
  proof -
    have e: "extent d' sec \<inter> extent d' t = {}" if "?E k' = Some t" for k' t
      using xb extent_in_map [OF ok that] old(2) [OF that] by blast
    have q1: "if k1 = k then s = sec else ?E k1 = Some s" using q(2) unfolding dir(2) by (simp split: if_splits)
    have q2: "if k2 = k then s' = sec else ?E k2 = Some s'" using q(3) unfolding dir(2) by (simp split: if_splits)
    show ?thesis
    proof (cases "k1 = k \<or> k2 = k")
      case True
      then show ?thesis using q1 q2 q(1) e by (metis Int_commute)
    next
      case False
      then have "?E k1 = Some s" "?E k2 = Some s'" using q1 q2 by auto
      then show ?thesis using fs_okD(5) [OF ok q(1)] old(2) by simp
    qed
  qed
  have un: "(\<Union>s \<in> ran ?E. extent d' s) = (\<Union>s \<in> ran ?E. extent d s)"
  proof (intro SUP_cong refl)
    fix t assume "t \<in> ran ?E"
    then obtain k' where "?E k' = Some t" by (auto simp: ran_def)
    then show "extent d' t = extent d t" by (rule old(2))
  qed
  have "Bitmap_bits (map_on fs d') = system_sectors fs \<union> (\<Union>s \<in> ran (entries (dir_on fs d')). extent d' s)"
    unfolding ran bits fs_okD(6) [OF ok] UN_insert un x by blast
  then show "fs_ok fs d'" unfolding fs_ok_def using sys dir(1) f dis by (intro conjI allI impI; (elim conjE)?; assumption?)
  show "fs_files fs d' = (fs_files fs d)(k \<mapsto> contents h d')"
  proof
    fix k' show "fs_files fs d' k' = ((fs_files fs d)(k \<mapsto> contents h d')) k'"
      using dir(2) sec(4) old(3) by (cases "?E k'") (auto simp: fs_files_def)
  qed
qed

lemma Create_writes:
  assumes ok: "system_ok fs d" and sec: "0 \<le> sec" "sec < NumSectors" "sec \<notin> system_sectors fs" and h: "header_repr h"
    and dir: "Directory_wf dir" "tableSize dir = 10" and m: "Bitmap_wf m" "numBits m = 1024"
  shows "\<exists>d1 d2 d3. FileHeader_WriteBack sec h d = Inr d1 \<and> Directory_WriteBack junk (directoryFile fs) dir d1 = Inr d2 \<and>
    PersistentBitmap_WriteBack junk (freeMapFile fs) m d2 = Inr d3 \<and> system_ok fs d3 \<and> dir_on fs d3 = dir \<and> map_on fs d3 = m \<and>
    hdr_on d3 sec = h \<and> agree ({sec} \<union> set (data (hdr (freeMapFile fs))) \<union> set (data (hdr (directoryFile fs)))) d d3"
proof -
  note s = system_okD [OF ok]
  obtain d1 where d1: "FileHeader_WriteBack sec h d = Inr d1" "disk_ok d1" "d1 = d[nat sec := header_bytes h]"
    "FileHeader_FetchFrom sec d1 = Inr h"
    using WriteBack_FetchFrom [OF s(1) sec(1,2) h] by blast
  obtain d2 where d2: "Directory_WriteBack junk (directoryFile fs) dir d1 = Inr d2" "disk_ok d2"
    "contents (hdr (directoryFile fs)) d2 = table_bytes (table dir)"
    "\<forall>s. 0 \<le> s \<and> s \<notin> set (data (hdr (directoryFile fs))) \<longrightarrow> d2 ! nat s = d1 ! nat s"
    using Directory_WriteBack_ok [OF s(3) d1(2) _ dir(1), of junk] dir(2) s(5) by auto
  obtain d3 where d3: "PersistentBitmap_WriteBack junk (freeMapFile fs) m d2 = Inr d3" "disk_ok d3"
    "contents (hdr (freeMapFile fs)) d3 = word_bytes (bmap m)"
    "\<forall>s. 0 \<le> s \<and> s \<notin> set (data (hdr (freeMapFile fs))) \<longrightarrow> d3 ! nat s = d2 ! nat s"
    using PersistentBitmap_WriteBack_ok [OF s(2) d2(2) _ m(1), of junk] m(2) s(4) by auto
  have c: "contents (hdr (directoryFile fs)) d3 = contents (hdr (directoryFile fs)) d2"
  proof (rule contents_cong)
    fix t assume "t \<in> set (data (hdr (directoryFile fs)))"
    then have "0 \<le> t" "t \<notin> set (data (hdr (freeMapFile fs)))" using s(10) header_okD(7) [OF s(3)]
      by (meson atLeastLessThan_iff subsetD, blast)
    then show "d3 ! nat t = d2 ! nat t" using d3(4) by blast
  qed
  have a: "agree ({sec} \<union> set (data (hdr (freeMapFile fs))) \<union> set (data (hdr (directoryFile fs)))) d d3"
    unfolding agree_def
  proof (intro allI impI)
    fix t assume "0 \<le> t \<and> t \<notin> {sec} \<union> set (data (hdr (freeMapFile fs))) \<union> set (data (hdr (directoryFile fs)))"
    then have "d3 ! nat t = d1 ! nat t" "nat sec \<noteq> nat t" using d2(4) d3(4) sec(1) by auto
    then show "d3 ! nat t = d ! nat t" by (simp add: d1(3))
  qed
  have "d3 ! nat sec = d1 ! nat sec" using d2(4) d3(4) sec by (simp add: system_sectors_def)
  then have h3: "hdr_on d3 sec = h"
    using d1(4) sec(1,2) d1(2) by (simp add: FileHeader_FetchFrom_def ReadSector_def hdr_on_def disk_ok_def)
  have "{sec} \<inter> system_sectors fs = {}" using sec(3) by simp
  note u = system_update [OF ok d3(2) trans [OF c d2(3)] dir d3(3) m a this]
  show ?thesis using d1(1) d2(1) d3(1) u h3 a by blast
qed

lemma Create_ok:
  assumes ok: "fs_ok fs d" and g: "garbage_ok g" and initialSize: "0 \<le> initialSize" "initialSize \<le> MaxFileSize"
    and new: "fs_files fs d (key nm) = None" and room: "card (dom (fs_files fs d)) < 10"
    and free: "1 + divRoundUp initialSize SectorSize \<le> free_sectors fs d"
  shows "\<exists>d' bs. FileSystem_Create g nm initialSize fs d = Inr (True, d') \<and> fs_ok fs d' \<and> int (length bs) = initialSize \<and>
    fs_files fs d' = (fs_files fs d)(key nm \<mapsto> bs)"
proof -
  let ?m = "map_on fs d" and ?dir = "dir_on fs d"
  note s = fs_okD(1) [OF ok]
  have g': "header_repr (hdr_junk g)" "\<forall>i. entry_wf (dir_junk g i)" using g by (auto simp: garbage_ok_def)
  have e: "entries ?dir (key nm) = None" using new by (simp add: fs_files_def)
  have wf: "Bitmap_wf ?m" by (rule map_on_wf [OF s])
  have n0: "0 \<le> divRoundUp initialSize SectorSize" using divRoundUp_bounds(3) initialSize(1) by simp
  then have "Bitmap_bits ?m \<noteq> {0..<numBits ?m}" using free by (intro bm.not_full [OF wf]) (simp add: free_sectors_def)
  then obtain sec m1 where sec: "Bitmap_FindAndSet ?m = Inr (sec, m1)" "0 \<le> sec" "sec < NumSectors" "sec \<notin> Bitmap_bits ?m"
    "Bitmap_wf m1" "numBits m1 = 1024" "Bitmap_bits m1 = insert sec (Bitmap_bits ?m)"
    using bm.take_free_ok [OF wf] by auto
  obtain dir' where dir': "Directory_Add nm sec ?dir = (True, dir')" "Directory_wf dir'" "tableSize dir' = 10"
    "entries dir' = (entries ?dir)(key nm \<mapsto> sec)"
    using dt.add_ok [OF fs_okD(2) [OF ok] sec(2) _ e] sec(3) room by (auto simp: dom_fs_files)
  have fits: "divRoundUp initialSize SectorSize \<le> NumDirect"
    using divRoundUp_bounds(2) [of initialSize 128] initialSize by (simp add: MaxFileSize_def NumDirect_def)
  have clear: "divRoundUp initialSize SectorSize \<le> numBits m1 - int (card (Bitmap_bits m1))"
    using free sec(4,6,7) by (simp add: free_sectors_def)
  obtain h m2 where h: "FileHeader_Allocate initialSize (hdr_junk g) m1 = Inr (True, h, m2)" "header_ok h" "header_repr h" "numBytes h = initialSize"
    "Bitmap_wf m2" "numBits m2 = 1024" "Bitmap_bits m2 = Bitmap_bits m1 \<union> set (data h)" "set (data h) \<inter> Bitmap_bits m1 = {}"
    using Allocate_ok [OF sec(5) _ g'(1) initialSize(1) fits clear] sec(6) by auto
  have "sec \<notin> system_sectors fs" using sec(4) system_in_map [OF ok] by blast
  from Create_writes [OF s sec(2,3) this h(3) dir'(2,3) h(5,6), of "buf_junk g"]
  obtain d1 d2 d3 where w: "FileHeader_WriteBack sec h d = Inr d1" "Directory_WriteBack (buf_junk g) (directoryFile fs) dir' d1 = Inr d2"
    "PersistentBitmap_WriteBack (buf_junk g) (freeMapFile fs) m2 d2 = Inr d3" "system_ok fs d3" "dir_on fs d3 = dir'" "map_on fs d3 = m2"
    "hdr_on d3 sec = h" "agree ({sec} \<union> set (data (hdr (freeMapFile fs))) \<union> set (data (hdr (directoryFile fs)))) d d3"
    by blast
  have bits: "Bitmap_bits (map_on fs d3) = insert sec (Bitmap_bits ?m) \<union> set (data h)" unfolding w(6) h(7) sec(7) ..
  have fresh: "set (data h) \<inter> insert sec (Bitmap_bits ?m) = {}" using h(8) unfolding sec(7) .
  have D: "Directory_wf (dir_on fs d3)" "entries (dir_on fs d3) = (entries ?dir)(key nm \<mapsto> sec)" using dir' w(5) by simp_all
  note r = fs_ok_add [OF ok e w(4) D bits sec(4) fresh sec(2,3) h(2) w(7,8)]
  have "FileSystem_Create g nm initialSize fs d = Inr (True, d3)"
    using fetch_directory_ok [OF s g'(2)] dt.find_ok [OF fs_okD(2) [OF ok], of nm] e load_map_ok [OF s] sec(1,2) dir'(1) h(1) w(1-3)
    by (simp add: FileSystem_Create_def)
  moreover have "int (length (contents h d3)) = initialSize" using length_contents [OF h(2) system_okD(1) [OF w(4)]] h(4) by simp
  ultimately show ?thesis using r by blast
qed

lemma Create_fails:
  assumes ok: "fs_ok fs d" and g: "garbage_ok g"
    and no: "fs_files fs d (key nm) \<noteq> None \<or> 10 \<le> card (dom (fs_files fs d)) \<or> free_sectors fs d < 1 + divRoundUp initialSize SectorSize"
    and initialSize: "0 \<le> initialSize"
  shows "FileSystem_Create g nm initialSize fs d = Inr (False, d)"
proof -
  let ?m = "map_on fs d" and ?dir = "dir_on fs d"
  note s = fs_okD(1) [OF ok]
  have g': "header_repr (hdr_junk g)" "\<forall>i. entry_wf (dir_junk g i)" using g by (auto simp: garbage_ok_def)
  have f: "fetch_directory g fs d = Inr ?dir" by (rule fetch_directory_ok [OF s g'(2)])
  note find = dt.find_ok [OF fs_okD(2) [OF ok], of nm]
  have wf: "Bitmap_wf ?m" by (rule map_on_wf [OF s])
  show ?thesis
  proof (cases "entries ?dir (key nm)")
    case (Some sec)
    then have "0 \<le> sec" using fs_okD(4) [OF ok Some] by (simp add: file_ok_def)
    then show ?thesis using f find Some by (simp add: FileSystem_Create_def)
  next
    case None
    then have no': "10 \<le> card (dom (fs_files fs d)) \<or> free_sectors fs d < 1 + divRoundUp initialSize SectorSize"
      using no by (simp add: fs_files_def)
    show ?thesis
    proof (cases "Bitmap_bits ?m = {0..<numBits ?m}")
      case True
      then show ?thesis using f find None load_map_ok [OF s] bm.take_free_full [OF wf]
        by (simp add: FileSystem_Create_def)
    next
      case False
      then obtain sec m1 where sec: "Bitmap_FindAndSet ?m = Inr (sec, m1)" "0 \<le> sec" "sec < NumSectors" "sec \<notin> Bitmap_bits ?m"
        "Bitmap_wf m1" "numBits m1 = 1024" "Bitmap_bits m1 = insert sec (Bitmap_bits ?m)"
        using bm.take_free_ok [OF wf] by auto
      show ?thesis
      proof (cases "10 \<le> card (dom (fs_files fs d))")
        case True
        then have "Directory_Add nm sec ?dir = (False, ?dir)"
          by (intro dt.add_fails [OF fs_okD(2) [OF ok]]) (simp add: dom_fs_files)
        then show ?thesis using f find None load_map_ok [OF s] sec(1,2) by (simp add: FileSystem_Create_def)
      next
        case False
        then obtain dir' where dir': "Directory_Add nm sec ?dir = (True, dir')"
          using dt.add_ok [OF fs_okD(2) [OF ok] sec(2) _ None] sec(3) by (auto simp: dom_fs_files)
        have "numBits m1 - int (card (Bitmap_bits m1)) < divRoundUp initialSize SectorSize"
          using no' False sec(4,6,7) by (simp add: free_sectors_def)
        from Allocate_full [OF sec(5) this] show ?thesis
          using f find None load_map_ok [OF s] sec(1,2) dir' by (simp add: FileSystem_Create_def)
      qed
    qed
  qed
qed

section \<open>Remove\<close>

lemma Remove_ok:
  assumes ok: "fs_ok fs d" and g: "garbage_ok g" and old: "entries (dir_on fs d) (key nm) = Some sec"
  shows "\<exists>d'. FileSystem_Remove g nm fs d = Inr (True, d') \<and> fs_ok fs d' \<and>
    fs_files fs d' = (fs_files fs d)(key nm := None) \<and>
    Bitmap_bits (map_on fs d') = Bitmap_bits (map_on fs d) - extent d sec"
proof -
  let ?m = "map_on fs d" and ?dir = "dir_on fs d" and ?h = "hdr_on d sec" and ?k = "key nm"
  let ?E = "entries ?dir"
  note s = fs_okD(1) [OF ok]
  note S = system_okD [OF s]
  have g': "\<forall>i. entry_wf (dir_junk g i)" using g by (auto simp: garbage_ok_def)
  have fo: "file_ok fs d sec" by (rule fs_okD(4) [OF ok old])
  then have sec: "0 \<le> sec" "sec < NumSectors" "header_ok ?h" "sec \<notin> set (data ?h)" by (auto simp: file_ok_def)
  have wf: "Bitmap_wf ?m" by (rule map_on_wf [OF s])
  have xm: "extent d sec \<subseteq> Bitmap_bits ?m" by (rule extent_in_map [OF ok old])
  obtain m1 where m1: "FileHeader_Deallocate ?h ?m = Inr m1" "Bitmap_wf m1" "numBits m1 = 1024" "Bitmap_bits m1 = Bitmap_bits ?m - set (data ?h)"
    using Deallocate_ok [OF wf sec(3)] xm by (auto simp: extent_def)
  obtain m2 where m2: "Bitmap_Clear sec m1 = Inr m2" "Bitmap_wf m2" "numBits m2 = 1024" "Bitmap_bits m2 = Bitmap_bits m1 - {sec}"
    using bm.release_ok [OF m1(2) sec(1)] m1(3) sec(2) by auto
  have bits: "Bitmap_bits m2 = Bitmap_bits ?m - extent d sec" using m1(4) m2(4) by (auto simp: extent_def)
  obtain dir' where dir': "Directory_Remove nm ?dir = Inr (True, dir')" "Directory_wf dir'" "tableSize dir' = 10" "entries dir' = ?E(?k := None)"
    using dt.remove_ok [OF fs_okD(2) [OF ok] old] by auto
  obtain d1 where d1: "PersistentBitmap_WriteBack (buf_junk g) (freeMapFile fs) m2 d = Inr d1" "disk_ok d1"
    "contents (hdr (freeMapFile fs)) d1 = word_bytes (bmap m2)"
    "\<forall>s. 0 \<le> s \<and> s \<notin> set (data (hdr (freeMapFile fs))) \<longrightarrow> d1 ! nat s = d ! nat s"
    using PersistentBitmap_WriteBack_ok [OF S(2,1) _ m2(2), of "buf_junk g"] m2(3) S(4) by auto
  obtain d2 where d2: "Directory_WriteBack (buf_junk g) (directoryFile fs) dir' d1 = Inr d2" "disk_ok d2"
    "contents (hdr (directoryFile fs)) d2 = table_bytes (table dir')"
    "\<forall>s. 0 \<le> s \<and> s \<notin> set (data (hdr (directoryFile fs))) \<longrightarrow> d2 ! nat s = d1 ! nat s"
    using Directory_WriteBack_ok [OF S(3) d1(2) _ dir'(2), of "buf_junk g"] dir'(3) S(5) by auto
  have c: "contents (hdr (freeMapFile fs)) d2 = contents (hdr (freeMapFile fs)) d1"
  proof (rule contents_cong)
    fix t assume "t \<in> set (data (hdr (freeMapFile fs)))"
    then have "0 \<le> t" "t \<notin> set (data (hdr (directoryFile fs)))" using S(10) header_okD(7) [OF S(2)]
      by (meson atLeastLessThan_iff subsetD, blast)
    then show "d2 ! nat t = d1 ! nat t" using d2(4) by blast
  qed
  have a: "agree ({} \<union> set (data (hdr (freeMapFile fs))) \<union> set (data (hdr (directoryFile fs)))) d d2"
    using d1(4) d2(4) by (auto simp: agree_def)
  note u = system_update [OF s d2(2,3) dir'(2,3) trans [OF c d1(3)] m2(2,3) a Int_empty_left]
  have same: "hdr_on d2 t = hdr_on d t" "extent d2 t = extent d t" "contents (hdr_on d2 t) d2 = contents (hdr_on d t) d"
    if "?E k' = Some t" for k' t
    using same_file [of d t d2] file_agree [OF fs_okD(4) [OF ok that] a] by blast+
  have E: "entries (dir_on fs d2) = ?E(?k := None)" using dir'(4) u(2) by simp
  have old': "?E k' = Some t" "k' \<noteq> ?k" if "entries (dir_on fs d2) k' = Some t" for k' t
    using that by (auto simp: E split: if_splits)
  have "fs_ok fs d2"
    unfolding fs_ok_def
  proof (intro conjI allI impI ballI)
    show "system_ok fs d2" "Directory_wf (dir_on fs d2)" using u dir'(2) by simp_all
    fix t assume t: "t \<in> ran (entries (dir_on fs d2))"
    then obtain k' where k': "entries (dir_on fs d2) k' = Some t" by (auto simp: ran_def)
    show "file_ok fs d2 t" using fs_okD(4) [OF ok old'(1) [OF k']] same [OF old'(1) [OF k']] by (simp add: file_ok_def)
  next
    fix k1 k2 t t' assume "k1 \<noteq> k2 \<and> entries (dir_on fs d2) k1 = Some t \<and> entries (dir_on fs d2) k2 = Some t'"
    then show "extent d2 t \<inter> extent d2 t' = {}" using fs_okD(5) [OF ok] old'(1) same(2) by metis
  next
    have "(\<Union>t \<in> ran (entries (dir_on fs d2)). extent d2 t) = (\<Union>t \<in> ran (entries (dir_on fs d2)). extent d t)"
    proof (intro SUP_cong refl)
      fix t assume "t \<in> ran (entries (dir_on fs d2))"
      then obtain k' where "entries (dir_on fs d2) k' = Some t" by (auto simp: ran_def)
      then show "extent d2 t = extent d t" by (rule same(2) [OF old'(1)])
    qed
    also have "\<dots> = (\<Union>t \<in> ran ?E. extent d t) - extent d sec"
    proof (intro equalityI subsetI)
      fix x assume "x \<in> (\<Union>t \<in> ran (entries (dir_on fs d2)). extent d t)"
      then obtain k' t where t: "entries (dir_on fs d2) k' = Some t" "x \<in> extent d t" by (auto simp: ran_def)
      have "extent d t \<inter> extent d sec = {}" by (rule fs_okD(5) [OF ok old'(2,1) [OF t(1)] old])
      then show "x \<in> (\<Union>t \<in> ran ?E. extent d t) - extent d sec" using t(2) old'(1) [OF t(1)] by (auto simp: ran_def)
    next
      fix x assume "x \<in> (\<Union>t \<in> ran ?E. extent d t) - extent d sec"
      then obtain k' t where t: "?E k' = Some t" "x \<in> extent d t" "x \<notin> extent d sec" by (auto simp: ran_def)
      then have "k' \<noteq> ?k" using old by auto
      then show "x \<in> (\<Union>t \<in> ran (entries (dir_on fs d2)). extent d t)" using t by (auto simp: E ran_def)
    qed
    finally show "Bitmap_bits (map_on fs d2) = system_sectors fs \<union> (\<Union>t \<in> ran (entries (dir_on fs d2)). extent d2 t)"
      using bits fs_okD(6) [OF ok] fo u(3) by (auto simp: file_ok_def)
  qed
  moreover have "fs_files fs d2 = (fs_files fs d)(?k := None)"
  proof
    fix k' show "fs_files fs d2 k' = ((fs_files fs d)(?k := None)) k'"
      using same(3) by (cases "?E k'") (auto simp: fs_files_def E)
  qed
  moreover have "FileHeader_FetchFrom sec d = Inr ?h"
    using sec(1,2) S(1) by (simp add: FileHeader_FetchFrom_def ReadSector_def hdr_on_def disk_ok_def)
  then have "FileSystem_Remove g nm fs d = Inr (True, d2)"
    using fetch_directory_ok [OF s g'] dt.find_ok [OF fs_okD(2) [OF ok], of nm] old sec(1) load_map_ok [OF s] m1(1) m2(1) dir'(1) d1(1) d2(1)
    by (simp add: FileSystem_Remove_def)
  ultimately show ?thesis using u(3) bits by blast
qed

lemma Remove_absent:
  assumes ok: "fs_ok fs d" and g: "garbage_ok g" and "fs_files fs d (key nm) = None"
  shows "FileSystem_Remove g nm fs d = Inr (False, d)"
  using fetch_directory_ok [OF fs_okD(1) [OF ok], of g] g dt.find_ok [OF fs_okD(2) [OF ok], of nm] assms(3)
  by (simp add: FileSystem_Remove_def garbage_ok_def fs_files_def)

section \<open>Open\<close>

lemma Open_ok:
  assumes ok: "fs_ok fs d" and g: "garbage_ok g"
  shows "FileSystem_Open g nm fs d = Inr (map_option (\<lambda>s. \<lparr>hdr = hdr_on d s, seekPosition = 0, type = type_junk g\<rparr>)
    (entries (dir_on fs d) (key nm)))"
proof (cases "entries (dir_on fs d) (key nm)")
  case None
  then show ?thesis using fetch_directory_ok [OF fs_okD(1) [OF ok], of g] g dt.find_ok [OF fs_okD(2) [OF ok], of nm]
    by (simp add: FileSystem_Open_def garbage_ok_def)
next
  case (Some s)
  then have "0 \<le> s" "s < NumSectors" using fs_okD(4) [OF ok Some] by (auto simp: file_ok_def)
  then show ?thesis
    using fetch_directory_ok [OF fs_okD(1) [OF ok], of g] g dt.find_ok [OF fs_okD(2) [OF ok], of nm] Some system_okD(1) [OF fs_okD(1) [OF ok]]
    by (simp add: FileSystem_Open_def garbage_ok_def OpenFile_new_def FileHeader_FetchFrom_def ReadSector_def hdr_on_def disk_ok_def)
qed

section \<open>Formatting and mounting\<close>

lemma OpenFile_new_ok:
  assumes "disk_ok d" and "0 \<le> s" and "s < NumSectors"
  shows "OpenFile_new s ty d = Inr \<lparr>hdr = hdr_on d s, seekPosition = 0, type = ty\<rparr>"
  using assms by (simp add: OpenFile_new_def FileHeader_FetchFrom_def ReadSector_def hdr_on_def disk_ok_def)

text \<open>Two system files on their own sectors, with an empty directory and a map of just them.\<close>

lemma format_writes:
  assumes d: "disk_ok d" and g: "garbage_ok g"
    and h: "header_ok mh" "header_repr mh" "numBytes mh = 128" "header_ok dh" "header_repr dh" "numBytes dh = 200"
    and dis: "set (data mh) \<inter> {0, 1} = {}" "set (data dh) \<inter> {0, 1} = {}" "set (data dh) \<inter> set (data mh) = {}"
    and m: "Bitmap_wf m" "numBits m = 1024" "Bitmap_bits m = {0, 1} \<union> set (data mh) \<union> set (data dh)"
  shows "\<exists>d1 d2 d3 d4 mf df. FileHeader_WriteBack FreeMapSector mh d = Inr d1 \<and> FileHeader_WriteBack DirectorySector dh d1 = Inr d2 \<and>
     OpenFile_new FreeMapSector (type_junk g) d2 = Inr mf \<and> OpenFile_new DirectorySector (type_junk g) d2 = Inr df \<and>
     PersistentBitmap_WriteBack (buf_junk g) mf m d2 = Inr d3 \<and>
     Directory_WriteBack (buf_junk g) df (Directory_new (dir_junk g) NumDirEntries) d3 = Inr d4 \<and>
     (\<forall>fs. freeMapFile fs = mf \<and> directoryFile fs = df \<longrightarrow> fs_ok fs d4 \<and> fs_files fs d4 = Map.empty)"
proof -
  let ?new = "Directory_new (dir_junk g) NumDirEntries"
  obtain d1 where d1: "FileHeader_WriteBack FreeMapSector mh d = Inr d1" "disk_ok d1" "FileHeader_FetchFrom FreeMapSector d1 = Inr mh"
    using WriteBack_FetchFrom [OF d, of FreeMapSector mh] h(2) by (auto simp: FreeMapSector_def)
  obtain d2 where d2: "FileHeader_WriteBack DirectorySector dh d1 = Inr d2" "disk_ok d2" "FileHeader_FetchFrom DirectorySector d2 = Inr dh"
    "d2 = d1[nat DirectorySector := header_bytes dh]"
    using WriteBack_FetchFrom [OF d1(2), of DirectorySector dh] h(5) by (auto simp: DirectorySector_def)
  have "FileHeader_FetchFrom FreeMapSector d2 = FileHeader_FetchFrom FreeMapSector d1"
    using d1(2) d2(2) by (simp add: d2(4) FileHeader_FetchFrom_def ReadSector_def FreeMapSector_def DirectorySector_def disk_ok_def)
  then have h2: "hdr_on d2 0 = mh" "hdr_on d2 1 = dh" using d1(3) d2(2,3)
    by (simp_all add: FileHeader_FetchFrom_def ReadSector_def FreeMapSector_def DirectorySector_def disk_ok_def hdr_on_def)
  define mf where "mf = \<lparr>hdr = mh, seekPosition = 0, type = type_junk g\<rparr>"
  define df where "df = \<lparr>hdr = dh, seekPosition = 0, type = type_junk g\<rparr>"
  have f: "OpenFile_new FreeMapSector (type_junk g) d2 = Inr mf" "OpenFile_new DirectorySector (type_junk g) d2 = Inr df"
    using OpenFile_new_ok [OF d2(2)] h2 by (simp_all add: FreeMapSector_def DirectorySector_def mf_def df_def)
  have n: "Directory_wf ?new" "tableSize ?new = 10" "entries ?new = Map.empty"
    using Directory_new_wf [of NumDirEntries "dir_junk g"] g by (simp_all add: garbage_ok_def NumDirEntries_def)
  obtain d3 where d3: "PersistentBitmap_WriteBack (buf_junk g) mf m d2 = Inr d3" "disk_ok d3" "contents mh d3 = word_bytes (bmap m)"
    "\<forall>s. 0 \<le> s \<and> s \<notin> set (data mh) \<longrightarrow> d3 ! nat s = d2 ! nat s"
    using PersistentBitmap_WriteBack_ok [of mf d2 m "buf_junk g"] h(1,3) d2(2) m(1,2) by (auto simp: mf_def)
  obtain d4 where d4: "Directory_WriteBack (buf_junk g) df ?new d3 = Inr d4" "disk_ok d4" "contents dh d4 = table_bytes (table ?new)"
    "\<forall>s. 0 \<le> s \<and> s \<notin> set (data dh) \<longrightarrow> d4 ! nat s = d3 ! nat s"
    using Directory_WriteBack_ok [of df d3 ?new "buf_junk g"] h(4,6) d3(2) n by (auto simp: df_def)
  have c: "contents mh d4 = contents mh d3"
  proof (rule contents_cong)
    fix t assume "t \<in> set (data mh)"
    then have "0 \<le> t" "t \<notin> set (data dh)" using dis(3) header_okD(7) [OF h(1)]
      by (meson atLeastLessThan_iff subsetD, blast)
    then show "d4 ! nat t = d3 ! nat t" using d4(4) by blast
  qed
  have a: "agree (set (data mh) \<union> set (data dh)) d2 d4" using d3(4) d4(4) by (auto simp: agree_def)
  have "fs_ok fs d4 \<and> fs_files fs d4 = Map.empty" if fs: "freeMapFile fs = mf" "directoryFile fs = df" for fs
  proof -
    have hs: "hdr (freeMapFile fs) = mh" "hdr (directoryFile fs) = dh" using fs by (simp_all add: mf_def df_def)
    have s: "system_ok fs d2" using h dis h2 d2(2) unfolding system_ok_def hs by auto
    have a': "agree ({} \<union> set (data (hdr (freeMapFile fs))) \<union> set (data (hdr (directoryFile fs)))) d2 d4" using a by (simp add: hs)
    note u = system_update [OF s d4(2) d4(3) [folded hs(2)] n(1,2) trans [OF c d3(3), folded hs(1)] m(1,2) a' Int_empty_left]
    have E: "entries (dir_on fs d4) = Map.empty" using u(2) n(3) by simp
    have "fs_ok fs d4" unfolding fs_ok_def E using u n(1) m(3) by (simp add: system_sectors_def hs)
    moreover have "fs_files fs d4 = Map.empty" by (simp add: fs_files_def E fun_eq_iff)
    ultimately show ?thesis ..
  qed
  then show ?thesis using d1(1) d2(1) f d3(1) d4(1) by blast
qed

lemma format_disk_ok:
  assumes d: "disk_ok d" and g: "garbage_ok g"
  shows "\<exists>mf df d'. format_disk g d = Inr (mf, df, d') \<and>
    (\<forall>fs. freeMapFile fs = mf \<and> directoryFile fs = df \<longrightarrow> fs_ok fs d' \<and> fs_files fs d' = Map.empty)"
proof -
  have r: "header_repr (hdr_junk g)" using g by (simp add: garbage_ok_def)
  obtain m0 where m0: "Bitmap_new 1024 = Inr m0" "Bitmap_wf m0" "numBits m0 = 1024" "Bitmap_bits m0 = {}"
    using Bitmap_new_ok [of 1024] by auto
  obtain m1 where m1: "Bitmap_Mark 0 m0 = Inr m1" "Bitmap_wf m1" "numBits m1 = 1024" "Bitmap_bits m1 = {0}"
    using Bitmap_Mark_ok [of m0 0] m0 by auto
  obtain m2 where m2: "Bitmap_Mark 1 m1 = Inr m2" "Bitmap_wf m2" "numBits m2 = 1024" "Bitmap_bits m2 = {0, 1}"
    using Bitmap_Mark_ok [of m1 1] m1 by auto
  have n: "divRoundUp 128 128 = 1" "divRoundUp 200 128 = 2" by (simp_all add: divRoundUp_128)
  obtain mh m3 where mh: "FileHeader_Allocate FreeMapFileSize (hdr_junk g) m2 = Inr (True, mh, m3)" "header_ok mh" "header_repr mh" "numBytes mh = 128"
    "Bitmap_wf m3" "numBits m3 = 1024" "Bitmap_bits m3 = {0, 1} \<union> set (data mh)" "set (data mh) \<inter> {0, 1} = {}"
    using Allocate_ok [of m2 "hdr_junk g" FreeMapFileSize] m2 r n by (auto simp: FreeMapFileSize_def NumDirect_def)
  have "int (length (data mh)) = 1" using mh(2,4) header_okD(5) [OF mh(2)] n by (simp add: header_ok_def)
  then have "card (Bitmap_bits m3) \<le> 3" unfolding mh(7) using card_length [of "data mh"] card_Un_le [of "{0, 1}" "set (data mh)"] by simp
  then obtain dh m4 where dh: "FileHeader_Allocate DirectoryFileSize (hdr_junk g) m3 = Inr (True, dh, m4)" "header_ok dh" "header_repr dh" "numBytes dh = 200"
    "Bitmap_wf m4" "numBits m4 = 1024" "Bitmap_bits m4 = Bitmap_bits m3 \<union> set (data dh)" "set (data dh) \<inter> Bitmap_bits m3 = {}"
    using Allocate_ok [of m3 "hdr_junk g" DirectoryFileSize] mh(5,6) r n by (auto simp: DirectoryFileSize_def NumDirEntries_def NumDirect_def)
  have dis: "set (data dh) \<inter> {0, 1} = {}" "set (data dh) \<inter> set (data mh) = {}" using dh(8) unfolding mh(7) by blast+
  have bits: "Bitmap_bits m4 = {0, 1} \<union> set (data mh) \<union> set (data dh)" unfolding dh(7) mh(7) ..
  from format_writes [OF d g mh(2-4) dh(2-4) mh(8) dis dh(5,6) bits]
  obtain d1 d2 d3 d4 mf df where w: "FileHeader_WriteBack FreeMapSector mh d = Inr d1" "FileHeader_WriteBack DirectorySector dh d1 = Inr d2"
     "OpenFile_new FreeMapSector (type_junk g) d2 = Inr mf" "OpenFile_new DirectorySector (type_junk g) d2 = Inr df"
     "PersistentBitmap_WriteBack (buf_junk g) mf m4 d2 = Inr d3"
     "Directory_WriteBack (buf_junk g) df (Directory_new (dir_junk g) NumDirEntries) d3 = Inr d4"
     "\<forall>fs. freeMapFile fs = mf \<and> directoryFile fs = df \<longrightarrow> fs_ok fs d4 \<and> fs_files fs d4 = Map.empty"
    by (elim exE conjE) (rule that)
  have "format_disk g d = Inr (mf, df, d4)"
    using m0(1) m1(1) [folded FreeMapSector_def] m2(1) [folded DirectorySector_def] mh(1) dh(1) w(1-6)
    by (simp add: format_disk_def PersistentBitmap_new_def)
  then show ?thesis using w(7) by blast
qed

section \<open>The directory fills before the disk\<close>

lemma card_extent:
  assumes "file_ok fs d s"
  shows "card (extent d s) \<le> 31"
proof -
  have "length (data (hdr_on d s)) \<le> 30" using assms header_okD(3,5) [of "hdr_on d s"] by (simp add: file_ok_def)
  then show ?thesis using card_length [of "data (hdr_on d s)"] card_insert_le_m1 [of 31 "set (data (hdr_on d s))" s]
    by (simp add: extent_def)
qed

lemma card_system:
  assumes "system_ok fs d"
  shows "card (system_sectors fs) \<le> 5"
proof -
  note s = system_okD [OF assms]
  have "int (length (data (hdr (freeMapFile fs)))) = 1" "int (length (data (hdr (directoryFile fs)))) = 2"
    using s(2-5) header_okD(5) [OF s(2)] header_okD(5) [OF s(3)] by (simp_all add: header_ok_def divRoundUp_128)
  then have "card (set (data (hdr (freeMapFile fs)))) \<le> 1" "card (set (data (hdr (directoryFile fs)))) \<le> 2"
    using card_length [of "data (hdr (freeMapFile fs))"] card_length [of "data (hdr (directoryFile fs))"] by linarith+
  moreover have "card ({0, 1 :: int} \<union> A \<union> B) \<le> 2 + card A + card B" for A B
    using card_Un_le [of "{0, 1} \<union> A" B] card_Un_le [of "{0, 1}" A] by simp
  from this [of "set (data (hdr (freeMapFile fs)))" "set (data (hdr (directoryFile fs)))"]
  have "card (system_sectors fs) \<le> 2 + card (set (data (hdr (freeMapFile fs)))) + card (set (data (hdr (directoryFile fs))))"
    unfolding system_sectors_def .
  ultimately show ?thesis by linarith
qed

lemma ran_card: "finite (dom m) \<Longrightarrow> finite (ran m) \<and> card (ran m) \<le> card (dom m)"
proof -
  assume "finite (dom m)"
  moreover have "ran m = (\<lambda>k. the (m k)) ` dom m" by (force simp: ran_def dom_def image_iff)
  ultimately show ?thesis by (simp add: card_image_le)
qed

lemma enough_sectors:
  assumes ok: "fs_ok fs d"
  shows "free_sectors fs d \<ge> 1019 - 31 * int (card (dom (fs_files fs d)))"
proof -
  let ?E = "entries (dir_on fs d)"
  have r: "finite (ran ?E)" "card (ran ?E) \<le> card (dom (fs_files fs d))"
    using ran_card [of ?E] by (simp_all add: dom_fs_files)
  have "card (\<Union>s \<in> ran ?E. extent d s) \<le> (\<Sum>s \<in> ran ?E. card (extent d s))" using r(1) by (rule card_UN_le)
  also have "\<dots> \<le> of_nat (card (ran ?E)) * 31"
    using card_extent fs_okD(3) [OF ok] by (intro sum_bounded_above) auto
  also have "\<dots> \<le> card (dom (fs_files fs d)) * 31" using r(2) by simp
  finally have "card (\<Union>s \<in> ran ?E. extent d s) \<le> 31 * card (dom (fs_files fs d))" by simp
  moreover have "card (Bitmap_bits (map_on fs d)) \<le> card (system_sectors fs) + card (\<Union>s \<in> ran ?E. extent d s)"
    unfolding fs_okD(6) [OF ok] by (rule card_Un_le)
  ultimately show ?thesis using card_system [OF fs_okD(1) [OF ok]] by (simp add: free_sectors_def)
qed

lemma card_files: "fs_ok fs d \<Longrightarrow> card (dom (fs_files fs d)) \<le> 10"
  using card_dom_entries [OF fs_okD(2), of fs d] length_filter_le [of inUse "table (dir_on fs d)"]
  by (simp add: dom_fs_files dir_on_def table_of_bytes_def)

section \<open>Writing a file\<close>

text \<open>A change of the data sectors of one file changes the contents of that file only.\<close>

lemma fs_ok_data:
  assumes ok: "fs_ok fs d" and k: "entries (dir_on fs d) k = Some s" and d': "disk_ok d'" and a: "agree (set (data (hdr_on d s))) d d'"
  shows "fs_ok fs d'" and "fs_files fs d' = (fs_files fs d)(k \<mapsto> contents (hdr_on d s) d')" and "hdr_on d' s = hdr_on d s"
    and "entries (dir_on fs d') = entries (dir_on fs d)"
proof -
  let ?E = "entries (dir_on fs d)" and ?X = "set (data (hdr_on d s))"
  note S = system_okD [OF fs_okD(1) [OF ok]]
  have f: "file_ok fs d s" by (rule fs_okD(4) [OF ok k])
  have eq: "d' ! nat t = d ! nat t" if "0 \<le> t" "t \<notin> ?X" for t using a that by (simp add: agree_def)
  have sys: "t \<notin> ?X" if "t \<in> system_sectors fs" for t using f that by (auto simp: file_ok_def extent_def)
  have "hdr_on d' 0 = hdr_on d 0" "hdr_on d' 1 = hdr_on d 1"
    using eq [of 0] eq [of 1] sys [of 0] sys [of 1] by (simp_all add: hdr_on_def system_sectors_def)
  then have s': "system_ok fs d'" using fs_okD(1) [OF ok] d' unfolding system_ok_def by metis
  have c: "contents h d' = contents h d" if "set (data h) \<subseteq> system_sectors fs" "header_ok h" for h
    using that eq sys header_okD(7) [OF that(2)] by (intro contents_cong) (meson atLeastLessThan_iff subsetD)
  have "contents (hdr (directoryFile fs)) d' = contents (hdr (directoryFile fs)) d"
    "contents (hdr (freeMapFile fs)) d' = contents (hdr (freeMapFile fs)) d"
    using c [OF _ S(3)] c [OF _ S(2)] by (auto simp: system_sectors_def)
  then have on: "dir_on fs d' = dir_on fs d" "map_on fs d' = map_on fs d" by (simp_all add: dir_on_def map_on_def)
  then show "entries (dir_on fs d') = ?E" by simp
  have "s \<notin> ?X" "0 \<le> s" using f by (auto simp: file_ok_def)
  then show h: "hdr_on d' s = hdr_on d s" using eq by (simp add: hdr_on_def)
  then have x: "extent d' s = extent d s" by (simp add: extent_def)
  have other: "extent d' t = extent d t" "hdr_on d' t = hdr_on d t" "contents (hdr_on d' t) d' = contents (hdr_on d t) d"
    if "?E k' = Some t" "k' \<noteq> k" for k' t
  proof -
    have "extent d t \<inter> extent d s = {}" by (rule fs_okD(5) [OF ok that(2,1) k])
    then have "u \<notin> ?X" if "u \<in> extent d t" for u using that by (auto simp: extent_def)
    then have "d' ! nat u = d ! nat u" if "u \<in> extent d t" for u
      using eq extent_nonneg [OF fs_okD(4) [OF ok \<open>?E k' = Some t\<close>] that] that by blast
    from same_file [OF this] show "extent d' t = extent d t" "hdr_on d' t = hdr_on d t"
      "contents (hdr_on d' t) d' = contents (hdr_on d t) d" by simp_all
  qed
  have all: "extent d' t = extent d t \<and> hdr_on d' t = hdr_on d t" if "?E k' = Some t" for k' t
    using that other(1,2) [of k' t] k x h by (cases "k' = k") auto
  have ex: "extent d' t = extent d t" "file_ok fs d' t" if t: "t \<in> ran ?E" for t
  proof -
    obtain k' where k': "?E k' = Some t" using t by (auto simp: ran_def)
    show "extent d' t = extent d t" "file_ok fs d' t" using all [OF k'] fs_okD(4) [OF ok k'] by (simp_all add: file_ok_def)
  qed
  have un: "(\<Union>t \<in> ran ?E. extent d' t) = (\<Union>t \<in> ran ?E. extent d t)" using ex(1) by (intro SUP_cong refl)
  show "fs_ok fs d'" unfolding fs_ok_def on un
  proof (intro conjI allI impI ballI)
    fix k1 k2 t t' assume "k1 \<noteq> k2 \<and> ?E k1 = Some t \<and> ?E k2 = Some t'"
    then show "extent d' t \<inter> extent d' t' = {}" using fs_okD(5) [OF ok] all by metis
  qed (use s' fs_okD [OF ok] ex(2) in \<open>auto\<close>)
  show "fs_files fs d' = (fs_files fs d)(k \<mapsto> contents (hdr_on d s) d')"
  proof
    fix k' show "fs_files fs d' k' = ((fs_files fs d)(k \<mapsto> contents (hdr_on d s) d')) k'"
    proof (cases "k' = k")
      case True
      then show ?thesis using k h by (simp add: fs_files_def on)
    next
      case False
      then show ?thesis using other(3) by (cases "?E k'") (simp_all add: fs_files_def on)
    qed
  qed
qed

section \<open>Starting the file system\<close>

lemma Create_always:
  assumes "fs_ok fs d" and "garbage_ok g" and "0 \<le> initialSize" and "initialSize \<le> MaxFileSize"
    and "fs_files fs d (key nm) = None" and room: "card (dom (fs_files fs d)) < 10"
  shows "\<exists>d' bs. FileSystem_Create g nm initialSize fs d = Inr (True, d') \<and> fs_ok fs d' \<and> int (length bs) = initialSize \<and>
    fs_files fs d' = (fs_files fs d)(key nm \<mapsto> bs)"
proof (rule Create_ok [OF assms])
  have "divRoundUp initialSize 128 \<le> 30"
    using divRoundUp_bounds(2) [of initialSize 128] assms(3,4) by (simp add: MaxFileSize_def NumDirect_def)
  then show "1 + divRoundUp initialSize SectorSize \<le> free_sectors fs d"
    using enough_sectors [OF assms(1)] room by simp
qed

lemma open_standard_absent:
  assumes ok: "fs_ok fs d" and g: "garbage_ok g" and no: "fs_files fs d (key nm) = None"
    and t: "openf fs = replicate 15 None" "0 \<le> findex fs" "findex fs < 15"
  shows "open_standard g nm ty fs d = Inr (fs\<lparr>findex := findex fs + 1\<rparr>)"
proof -
  have "FindFreeSlot fs = 2" using t(1) by (simp add: FindFreeSlot_def numeral_eq_Suc)
  then have "FileSystem_Open_type g nm ty fs d = Inr (None, fs)"
    using fetch_directory_ok [OF fs_okD(1) [OF ok], of g] g dt.find_ok [OF fs_okD(2) [OF ok], of nm] no t(1)
    by (simp add: FileSystem_Open_type_def garbage_ok_def fs_files_def)
  moreover have "(openf fs)[nat (findex fs) := None] = openf fs"
    using list_update_id [of "openf fs" "nat (findex fs)"] t by (simp add: nat_less_iff)
  moreover have "length (openf fs) = 15" using t(1) by simp
  ultimately show ?thesis using t(2,3) by (cases fs) (simp add: open_standard_def)
qed

lemma fs_ok_cong:
  assumes "freeMapFile fs' = freeMapFile fs" and "directoryFile fs' = directoryFile fs"
  shows "fs_ok fs' d = fs_ok fs d" and "fs_files fs' d = fs_files fs d"
  using assms by (simp_all add: fs_ok_def system_ok_def file_ok_def system_sectors_def dir_on_def map_on_def fs_files_def fun_eq_iff)

lemma key_std: "key stdin_name = stdin_name" "key stdout_name = stdout_name" "stdin_name \<noteq> stdout_name"
  by (simp_all add: key_def FileNameMaxLen_def stdin_name_def stdout_name_def)

lemma FileSystem_new_format:
  assumes d: "disk_ok d" and g: "garbage_ok g"
  shows "\<exists>fs d'. FileSystem_new g True d = Inr (fs, d') \<and> fs_ok fs d' \<and>
    fs_files fs d' = [stdin_name \<mapsto> [], stdout_name \<mapsto> []] \<and> openf fs = replicate 15 None"
proof -
  obtain mf df d0 where f: "format_disk g d = Inr (mf, df, d0)"
    and ok: "\<And>fs. freeMapFile fs = mf \<Longrightarrow> directoryFile fs = df \<Longrightarrow> fs_ok fs d0 \<and> fs_files fs d0 = Map.empty"
    using format_disk_ok [OF d g] by blast
  let ?fs = "\<lparr>freeMapFile = mf, directoryFile = df, files = [], openf = replicate (nat MAX_FILE_OPEN) None, findex = 0\<rparr>"
  let ?fs2 = "?fs\<lparr>findex := 2\<rparr>"
  have o1: "open_standard g stdin_name 2 ?fs d0 = Inr (?fs\<lparr>findex := 1\<rparr>)"
    using open_standard_absent [of ?fs d0 g stdin_name 2] ok [of ?fs] g by (simp add: MAX_FILE_OPEN_def)
  have o2: "open_standard g stdout_name 3 (?fs\<lparr>findex := 1\<rparr>) d0 = Inr ?fs2"
    using open_standard_absent [of "?fs\<lparr>findex := 1\<rparr>" d0 g stdout_name 3] ok [of "?fs\<lparr>findex := 1\<rparr>"] g by (simp add: MAX_FILE_OPEN_def)
  have ok2: "fs_ok ?fs2 d0" "fs_files ?fs2 d0 = Map.empty" using ok [of ?fs2] by simp_all
  obtain d1 where d1: "FileSystem_Create g stdin_name 0 ?fs2 d0 = Inr (True, d1)" "fs_ok ?fs2 d1"
    "fs_files ?fs2 d1 = [stdin_name \<mapsto> []]"
    using Create_always [OF ok2(1) g, of 0 stdin_name] ok2(2) key_std by (auto simp: MaxFileSize_def NumDirect_def)
  obtain d2 where d2: "FileSystem_Create g stdout_name 0 ?fs2 d1 = Inr (True, d2)" "fs_ok ?fs2 d2"
    "fs_files ?fs2 d2 = [stdin_name \<mapsto> [], stdout_name \<mapsto> []]"
    using Create_always [OF d1(2) g, of 0 stdout_name] d1(3) key_std by (auto simp: MaxFileSize_def NumDirect_def)
  have "FileSystem_new g True d = Inr (?fs2, d2)"
    unfolding FileSystem_new_def if_True f rbind_Inr prod.case Let_def o1 o2 d1(1) d2(1) ..
  then show ?thesis using d2(2,3) by (intro exI [of _ ?fs2] exI [of _ d2]) (simp add: MAX_FILE_OPEN_def)
qed

section \<open>Properties\<close>

text \<open>An uninitialised memory, for the examples.\<close>

definition some_garbage :: garbage where
  "some_garbage = \<lparr>buf_junk = (\<lambda>_. 77), hdr_junk = \<lparr>numBytes = 3, numSectors = -4, dataSectors = replicate 30 9\<rparr>,
     dir_junk = (\<lambda>_. blank_entry 77), type_junk = 6\<rparr>"

lemma some_garbage_ok: "garbage_ok some_garbage"
  using blank_entry_wf by (simp add: garbage_ok_def some_garbage_def header_repr_def NumDirect_def)

text \<open>
  formatting a disk succeeds whatever the disk and the uninitialised memory held, and gives a
  consistent file system with the two empty files \<open>stdin\<close> and \<open>stdout\<close>. They are opened before
  they are created, so that after formatting no slot of the table of open files is set.
\<close>

theorem FileSystem_format_correct:
  assumes "disk_ok d" and "garbage_ok g"
  shows "\<exists>fs d'. FileSystem_new g True d = Inr (fs, d') \<and> fs_ok fs d' \<and>
    fs_files fs d' = [stdin_name \<mapsto> [], stdout_name \<mapsto> []] \<and> openf fs = replicate 15 None"
  by (rule FileSystem_new_format [OF assms])

theorem FileSystem_format_correct_witness:
  "\<exists>fs d'. FileSystem_new some_garbage True blank_disk = Inr (fs, d') \<and> fs_ok fs d' \<and> openf fs ! 0 = None"
  using FileSystem_format_correct [OF blank_disk_ok some_garbage_ok] by fastforce

text \<open>
  C8: on a consistent file system, \<open>Create\<close> of a file of at most \<open>MaxFileSize\<close> bytes succeeds
  exactly when no file has the same first nine characters and there are fewer than ten files
  (the directory fills long before the disk); it then adds exactly one file of the given size and
  keeps the file system consistent and every other file as it was. When it fails, the disk is
  unchanged.
\<close>

theorem FileSystem_Create_correct:
  assumes "fs_ok fs d" and "garbage_ok g" and "0 \<le> initialSize" and "initialSize \<le> MaxFileSize"
  shows "if fs_files fs d (key nm) = None \<and> card (dom (fs_files fs d)) < 10
    then \<exists>d' bs. FileSystem_Create g nm initialSize fs d = Inr (True, d') \<and> fs_ok fs d' \<and> int (length bs) = initialSize \<and>
      fs_files fs d' = (fs_files fs d)(key nm \<mapsto> bs)
    else FileSystem_Create g nm initialSize fs d = Inr (False, d)"
  using Create_always [OF assms, of nm] Create_fails [OF assms(1,2) _ assms(3), of nm] by (auto simp: not_less)

theorem FileSystem_Create_correct_witness:
  "\<exists>fs d d'. FileSystem_new some_garbage True blank_disk = Inr (fs, d) \<and>
     FileSystem_Create some_garbage [97, 98] 300 fs d = Inr (True, d') \<and> fs_ok fs d' \<and>
     dom (fs_files fs d') = {stdin_name, stdout_name, [97, 98]} \<and>
     FileSystem_Create some_garbage stdin_name 5 fs d = Inr (False, d)"
proof -
  obtain fs d where fs: "FileSystem_new some_garbage True blank_disk = Inr (fs, d)" "fs_ok fs d"
    "fs_files fs d = [stdin_name \<mapsto> [], stdout_name \<mapsto> []]"
    using FileSystem_new_format [OF blank_disk_ok some_garbage_ok] by blast
  have k: "key [97, 98] = [97, 98]" "[97, 98] \<noteq> stdin_name" "[97, 98] \<noteq> stdout_name"
    by (simp_all add: key_def FileNameMaxLen_def stdin_name_def stdout_name_def)
  have "card (dom (fs_files fs d)) < 10" using key_std(3) by (simp add: fs(3))
  with FileSystem_Create_correct [OF fs(2) some_garbage_ok, of 300 "[97, 98]"] k fs(3)
  obtain d' bs where d': "FileSystem_Create some_garbage [97, 98] 300 fs d = Inr (True, d')" "fs_ok fs d'"
    "fs_files fs d' = [stdin_name \<mapsto> [], stdout_name \<mapsto> [], [97, 98] \<mapsto> bs]"
    by (auto simp: MaxFileSize_def NumDirect_def)
  moreover have "FileSystem_Create some_garbage stdin_name 5 fs d = Inr (False, d)"
    using FileSystem_Create_correct [OF fs(2) some_garbage_ok, of 5 stdin_name] fs(3) key_std
    by (simp add: MaxFileSize_def NumDirect_def)
  ultimately show ?thesis using fs(1) by (intro exI [of _ fs] exI [of _ d] exI [of _ d']) auto
qed

text \<open>
  C9: \<open>Remove\<close> reports whether the file existed, deletes exactly that file, keeps the file system
  consistent, and frees exactly the sectors of its data and of its header.
\<close>

theorem FileSystem_Remove_correct:
  assumes "fs_ok fs d" and "garbage_ok g"
  shows "\<exists>d'. FileSystem_Remove g nm fs d = Inr (fs_files fs d (key nm) \<noteq> None, d') \<and> fs_ok fs d' \<and>
    fs_files fs d' = (fs_files fs d)(key nm := None) \<and>
    free_sectors fs d' = free_sectors fs d +
      (case fs_files fs d (key nm) of None \<Rightarrow> 0 | Some bs \<Rightarrow> 1 + divRoundUp (int (length bs)) SectorSize)"
proof (cases "entries (dir_on fs d) (key nm)")
  case None
  then show ?thesis using Remove_absent [OF assms, of nm] assms(1) by (simp add: fs_files_def fun_upd_idem)
next
  case (Some s)
  from Remove_ok [OF assms Some] obtain d' where d': "FileSystem_Remove g nm fs d = Inr (True, d')" "fs_ok fs d'"
    "fs_files fs d' = (fs_files fs d)(key nm := None)" "Bitmap_bits (map_on fs d') = Bitmap_bits (map_on fs d) - extent d s" by blast
  have f: "header_ok (hdr_on d s)" "s \<notin> set (data (hdr_on d s))" using fs_okD(4) [OF assms(1) Some] by (auto simp: file_ok_def)
  have "int (card (extent d s)) = 1 + numSectors (hdr_on d s)"
    using f header_okD(5,6) [OF f(1)] by (simp add: extent_def distinct_card)
  moreover have "numSectors (hdr_on d s) = divRoundUp (int (length (contents (hdr_on d s) d))) SectorSize"
    using length_contents [OF f(1) system_okD(1) [OF fs_okD(1) [OF assms(1)]]] f(1) by (simp add: header_ok_def)
  moreover have "extent d s \<subseteq> Bitmap_bits (map_on fs d)" by (rule extent_in_map [OF assms(1) Some])
  then have "int (card (Bitmap_bits (map_on fs d'))) = int (card (Bitmap_bits (map_on fs d))) - int (card (extent d s))"
    unfolding d'(4) using card_mono [of "Bitmap_bits (map_on fs d)" "extent d s"]
    by (simp add: card_Diff_subset finite_subset)
  ultimately show ?thesis using d'(1-3) Some by (simp add: fs_files_def free_sectors_def)
qed

theorem FileSystem_Remove_correct_witness:
  "\<exists>fs d d'. FileSystem_new some_garbage True blank_disk = Inr (fs, d) \<and>
     FileSystem_Remove some_garbage stdin_name fs d = Inr (True, d') \<and> fs_files fs d' = [stdout_name \<mapsto> []] \<and>
     free_sectors fs d' = free_sectors fs d + 1"
proof -
  obtain fs d where fs: "FileSystem_new some_garbage True blank_disk = Inr (fs, d)" "fs_ok fs d"
    "fs_files fs d = [stdin_name \<mapsto> [], stdout_name \<mapsto> []]"
    using FileSystem_new_format [OF blank_disk_ok some_garbage_ok] by blast
  then show ?thesis using FileSystem_Remove_correct [OF fs(2) some_garbage_ok, of stdin_name] key_std
    by (auto simp: divRoundUp_128 fun_upd_twist)
qed



text \<open>
  with all slots from 2 on taken, \<open>Open\<close> of a file with a type indexes the table of open files
  at -1, whether the file exists or not: \<open>FindFreeSlot\<close>'s failure is not checked.
\<close>

theorem FileSystem_Open_no_slot:
  assumes "fs_ok fs d" and "garbage_ok g" and "\<forall>p \<in> set (drop 2 (openf fs)). p \<noteq> None"
  shows "FindFreeSlot fs = -1 \<and> FileSystem_Open_type g nm ty fs d = Inl WildAccess"
proof -
  have "FindFreeSlot_from i ps = -1" if "\<forall>p \<in> set ps. p \<noteq> None" for i ps
    using that by (induction ps arbitrary: i) auto
  then have f: "FindFreeSlot fs = -1" using assms(3) by (simp add: FindFreeSlot_def)
  have "fetch_directory g fs d = Inr (dir_on fs d)" using fetch_directory_ok [OF fs_okD(1) [OF assms(1)]] assms(2) by (simp add: garbage_ok_def)
  moreover have "\<exists>e. OpenFile_new s ty d = Inr e" if "entries (dir_on fs d) (key nm) = Some s" for s
    using OpenFile_new_ok [OF system_okD(1) [OF fs_okD(1) [OF assms(1)]]] fs_okD(4) [OF assms(1) that] by (simp add: file_ok_def)
  ultimately show ?thesis
    using dt.find_ok [OF fs_okD(2) [OF assms(1)], of nm] f
    by (cases "entries (dir_on fs d) (key nm)") (auto simp: FileSystem_Open_type_def Let_def arr_get_def arr_set_def)
qed

theorem FileSystem_Open_no_slot_witness:
  "\<exists>fs d. FileSystem_new some_garbage True blank_disk = Inr (fs, d) \<and>
     FileSystem_Open_type some_garbage stdin_name 0 (fs\<lparr>openf := replicate 15 (Some 0)\<rparr>) d = Inl WildAccess"
proof -
  obtain fs d where fs: "FileSystem_new some_garbage True blank_disk = Inr (fs, d)" "fs_ok fs d"
    using FileSystem_new_format [OF blank_disk_ok some_garbage_ok] by blast
  have "fs_ok (fs\<lparr>openf := replicate 15 (Some 0)\<rparr>) d"
    using fs_ok_cong(1) [of "fs\<lparr>openf := replicate 15 (Some 0)\<rparr>" fs d] fs(2) by simp
  from FileSystem_Open_no_slot [OF this some_garbage_ok] show ?thesis using fs(1) by auto
qed

end
