(* ===== verification/Filesys_Copy.thy ===== *)
theory Filesys_Copy
  imports Userprog_Syscall Filesys_System
begin

text \<open>
  \<open>Copy\<close> and \<open>Print\<close> of \<open>threads/main.cc\<close>: a UNIX file copied into the file system on the
  simulated disk, and a file of that file system printed. They are in the build without
  \<open>FILESYS_STUB\<close>; the UNIX files are those of \<open>lib/sysdep.cc\<close>. Both loops are proved to end, and
  printing what was copied gives the bytes of the UNIX file.
\<close>

section \<open>Operations\<close>

definition TransferSize :: int where "TransferSize = 128"

text \<open>The number of bytes of a UNIX file behind the offset of a descriptor: every read takes some.\<close>

definition unread :: "nat \<Rightarrow> 'a sysenv_scheme \<Rightarrow> nat" where
  "unread fd m = (case fds m fd of None \<Rightarrow> 0 | Some e \<Rightarrow> nat (int (length (inodes m (inode e))) - offset e))"

lemma ReadPartial_less: "ReadPartial fd buffer n m = Inr (k, buffer1, m1) \<Longrightarrow> 0 < k \<Longrightarrow> unread fd m1 < unread fd m"
  by (auto simp: ReadPartial_def unread_def Let_def split: option.splits if_splits)

function Copy_loop ::
  "garbage \<Rightarrow> nat \<Rightarrow> byte list \<Rightarrow> OpenFile \<Rightarrow> 'a sysenv_scheme \<Rightarrow> disk \<Rightarrow> (OpenFile \<times> 'a sysenv_scheme \<times> disk) result" where
  "Copy_loop g fd buffer openFile m d =
     rbind (ReadPartial fd buffer TransferSize m) (\<lambda>(amountRead, buffer1, m1).
     if amountRead > 0 then
       rbind (OpenFile_Write (buf_junk g) (take (nat amountRead) buffer1) openFile d) (\<lambda>(_, openFile1, d1).
       Copy_loop g fd buffer1 openFile1 m1 d1)
     else Inr (openFile, m1, d))"
  by auto
termination by (relation "measure (\<lambda>(g, fd, buffer, f, m, d). unread fd m)") (auto dest: ReadPartial_less)

definition Copy ::
  "garbage \<Rightarrow> byte list \<Rightarrow> byte list \<Rightarrow> FileSystem \<Rightarrow> 'a sysenv_scheme \<Rightarrow> disk \<Rightarrow> ('a sysenv_scheme \<times> disk) result" where
  "Copy g from to fs m d =
     rbind (OpenForReadWrite from False m) (\<lambda>(fd, m1).
     case fd of
       None \<Rightarrow> Inr (m1, d)
     | Some fd \<Rightarrow>
         rbind (Lseek fd 0 2 m1) (\<lambda>m2.
         let fileLength = Tell fd m2 in
         rbind (Lseek fd 0 0 m2) (\<lambda>m3.
         rbind (FileSystem_Create g to fileLength fs d) (\<lambda>(created, d1).
         if \<not> created then rbind (Close fd m3) (\<lambda>m4. Inr (m4, d1))
         else
           rbind (FileSystem_Open g to fs d1) (\<lambda>openFile.
           case openFile of
             None \<Rightarrow> Inl Abort
           | Some openFile \<Rightarrow>
               rbind (new_chars TransferSize m3) (\<lambda>buffer.
               rbind (Copy_loop g fd buffer openFile m3 d1) (\<lambda>(_, m4, d2).
               rbind (Close fd m4) (\<lambda>m5. Inr (m5, d2)))))))))"

text \<open>The bytes \<open>Print\<close> shows, or nothing when the file cannot be opened.\<close>

lemma OpenFile_Read_less:
  "OpenFile_Read n f d = Inr (bs, f1) \<Longrightarrow> bs \<noteq> [] \<Longrightarrow>
     nat (FileLength (hdr f1) - seekPosition f1) < nat (FileLength (hdr f) - seekPosition f)"
  by (auto simp: OpenFile_Read_def OpenFile_ReadAt_def Let_def rbind_eq_Inr split: if_splits)

function Print_loop :: "OpenFile \<Rightarrow> disk \<Rightarrow> byte list result" where
  "Print_loop openFile d =
     rbind (OpenFile_Read TransferSize openFile d) (\<lambda>(bs, openFile1).
     if int (length bs) > 0 then rbind (Print_loop openFile1 d) (\<lambda>shown. Inr (bs @ shown)) else Inr [])"
  by auto
termination by (relation "measure (\<lambda>(f, d). nat (FileLength (hdr f) - seekPosition f))") (auto dest: OpenFile_Read_less)

definition Print :: "garbage \<Rightarrow> byte list \<Rightarrow> FileSystem \<Rightarrow> disk \<Rightarrow> byte list option result" where
  "Print g nm fs d =
     rbind (FileSystem_Open g nm fs d) (\<lambda>openFile.
     case openFile of None \<Rightarrow> Inr None | Some f \<Rightarrow> rbind (Print_loop f d) (\<lambda>shown. Inr (Some shown)))"

declare Copy_loop.simps [simp del] Print_loop.simps [simp del]

section \<open>The loops\<close>

lemma Print_loop_ok:
  assumes "header_ok (hdr f)" and "disk_ok d" and "0 \<le> seekPosition f"
  shows "Print_loop f d = Inr (drop (nat (seekPosition f)) (contents (hdr f) d))"
  using assms
proof (induction f d rule: Print_loop.induct)
  case (1 f d)
  let ?c = "drop (nat (seekPosition f)) (contents (hdr f) d)"
  let ?f = "f\<lparr>seekPosition := seekPosition f + int (length (take 128 ?c))\<rparr>"
  have r: "OpenFile_Read TransferSize f d = Inr (take 128 ?c, ?f)"
    using ReadAt_eq [OF 1(2-4), of TransferSize] by (simp add: OpenFile_Read_def TransferSize_def)
  show ?case
  proof (cases "?c = []")
    case True
    then show ?thesis using r by (subst Print_loop.simps) simp
  next
    case False
    then have "Print_loop ?f d = Inr (drop (nat (seekPosition ?f)) (contents (hdr ?f) d))"
      using 1(1) [OF r refl] 1(2-4) by simp
    moreover have "drop (nat (seekPosition ?f)) (contents (hdr ?f) d) = drop 128 ?c"
      using 1(4) by (auto simp: nat_add_distrib min_def ac_simps)
    ultimately have "Print_loop ?f d = Inr (drop 128 ?c)" by simp
    then show ?thesis using r False append_take_drop_id [of 128 ?c] by (subst Print_loop.simps) simp
  qed
qed

lemma overwrite_twice:
  assumes "p + length ys \<le> length xs"
  shows "overwrite (overwrite xs p ys) (p + length ys) zs = overwrite xs p (ys @ zs)"
  using assms by (simp add: overwrite_def ac_simps)

text \<open>A descriptor at offset \<open>p\<close> of the UNIX file number \<open>i\<close>.\<close>

abbreviation at_offset :: "nat \<Rightarrow> nat \<Rightarrow> nat \<Rightarrow> 'a sysenv_scheme \<Rightarrow> 'a sysenv_scheme" where
  "at_offset fd i p m \<equiv> m\<lparr>fds := (fds m)(fd \<mapsto> \<lparr>inode = i, offset = int p, writable = True\<rparr>)\<rparr>"

lemma ReadPartial_at:
  assumes "length buffer = 128" and "p \<le> length (inodes m i)"
  shows "\<exists>buffer1. ReadPartial fd buffer TransferSize (at_offset fd i p m) =
      Inr (int (length (take 128 (drop p (inodes m i)))), buffer1, at_offset fd i (p + length (take 128 (drop p (inodes m i)))) m) \<and>
    length buffer1 = 128 \<and> take (length (take 128 (drop p (inodes m i)))) buffer1 = take 128 (drop p (inodes m i))"
  using assms by (auto simp: ReadPartial_def TransferSize_def Let_def min_def)

lemma Copy_loop_ok:
  assumes "fs_ok fs d" and k: "entries (dir_on fs d) k = Some s" and "hdr f = hdr_on d s" and "seekPosition f = int p"
    and "length buffer = 128" and "p \<le> length (inodes m i)" and "int (length (inodes m i)) = numBytes (hdr_on d s)"
  shows "\<exists>f' d'. Copy_loop g fd buffer f (at_offset fd i p m) d = Inr (f', at_offset fd i (length (inodes m i)) m, d') \<and> fs_ok fs d' \<and>
    fs_files fs d' = (fs_files fs d)(k \<mapsto> overwrite (contents (hdr_on d s) d) p (drop p (inodes m i)))"
  using assms
proof (induction "length (inodes m i) - p" arbitrary: buffer f p d rule: less_induct)
  case less
  let ?bs = "take 128 (drop p (inodes m i))"
  obtain b where b: "ReadPartial fd buffer TransferSize (at_offset fd i p m) = Inr (int (length ?bs), b, at_offset fd i (p + length ?bs) m)"
    "length b = 128" "take (length ?bs) b = ?bs"
    using ReadPartial_at [OF less(6,7)] by blast
  have h: "header_ok (hdr f)" using fs_okD(4) [OF less(2,3)] less(4) by (simp add: file_ok_def)
  have d: "disk_ok d" by (rule system_okD(1) [OF fs_okD(1) [OF less(2)]])
  have len: "length (contents (hdr_on d s) d) = length (inodes m i)" using length_contents [OF h d] less(4,8) by simp
  have now: "(fs_files fs d)(k \<mapsto> contents (hdr_on d s) d) = fs_files fs d" using less(3) by (auto simp: fs_files_def)
  show ?case
  proof (cases "p = length (inodes m i)")
    case True
    then show ?thesis using b(1) less(2) len now by (subst Copy_loop.simps) (simp add: overwrite_def)
  next
    case False
    then have p: "p < length (inodes m i)" using less(7) by simp
    obtain d1 where w: "OpenFile_WriteAt (buf_junk g) ?bs (int p) f d = Inr (int (length ?bs), d1)" "disk_ok d1"
      "contents (hdr f) d1 = overwrite (contents (hdr f) d) p ?bs" "agree (set (data (hdr f))) d d1"
      using WriteAt_ok [OF h d, of "int p" "buf_junk g" ?bs] p less(4,8) by (auto simp: agree_def)
    note u = fs_ok_data [OF less(2,3) w(2) w(4) [unfolded less(4)]]
    let ?f = "f\<lparr>seekPosition := int (p + length ?bs)\<rparr>"
    have f1: "OpenFile_Write (buf_junk g) ?bs f d = Inr (int (length ?bs), ?f, d1)" using w(1) less(5) by (simp add: OpenFile_Write_def)
    have "\<exists>f' d'. Copy_loop g fd b ?f (at_offset fd i (p + length ?bs) m) d1 = Inr (f', at_offset fd i (length (inodes m i)) m, d') \<and> fs_ok fs d' \<and>
      fs_files fs d' = (fs_files fs d1)(k \<mapsto> overwrite (contents (hdr_on d1 s) d1) (p + length ?bs) (drop (p + length ?bs) (inodes m i)))"
      by (rule less(1)) (use p u less(3,4,8) b(2) in auto)
    moreover have "overwrite (contents (hdr_on d1 s) d1) (p + length ?bs) (drop (p + length ?bs) (inodes m i)) =
      overwrite (contents (hdr_on d s) d) p (drop p (inodes m i))"
    proof -
      have "drop p (inodes m i) = ?bs @ drop (p + length ?bs) (inodes m i)"
        using append_take_drop_id [of 128 "drop p (inodes m i)"] by (auto simp: min_def ac_simps)
      moreover have "p + length ?bs \<le> length (contents (hdr_on d s) d)" using p len by simp
      ultimately show ?thesis using overwrite_twice [of p ?bs "contents (hdr_on d s) d"] w(3) u(3) less(4) by metis
    qed
    ultimately show ?thesis using b(1,3) f1 u(2) p by (subst Copy_loop.simps) simp
  qed
qed

text \<open>A file that needs more sectors than a header names overruns the header.\<close>

lemma Create_overrun:
  assumes ok: "fs_ok fs d" and g: "garbage_ok g" and new: "fs_files fs d (key nm) = None" and room: "card (dom (fs_files fs d)) < 10"
    and big: "MaxFileSize < initialSize" and free: "1 + divRoundUp initialSize SectorSize \<le> free_sectors fs d"
  shows "FileSystem_Create g nm initialSize fs d = Inl WildAccess"
proof -
  let ?m = "map_on fs d" and ?dir = "dir_on fs d"
  note s = fs_okD(1) [OF ok]
  have g': "header_repr (hdr_junk g)" "\<forall>i. entry_wf (dir_junk g i)" using g by (auto simp: garbage_ok_def)
  have e: "entries ?dir (key nm) = None" using new by (simp add: fs_files_def)
  have wf: "Bitmap_wf ?m" by (rule map_on_wf [OF s])
  have pos: "0 \<le> initialSize" using big by (simp add: MaxFileSize_def NumDirect_def)
  then have "0 \<le> divRoundUp initialSize SectorSize" using divRoundUp_bounds(3) by simp
  then have "Bitmap_bits ?m \<noteq> {0..<numBits ?m}" using free by (intro bm.not_full [OF wf]) (simp add: free_sectors_def)
  then obtain sec m1 where sec: "Bitmap_FindAndSet ?m = Inr (sec, m1)" "0 \<le> sec" "sec < NumSectors" "sec \<notin> Bitmap_bits ?m"
    "Bitmap_wf m1" "numBits m1 = 1024" "Bitmap_bits m1 = insert sec (Bitmap_bits ?m)"
    using bm.take_free_ok [OF wf] by auto
  obtain dir' where dir': "Directory_Add nm sec ?dir = (True, dir')"
    using dt.add_ok [OF fs_okD(2) [OF ok] sec(2) _ e] sec(3) room by (auto simp: dom_fs_files)
  have over: "NumDirect < divRoundUp initialSize SectorSize"
    using divRoundUp_bounds(1) [of initialSize 128] pos big by (simp add: MaxFileSize_def NumDirect_def)
  have "divRoundUp initialSize SectorSize \<le> numBits m1 - int (card (Bitmap_bits m1))"
    using free sec(4,6,7) by (simp add: free_sectors_def)
  from Allocate_overrun [OF sec(5) _ over this, of "hdr_junk g"] show ?thesis
    using fetch_directory_ok [OF s g'(2)] dt.find_ok [OF fs_okD(2) [OF ok], of nm] e load_map_ok [OF s] sec(1,2) dir' g'(1)
    by (simp add: FileSystem_Create_def header_repr_def)
qed

section \<open>Properties\<close>

lemma Print_ok:
  assumes "fs_ok fs d" and "garbage_ok g"
  shows "Print g nm fs d = Inr (fs_files fs d (key nm))"
proof (cases "entries (dir_on fs d) (key nm)")
  case None
  then show ?thesis using Open_ok [OF assms, of nm] by (simp add: Print_def fs_files_def)
next
  case (Some s)
  let ?f = "\<lparr>hdr = hdr_on d s, seekPosition = 0, type = type_junk g\<rparr>"
  have "Print_loop ?f d = Inr (contents (hdr_on d s) d)"
    using Print_loop_ok [of ?f d] fs_okD(4) [OF assms(1) Some] system_okD(1) [OF fs_okD(1) [OF assms(1)]] by (simp add: file_ok_def)
  then show ?thesis using Open_ok [OF assms, of nm] Some by (simp add: Print_def fs_files_def)
qed

text \<open>The host after a \<open>Copy\<close>: one descriptor was opened and closed again.\<close>

definition after_Copy :: "'a sysenv_scheme \<Rightarrow> 'a sysenv_scheme" where
  "after_Copy m = m\<lparr>brk_host := brk_host m + 1, fds := (fds m)(brk_host m := None)\<rparr>"

lemma Copy_start:
  fixes m :: "'a sysenv_scheme"
  assumes i: "names m from = Some i"
  defines "m1 \<equiv> m\<lparr>brk_host := brk_host m + 1\<rparr>" and "fd \<equiv> brk_host m"
  shows "Copy g from to fs m d =
     rbind (FileSystem_Create g to (int (length (inodes m i))) fs d) (\<lambda>(created, d1).
     if \<not> created then Inr (after_Copy m, d1)
     else
       rbind (FileSystem_Open g to fs d1) (\<lambda>openFile.
       case openFile of
         None \<Rightarrow> Inl Abort
       | Some openFile \<Rightarrow>
           rbind (new_chars TransferSize m) (\<lambda>buffer.
           rbind (Copy_loop g fd buffer openFile (at_offset fd i 0 m1) d1) (\<lambda>(_, m4, d2).
           rbind (Close fd m4) (\<lambda>m5. Inr (m5, d2))))))"
proof -
  have o: "OpenForReadWrite from False m = Inr (Some fd, at_offset fd i 0 m1)"
    using i by (simp add: OpenForReadWrite_def open_existing_def new_fd_def m1_def fd_def)
  let ?m = "at_offset fd i (length (inodes m i)) m1"
  have l: "Lseek fd 0 2 (at_offset fd i 0 m1) = Inr ?m" "Tell fd ?m = int (length (inodes m i))"
    "Lseek fd 0 0 ?m = Inr (at_offset fd i 0 m1)" "Close fd (at_offset fd i 0 m1) = Inr (after_Copy m)"
    "new_chars TransferSize (at_offset fd i 0 m1) = new_chars TransferSize m"
    by (simp_all add: Lseek_def Tell_def Close_def after_Copy_def new_chars_def m1_def fd_def)
  show ?thesis by (simp only: Copy_def o l Let_def rbind_Inr prod.case option.case cong: if_cong option.case_cong)
qed

lemma Copy_cases:
  assumes ok: "fs_ok fs d" and g: "garbage_ok g"
  shows "case names m from of
      None \<Rightarrow> Copy g from to fs m d = Inr (m, d)
    | Some i \<Rightarrow>
        (if fs_files fs d (key to) \<noteq> None \<or> 10 \<le> card (dom (fs_files fs d)) then Copy g from to fs m d = Inr (after_Copy m, d)
         else if int (length (inodes m i)) \<le> MaxFileSize then
           \<exists>d'. Copy g from to fs m d = Inr (after_Copy m, d') \<and> fs_ok fs d' \<and>
             fs_files fs d' = (fs_files fs d)(key to \<mapsto> inodes m i) \<and> Print g to fs d' = Inr (Some (inodes m i))
         else free_sectors fs d < 1 + divRoundUp (int (length (inodes m i))) SectorSize \<or> Copy g from to fs m d = Inl WildAccess)"
proof (cases "names m from")
  case None
  then show ?thesis by (simp add: Copy_def OpenForReadWrite_def open_existing_def)
next
  case (Some i)
  let ?n = "int (length (inodes m i))"
  note start = Copy_start [OF Some, of g to fs d]
  have taken: "Copy g from to fs m d = Inr (after_Copy m, d)" if no: "fs_files fs d (key to) \<noteq> None \<or> 10 \<le> card (dom (fs_files fs d))"
  proof -
    have "FileSystem_Create g to ?n fs d = Inr (False, d)" by (rule Create_fails [OF ok g]) (use no in auto)
    then show ?thesis by (simp add: start)
  qed
  have big: "Copy g from to fs m d = Inl WildAccess"
    if "fs_files fs d (key to) = None" "card (dom (fs_files fs d)) < 10" "MaxFileSize < ?n" "1 + divRoundUp ?n SectorSize \<le> free_sectors fs d"
    using Create_overrun [OF ok g that] by (simp add: start)
  have copied: "\<exists>d'. Copy g from to fs m d = Inr (after_Copy m, d') \<and> fs_ok fs d' \<and>
      fs_files fs d' = (fs_files fs d)(key to \<mapsto> inodes m i) \<and> Print g to fs d' = Inr (Some (inodes m i))"
    if new: "fs_files fs d (key to) = None" "card (dom (fs_files fs d)) < 10" and n: "?n \<le> MaxFileSize"
  proof -
    obtain d1 bs where d1: "FileSystem_Create g to ?n fs d = Inr (True, d1)" "fs_ok fs d1" "int (length bs) = ?n"
      "fs_files fs d1 = (fs_files fs d)(key to \<mapsto> bs)"
      using Create_always [OF ok g _ n new] by auto
    from d1(4) obtain s where s: "entries (dir_on fs d1) (key to) = Some s" "contents (hdr_on d1 s) d1 = bs"
      by (auto simp: fs_files_def fun_eq_iff dest!: spec [of _ "key to"])
    have h: "header_ok (hdr_on d1 s)" using fs_okD(4) [OF d1(2) s(1)] by (simp add: file_ok_def)
    have nb: "numBytes (hdr_on d1 s) = ?n" using length_contents [OF h system_okD(1) [OF fs_okD(1) [OF d1(2)]]] s(2) d1(3) by simp
    let ?f = "\<lparr>hdr = hdr_on d1 s, seekPosition = 0, type = type_junk g\<rparr>" and ?b = "map (junk m) [0..<128]"
    let ?m = "m\<lparr>brk_host := brk_host m + 1\<rparr>"
    from Copy_loop_ok [OF d1(2) s(1), of ?f 0 ?b ?m i g "brk_host m"] nb obtain f' d' where
      l: "Copy_loop g (brk_host m) ?b ?f (at_offset (brk_host m) i 0 ?m) d1 = Inr (f', at_offset (brk_host m) i (length (inodes m i)) ?m, d')"
      "fs_ok fs d'" "fs_files fs d' = (fs_files fs d1)(key to \<mapsto> overwrite bs 0 (inodes m i))"
      using s(2) by auto
    have "overwrite bs 0 (inodes m i) = inodes m i" using d1(3) by (simp add: overwrite_def)
    then have f: "fs_files fs d' = (fs_files fs d)(key to \<mapsto> inodes m i)" using l(3) d1(4) by simp
    have "new_chars TransferSize m = Inr ?b" by (simp add: new_chars_def TransferSize_def)
    then have "Copy g from to fs m d = Inr (after_Copy m, d')"
      using d1(1) Open_ok [OF d1(2) g, of to] s(1) l(1) by (simp add: start Close_def after_Copy_def)
    then show ?thesis using l(2) f Print_ok [OF l(2) g, of to] by simp
  qed
  show ?thesis using Some taken big copied by (simp add: not_less not_le) linarith
qed

text \<open>
  C36: \<open>Copy\<close> ends for every UNIX file. When there is no such file, when a file
  with the same first nine characters exists or when the directory is full, it leaves the disk as it
  was. Otherwise it adds exactly one file to the file system, with the bytes of the UNIX file,
  keeps every other file and the consistency of the disk, changes no UNIX file and closes the
  descriptor it opened; and \<open>Print\<close> then shows exactly those bytes. A UNIX file above
  \<open>MaxFileSize\<close> bytes writes past the end of the file header.
\<close>

theorem Copy_Print:
  assumes ok: "fs_ok fs d" and g: "garbage_ok g"
  shows "case names m from of
      None \<Rightarrow> Copy g from to fs m d = Inr (m, d)
    | Some i \<Rightarrow>
        (if fs_files fs d (key to) \<noteq> None \<or> 10 \<le> card (dom (fs_files fs d)) then Copy g from to fs m d = Inr (after_Copy m, d)
         else if int (length (inodes m i)) \<le> MaxFileSize then
           \<exists>d'. Copy g from to fs m d = Inr (after_Copy m, d') \<and> fs_ok fs d' \<and>
             fs_files fs d' = (fs_files fs d)(key to \<mapsto> inodes m i) \<and> Print g to fs d' = Inr (Some (inodes m i))
         else free_sectors fs d < 1 + divRoundUp (int (length (inodes m i))) SectorSize \<or> Copy g from to fs m d = Inl WildAccess)"
  by (rule Copy_cases [OF assms])

theorem Copy_Print_witness:
  "\<exists>fs d d'. FileSystem_new some_garbage True blank_disk = Inr (fs, d) \<and>
     Copy some_garbage [120] [97, 98] fs (boot_sys\<lparr>names := [[120] \<mapsto> 3], inodes := (\<lambda>_. [])(3 := replicate 300 7)\<rparr>) d =
       Inr (after_Copy (boot_sys\<lparr>names := [[120] \<mapsto> 3], inodes := (\<lambda>_. [])(3 := replicate 300 7)\<rparr>), d') \<and>
     Print some_garbage [97, 98] fs d' = Inr (Some (replicate 300 7))"
proof -
  obtain fs d where fs: "FileSystem_new some_garbage True blank_disk = Inr (fs, d)" "fs_ok fs d"
    "fs_files fs d = [stdin_name \<mapsto> [], stdout_name \<mapsto> []]"
    using FileSystem_new_format [OF blank_disk_ok some_garbage_ok] by blast
  have k: "key [97, 98] = [97, 98]" "[97, 98] \<noteq> stdin_name" "[97, 98] \<noteq> stdout_name"
    by (simp_all add: key_def FileNameMaxLen_def stdin_name_def stdout_name_def)
  let ?m = "boot_sys\<lparr>names := [[120] \<mapsto> 3], inodes := (\<lambda>_. [])(3 := replicate 300 7)\<rparr>"
  have "card (dom (fs_files fs d)) < 10" using key_std(3) by (simp add: fs(3))
  then show ?thesis
    using Copy_Print [OF fs(2) some_garbage_ok, of "[120]" "[97, 98]" ?m] k fs(1,3) by (auto simp: MaxFileSize_def NumDirect_def)
qed

end
