(* ===== verification/Threads_Main.thy ===== *)
theory Threads_Main
  imports Threads_Options Filesys_Copy
begin

text \<open>
  \<open>threads/main.cc\<close> in the build without \<open>FILESYS_STUB\<close>: from the words of the command line to
  the files on the simulated disk. The program reads its options, makes or mounts the file
  system, and removes, copies, lists and prints files. The tests and the user program, which
  \<open>main\<close> runs before and after, are left out here, and so is the dump of the disk, which only
  prints. The theorems follow a file through two runs of Nachos.
\<close>

section \<open>The file commands of main\<close>

definition main_files ::
  "garbage \<Rightarrow> main_options \<Rightarrow> FileSystem \<Rightarrow> 'a sysenv_scheme \<Rightarrow> disk \<Rightarrow>
   (byte list list option \<times> byte list option \<times> 'a sysenv_scheme \<times> disk) result" where
  "main_files g opts fs m d =
     rbind (case removeFileName opts of
              None \<Rightarrow> Inr d
            | Some nm \<Rightarrow> rbind (FileSystem_Remove g nm fs d) (\<lambda>(_, d1). Inr d1)) (\<lambda>d1.
     rbind (case (copyUnixFileName opts, copyNachosFileName opts) of
              (Some u, Some nm) \<Rightarrow> Copy g u nm fs m d1
            | _ \<Rightarrow> Inr (m, d1)) (\<lambda>(m2, d2).
     rbind (if dirListFlag opts then rbind (FileSystem_List g fs d2) (\<lambda>l. Inr (Some l)) else Inr None) (\<lambda>listed.
     rbind (case printFileName opts of None \<Rightarrow> Inr None | Some nm \<Rightarrow> Print g nm fs d2) (\<lambda>shown.
     Inr (listed, shown, m2, d2)))))"

definition main_disk ::
  "(byte list \<Rightarrow> rat) \<Rightarrow> garbage \<Rightarrow> byte list list \<Rightarrow> 'a sysenv_scheme \<Rightarrow> disk \<Rightarrow>
   (FileSystem \<times> byte list list option \<times> byte list option \<times> 'a sysenv_scheme \<times> disk) result" where
  "main_disk atof g argv m d =
     rbind (main_args False (drop 1 argv) main_defaults) (\<lambda>opts.
     rbind (Kernel_new atof False argv) (\<lambda>ko.
     rbind (FileSystem_new g (formatFlag ko) d) (\<lambda>(fs, d1).
     rbind (main_files g opts fs m d1) (\<lambda>(listed, shown, m1, d2). Inr (fs, listed, shown, m1, d2)))))"

section \<open>Mounting\<close>

lemma fs_ok_hdr:
  assumes "hdr (freeMapFile fs') = hdr (freeMapFile fs)" and "hdr (directoryFile fs') = hdr (directoryFile fs)"
  shows "fs_ok fs' d = fs_ok fs d" and "fs_files fs' d = fs_files fs d"
  using assms by (simp_all add: fs_ok_def system_ok_def file_ok_def system_sectors_def dir_on_def map_on_def fs_files_def fun_eq_iff)

lemma open_standard_ok:
  assumes ok: "fs_ok fs d" and g: "garbage_ok g" and n: "fs_files fs d (key nm) \<noteq> None"
    and slots: "length (openf fs) = 15" "0 \<le> findex fs" "findex fs < 15" "2 \<le> FindFreeSlot fs" "FindFreeSlot fs < 15"
  shows "\<exists>f. open_standard g nm ty fs d =
    Inr (fs\<lparr>files := files fs @ [f], openf := (openf fs)[nat (FindFreeSlot fs) := Some (length (files fs)), nat (findex fs) := Some (length (files fs))],
           findex := findex fs + 1\<rparr>)"
proof -
  obtain s where s: "entries (dir_on fs d) (key nm) = Some s" using n by (auto simp: fs_files_def)
  have "0 \<le> s" "s < NumSectors" using fs_okD(4) [OF ok s] by (auto simp: file_ok_def)
  then have f: "OpenFile_new s ty d = Inr \<lparr>hdr = hdr_on d s, seekPosition = 0, type = ty\<rparr>"
    using OpenFile_new_ok [OF system_okD(1) [OF fs_okD(1) [OF ok]]] by blast
  have "fetch_directory g fs d = Inr (dir_on fs d)" using fetch_directory_ok [OF fs_okD(1) [OF ok]] g by (simp add: garbage_ok_def)
  then have "FileSystem_Open_type g nm ty fs d = Inr (Some (length (files fs)),
      fs\<lparr>files := files fs @ [\<lparr>hdr = hdr_on d s, seekPosition = 0, type = ty\<rparr>],
         openf := (openf fs)[nat (FindFreeSlot fs) := Some (length (files fs))]\<rparr>)"
    using dt.find_ok [OF fs_okD(2) [OF ok], of nm] s \<open>0 \<le> s\<close> f slots by (simp add: FileSystem_Open_type_def Let_def nat_less_iff)
  then show ?thesis
    by (intro exI [of _ "\<lparr>hdr = hdr_on d s, seekPosition = 0, type = ty\<rparr>"]) (use slots in \<open>simp add: open_standard_def\<close>)
qed

lemma FileSystem_new_mount:
  assumes ok: "fs_ok fs d" and g: "garbage_ok g" and std: "fs_files fs d stdin_name \<noteq> None" "fs_files fs d stdout_name \<noteq> None"
  shows "\<exists>fs'. FileSystem_new g False d = Inr (fs', d) \<and> fs_ok fs' d \<and> fs_files fs' d = fs_files fs d \<and>
    openf fs' = [Some 0, Some 1, Some 0, Some 1] @ replicate 11 None"
proof -
  have d: "disk_ok d" "hdr_on d 0 = hdr (freeMapFile fs)" "hdr_on d 1 = hdr (directoryFile fs)"
    using fs_okD(1) [OF ok] by (simp_all add: system_ok_def)
  define mf df where "mf = \<lparr>hdr = hdr_on d 0, seekPosition = 0, type = type_junk g\<rparr>"
    and "df = \<lparr>hdr = hdr_on d 1, seekPosition = 0, type = type_junk g\<rparr>"
  have mount: "mount_disk g d = Inr (mf, df, d)"
    using OpenFile_new_ok [OF d(1)] by (simp add: mount_disk_def FreeMapSector_def DirectorySector_def mf_def df_def)
  have any: "fs_ok fs1 d" "fs_files fs1 d = fs_files fs d" if "freeMapFile fs1 = mf" "directoryFile fs1 = df" for fs1
    using fs_ok_hdr [of fs1 fs d] that d(2,3) ok by (simp_all add: mf_def df_def)
  let ?fs = "\<lparr>freeMapFile = mf, directoryFile = df, files = [], openf = replicate (nat MAX_FILE_OPEN) None, findex = 0\<rparr>"
  have "FindFreeSlot ?fs = 2" by (simp add: FindFreeSlot_def MAX_FILE_OPEN_def numeral_eq_Suc)
  then obtain f0 where o1: "open_standard g stdin_name 2 ?fs d =
      Inr (?fs\<lparr>files := [f0], openf := [Some 0, None, Some 0] @ replicate 12 None, findex := 1\<rparr>)"
    using open_standard_ok [OF any(1) g, of ?fs stdin_name 2] any(2) [of ?fs] std key_std
    by (auto simp: MAX_FILE_OPEN_def numeral_eq_Suc)
  let ?fs1 = "?fs\<lparr>files := [f0], openf := [Some 0, None, Some 0] @ replicate 12 None, findex := 1\<rparr>"
  have "FindFreeSlot ?fs1 = 3" by (simp add: FindFreeSlot_def numeral_eq_Suc)
  then obtain f1 where o2: "open_standard g stdout_name 3 ?fs1 d =
      Inr (?fs1\<lparr>files := [f0, f1], openf := [Some 0, Some 1, Some 0, Some 1] @ replicate 11 None, findex := 2\<rparr>)"
    using open_standard_ok [OF any(1) g, of ?fs1 stdout_name 3] any(2) [of ?fs1] std key_std
    by (auto simp: numeral_eq_Suc)
  define fs2 where "fs2 = ?fs1\<lparr>files := [f0, f1], openf := [Some 0, Some 1, Some 0, Some 1] @ replicate 11 None, findex := 2\<rparr>"
  have ok2: "fs_ok fs2 d" "fs_files fs2 d = fs_files fs d" using any [of fs2] by (simp_all add: fs2_def)
  have c: "FileSystem_Create g stdin_name 0 fs2 d = Inr (False, d)" "FileSystem_Create g stdout_name 0 fs2 d = Inr (False, d)"
    using Create_fails [OF ok2(1) g, of stdin_name 0] Create_fails [OF ok2(1) g, of stdout_name 0] std key_std ok2(2) by simp_all
  have "FileSystem_new g False d = Inr (fs2, d)"
    unfolding FileSystem_new_def if_False mount rbind_Inr prod.case Let_def o1 o2 fs2_def [symmetric] c ..
  then show ?thesis using ok2 by (intro exI [of _ fs2]) (simp add: fs2_def)
qed

section \<open>Properties\<close>

lemma main_disk_words:
  assumes "\<forall>c \<in> set cs. plain_args c"
  shows "main_disk atof g (prog # concat (map cmd_words cs)) m d =
     rbind (FileSystem_new g (formatFlag (fold (kernel_sets atof) cs kernel_defaults)) d) (\<lambda>(fs, d1).
     rbind (main_files g (fold main_sets cs main_defaults) fs m d1) (\<lambda>(listed, shown, m1, d2). Inr (fs, listed, shown, m1, d2)))"
  using args_cmds(1) [OF assms, of "[]" main_defaults] args_cmds(2) [OF assms, of atof "[]" kernel_defaults]
  by (simp add: main_disk_def Kernel_new_def)

text \<open>
  C11: a file survives. Whatever the disk and the uninitialised memory hold, \<open>nachos -f -cp u n\<close>
  makes a consistent file system that has, besides the empty files \<open>stdin\<close> and \<open>stdout\<close>, exactly one
  file, with the bytes of the UNIX file; and a later run of \<open>nachos -p n\<close> on that disk, with
  other contents of the uninitialised memory, prints exactly these bytes and leaves the disk as it
  was. A third run, \<open>nachos -r n -p n\<close>, removes the file and prints nothing.
\<close>

theorem file_survives_restart:
  assumes d: "disk_ok d" and g: "garbage_ok g" "garbage_ok g'" and u: "names m u = Some i"
    and size: "int (length (inodes m i)) \<le> MaxFileSize"
    and w: "u \<notin> option_words" "nm \<notin> option_words" and nm: "key nm \<noteq> stdin_name" "key nm \<noteq> stdout_name"
  shows "\<exists>fs d'. main_disk atof g [prog, ascii ''-f'', ascii ''-cp'', u, nm] m d = Inr (fs, None, None, after_Copy m, d') \<and>
    fs_ok fs d' \<and> fs_files fs d' = [stdin_name \<mapsto> [], stdout_name \<mapsto> [], key nm \<mapsto> inodes m i] \<and>
    (\<exists>fs'. main_disk atof g' [prog, ascii ''-p'', nm] m' d' = Inr (fs', None, Some (inodes m i), m', d')) \<and>
    (\<exists>fs' d''. main_disk atof g' [prog, ascii ''-r'', nm, ascii ''-p'', nm] m' d' = Inr (fs', None, None, m', d'') \<and>
       fs_ok fs' d'' \<and> fs_files fs' d'' = [stdin_name \<mapsto> [], stdout_name \<mapsto> []])"
proof -
  obtain fs d0 where fs: "FileSystem_new g True d = Inr (fs, d0)" "fs_ok fs d0" "fs_files fs d0 = [stdin_name \<mapsto> [], stdout_name \<mapsto> []]"
    using FileSystem_new_format [OF d g(1)] by blast
  have "card (dom (fs_files fs d0)) < 10" using key_std(3) by (simp add: fs(3))
  then obtain d' where c: "Copy g u nm fs m d0 = Inr (after_Copy m, d')" "fs_ok fs d'"
    "fs_files fs d' = [stdin_name \<mapsto> [], stdout_name \<mapsto> [], key nm \<mapsto> inodes m i]"
    using Copy_cases [OF fs(2) g(1), of u nm m] u size nm fs(3) by auto
  have std: "fs_files fs d' stdin_name \<noteq> None" "fs_files fs d' stdout_name \<noteq> None" using c(3) by auto
  obtain fs' where fs': "FileSystem_new g' False d' = Inr (fs', d')" "fs_ok fs' d'" "fs_files fs' d' = fs_files fs d'"
    using FileSystem_new_mount [OF c(2) g(2) std] by blast
  obtain d'' where r: "FileSystem_Remove g' nm fs' d' = Inr (True, d'')" "fs_ok fs' d''"
    "fs_files fs' d'' = [stdin_name \<mapsto> [], stdout_name \<mapsto> []]"
  proof -
    obtain s where "entries (dir_on fs' d') (key nm) = Some s" using fs'(3) c(3) by (auto simp: fs_files_def fun_eq_iff dest!: spec [of _ "key nm"])
    from Remove_ok [OF fs'(2) g(2) this] obtain d'' where
      "FileSystem_Remove g' nm fs' d' = Inr (True, d'')" "fs_ok fs' d''" "fs_files fs' d'' = (fs_files fs' d')(key nm := None)" by blast
    moreover have "(fs_files fs' d')(key nm := None) = [stdin_name \<mapsto> [], stdout_name \<mapsto> []]" using fs'(3) c(3) nm by (auto simp: fun_eq_iff)
    ultimately show ?thesis using that by simp
  qed
  have p1: "\<forall>c \<in> set [CmdFormat, CmdCopy u nm]. plain_args c" and p2: "\<forall>c \<in> set [CmdPrint nm]. plain_args c"
    and p3: "\<forall>c \<in> set [CmdRemove nm, CmdPrint nm]. plain_args c" using w by (simp_all add: plain_args_def)
  have "main_disk atof g [prog, ascii ''-f'', ascii ''-cp'', u, nm] m d = Inr (fs, None, None, after_Copy m, d')"
    using main_disk_words [OF p1, of atof g prog m d] fs(1) c(1) by (simp add: main_files_def main_defaults_def)
  moreover have "main_disk atof g' [prog, ascii ''-p'', nm] m' d' = Inr (fs', None, Some (inodes m i), m', d')"
    using main_disk_words [OF p2, of atof g' prog m' d'] fs'(1,3) Print_ok [OF fs'(2) g(2), of nm] c(3)
    by (simp add: main_files_def main_defaults_def kernel_defaults_def)
  moreover have "main_disk atof g' [prog, ascii ''-r'', nm, ascii ''-p'', nm] m' d' = Inr (fs', None, None, m', d'')"
    using main_disk_words [OF p3, of atof g' prog m' d'] fs'(1) r Print_ok [OF r(2) g(2), of nm] nm
    by (simp add: main_files_def main_defaults_def kernel_defaults_def)
  ultimately show ?thesis using c r by blast
qed

theorem file_survives_restart_witness:
  "\<exists>fs d' fs'. main_disk (\<lambda>_. 1) some_garbage [[110], ascii ''-f'', ascii ''-cp'', [120], [97, 98]]
       (boot_sys\<lparr>names := [[120] \<mapsto> 3], inodes := (\<lambda>_. [])(3 := replicate 300 7)\<rparr>) blank_disk =
     Inr (fs, None, None, after_Copy (boot_sys\<lparr>names := [[120] \<mapsto> 3], inodes := (\<lambda>_. [])(3 := replicate 300 7)\<rparr>), d') \<and>
   main_disk (\<lambda>_. 1) some_garbage [[110], ascii ''-p'', [97, 98]] boot_sys d' = Inr (fs', None, Some (replicate 300 7), boot_sys, d')"
proof -
  let ?m = "boot_sys\<lparr>names := [[120] \<mapsto> 3], inodes := (\<lambda>_. [])(3 := replicate 300 7)\<rparr>"
  have k: "key [97, 98] \<noteq> stdin_name" "key [97, 98] \<noteq> stdout_name"
    by (simp_all add: key_def FileNameMaxLen_def stdin_name_def stdout_name_def)
  have w: "[120] \<notin> option_words" "[97, 98] \<notin> option_words" by (auto simp: option_words_def ascii_def of_char_def)
  show ?thesis
    using file_survives_restart [OF blank_disk_ok some_garbage_ok some_garbage_ok, of ?m "[120]" 3, OF _ _ w k, of "\<lambda>_. 1" "[110]" boot_sys]
    by (auto simp: MaxFileSize_def NumDirect_def)
qed

end
