(* ===== verification/Filesys_SynchDisk.thy ===== *)
theory Filesys_SynchDisk
  imports Machine_Disk
begin

text \<open>
  \<open>filesys/synchdisk.h\<close>, \<open>synchdisk.cc\<close>: the synchronous disk on top of the device of
  \<open>Machine_Disk\<close>, with its lock, its semaphore and the device's interrupt.

  The file system of \<open>Filesys_File\<close> and above sees a disk as an array of sectors on which
  \<open>ReadSector\<close> and \<open>WriteSector\<close> act at once. The theory shows that this is what \<open>SynchDisk\<close>
  gives, whatever other threads ask for meanwhile. The semaphore appears by its value and the
  lock as a flag, a call that has to wait gives \<open>Diverges\<close>, and the two methods are cut where they
  wait for the interrupt. The disk is the only device, and \<open>()\<close> is its callback object.
\<close>

section \<open>State and operations\<close>

record dio = "unit interrupt" +
  theDisk :: Disk
  diskLock :: bool
  diskSem :: nat

definition SynchDisk_CallBack :: "'a dio_scheme \<Rightarrow> 'a dio_scheme result" where
  "SynchDisk_CallBack k = Inr (k\<lparr>diskSem := diskSem k + 1\<rparr>)"

definition SynchDisk_new :: "int \<Rightarrow> 'a dio_scheme \<Rightarrow> 'a dio_scheme result" where
  "SynchDisk_new hostName k =
     rbind (Disk_new hostName (k\<lparr>diskSem := 0, diskLock := False\<rparr>)) (\<lambda>(d, k1). Inr (k1\<lparr>theDisk := d\<rparr>))"

definition disk_interrupt :: "unit \<Rightarrow> 'a dio_scheme \<Rightarrow> 'a dio_scheme result" where
  "disk_interrupt _ k = rbind (Disk_CallBack SynchDisk_CallBack (theDisk k) k) (\<lambda>(d, k1). Inr (k1\<lparr>theDisk := d\<rparr>))"

text \<open>\<open>Acquire\<close> and the request; then, when \<open>P\<close> does not wait any more, \<open>Release\<close>.\<close>

definition ReadSector_start :: "int \<Rightarrow> byte list \<Rightarrow> 'a dio_scheme \<Rightarrow> (byte list \<times> 'a dio_scheme) result" where
  "ReadSector_start sectorNumber buf k =
     (if diskLock k then Inl Diverges
      else rbind (ReadRequest () sectorNumber buf (theDisk k) (k\<lparr>diskLock := True\<rparr>)) (\<lambda>(buf1, d, k1). Inr (buf1, k1\<lparr>theDisk := d\<rparr>)))"

definition WriteSector_start :: "int \<Rightarrow> byte list \<Rightarrow> 'a dio_scheme \<Rightarrow> 'a dio_scheme result" where
  "WriteSector_start sectorNumber sector k =
     (if diskLock k then Inl Diverges
      else rbind (WriteRequest () sectorNumber sector (theDisk k) (k\<lparr>diskLock := True\<rparr>)) (\<lambda>(d, k1). Inr (k1\<lparr>theDisk := d\<rparr>)))"

definition sector_end :: "'a dio_scheme \<Rightarrow> 'a dio_scheme result" where
  "sector_end k = (if diskSem k = 0 then Inl Diverges else Inr (k\<lparr>diskSem := diskSem k - 1, diskLock := False\<rparr>))"

section \<open>Runs\<close>

datatype dio_event = DiskRead int "byte list" | DiskWrite int "byte list" | DiskOther

text \<open>Sectors are read and written from buffers of one sector.\<close>

inductive dio_step :: "dio \<Rightarrow> dio_event \<Rightarrow> dio \<Rightarrow> bool" where
  dio_read: "length buf = 128 \<Longrightarrow> ReadSector_start n buf k = Inr (sector, k') \<Longrightarrow> dio_step k (DiskRead n sector) k'"
| dio_write: "length sector = 128 \<Longrightarrow> WriteSector_start n sector k = Inr k' \<Longrightarrow> dio_step k (DiskWrite n sector) k'"
| dio_end: "diskLock k \<Longrightarrow> sector_end k = Inr k' \<Longrightarrow> dio_step k DiskOther k'"
| dio_interrupt: "CheckIfDue disk_interrupt adv (k\<lparr>level := IntOff\<rparr>) = Inr (b, k') \<Longrightarrow> dio_step k DiskOther k'"

inductive dio_run :: "dio \<Rightarrow> dio_event list \<Rightarrow> dio \<Rightarrow> bool" where
  dio_refl: "dio_run k [] k"
| dio_next: "dio_run k tr k' \<Longrightarrow> dio_step k' e k'' \<Longrightarrow> dio_run k (tr @ [e]) k''"

text \<open>The disk as the file system sees it.\<close>

fun array_event :: "dio_event \<Rightarrow> disk \<Rightarrow> disk \<Rightarrow> bool" where
  "array_event (DiskRead n sector) a a' \<longleftrightarrow> a' = a \<and> ReadSector n a = Inr sector"
| "array_event (DiskWrite n sector) a a' \<longleftrightarrow> WriteSector n sector a = Inr a'"
| "array_event DiskOther a a' \<longleftrightarrow> a' = a"

inductive array_run :: "disk \<Rightarrow> dio_event list \<Rightarrow> disk \<Rightarrow> bool" where
  array_refl: "array_run a [] a"
| array_next: "array_run a tr a' \<Longrightarrow> array_event e a' a'' \<Longrightarrow> array_run a (tr @ [e]) a''"

inductive_cases array_nilE: "array_run a [] a'"

lemma array_run_one: "array_run a [e] a' \<Longrightarrow> array_event e a a'"
  by (erule array_run.cases) (auto elim: array_nilE)

section \<open>The invariant\<close>

text \<open>
  The device is busy exactly while its interrupt is pending; the thread that asked holds the lock
  until it has been told. The sectors on the host's file are those of the array.
\<close>

definition dio_inv :: "disk \<Rightarrow> dio \<Rightarrow> bool" where
  "dio_inv a k \<longleftrightarrow> dev_ok (theDisk k) k \<and> disk_of (disk_file (theDisk k) k) = a \<and>
     (active (theDisk k) \<longleftrightarrow> pendingList k \<noteq> []) \<and> length (pendingList k) + diskSem k = (if diskLock k then 1 else 0)"

definition dio_popped :: "disk \<Rightarrow> dio \<Rightarrow> bool" where
  "dio_popped a k \<longleftrightarrow> dev_ok (theDisk k) k \<and> disk_of (disk_file (theDisk k) k) = a \<and> pendingList k = [] \<and> diskSem k = 0 \<and> diskLock k"

definition dio_ok :: "disk \<Rightarrow> dio \<Rightarrow> bool" where
  "dio_ok a k \<longleftrightarrow> dio_inv a k \<and> clock_ok k \<and> cpu_ok k \<and> \<not> inHandler k \<and> 0 \<le> now k"

lemma dev_ok_fields:
  assumes "fds k' = fds k" "inodes k' = inodes k"
  shows "disk_file d k' = disk_file d k" "dev_ok d k' = dev_ok d k"
  using assms by (simp_all add: disk_file_def dev_ok_def cong: option.case_cong)

lemma dev_ok_active:
  "disk_file (d\<lparr>active := b\<rparr>) k = disk_file d k" "dev_ok (d\<lparr>active := b\<rparr>) k = dev_ok d k"
  by (simp_all add: disk_file_def dev_ok_def head_ok_def cong: option.case_cong)

lemma disk_interrupt_ok:
  assumes p: "dio_popped a k" "clock_ok k"
  shows "\<exists>k'. disk_interrupt c k = Inr k' \<and> dio_inv a k' \<and> diskLock k' \<and> pendingList k' = [] \<and> later k k'"
proof -
  define k' where "k' = k\<lparr>diskSem := 1, theDisk := (theDisk k)\<lparr>active := False\<rparr>\<rparr>"
  have e: "fds k' = fds k" "inodes k' = inodes k" "theDisk k' = (theDisk k)\<lparr>active := False\<rparr>" "pendingList k' = []" "diskSem k' = 1" "diskLock k'"
    using p(1) by (simp_all add: k'_def dio_popped_def)
  have "disk_interrupt c k = Inr k'"
    using p(1) by (simp add: disk_interrupt_def Disk_CallBack_def SynchDisk_CallBack_def k'_def dio_popped_def)
  moreover have "dio_inv a k'" using p(1) dev_ok_fields [OF e(1,2)] by (simp add: dio_inv_def dio_popped_def e dev_ok_active)
  moreover have "later k k'" using p(2) by (simp add: k'_def later_def clock_ok_def)
  ultimately show ?thesis using e by blast
qed

lemma dio_pop:
  assumes i: "dio_inv a k" and l: "pendingList k = p # ps"
  shows "dio_popped a (k\<lparr>pendingList := ps\<rparr>)"
proof -
  have "ps = []" "diskSem k = 0" "diskLock k" using assms by (auto simp: dio_inv_def split: if_splits)
  then show ?thesis using i dev_ok_fields [of "k\<lparr>pendingList := ps\<rparr>" k] by (simp add: dio_inv_def dio_popped_def)
qed

lemma dio_hw:
  "dio_inv a (k\<lparr>inHandler := b\<rparr>) = dio_inv a k" "dio_inv a (k\<lparr>level := lv\<rparr>) = dio_inv a k" "dio_inv a (k\<lparr>stats := st\<rparr>) = dio_inv a k"
  "dio_inv a (k\<lparr>mstatus := ms\<rparr>) = dio_inv a k" "dio_inv a (k\<lparr>registers := r\<rparr>) = dio_inv a k" "dio_inv a (k\<lparr>yieldOnReturn := b\<rparr>) = dio_inv a k"
  by (simp_all add: dio_inv_def dev_ok_def disk_file_def cong: option.case_cong)

interpretation dio: handlers disk_interrupt "\<lambda>_. True" "dio_inv a" "\<lambda>_. dio_popped a" for a
  using disk_interrupt_ok dio_pop by unfold_locales (auto simp: pend_ok_def dio_hw, blast)

text \<open>The same while a request is under way and its interrupt is \<open>p\<close>: a caller that holds the lock keeps it.\<close>

interpretation dw: handlers disk_interrupt "\<lambda>_. True" "\<lambda>k. dio_inv a k \<and> diskLock k \<and> set (pendingList k) \<subseteq> {p}" "\<lambda>_. dio_popped a" for a p
proof
  fix c and k :: dio
  assume "dio_popped a k" "clock_ok k"
  from disk_interrupt_ok [OF this, of c] show "\<exists>k'. disk_interrupt c k = Inr k' \<and> (dio_inv a k' \<and> diskLock k' \<and> set (pendingList k') \<subseteq> {p}) \<and>
    pend_ok (\<lambda>_. True) k' \<and> later k k'" by (auto simp: pend_ok_def)
qed (use dio_pop in \<open>auto simp: dio_hw\<close>)

text \<open>What a request leaves alone.\<close>

definition kept_hw :: "'a dio_scheme \<Rightarrow> 'a dio_scheme \<Rightarrow> bool" where
  "kept_hw k k' \<longleftrightarrow> registers k' = registers k \<and> mainMemory k' = mainMemory k \<and> tlb k' = tlb k \<and> inHandler k' = inHandler k \<and>
     level k' = level k \<and> interrupt.more k' = interrupt.more k"

lemma ReadRequest_keeps: "ReadRequest c n buf d (k :: 'a dio_scheme) = Inr (b, d', k') \<Longrightarrow> kept_hw k k'"
  by (auto simp: ReadRequest_def Let_def rbind_eq_Inr require_eq_Inr Lseek_def Read_def ReadPartial_def Schedule_def kept_hw_def
      split: option.splits if_splits)

lemma WriteRequest_keeps: "WriteRequest c n buf d (k :: 'a dio_scheme) = Inr (d', k') \<Longrightarrow> kept_hw k k'"
  by (auto simp: WriteRequest_def Let_def rbind_eq_Inr require_eq_Inr Lseek_def WriteFile_def Schedule_def kept_hw_def
      split: option.splits if_splits)

section \<open>Each step\<close>

lemma started:
  assumes k: "dio_ok a k" and l: "\<not> diskLock k" and h: "kept_hw (k\<lparr>diskLock := True\<rparr>) k1"
    and r: "requested () n w (theDisk k) (k\<lparr>diskLock := True\<rparr>) d k1"
  shows "dio_ok (disk_of (disk_file d k1)) (k1\<lparr>theDisk := d\<rparr>) \<and> pendingList k1 \<noteq> []"
proof -
  have i: "pendingList k = []" "diskSem k = 0" using k l by (simp_all add: dio_ok_def dio_inv_def)
  obtain p where p: "set (pendingList k1) = {p}" using r i(1) by (auto simp: requested_def)
  have c: "clock_ok k1" "active d" "dev_ok d k1" "0 \<le> now k1" using r k by (simp_all add: requested_def dio_ok_def)
  then have "distinct (pendingList k1)" by (simp add: clock_ok_def)
  then have len: "length (pendingList k1) = 1" using p distinct_card [of "pendingList k1"] by simp
  have e: "diskLock k1" "diskSem k1 = 0" using h i(2) by (cases k; cases k1; simp add: kept_hw_def)+
  define k2 where "k2 = k1\<lparr>theDisk := d\<rparr>"
  have f: "fds k2 = fds k1" "inodes k2 = inodes k1" "pendingList k2 = pendingList k1" "theDisk k2 = d" "diskLock k2" "diskSem k2 = 0"
    using e by (simp_all add: k2_def)
  have "dio_inv (disk_of (disk_file d k1)) k2"
    using c len dev_ok_fields [OF f(1,2)] by (auto simp: dio_inv_def f)
  moreover have "clock_ok k2" "cpu_ok k2" "\<not> inHandler k2" "0 \<le> now k2"
    using c k h by (simp_all add: k2_def dio_ok_def kept_hw_def clock_ok_def cpu_ok_def reg_def)
  moreover have "pendingList k1 \<noteq> []" using len by auto
  ultimately show ?thesis by (simp add: dio_ok_def k2_def)
qed

lemma before_request:
  assumes k: "dio_ok a k" and l: "\<not> diskLock k"
  shows "dev_ok (theDisk k) (k\<lparr>diskLock := True\<rparr>)" "disk_of (disk_file (theDisk k) (k\<lparr>diskLock := True\<rparr>)) = a" "\<not> active (theDisk k)"
    "clock_ok (k\<lparr>diskLock := True\<rparr>)" "0 \<le> now (k\<lparr>diskLock := True\<rparr>)"
  using k l dev_ok_fields [of "k\<lparr>diskLock := True\<rparr>" k] by (simp_all add: dio_ok_def dio_inv_def clock_ok_def)

text \<open>With the lock free, a call is refused exactly for a sector that does not exist.\<close>

lemma ReadSector_start_ok:
  assumes k: "dio_ok a k" and l: "\<not> diskLock k" and b: "length buf = 128"
  shows "if 0 \<le> n \<and> n < NumSectors
    then \<exists>bs k'. ReadSector_start n buf k = Inr (bs, k') \<and> ReadSector n a = Inr bs \<and> dio_ok a k' \<and> pendingList k' \<noteq> []
    else ReadSector_start n buf k = Inl Abort"
proof -
  let ?k = "k\<lparr>diskLock := True\<rparr>"
  note q = before_request [OF k l]
  from Disk_is_sector_array [OF q(1,4,5), of buf buf n "()"] b q(2,3)
  have s: "if n < 0 \<or> NumSectors \<le> n then ReadRequest () n buf (theDisk k) ?k = Inl Abort
    else \<exists>bs d k1. ReadRequest () n buf (theDisk k) ?k = Inr (bs, d, k1) \<and> ReadSector n a = Inr bs \<and>
      disk_file d k1 = disk_file (theDisk k) ?k \<and> requested () n False (theDisk k) ?k d k1" by (auto split: if_splits)
  show ?thesis
  proof (cases "0 \<le> n \<and> n < NumSectors")
    case True
    then obtain bs d k1 where r: "ReadRequest () n buf (theDisk k) ?k = Inr (bs, d, k1)" "ReadSector n a = Inr bs"
      "disk_file d k1 = disk_file (theDisk k) ?k" "requested () n False (theDisk k) ?k d k1" using s by (auto split: if_splits)
    from started [OF k l ReadRequest_keeps [OF r(1)] r(4)] r True l q(2) show ?thesis by (simp add: ReadSector_start_def)
  next
    case False
    then show ?thesis using s l by (auto simp: ReadSector_start_def)
  qed
qed

lemma WriteSector_start_ok:
  assumes k: "dio_ok a k" and l: "\<not> diskLock k" and b: "length bs = 128"
  shows "if 0 \<le> n \<and> n < NumSectors
    then \<exists>a' k'. WriteSector_start n bs k = Inr k' \<and> WriteSector n bs a = Inr a' \<and> dio_ok a' k' \<and> pendingList k' \<noteq> []
    else WriteSector_start n bs k = Inl Abort"
proof -
  let ?k = "k\<lparr>diskLock := True\<rparr>"
  note q = before_request [OF k l]
  from Disk_is_sector_array [OF q(1,4,5), of bs bs n "()"] b q(2,3)
  have s: "if n < 0 \<or> NumSectors \<le> n then WriteRequest () n bs (theDisk k) ?k = Inl Abort
    else \<exists>d k1. WriteRequest () n bs (theDisk k) ?k = Inr (d, k1) \<and> WriteSector n bs a = Inr (disk_of (disk_file d k1)) \<and>
      requested () n True (theDisk k) ?k d k1" by (auto split: if_splits)
  show ?thesis
  proof (cases "0 \<le> n \<and> n < NumSectors")
    case True
    then obtain d k1 where r: "WriteRequest () n bs (theDisk k) ?k = Inr (d, k1)" "WriteSector n bs a = Inr (disk_of (disk_file d k1))"
      "requested () n True (theDisk k) ?k d k1" using s by (auto split: if_splits)
    from started [OF k l WriteRequest_keeps [OF r(1)] r(3)] r True l show ?thesis by (simp add: WriteSector_start_def)
  next
    case False
    then show ?thesis using s l by (auto simp: WriteSector_start_def)
  qed
qed

lemma sector_end_ok:
  assumes k: "dio_ok a k" and s: "diskSem k \<noteq> 0"
  shows "\<exists>k'. sector_end k = Inr k' \<and> dio_ok a k' \<and> \<not> diskLock k'"
proof -
  have "length (pendingList k) + diskSem k = (if diskLock k then 1 else 0)" using k by (simp add: dio_ok_def dio_inv_def)
  then have i: "length (pendingList k) = 0" "diskSem k = 1" "diskLock k" using s by (cases "pendingList k"; simp split: if_splits)+
  define k' where "k' = k\<lparr>diskSem := 0, diskLock := False\<rparr>"
  have e: "fds k' = fds k" "inodes k' = inodes k" "theDisk k' = theDisk k" by (simp_all add: k'_def)
  have "dio_ok a k'" using k i dev_ok_fields [OF e(1,2)] by (simp add: dio_ok_def dio_inv_def e) (simp add: k'_def clock_ok_def cpu_ok_def reg_def)
  then show ?thesis using i by (simp add: sector_end_def k'_def)
qed

text \<open>Interrupts keep the sectors, and once one has come the caller can go on.\<close>

lemma interrupt_steps:
  assumes k: "dio_ok a k"
  shows "\<exists>k'. CheckIfDue disk_interrupt adv (k\<lparr>level := IntOff\<rparr>) = Inr (pendingList k \<noteq> [] \<and> (adv \<or> when (hd (pendingList k)) \<le> now k), k') \<and>
    dio_ok a k' \<and> (\<forall>p \<in> set (pendingList k'). when p > now k') \<and>
    now k' = (if adv \<and> pendingList k \<noteq> [] then max (now k) (when (hd (pendingList k))) else now k)"
proof -
  let ?k = "k\<lparr>level := IntOff\<rparr>"
  have "dio_inv a ?k" "clock_ok ?k" "level ?k = IntOff" "\<not> inHandler ?k" "cpu_ok ?k" "pend_ok (\<lambda>_. True) ?k"
    using k by (simp_all add: dio_ok_def dio.inv_hw clock_ok_def cpu_ok_def reg_def pend_ok_def)
  note c = dio.CheckIfDue_ok [OF this, of adv]
  have "pendingList ?k = pendingList k" "now ?k = now k" by simp_all
  from c [unfolded this] obtain k' where
    r: "CheckIfDue disk_interrupt adv ?k = Inr (pendingList k \<noteq> [] \<and> (adv \<or> when (hd (pendingList k)) \<le> now k), k')"
    and ok: "dio_inv a k'" "clock_ok k'" "\<not> inHandler k'" "cpu_ok k'" "\<forall>p \<in> set (pendingList k'). when p > now k'"
      "now k' = (if adv \<and> pendingList k \<noteq> [] then max (now k) (when (hd (pendingList k))) else now k)" by blast
  have "0 \<le> now k'" using k ok(6) by (auto simp: dio_ok_def)
  then show ?thesis using r ok by (auto simp: dio_ok_def)
qed

lemma dio_step_refines:
  assumes "dio_step k e k'" and k: "dio_ok a k"
  shows "\<exists>a'. array_event e a a' \<and> dio_ok a' k'"
  using assms(1)
proof (cases rule: dio_step.cases)
  case (dio_read buf n bs)
  then have "\<not> diskLock k" by (auto simp: ReadSector_start_def)
  from ReadSector_start_ok [OF k this dio_read(2), of n] show ?thesis using dio_read by (auto split: if_splits)
next
  case (dio_write bs n)
  then have "\<not> diskLock k" by (auto simp: WriteSector_start_def)
  from WriteSector_start_ok [OF k this dio_write(2), of n] show ?thesis using dio_write by (auto split: if_splits)
next
  case dio_end
  then have "diskSem k \<noteq> 0" by (auto simp: sector_end_def split: if_splits)
  from sector_end_ok [OF k this] show ?thesis using dio_end by auto
next
  case (dio_interrupt adv b)
  then show ?thesis using interrupt_steps [OF k, of adv] by auto
qed

lemma dio_run_refines:
  assumes "dio_run k tr k'" and "dio_ok a k"
  shows "\<exists>a'. array_run a tr a' \<and> dio_ok a' k'"
  using assms
proof (induction rule: dio_run.induct)
  case (dio_refl k)
  then show ?case using array_run.array_refl by blast
next
  case (dio_next k tr k' e k'')
  then obtain a' where "array_run a tr a'" "dio_ok a' k'" by blast
  then show ?case using dio_step_refines [OF dio_next.hyps(2)] array_run.array_next by blast
qed

section \<open>From the start\<close>

lemma Disk_new_keeps:
  assumes "Disk_new h (k :: 'a dio_scheme) = Inr (d, k')"
  shows "kept_hw k k' \<and> pendingList k' = pendingList k \<and> stats k' = stats k \<and> entropy k' = entropy k \<and> brk_int k' = brk_int k"
  using assms
  by (auto simp: Disk_new_def Let_def rbind_eq_Inr require_eq_Inr OpenForReadWrite_def open_existing_def Read_def ReadPartial_def OpenForWrite_def
      new_fd_def WriteFile_def Lseek_def kept_hw_def split: option.splits if_splits)

text \<open>What the host's file holds: a missing file is an empty disk.\<close>

definition sectors :: "int \<Rightarrow> 'a sysenv_scheme \<Rightarrow> disk" where
  "sectors h k = (case names k (diskname h) of None \<Rightarrow> replicate 1024 (replicate 128 0) | Some i \<Rightarrow> disk_of (inodes k i))"

definition disk_usable :: "int \<Rightarrow> dio \<Rightarrow> bool" where
  "disk_usable h k \<longleftrightarrow> creatable k (diskname h) \<and>
     (case names k (diskname h) of None \<Rightarrow> True
      | Some i \<Rightarrow> length (inodes k i) = nat DiskSize \<and> take 4 (inodes k i) = word_bytes [MagicNumber]) \<and>
     clock_ok k \<and> cpu_ok k \<and> \<not> inHandler k \<and> pendingList k = [] \<and> 0 \<le> now k"

lemma SynchDisk_new_ok:
  assumes "disk_usable h k"
  shows "\<exists>k'. SynchDisk_new h k = Inr k' \<and> dio_ok (sectors h k) k'"
proof -
  define k0 where "k0 = k\<lparr>diskSem := 0, diskLock := False\<rparr>"
  have e: "names k0 = names k" "inodes k0 = inodes k" "creatable k0 = creatable k" "diskSem k0 = 0" "\<not> diskLock k0" by (simp_all add: k0_def)
  have c: "creatable k0 (diskname h)" using assms by (simp add: disk_usable_def e)
  have "\<exists>d k1. Disk_new h k0 = Inr (d, k1) \<and> dev_ok d k1 \<and> \<not> active d \<and> disk_of (disk_file d k1) = sectors h k"
  proof (cases "names k (diskname h)")
    case None
    then show ?thesis using Disk_new_correct [OF c] by (auto simp: e sectors_def)
  next
    case (Some i)
    then show ?thesis using Disk_new_correct [OF c] assms by (auto simp: e sectors_def disk_usable_def)
  qed
  then obtain d k1 where d: "Disk_new h k0 = Inr (d, k1)" "dev_ok d k1" "\<not> active d" "disk_of (disk_file d k1) = sectors h k" by blast
  note h = Disk_new_keeps [OF d(1)]
  define k2 where "k2 = k1\<lparr>theDisk := d\<rparr>"
  have "diskLock k1 = diskLock k0" "diskSem k1 = diskSem k0" using h by (cases k0; cases k1; simp add: kept_hw_def)+
  then have f: "fds k2 = fds k1" "inodes k2 = inodes k1" "theDisk k2 = d" "\<not> diskLock k2" "diskSem k2 = 0" "pendingList k2 = []"
    using e h assms by (simp_all add: k2_def k0_def disk_usable_def)
  have "dio_inv (sectors h k) k2" using d dev_ok_fields [OF f(1,2)] by (simp add: dio_inv_def f)
  moreover have "clock_ok k2" "cpu_ok k2" "\<not> inHandler k2" "0 \<le> now k2"
    using h assms by (simp_all add: k2_def k0_def kept_hw_def disk_usable_def clock_ok_def cpu_ok_def reg_def)
  ultimately show ?thesis using d(1) by (simp add: SynchDisk_new_def dio_ok_def k2_def k0_def)
qed

text \<open>A thread whose request is under way sleeps, and an idle kernel moves to the interrupt.\<close>

lemma request_completes:
  assumes k: "dio_ok a k" and l: "diskLock k" and s: "diskSem k = 0"
  shows "\<exists>k' k''. Idle disk_interrupt (k\<lparr>level := IntOff\<rparr>) = Inr k' \<and> sector_end k' = Inr k'' \<and> now k' = max (now k) (when (hd (pendingList k)))"
proof -
  obtain p where p: "pendingList k = [p]" using k l s by (auto simp: dio_ok_def dio_inv_def length_Suc_conv)
  let ?k = "k\<lparr>level := IntOff, mstatus := IdleMode\<rparr>"
  have "dio_inv a ?k \<and> diskLock ?k \<and> set (pendingList ?k) \<subseteq> {p}" "clock_ok ?k" "level ?k = IntOff" "\<not> inHandler ?k" "cpu_ok ?k" "pend_ok (\<lambda>_. True) ?k"
    using k l p by (simp_all add: dio_ok_def dio_hw clock_ok_def cpu_ok_def reg_def pend_ok_def)
  note c = dw.CheckIfDue_ok [OF this, of True]
  have "pendingList ?k = [p]" "now ?k = now k" using p by simp_all
  from c [unfolded this] obtain k1 where
    k1: "CheckIfDue disk_interrupt True ?k = Inr (True, k1)" "dio_inv a k1" "diskLock k1" "set (pendingList k1) \<subseteq> {p}"
      "\<forall>q \<in> set (pendingList k1). when q > now k1" "now k1 = max (now k) (when p)" by auto
  have r: "Idle disk_interrupt (k\<lparr>level := IntOff\<rparr>) = Inr (k1\<lparr>mstatus := SystemMode\<rparr>)" using k1(1) by (simp add: Idle_def)
  have "p \<notin> set (pendingList k1)" using k1(5,6) by force
  then have "pendingList k1 = []" using k1(4) by (cases "pendingList k1") auto
  then have "diskSem k1 \<noteq> 0" using k1(2,3) by (simp add: dio_inv_def)
  then show ?thesis using r k1(6) p by (simp add: sector_end_def)
qed

text \<open>
  C18: the synchronous disk is the array of sectors that the file system relies on. From its
  construction on a usable host file, whatever threads ask for and whenever interrupts come: the
  sectors that were read and written are a run of \<open>ReadSector\<close> and \<open>WriteSector\<close> on the sectors of
  the host's file, and the file holds the result; interrupts are always handled; a thread that has
  the lock free gets a request for an existing sector accepted, a request for another sector fails
  an assertion; and a request under way completes: the kernel idles to the disk's interrupt, after
  which the caller returns.
\<close>

theorem synchdisk_refines:
  assumes "disk_usable h k0" and "SynchDisk_new h k0 = Inr k1" and "dio_run k1 tr k" and "length buf = 128"
  shows "array_run (sectors h k0) tr (disk_of (disk_file (theDisk k) k)) \<and>
    (\<exists>r. CheckIfDue disk_interrupt adv (k\<lparr>level := IntOff\<rparr>) = Inr r) \<and>
    (\<not> diskLock k \<longrightarrow> (if 0 \<le> n \<and> n < NumSectors
       then (\<exists>r. ReadSector_start n buf k = Inr r) \<and> (\<exists>r. WriteSector_start n buf k = Inr r)
       else ReadSector_start n buf k = Inl Abort \<and> WriteSector_start n buf k = Inl Abort)) \<and>
    (diskLock k \<longrightarrow> (\<exists>k'. sector_end k = Inr k') \<or>
       (\<exists>k' k''. Idle disk_interrupt (k\<lparr>level := IntOff\<rparr>) = Inr k' \<and> sector_end k' = Inr k''))"
proof -
  have "dio_ok (sectors h k0) k1" using SynchDisk_new_ok [OF assms(1)] assms(2) by auto
  from dio_run_refines [OF assms(3) this] obtain a where a: "array_run (sectors h k0) tr a" "dio_ok a k" by blast
  have "a = disk_of (disk_file (theDisk k) k)" using a(2) by (simp add: dio_ok_def dio_inv_def)
  moreover have "diskLock k \<longrightarrow> (\<exists>k'. sector_end k = Inr k') \<or>
      (\<exists>k' k''. Idle disk_interrupt (k\<lparr>level := IntOff\<rparr>) = Inr k' \<and> sector_end k' = Inr k'')"
    using sector_end_ok [OF a(2)] request_completes [OF a(2)] by blast
  moreover have "\<exists>r. CheckIfDue disk_interrupt adv (k\<lparr>level := IntOff\<rparr>) = Inr r" using interrupt_steps [OF a(2), of adv] by blast
  moreover have "\<not> diskLock k \<longrightarrow> (if 0 \<le> n \<and> n < NumSectors
       then (\<exists>r. ReadSector_start n buf k = Inr r) \<and> (\<exists>r. WriteSector_start n buf k = Inr r)
       else ReadSector_start n buf k = Inl Abort \<and> WriteSector_start n buf k = Inl Abort)"
    using ReadSector_start_ok [OF a(2) _ assms(4), of n] WriteSector_start_ok [OF a(2) _ assms(4), of n] by (auto split: if_splits)
  ultimately show ?thesis using a(1) by blast
qed

definition dio_boot :: dio where
  "dio_boot = interrupt.extend disk_boot (dio.fields \<lparr>fileno = 0, active = True, lastSector = 9, bufferInit = 9\<rparr> True 4)"

lemma dio_boot_usable: "disk_usable 0 dio_boot" "sectors 0 dio_boot = replicate 1024 (replicate 128 0)"
  using one_page_ok
  by (simp_all add: dio_boot_def disk_usable_def sectors_def disk_boot_def boot_sys_def one_page_def sysenv.defs machine.defs interrupt.defs dio.defs
      clock_ok_def cpu_ok_def reg_def machine_ok_def Machine_new_def reg_names Statistics_new_def)

theorem synchdisk_refines_witness:
  "\<exists>k1 k. SynchDisk_new 0 dio_boot = Inr k1 \<and> WriteSector_start 7 (replicate 128 9) k1 = Inr k \<and>
     disk_of (disk_file (theDisk k) k) = (replicate 1024 (replicate 128 0))[7 := replicate 128 9]"
proof -
  let ?b = "replicate 128 9 :: byte list"
  obtain k1 where k1: "SynchDisk_new 0 dio_boot = Inr k1" using SynchDisk_new_ok [OF dio_boot_usable(1)] by blast
  have b: "length ?b = 128" by simp
  have l: "\<not> diskLock k1"
  proof -
    obtain d k where d: "Disk_new 0 (dio_boot\<lparr>diskSem := 0, diskLock := False\<rparr>) = Inr (d, k)" "k1 = k\<lparr>theDisk := d\<rparr>"
      using k1 by (auto simp: SynchDisk_new_def rbind_eq_Inr)
    then have "interrupt.more k = interrupt.more (dio_boot\<lparr>diskSem := 0, diskLock := False\<rparr>)" using Disk_new_keeps [OF d(1)] by (simp add: kept_hw_def)
    then show ?thesis by (cases k) (auto simp: d(2) dio_boot_def interrupt.defs dio.defs disk_boot_def boot_sys_def sysenv.defs machine.defs one_page_def)
  qed
  from synchdisk_refines [OF dio_boot_usable(1) k1 dio_run.dio_refl b, of True 7] l
  obtain k where k: "WriteSector_start 7 ?b k1 = Inr k" by auto
  have "dio_run k1 ([] @ [DiskWrite 7 ?b]) k" by (rule dio_run.dio_next [OF dio_run.dio_refl dio_step.dio_write [OF b k]])
  then have "dio_run k1 [DiskWrite 7 ?b] k" by simp
  from synchdisk_refines [OF dio_boot_usable(1) k1 this b]
  have "array_run (sectors 0 dio_boot) [DiskWrite 7 ?b] (disk_of (disk_file (theDisk k) k))" by blast
  then have "WriteSector 7 ?b (sectors 0 dio_boot) = Inr (disk_of (disk_file (theDisk k) k))"
    by (auto dest: array_run_one)
  then show ?thesis using k1 k by (auto simp: dio_boot_usable(2) WriteSector_def)
qed

end
