(* ===== verification/Network_Post.thy ===== *)
theory Network_Post
  imports Complex_Main Machine_Interrupt Machine_Disk
begin

text \<open>
  \<open>machine/network.cc\<close>, \<open>network.h\<close>, \<open>network/post.cc\<close>, \<open>post.h\<close>: the network device and the post
  office of one machine, and a network of such machines.

  A machine (\<open>node\<close>) extends the interrupt hardware with the fields of \<open>NetworkInput\<close>,
  \<open>NetworkOutput\<close>, \<open>PostOfficeInput\<close> and \<open>PostOfficeOutput\<close>, and with the datagrams that wait at
  its UNIX socket. Semaphores appear by their values and locks as flags; a call that has to wait
  has no step (as a function it gives \<open>Diverges\<close>). The routines are cut where they wait. The host
  delivers datagrams between its sockets in order and without loss.

  The theorems: however the machines of a network interleave, the letters sent to a mailbox that
  were not dropped by the simulated unreliability are the letters received from it, followed by
  those still on the way, in the order of sending and byte for byte; and no assertion of the
  receiving side fails, unless a sender names a mailbox that the receiver does not have.
\<close>

section \<open>State\<close>

record PacketHeader =
  pkt_to :: i32
  pkt_from :: i32
  pkt_length :: i32

record MailHeader =
  mail_to :: i32
  mail_from :: i32
  mail_length :: i32

definition MaxWireSize :: nat where "MaxWireSize = 64"
definition MaxPacketSize :: nat where "MaxPacketSize = MaxWireSize - 12"
definition MaxMailSize :: nat where "MaxMailSize = MaxPacketSize - 12"
definition NetworkTime :: int where "NetworkTime = 100"

record Mail =
  pktHdr :: PacketHeader
  mailHdr :: MailHeader
  mail_data :: "byte list"

text \<open>The two devices of a machine, as objects called on an interrupt.\<close>

datatype netdev = NetIn | NetOut

record node = "netdev interrupt" +
  hostName :: i32
  inHdr :: PacketHeader
  inbox :: "byte list"
  sock :: "byte list list"
  messageAvailable :: nat
  pbuffer :: "byte list"
  worker :: "PacketHeader option"
  boxes :: "Mail list list"
  chanceToWork :: rat
  sendBusy :: bool
  messageSent :: nat
  sendLock :: bool

text \<open>The casts between headers and the bytes of a packet.\<close>

definition packet_bytes :: "PacketHeader \<Rightarrow> byte list" where
  "packet_bytes h = word_bytes [pkt_to h, pkt_from h, pkt_length h]"

definition packet_of_bytes :: "byte list \<Rightarrow> PacketHeader" where
  "packet_of_bytes bs = (let ws = bytes_words (take 12 bs) in \<lparr>pkt_to = ws ! 0, pkt_from = ws ! 1, pkt_length = ws ! 2\<rparr>)"

definition mail_bytes :: "MailHeader \<Rightarrow> byte list" where
  "mail_bytes h = word_bytes [mail_to h, mail_from h, mail_length h]"

definition mail_of_bytes :: "byte list \<Rightarrow> MailHeader" where
  "mail_of_bytes bs = (let ws = bytes_words (take 12 bs) in \<lparr>mail_to = ws ! 0, mail_from = ws ! 1, mail_length = ws ! 2\<rparr>)"

definition socket_name :: "i32 \<Rightarrow> byte list" where
  "socket_name h = ascii ''SOCKET_'' @ format_int (sint h)"

section \<open>The network device\<close>

definition PostOfficeInput_CallBack :: "'a node_scheme \<Rightarrow> 'a node_scheme result" where
  "PostOfficeInput_CallBack n = Inr (n\<lparr>messageAvailable := messageAvailable n + 1\<rparr>)"

definition PostOfficeOutput_CallBack :: "'a node_scheme \<Rightarrow> 'a node_scheme result" where
  "PostOfficeOutput_CallBack n = Inr (n\<lparr>messageSent := messageSent n + 1\<rparr>)"

text \<open>A fresh socket is bound to the machine's name: whatever waited under that name is gone.\<close>

definition NetworkInput_new :: "'a node_scheme \<Rightarrow> 'a node_scheme result" where
  "NetworkInput_new n =
     Schedule NetIn NetworkTime NetworkRecvInt
       (n\<lparr>inHdr := (inHdr n)\<lparr>pkt_length := 0\<rparr>, inbox := map (junk n) [0..<MaxPacketSize], sock := []\<rparr>)"

definition NetworkInput_CallBack :: "'a node_scheme \<Rightarrow> 'a node_scheme result" where
  "NetworkInput_CallBack n =
     rbind (Schedule NetIn NetworkTime NetworkRecvInt n) (\<lambda>n1.
     if pkt_length (inHdr n1) \<noteq> 0 then Inr n1
     else case sock n1 of
       [] \<Rightarrow> Inr n1
     | dg # rest \<Rightarrow>
         require (MaxWireSize \<le> length dg)
         (let buffer = take MaxWireSize dg; h = packet_of_bytes buffer; n2 = n1\<lparr>sock := rest, inHdr := h\<rparr> in
          require (pkt_to h = hostName n2 \<and> unat (pkt_length h) \<le> MaxPacketSize)
         (rbind (copy_from buffer 12 (int (unat (pkt_length h)))) (\<lambda>bs.
          rbind (copy_to (inbox n2) 0 bs) (\<lambda>ib.
          PostOfficeInput_CallBack (n2\<lparr>inbox := ib, stats := (stats n2)\<lparr>numPacketsRecvd := numPacketsRecvd (stats n2) + 1\<rparr>\<rparr>))))))"

definition NetworkInput_Receive :: "byte list \<Rightarrow> 'a node_scheme \<Rightarrow> (PacketHeader \<times> byte list \<times> 'a node_scheme) result" where
  "NetworkInput_Receive buf n =
     (let h = inHdr n; n1 = n\<lparr>inHdr := h\<lparr>pkt_length := 0\<rparr>\<rparr> in
      rbind (if pkt_length h \<noteq> 0 then rbind (copy_from (inbox n1) 0 (int (unat (pkt_length h)))) (copy_to buf 0) else Inr buf) (\<lambda>buf1.
      Inr (h, buf1, n1)))"

definition NetworkOutput_new :: "rat \<Rightarrow> 'a node_scheme \<Rightarrow> 'a node_scheme" where
  "NetworkOutput_new reliability n =
     n\<lparr>chanceToWork := (if reliability < 0 then 0 else if reliability > 1 then 1 else reliability), sendBusy := False\<rparr>"

definition NetworkOutput_CallBack :: "'a node_scheme \<Rightarrow> 'a node_scheme result" where
  "NetworkOutput_CallBack n =
     PostOfficeOutput_CallBack (n\<lparr>sendBusy := False, stats := (stats n)\<lparr>numPacketsSent := numPacketsSent (stats n) + 1\<rparr>\<rparr>)"

text \<open>
  \<open>Send\<close> gives the datagram that goes out and the name of the socket it goes to, or nothing when
  the packet is lost. (The flag \<open>sendBusy\<close> is tested but no code ever sets it.)
\<close>

definition NetworkOutput_Send ::
  "PacketHeader \<Rightarrow> byte list \<Rightarrow> 'a node_scheme \<Rightarrow> ((byte list \<times> byte list) option \<times> 'a node_scheme) result" where
  "NetworkOutput_Send h buf n =
     require (\<not> sendBusy n \<and> pkt_length h > 0 \<and> unat (pkt_length h) \<le> MaxPacketSize \<and> pkt_from h = hostName n)
     (rbind (Schedule NetOut NetworkTime NetworkSendInt n) (\<lambda>n1.
      let (r, n2) = RandomNumber n1 in
      if of_int (r mod 100) \<ge> chanceToWork n2 * 100 then Inr (None, n2)
      else
        rbind (copy_to (map (junk n2) [0..<MaxWireSize]) 0 (packet_bytes h)) (\<lambda>b1.
        rbind (copy_from buf 0 (int (unat (pkt_length h)))) (\<lambda>bs.
        rbind (copy_to b1 12 bs) (\<lambda>b2. Inr (Some (socket_name (pkt_to h), b2), n2))))))"

fun Net_CallBack :: "netdev \<Rightarrow> 'a node_scheme \<Rightarrow> 'a node_scheme result" where
  "Net_CallBack NetIn n = NetworkInput_CallBack n"
| "Net_CallBack NetOut n = NetworkOutput_CallBack n"

section \<open>The post office\<close>

definition Mail_new :: "PacketHeader \<Rightarrow> MailHeader \<Rightarrow> byte list \<Rightarrow> byte list \<Rightarrow> Mail result" where
  "Mail_new pktH mailH msgData garbage =
     require (unat (mail_length mailH) \<le> MaxMailSize)
       (rbind (copy_from msgData 0 (int (unat (mail_length mailH)))) (\<lambda>bs.
        rbind (copy_to garbage 0 bs) (\<lambda>d. Inr \<lparr>pktHdr = pktH, mailHdr = mailH, mail_data = d\<rparr>)))"

definition MailBox_Put :: "int \<Rightarrow> PacketHeader \<Rightarrow> MailHeader \<Rightarrow> byte list \<Rightarrow> 'a node_scheme \<Rightarrow> 'a node_scheme result" where
  "MailBox_Put box pktH mailH msgData n =
     rbind (Mail_new pktH mailH msgData (map (junk n) [0..<MaxMailSize])) (\<lambda>mail.
     rbind (arr_get (boxes n) box) (\<lambda>messages.
     rbind (arr_set (boxes n) box (messages @ [mail])) (\<lambda>bs. Inr (n\<lparr>boxes := bs\<rparr>))))"

definition MailBox_Get :: "int \<Rightarrow> byte list \<Rightarrow> 'a node_scheme \<Rightarrow> (PacketHeader \<times> MailHeader \<times> byte list \<times> 'a node_scheme) result" where
  "MailBox_Get box buf n =
     rbind (arr_get (boxes n) box) (\<lambda>messages.
     case messages of
       [] \<Rightarrow> Inl Diverges
     | mail # rest \<Rightarrow>
         rbind (arr_set (boxes n) box rest) (\<lambda>bs.
         rbind (copy_from (mail_data mail) 0 (int (unat (mail_length (mailHdr mail))))) (\<lambda>ds.
         rbind (copy_to buf 0 ds) (\<lambda>buf1. Inr (pktHdr mail, mailHdr mail, buf1, n\<lparr>boxes := bs\<rparr>)))))"

text \<open>The constructors; \<open>PostOfficeInput\<close> also forks the postal worker, which waits for a message.\<close>

definition PostOfficeInput_new :: "nat \<Rightarrow> 'a node_scheme \<Rightarrow> 'a node_scheme result" where
  "PostOfficeInput_new nBoxes n =
     rbind (NetworkInput_new (n\<lparr>messageAvailable := 0, boxes := replicate nBoxes []\<rparr>)) (\<lambda>n1.
     Inr (n1\<lparr>worker := None, pbuffer := map (junk n1) [0..<MaxPacketSize]\<rparr>))"

definition PostOfficeOutput_new :: "rat \<Rightarrow> 'a node_scheme \<Rightarrow> 'a node_scheme" where
  "PostOfficeOutput_new reliability n = NetworkOutput_new reliability (n\<lparr>messageSent := 0, sendLock := False\<rparr>)"

text \<open>One round of \<open>PostalDelivery\<close>: take the message from the network, then put it into its mailbox.\<close>

definition PostalDelivery_take :: "'a node_scheme \<Rightarrow> 'a node_scheme result" where
  "PostalDelivery_take n =
     (if messageAvailable n = 0 then Inl Diverges
      else rbind (NetworkInput_Receive (pbuffer n) (n\<lparr>messageAvailable := messageAvailable n - 1\<rparr>)) (\<lambda>(h, buffer, n1).
           Inr (n1\<lparr>worker := Some h, pbuffer := buffer\<rparr>)))"

definition PostalDelivery_put :: "PacketHeader \<Rightarrow> 'a node_scheme \<Rightarrow> 'a node_scheme result" where
  "PostalDelivery_put h n =
     (let mh = mail_of_bytes (pbuffer n) in
      require (0 \<le> sint (mail_to mh) \<and> sint (mail_to mh) < int (length (boxes n)))
     (require (unat (mail_length mh) \<le> MaxMailSize)
     (rbind (MailBox_Put (sint (mail_to mh)) h mh (drop 12 (pbuffer n)) n) (\<lambda>n1. Inr (n1\<lparr>worker := None\<rparr>)))))"

definition PostOfficeInput_Receive :: "int \<Rightarrow> byte list \<Rightarrow> 'a node_scheme \<Rightarrow> (PacketHeader \<times> MailHeader \<times> byte list \<times> 'a node_scheme) result" where
  "PostOfficeInput_Receive box buf n =
     require (box \<ge> 0 \<and> box < int (length (boxes n)))
       (rbind (MailBox_Get box buf n) (\<lambda>(p, m, buf1, n1). require (unat (mail_length m) \<le> MaxMailSize) (Inr (p, m, buf1, n1))))"

text \<open>\<open>Send\<close> up to the wait for the network, and after it.\<close>

definition PostOfficeOutput_Send ::
  "PacketHeader \<Rightarrow> MailHeader \<Rightarrow> byte list \<Rightarrow> 'a node_scheme \<Rightarrow> ((byte list \<times> byte list) option \<times> 'a node_scheme) result" where
  "PostOfficeOutput_Send pktH mailH msgData n =
     require (unat (mail_length mailH) \<le> MaxMailSize)
     (require (0 \<le> sint (mail_to mailH))
     (let pktH1 = pktH\<lparr>pkt_from := hostName n, pkt_length := mail_length mailH + 12\<rparr> in
      rbind (copy_to (map (junk n) [0..<MaxPacketSize]) 0 (mail_bytes mailH)) (\<lambda>b1.
      rbind (copy_from msgData 0 (int (unat (mail_length mailH)))) (\<lambda>bs.
      rbind (copy_to b1 12 bs) (\<lambda>b2.
      if sendLock n then Inl Diverges else NetworkOutput_Send pktH1 b2 (n\<lparr>sendLock := True\<rparr>))))))"

definition PostOfficeOutput_Sent :: "'a node_scheme \<Rightarrow> 'a node_scheme result" where
  "PostOfficeOutput_Sent n =
     (if messageSent n = 0 then Inl Diverges else Inr (n\<lparr>messageSent := messageSent n - 1, sendLock := False\<rparr>))"

section \<open>A network of machines\<close>

type_synonym net = "i32 \<rightharpoonup> node"

text \<open>A datagram goes to the machine whose socket has the name; without one it is dropped.\<close>

definition transmit :: "(byte list \<times> byte list) option \<Rightarrow> net \<Rightarrow> net" where
  "transmit out s = (case out of None \<Rightarrow> s
     | Some (toName, dg) \<Rightarrow> (\<lambda>b. map_option (\<lambda>n. if socket_name (hostName n) = toName then n\<lparr>sock := sock n @ [dg]\<rparr> else n) (s b)))"

text \<open>A letter: the two headers and the message.\<close>

type_synonym letter = "PacketHeader \<times> MailHeader \<times> byte list"

datatype event = Sent i32 letter | Got i32 int letter | Silent

text \<open>
  The steps of a network: a program sends, the sender is told that it may go on, interrupts
  occur, the postal worker takes a packet and puts it into a mailbox, a program receives. Programs
  name mailboxes below \<open>NB\<close>, the number of mailboxes of every machine.
\<close>

inductive net_step :: "nat \<Rightarrow> net \<Rightarrow> event \<Rightarrow> net \<Rightarrow> bool" for NB where
  step_send: "s a = Some n \<Longrightarrow> sint (mail_to mh) < int NB \<Longrightarrow> PostOfficeOutput_Send ph mh msg n = Inr (out, n') \<Longrightarrow>
     s' = transmit out (s(a \<mapsto> n')) \<Longrightarrow>
     e = (if out \<noteq> None \<and> s (pkt_to ph) \<noteq> None
          then Sent (pkt_to ph) (ph\<lparr>pkt_from := a, pkt_length := mail_length mh + 12\<rparr>, mh, take (unat (mail_length mh)) msg)
          else Silent) \<Longrightarrow>
     net_step NB s e s'"
| step_sent: "s a = Some n \<Longrightarrow> PostOfficeOutput_Sent n = Inr n' \<Longrightarrow> net_step NB s Silent (s(a \<mapsto> n'))"
| step_interrupt: "s a = Some n \<Longrightarrow> CheckIfDue Net_CallBack adv (n\<lparr>level := IntOff\<rparr>) = Inr (b, n') \<Longrightarrow>
     net_step NB s Silent (s(a \<mapsto> n'))"
| step_take: "s a = Some n \<Longrightarrow> worker n = None \<Longrightarrow> PostalDelivery_take n = Inr n' \<Longrightarrow> net_step NB s Silent (s(a \<mapsto> n'))"
| step_put: "s a = Some n \<Longrightarrow> worker n = Some h \<Longrightarrow> PostalDelivery_put h n = Inr n' \<Longrightarrow> net_step NB s Silent (s(a \<mapsto> n'))"
| step_receive: "s a = Some n \<Longrightarrow> PostOfficeInput_Receive box buf n = Inr (p, m, buf', n') \<Longrightarrow>
     net_step NB s (Got a box (p, m, take (unat (mail_length m)) buf')) (s(a \<mapsto> n'))"

inductive net_run :: "nat \<Rightarrow> net \<Rightarrow> event list \<Rightarrow> net \<Rightarrow> bool" for NB where
  run_refl: "net_run NB s [] s"
| run_step: "net_run NB s tr s' \<Longrightarrow> net_step NB s' e s'' \<Longrightarrow> net_run NB s (tr @ [e]) s''"

section \<open>Headers and letters\<close>

lemma sizes [simp]: "MaxWireSize = 64" "MaxPacketSize = 52" "MaxMailSize = 40"
  by (simp_all add: MaxWireSize_def MaxPacketSize_def MaxMailSize_def)

lemma packet_bytes [simp]: "length (packet_bytes h) = 12" "packet_of_bytes (packet_bytes h @ bs) = h"
proof -
  show l: "length (packet_bytes h) = 12" by (simp add: packet_bytes_def del: word_bytes.simps)
  have "take 12 (packet_bytes h @ bs) = packet_bytes h" using l by simp
  then show "packet_of_bytes (packet_bytes h @ bs) = h" by (simp add: packet_of_bytes_def packet_bytes_def Let_def del: word_bytes.simps)
qed

lemma mail_bytes [simp]: "length (mail_bytes h) = 12" "mail_of_bytes (mail_bytes h @ bs) = h"
proof -
  show l: "length (mail_bytes h) = 12" by (simp add: mail_bytes_def del: word_bytes.simps)
  have "take 12 (mail_bytes h @ bs) = mail_bytes h" using l by simp
  then show "mail_of_bytes (mail_bytes h @ bs) = h" by (simp add: mail_of_bytes_def mail_bytes_def Let_def del: word_bytes.simps)
qed

text \<open>The letter in the payload of a packet, and when the payload is one.\<close>

definition letter_of :: "PacketHeader \<Rightarrow> byte list \<Rightarrow> letter" where
  "letter_of h p = (h, mail_of_bytes p, take (unat (mail_length (mail_of_bytes p))) (drop 12 p))"

definition payload_ok :: "nat \<Rightarrow> PacketHeader \<Rightarrow> byte list \<Rightarrow> bool" where
  "payload_ok NB h p \<longleftrightarrow> unat (mail_length (mail_of_bytes p)) \<le> MaxMailSize \<and>
     unat (pkt_length h) = unat (mail_length (mail_of_bytes p)) + 12 \<and> unat (pkt_length h) \<le> length p \<and>
     0 \<le> sint (mail_to (mail_of_bytes p)) \<and> sint (mail_to (mail_of_bytes p)) < int NB"

lemma payload_length: "payload_ok NB h p \<Longrightarrow> pkt_length h \<noteq> 0 \<and> 12 \<le> unat (pkt_length h) \<and> unat (pkt_length h) \<le> 52"
  by (auto simp: payload_ok_def)

text \<open>A payload is what the packet header says of its length; the bytes behind do not matter.\<close>

lemma payload_prefix:
  assumes "payload_ok NB h p" and "take (unat (pkt_length h)) q = take (unat (pkt_length h)) p" and "unat (pkt_length h) \<le> length q"
  shows "payload_ok NB h q \<and> letter_of h q = letter_of h p"
proof -
  let ?n = "unat (pkt_length h)" and ?m = "mail_length (mail_of_bytes p)"
  have n: "?n = unat ?m + 12" using assms(1) by (simp add: payload_ok_def)
  have "take 12 q = take 12 (take ?n q)" using n by (simp add: min_def)
  also have "\<dots> = take 12 p" unfolding assms(2) using n by (simp add: min_def)
  finally have m: "mail_of_bytes q = mail_of_bytes p" by (simp add: mail_of_bytes_def)
  have "take (unat ?m) (drop 12 q) = drop 12 (take ?n q)" using n by (simp add: drop_take)
  also have "\<dots> = take (unat ?m) (drop 12 p)" unfolding assms(2) using n by (simp add: drop_take)
  finally show ?thesis using assms m by (simp add: letter_of_def payload_ok_def)
qed

lemma copy_from_0: "n \<le> length p \<Longrightarrow> copy_from p 0 (int n) = Inr (take n p)"
  by (simp add: copy_from_def)

lemma copy_to_0: "length bs \<le> length p \<Longrightarrow> copy_to p 0 bs = Inr (bs @ drop (length bs) p)"
  by (simp add: copy_to_def)

section \<open>Legal machines\<close>

definition datagram_ok :: "nat \<Rightarrow> i32 \<Rightarrow> byte list \<Rightarrow> bool" where
  "datagram_ok NB a dg \<longleftrightarrow> length dg = MaxWireSize \<and> pkt_to (packet_of_bytes dg) = a \<and>
     payload_ok NB (packet_of_bytes dg) (drop 12 dg)"

definition mail_ok :: "Mail \<Rightarrow> bool" where
  "mail_ok m \<longleftrightarrow> length (mail_data m) = MaxMailSize \<and> unat (mail_length (mailHdr m)) \<le> MaxMailSize"

definition post_ok :: "nat \<Rightarrow> i32 \<Rightarrow> node \<Rightarrow> bool" where
  "post_ok NB a n \<longleftrightarrow> hostName n = a \<and> length (inbox n) = MaxPacketSize \<and> length (pbuffer n) = MaxPacketSize \<and> length (boxes n) = NB \<and>
     (\<forall>dg \<in> set (sock n). datagram_ok NB a dg) \<and>
     messageAvailable n = (if pkt_length (inHdr n) = 0 then 0 else 1) \<and>
     (pkt_length (inHdr n) \<noteq> 0 \<longrightarrow> payload_ok NB (inHdr n) (inbox n)) \<and>
     (\<forall>h. worker n = Some h \<longrightarrow> payload_ok NB h (pbuffer n)) \<and>
     (\<forall>ms \<in> set (boxes n). \<forall>m \<in> set ms. mail_ok m) \<and> \<not> sendBusy n"

definition node_ok :: "nat \<Rightarrow> i32 \<Rightarrow> node \<Rightarrow> bool" where
  "node_ok NB a n \<longleftrightarrow> post_ok NB a n \<and> clock_ok n \<and> cpu_ok n \<and> \<not> inHandler n"

text \<open>The letters on their way to a machine's mailboxes, first come first; the letters in a mailbox.\<close>

definition datagram_letter :: "byte list \<Rightarrow> letter" where
  "datagram_letter dg = letter_of (packet_of_bytes dg) (drop 12 dg)"

definition flow :: "node \<Rightarrow> letter list" where
  "flow n = (case worker n of None \<Rightarrow> [] | Some h \<Rightarrow> [letter_of h (pbuffer n)]) @
     (if pkt_length (inHdr n) = 0 then [] else [letter_of (inHdr n) (inbox n)]) @ map datagram_letter (sock n)"

definition mail_letter :: "Mail \<Rightarrow> letter" where
  "mail_letter m = (pktHdr m, mailHdr m, take (unat (mail_length (mailHdr m))) (mail_data m))"

lemma NetworkInput_ok:
  assumes p: "post_ok NB a n" and c: "clock_ok n"
  shows "\<exists>n'. NetworkInput_CallBack n = Inr n' \<and> post_ok NB a n' \<and> flow n' = flow n \<and> boxes n' = boxes n \<and> later n n'"
proof -
  obtain q ps where q: "Schedule NetIn NetworkTime NetworkRecvInt n = Inr (n\<lparr>pendingList := ps, brk_int := brk_int n + 1\<rparr>)"
    "set ps = insert q (set (pendingList n))" "when q = now n + NetworkTime" "clock_ok (n\<lparr>pendingList := ps, brk_int := brk_int n + 1\<rparr>)"
    using Schedule_ok [OF c, of NetworkTime NetIn NetworkRecvInt] by (auto simp: NetworkTime_def)
  define n1 where "n1 = n\<lparr>pendingList := ps, brk_int := brk_int n + 1\<rparr>"
  have f: "post_ok NB a n1" "flow n1 = flow n" "boxes n1 = boxes n" using p by (simp_all add: n1_def post_ok_def flow_def cong: option.case_cong)
  have l: "later n n1" using q by (auto simp: later_def n1_def NetworkTime_def)
  show ?thesis
  proof (cases "pkt_length (inHdr n) \<noteq> 0 \<or> sock n = []")
    case True
    then have "NetworkInput_CallBack n = Inr n1" using q(1) by (auto simp: NetworkInput_CallBack_def n1_def)
    then show ?thesis using f l by blast
  next
    case False
    then obtain dg rest where dg: "sock n = dg # rest" and z: "pkt_length (inHdr n) = 0" by (cases "sock n") auto
    have d: "datagram_ok NB a dg" using p dg by (simp add: post_ok_def)
    define h where "h = packet_of_bytes dg"
    have h: "length dg = 64" "pkt_to h = a" "payload_ok NB h (drop 12 dg)" using d by (simp_all add: datagram_ok_def h_def)
    note len = payload_length [OF h(3)]
    have ul: "uint (pkt_length h) \<le> 52" unfolding uint_nat using len by linarith
    define ib where "ib = take (unat (pkt_length h)) (drop 12 dg) @ drop (unat (pkt_length h)) (inbox n)"
    have ibl: "length ib = 52" using p h(1) len by (simp add: ib_def post_ok_def)
    have ib: "payload_ok NB h ib \<and> letter_of h ib = letter_of h (drop 12 dg)"
      by (rule payload_prefix [OF h(3)]) (use h(1) len ibl in \<open>simp_all add: ib_def\<close>)
    define n2 where "n2 = n1\<lparr>sock := rest, inHdr := h, inbox := ib, stats := (stats n)\<lparr>numPacketsRecvd := numPacketsRecvd (stats n) + 1\<rparr>,
      messageAvailable := 1\<rparr>"
    have "messageAvailable n = 0" using p z by (simp add: post_ok_def)
    then have "NetworkInput_CallBack n = Inr n2"
      using q(1) z dg h(1,2) len ul p
      by (simp add: NetworkInput_CallBack_def n2_def n1_def PostOfficeInput_CallBack_def copy_from_def copy_to_def post_ok_def ib_def Let_def flip: h_def)
    moreover have "post_ok NB a n2" using f(1) dg len ib ibl p by (auto simp: post_ok_def n2_def n1_def)
    moreover have "flow n2 = flow n" using z dg len ib by (simp add: flow_def n2_def n1_def datagram_letter_def cong: option.case_cong flip: h_def)
    moreover have "boxes n2 = boxes n" "later n n2" using l by (simp_all add: n2_def n1_def later_def clock_ok_def)
    ultimately show ?thesis by blast
  qed
qed

interpretation post: devices Net_CallBack "\<lambda>_. True" "\<lambda>n. post_ok NB a n \<and> flow n = L \<and> boxes n = B" for NB a L B
proof
  fix s :: node and c
  assume a: "post_ok NB a s \<and> flow s = L \<and> boxes s = B" "clock_ok s"
  show "\<exists>s'. Net_CallBack c s = Inr s' \<and> (post_ok NB a s' \<and> flow s' = L \<and> boxes s' = B) \<and> pend_ok (\<lambda>_. True) s' \<and> later s s'"
  proof (cases c)
    case NetIn
    then show ?thesis using NetworkInput_ok [of NB a s] a by (auto simp: pend_ok_def)
  next
    case NetOut
    then show ?thesis using a
      by (auto simp: NetworkOutput_CallBack_def PostOfficeOutput_CallBack_def pend_ok_def post_ok_def flow_def later_def clock_ok_def
          cong: option.case_cong)
  qed
qed (simp_all add: post_ok_def flow_def cong: option.case_cong)

section \<open>Each operation, in a legal machine\<close>

lemma all_update:
  assumes "\<forall>ms \<in> set B. \<forall>x \<in> set ms. P x" and "\<forall>x \<in> set ys. P x"
  shows "\<forall>ms \<in> set (B[b := ys]). \<forall>x \<in> set ms. P x"
  using assms set_update_subset_insert [of B b ys] by blast

lemma take_ok:
  assumes n: "node_ok NB a n" and w: "worker n = None" "messageAvailable n \<noteq> 0"
  shows "\<exists>n'. PostalDelivery_take n = Inr n' \<and> node_ok NB a n' \<and> flow n' = flow n \<and> boxes n' = boxes n"
proof -
  let ?h = "inHdr n"
  have p: "payload_ok NB ?h (inbox n)" "messageAvailable n = 1" "length (inbox n) = 52" "length (pbuffer n) = 52" "pkt_length ?h \<noteq> 0"
    using n w by (auto simp: node_ok_def post_ok_def split: if_splits)
  note len = payload_length [OF p(1)]
  have ul: "uint (pkt_length ?h) \<le> 52" unfolding uint_nat using len by linarith
  define pb where "pb = take (unat (pkt_length ?h)) (inbox n) @ drop (unat (pkt_length ?h)) (pbuffer n)"
  have pbl: "length pb = 52" using p len by (simp add: pb_def)
  have pb: "payload_ok NB ?h pb \<and> letter_of ?h pb = letter_of ?h (inbox n)"
    by (rule payload_prefix [OF p(1)]) (use p len pbl in \<open>simp_all add: pb_def\<close>)
  define n' where "n' = n\<lparr>messageAvailable := 0, inHdr := ?h\<lparr>pkt_length := 0\<rparr>, worker := Some ?h, pbuffer := pb\<rparr>"
  have "PostalDelivery_take n = Inr n'"
    using p len ul by (simp add: PostalDelivery_take_def NetworkInput_Receive_def copy_from_def copy_to_def n'_def pb_def Let_def)
  moreover have "node_ok NB a n'" using n pb pbl by (auto simp: node_ok_def post_ok_def n'_def clock_ok_def cpu_ok_def reg_def)
  moreover have "flow n' = flow n" "boxes n' = boxes n" using w p(5) pb by (simp_all add: flow_def n'_def)
  ultimately show ?thesis by blast
qed

lemma put_ok:
  assumes n: "node_ok NB a n" and w: "worker n = Some h"
  defines "b \<equiv> nat (sint (mail_to (mail_of_bytes (pbuffer n))))"
  shows "\<exists>n' m. PostalDelivery_put h n = Inr n' \<and> node_ok NB a n' \<and> b < NB \<and> flow n = mail_letter m # flow n' \<and>
    b = nat (sint (mail_to (mailHdr m))) \<and> boxes n' = (boxes n)[b := boxes n ! b @ [m]]"
proof -
  let ?mh = "mail_of_bytes (pbuffer n)"
  have p: "payload_ok NB h (pbuffer n)" "length (pbuffer n) = 52" "length (boxes n) = NB" using n w by (auto simp: node_ok_def post_ok_def)
  then have q: "unat (mail_length ?mh) \<le> 40" "0 \<le> sint (mail_to ?mh)" "sint (mail_to ?mh) < int NB" by (simp_all add: payload_ok_def)
  have ul: "uint (mail_length ?mh) \<le> 40" unfolding uint_nat using q(1) by linarith
  define d where "d = take (unat (mail_length ?mh)) (drop 12 (pbuffer n)) @ drop (unat (mail_length ?mh)) (map (junk n) [0..<MaxMailSize])"
  define m where "m = \<lparr>pktHdr = h, mailHdr = ?mh, mail_data = d\<rparr>"
  have mail: "Mail_new h ?mh (drop 12 (pbuffer n)) (map (junk n) [0..<MaxMailSize]) = Inr m"
    using q(1) ul p(2) by (simp add: Mail_new_def copy_from_def copy_to_def m_def d_def)
  have b: "b < NB" "sint (mail_to ?mh) = int b" using q by (simp_all add: b_def)
  define n' where "n' = n\<lparr>boxes := (boxes n)[b := boxes n ! b @ [m]], worker := None\<rparr>"
  have run: "PostalDelivery_put h n = Inr n'"
    using q mail b p(3) by (simp add: PostalDelivery_put_def MailBox_Put_def n'_def Let_def)
  have mok: "mail_ok m" using q(1) p(2) by (simp add: mail_ok_def m_def d_def)
  have all: "\<forall>ms \<in> set (boxes n). \<forall>x \<in> set ms. mail_ok x" using n by (simp add: node_ok_def post_ok_def)
  moreover have "boxes n ! b \<in> set (boxes n)" using b(1) p(3) by simp
  ultimately have "\<forall>x \<in> set (boxes n ! b @ [m]). mail_ok x" using mok by auto
  from all_update [OF all this, of b]
have "node_ok NB a n'" using n p by (auto simp: node_ok_def post_ok_def n'_def clock_ok_def cpu_ok_def reg_def)
  moreover have "flow n = mail_letter m # flow n'"
    using w p(2) q(1) by (simp add: flow_def n'_def mail_letter_def letter_of_def m_def d_def)
  moreover have "b = nat (sint (mail_to (mailHdr m)))" by (simp add: b_def m_def)
  ultimately show ?thesis using run b(1) by (intro exI [of _ n'] exI [of _ m]) (simp add: n'_def)
qed

lemma interrupt_ok:
  assumes "node_ok NB a n"
  shows "\<exists>b n'. CheckIfDue Net_CallBack adv (n\<lparr>level := IntOff\<rparr>) = Inr (b, n') \<and> node_ok NB a n' \<and> flow n' = flow n \<and> boxes n' = boxes n"
proof -
  let ?n = "n\<lparr>level := IntOff\<rparr>"
  have "post_ok NB a ?n \<and> flow ?n = flow n \<and> boxes ?n = boxes n" "clock_ok ?n" "level ?n = IntOff" "\<not> inHandler ?n" "cpu_ok ?n"
    using assms by (simp_all add: node_ok_def post_ok_def flow_def clock_ok_def cpu_ok_def reg_def cong: option.case_cong)
  from post.CheckIfDue_ok [OF this, of adv] show ?thesis by (auto simp: node_ok_def pend_ok_def)
qed

lemma Sent_ok:
  assumes "node_ok NB a n" and "PostOfficeOutput_Sent n = Inr n'"
  shows "node_ok NB a n' \<and> flow n' = flow n \<and> boxes n' = boxes n"
proof -
  have e: "n' = n\<lparr>messageSent := messageSent n - 1, sendLock := False\<rparr>"
    using assms(2) by (simp add: PostOfficeOutput_Sent_def split: if_splits)
  show ?thesis unfolding e
    using assms(1) by (simp add: node_ok_def post_ok_def flow_def clock_ok_def cpu_ok_def reg_def cong: option.case_cong)
qed

lemma Receive_ok:
  assumes n: "node_ok NB a n" and r: "PostOfficeInput_Receive box buf n = Inr (p, m, buf', n')"
  shows "\<exists>b mail rest. box = int b \<and> b < NB \<and> boxes n ! b = mail # rest \<and> node_ok NB a n' \<and> flow n' = flow n \<and>
    boxes n' = (boxes n)[b := rest] \<and> (p, m, take (unat (mail_length m)) buf') = mail_letter mail"
proof -
  have len: "length (boxes n) = NB" using n by (simp add: node_ok_def post_ok_def)
  obtain b where b: "box = int b" "b < NB"
    using r len by (auto simp: PostOfficeInput_Receive_def require_def dest!: zero_le_imp_eq_int split: if_splits)
  obtain mail rest where m: "boxes n ! b = mail # rest"
    using r b len by (cases "boxes n ! b") (auto simp: PostOfficeInput_Receive_def MailBox_Get_def)
  have mok: "mail_ok mail" using n m b len nth_mem [of b "boxes n"] by (auto simp: node_ok_def post_ok_def)
  define k where "k = unat (mail_length (mailHdr mail))"
  have cf: "copy_from (mail_data mail) 0 (int k) = Inr (take k (mail_data mail))" using mok copy_from_0 [of k "mail_data mail"] by (simp add: mail_ok_def k_def del: of_nat_unat)
  have e: "p = pktHdr mail" "m = mailHdr mail" "n' = n\<lparr>boxes := (boxes n)[b := rest]\<rparr>"
    "copy_to buf 0 (take k (mail_data mail)) = Inr buf'"
    using r b len m mok by (auto simp: PostOfficeInput_Receive_def MailBox_Get_def cf rbind_eq_Inr require_eq_Inr simp del: of_nat_unat simp flip: k_def)
  have buf: "take k buf' = take k (mail_data mail)" using e(4) mok by (auto simp: copy_to_def mail_ok_def k_def split: if_splits)
  have all: "\<forall>ms \<in> set (boxes n). \<forall>x \<in> set ms. mail_ok x" using n by (simp add: node_ok_def post_ok_def)
  moreover have "boxes n ! b \<in> set (boxes n)" using b(2) len by simp
  ultimately have "\<forall>x \<in> set rest. mail_ok x" using m by auto
  from all_update [OF all this, of b]
have "node_ok NB a n'" using n by (auto simp: e(3) node_ok_def post_ok_def clock_ok_def cpu_ok_def reg_def)
  then show ?thesis using b m e buf by (auto simp: mail_letter_def flow_def k_def cong: option.case_cong)
qed

section \<open>Sending\<close>

lemma Send_ok:
  assumes n: "node_ok NB a n" and to: "sint (mail_to mh) < int NB" and s: "PostOfficeOutput_Send ph mh msg n = Inr (out, n')"
  shows "node_ok NB a n' \<and> flow n' = flow n \<and> boxes n' = boxes n \<and>
    (\<forall>nm dg. out = Some (nm, dg) \<longrightarrow> nm = socket_name (pkt_to ph) \<and> datagram_ok NB (pkt_to ph) dg \<and>
       datagram_letter dg = (ph\<lparr>pkt_from := a, pkt_length := mail_length mh + 12\<rparr>, mh, take (unat (mail_length mh)) msg))"
proof -
  let ?k = "unat (mail_length mh)"
  define h where "h = ph\<lparr>pkt_from := hostName n, pkt_length := mail_length mh + 12\<rparr>"
  have a: "hostName n = a" using n by (simp add: node_ok_def post_ok_def)
  obtain bs where g: "?k \<le> 40" "0 \<le> sint (mail_to mh)" "copy_from msg 0 (int ?k) = Inr bs" "\<not> sendLock n"
    using s by (auto simp: PostOfficeOutput_Send_def require_eq_Inr rbind_eq_Inr Let_def split: if_splits simp del: of_nat_unat)
  have bs: "bs = take ?k msg" "length bs = ?k" using g(3) by (auto simp: copy_from_def split: if_splits simp del: of_nat_unat)
  have len: "unat (mail_length mh + 12) = ?k + 12" using g(1) by (simp add: unat_word_ariths)
  have ul: "uint (mail_length mh) \<le> 40" unfolding uint_nat using g(1) by linarith
  define b2 where "b2 = mail_bytes mh @ bs @ drop (12 + ?k) (map (junk n) [0..<MaxPacketSize])"
  have b2: "length b2 = 52" using bs(2) g(1) by (simp add: b2_def)
  have c: "copy_to (map (junk n) [0..<MaxPacketSize]) 0 (mail_bytes mh) = Inr (mail_bytes mh @ drop 12 (map (junk n) [0..<MaxPacketSize]))"
    "copy_to (mail_bytes mh @ drop 12 (map (junk n) [0..<MaxPacketSize])) 12 bs = Inr b2"
    using bs(2) g(1) ul by (simp_all add: copy_to_def b2_def add.commute)
  have s1: "NetworkOutput_Send h b2 (n\<lparr>sendLock := True\<rparr>) = Inr (out, n')"
    using s g c by (simp add: PostOfficeOutput_Send_def h_def Let_def del: of_nat_unat)
  let ?n = "n\<lparr>sendLock := True\<rparr>"
  have "clock_ok ?n" using n by (simp add: node_ok_def clock_ok_def)
  then obtain ps where q: "Schedule NetOut NetworkTime NetworkSendInt ?n = Inr (?n\<lparr>pendingList := ps, brk_int := brk_int n + 1\<rparr>)"
    "clock_ok (?n\<lparr>pendingList := ps, brk_int := brk_int n + 1\<rparr>)"
    using Schedule_ok [of ?n NetworkTime NetOut NetworkSendInt] by (auto simp: NetworkTime_def)
  define n2 where "n2 = ?n\<lparr>pendingList := ps, brk_int := brk_int n + 1, drawn := drawn n + 1\<rparr>"
  have n2: "node_ok NB a n2" "flow n2 = flow n" "boxes n2 = boxes n"
    using n q(2) by (auto simp: n2_def node_ok_def post_ok_def flow_def clock_ok_def cpu_ok_def reg_def cong: option.case_cong)
  define dg where "dg = packet_bytes h @ take (?k + 12) b2 @ drop (12 + (?k + 12)) (map (junk n) [0..<MaxWireSize])"
  have hk: "unat (pkt_length h) = ?k + 12" "pkt_from h = a" by (simp_all add: h_def len a)
  have e: "n' = n2 \<and> (out = None \<or> out = Some (socket_name (pkt_to h), dg))"
  proof -
    have c1: "copy_to (map (junk n) [0..<MaxWireSize]) 0 (packet_bytes h) = Inr (packet_bytes h @ drop 12 (map (junk n) [0..<MaxWireSize]))"
      by (simp add: copy_to_def)
    have c2: "copy_from b2 0 (int (unat (pkt_length h))) = Inr (take (?k + 12) b2)"
      using g(1) b2 copy_from_0 [of "?k + 12" b2] unfolding hk by simp
    have c3: "copy_to (packet_bytes h @ drop 12 (map (junk n) [0..<MaxWireSize])) 12 (take (?k + 12) b2) = Inr dg"
      using g(1) b2 by (simp add: copy_to_def dg_def add.commute min_def)
    show ?thesis
      using s1 q(1) c1 c2 c3
      by (auto simp: NetworkOutput_Send_def require_eq_Inr RandomNumber_def Let_def n2_def split: if_splits simp del: of_nat_unat)
  qed
  have dgl: "length dg = 64" using b2 g(1) by (simp add: dg_def)
  have d12: "drop 12 dg = take (?k + 12) b2 @ drop (12 + (?k + 12)) (map (junk n) [0..<MaxWireSize])" by (simp add: dg_def)
  have pk: "packet_of_bytes dg = h" by (simp add: dg_def)
  have tk: "take (?k + 12) b2 = mail_bytes mh @ bs" using bs(2) by (simp add: b2_def)
  have mb: "mail_of_bytes (drop 12 dg) = mh" unfolding d12 tk by simp
  have "payload_ok NB h (drop 12 dg)" using g to hk dgl by (simp add: payload_ok_def mb)
  then have "datagram_ok NB (pkt_to ph) dg" using dgl pk by (simp add: datagram_ok_def h_def)
  moreover have "datagram_letter dg = (h, mh, take ?k msg)"
    unfolding datagram_letter_def letter_of_def pk mb unfolding d12 tk using bs by simp
  ultimately show ?thesis using e n2 by (auto simp: h_def a)
qed

text \<open>Machines have different names, so different sockets.\<close>

lemma ndigits_Nil: "ndigits n = [] \<longleftrightarrow> n = 0"
  by (subst ndigits.simps) simp

lemma digit_char_inj: "d < 10 \<Longrightarrow> d' < 10 \<Longrightarrow> digit_char d = digit_char d' \<Longrightarrow> d = d'"
proof -
  have "unat (digit_char e) = 48 + e" if "e < 10" for e using that by (simp add: digit_char_def unat_of_nat del: of_nat_add)
  then show "d < 10 \<Longrightarrow> d' < 10 \<Longrightarrow> digit_char d = digit_char d' \<Longrightarrow> d = d'" by (metis add_left_cancel)
qed

lemma map_digits_inj:
  assumes "\<forall>d \<in> set xs. d < 10" "\<forall>d \<in> set ys. d < 10" and "map digit_char xs = map digit_char ys"
  shows "xs = ys"
  using assms by (intro map_inj_on [where f = digit_char]) (auto simp: inj_on_def digit_char_inj)

lemma format_int_inj:
  assumes "format_int x = format_int y"
  shows "x = y"
proof -
  let ?t = "\<lambda>x :: int. if x = 0 then [0] else rev (ndigits (nat \<bar>x\<bar>))"
  have f: "format_int z = (if z < 0 then [45] else []) @ map digit_char (?t z)" for z
    by (simp add: format_int_def digit_char_def)
  have d: "\<forall>e \<in> set (?t z). e < 10" for z using decimal_ndigits(2) by auto
  have ne: "?t z \<noteq> []" for z by (simp add: ndigits_Nil)
  have sg: "map digit_char (?t z) = c # cs \<Longrightarrow> c \<noteq> 45" for z c cs
    using d [of z] digit_char(4) by (cases "?t z") auto
  have "(x < 0) = (y < 0)"
    using assms ne [of x] ne [of y] sg [of x] sg [of y] unfolding f by (cases "?t x"; cases "?t y") (auto split: if_splits)
  moreover from this have "map digit_char (?t x) = map digit_char (?t y)" using assms unfolding f by (auto split: if_splits)
  then have "?t x = ?t y" by (rule map_digits_inj [OF d d])
  moreover have "decimal (?t z) = nat \<bar>z\<bar>" for z using decimal_ndigits(1) by (simp add: decimal_def)
  ultimately have "nat \<bar>x\<bar> = nat \<bar>y\<bar>" by metis
  then show "x = y" using \<open>(x < 0) = (y < 0)\<close> by linarith
qed

lemma socket_name_inj: "socket_name a = socket_name b \<longleftrightarrow> a = b"
proof
  assume "socket_name a = socket_name b"
  then have "format_int (sint a) = format_int (sint b)" by (simp add: socket_name_def)
  then have "sint a = sint b" by (rule format_int_inj)
  then show "a = b" by (rule signed_word_eqI)
qed simp

section \<open>The network\<close>

text \<open>The letters sent to a mailbox, and those received from it, in a run.\<close>

definition in_box :: "int \<Rightarrow> letter \<Rightarrow> bool" where
  "in_box box l \<longleftrightarrow> sint (mail_to (fst (snd l))) = box"

definition sent_to :: "i32 \<Rightarrow> int \<Rightarrow> event list \<Rightarrow> letter list" where
  "sent_to b box tr = concat (map (\<lambda>e. case e of Sent b' l \<Rightarrow> if b' = b \<and> in_box box l then [l] else [] | _ \<Rightarrow> []) tr)"

definition got_from :: "i32 \<Rightarrow> int \<Rightarrow> event list \<Rightarrow> letter list" where
  "got_from b box tr = concat (map (\<lambda>e. case e of Got b' box' l \<Rightarrow> if b' = b \<and> box' = box then [l] else [] | _ \<Rightarrow> []) tr)"

definition waiting :: "node \<Rightarrow> nat \<Rightarrow> letter list" where
  "waiting n box = map mail_letter (boxes n ! box) @ filter (in_box (int box)) (flow n)"

definition net_ok :: "nat \<Rightarrow> net \<Rightarrow> bool" where
  "net_ok NB s \<longleftrightarrow> (\<forall>a n. s a = Some n \<longrightarrow> node_ok NB a n)"

lemma waiting_cong: "flow n' = flow n \<Longrightarrow> boxes n' = boxes n \<Longrightarrow> waiting n' = waiting n"
  by (simp add: waiting_def fun_eq_iff)

lemma waiting_put:
  assumes n: "node_ok NB a n" and w: "worker n = Some h" and r: "PostalDelivery_put h n = Inr n'" and box: "box < NB"
  shows "node_ok NB a n' \<and> waiting n' box = waiting n box"
proof -
  let ?b = "nat (sint (mail_to (mail_of_bytes (pbuffer n))))"
  obtain m where m: "node_ok NB a n'" "?b < NB" "flow n = mail_letter m # flow n'" "?b = nat (sint (mail_to (mailHdr m)))"
    "boxes n' = (boxes n)[?b := boxes n ! ?b @ [m]]" using put_ok [OF n w] r by auto
  have "payload_ok NB h (pbuffer n)" "length (boxes n) = NB" using n w by (auto simp: node_ok_def post_ok_def)
  then have "0 \<le> sint (mail_to (mail_of_bytes (pbuffer n)))" by (simp add: payload_ok_def)
  have "fst (snd (mail_letter m)) = mail_of_bytes (pbuffer n)" using m(3) w by (simp add: flow_def letter_of_def) (metis fst_conv snd_conv)
  then have "in_box (int box) (mail_letter m) \<longleftrightarrow> box = ?b"
    using \<open>0 \<le> sint (mail_to (mail_of_bytes (pbuffer n)))\<close> by (auto simp: in_box_def)
  then show ?thesis using m(1,2,3,5) box \<open>length (boxes n) = NB\<close> by (simp add: waiting_def nth_list_update)
qed

lemma waiting_receive:
  assumes n: "node_ok NB a n" and r: "PostOfficeInput_Receive box buf n = Inr (p, m, buf', n')" and b: "b < NB"
  shows "node_ok NB a n' \<and>
    waiting n b = (if box = int b then [(p, m, take (unat (mail_length m)) buf')] else []) @ waiting n' b"
proof -
  obtain c mail rest where c: "box = int c" "c < NB" "boxes n ! c = mail # rest" "node_ok NB a n'" "flow n' = flow n"
    "boxes n' = (boxes n)[c := rest]" "(p, m, take (unat (mail_length m)) buf') = mail_letter mail" using Receive_ok [OF n r] by blast
  have "length (boxes n) = NB" using n by (simp add: node_ok_def post_ok_def)
  then show ?thesis using c b by (auto simp: waiting_def)
qed

lemma transmit_lookup:
  assumes "net_ok NB s" and "s b = Some n"
  shows "transmit (Some (socket_name d, dg)) s b = Some (if b = d then n\<lparr>sock := sock n @ [dg]\<rparr> else n)"
  using assms by (auto simp: transmit_def net_ok_def node_ok_def post_ok_def socket_name_inj)

lemma node_ok_arrives:
  assumes "node_ok NB a n" and "datagram_ok NB a dg"
  shows "node_ok NB a (n\<lparr>sock := sock n @ [dg]\<rparr>) \<and> flow (n\<lparr>sock := sock n @ [dg]\<rparr>) = flow n @ [datagram_letter dg]"
  using assms by (auto simp: node_ok_def post_ok_def flow_def clock_ok_def cpu_ok_def reg_def cong: option.case_cong)

text \<open>What a step does to the letters waiting for a mailbox: it adds those sent and takes those received.\<close>

definition accounts :: "nat \<Rightarrow> nat \<Rightarrow> net \<Rightarrow> event list \<Rightarrow> net \<Rightarrow> bool" where
  "accounts NB box s tr s' \<longleftrightarrow> net_ok NB s' \<and> (\<forall>b m. s b = Some m \<longrightarrow> (\<exists>m'. s' b = Some m' \<and>
     waiting m box @ sent_to b (int box) tr = got_from b (int box) tr @ waiting m' box))"

lemma accounts_local:
  assumes "net_ok NB s" and "s a = Some n" and "node_ok NB a n'"
    and "waiting n box @ sent_to a (int box) [e] = got_from a (int box) [e] @ waiting n' box"
    and "\<And>b. b \<noteq> a \<Longrightarrow> sent_to b (int box) [e] = [] \<and> got_from b (int box) [e] = []"
  shows "accounts NB box s [e] (s(a \<mapsto> n'))"
  using assms by (auto simp: accounts_def net_ok_def)

lemma accounts_silent:
  assumes "net_ok NB s" and "s a = Some n" and "node_ok NB a n'" and "waiting n' box = waiting n box"
  shows "accounts NB box s [Silent] (s(a \<mapsto> n'))"
  using assms by (intro accounts_local) (simp_all add: sent_to_def got_from_def)

lemma accounts_send:
  assumes s: "net_ok NB s" "s a = Some n" and to: "sint (mail_to mh) < int NB" and r: "PostOfficeOutput_Send ph mh msg n = Inr (out, n')"
    and e: "e = (if out \<noteq> None \<and> s (pkt_to ph) \<noteq> None
          then Sent (pkt_to ph) (ph\<lparr>pkt_from := a, pkt_length := mail_length mh + 12\<rparr>, mh, take (unat (mail_length mh)) msg)
          else Silent)"
  shows "accounts NB box s [e] (transmit out (s(a \<mapsto> n')))"
proof -
  let ?s = "s(a \<mapsto> n')"
  have n: "node_ok NB a n" using s by (simp add: net_ok_def)
  note o = Send_ok [OF n to r]
  have ok: "net_ok NB ?s" using s(1) o by (simp add: net_ok_def)
  have w: "waiting n' = waiting n" using o by (intro waiting_cong) simp_all
  show ?thesis
  proof (cases out)
    case None
    then show ?thesis using accounts_silent [OF s, of n' box] o w e by (simp add: transmit_def)
  next
    case (Some x)
    obtain nm dg where "out = Some (nm, dg)" using Some by (cases x) simp
    with o have out: "out = Some (socket_name (pkt_to ph), dg)" and dg: "datagram_ok NB (pkt_to ph) dg"
      and l: "datagram_letter dg = (ph\<lparr>pkt_from := a, pkt_length := mail_length mh + 12\<rparr>, mh, take (unat (mail_length mh)) msg)" by simp_all
    have look: "transmit out ?s b = Some (if b = pkt_to ph then m\<lparr>sock := sock m @ [dg]\<rparr> else m)" if "?s b = Some m" for b m
      unfolding out by (rule transmit_lookup [OF ok that])
    have dom: "transmit out ?s b = None" if "?s b = None" for b using that by (simp add: transmit_def out)
    have each: "\<exists>m'. transmit out ?s b = Some m' \<and> node_ok NB b m' \<and>
        waiting m box @ sent_to b (int box) [e] = got_from b (int box) [e] @ waiting m' box" if sb: "s b = Some m" for b m
    proof -
      obtain m1 where m1: "?s b = Some m1" "waiting m1 = waiting m" using sb w s(2) by (cases "b = a") auto
      have m1_ok: "node_ok NB b m1" using ok m1(1) by (simp add: net_ok_def)
      show ?thesis
      proof (cases "b = pkt_to ph")
        case True
        let ?m = "m1\<lparr>sock := sock m1 @ [dg]\<rparr>"
        have a: "node_ok NB b ?m" "flow ?m = flow m1 @ [datagram_letter dg]"
          using node_ok_arrives [OF m1_ok, of dg] dg True by simp_all
        have "waiting ?m box = waiting m1 box @ (if in_box (int box) (datagram_letter dg) then [datagram_letter dg] else [])"
          using a(2) by (simp add: waiting_def)
        moreover have "e = Sent b (datagram_letter dg)" using e out True sb l by simp
        ultimately show ?thesis using look [OF m1(1)] True a(1) m1(2) by (simp add: sent_to_def got_from_def)
      next
        case False
        then have "sent_to b (int box) [e] = []" "got_from b (int box) [e] = []" using e by (simp_all add: sent_to_def got_from_def)
        then show ?thesis using look [OF m1(1)] False m1_ok m1(2) by simp
      qed
    qed
    have "net_ok NB (transmit out ?s)"
      unfolding net_ok_def
    proof (intro allI impI)
      fix b m' assume t: "transmit out ?s b = Some m'"
      then obtain m1 where "?s b = Some m1" using dom by (cases "?s b") auto
      then obtain m where "s b = Some m" using s(2) by (cases "b = a") auto
      with each t show "node_ok NB b m'" by fastforce
    qed
    then show ?thesis using each unfolding accounts_def by blast
  qed
qed

lemma net_step_accounts:
  assumes "net_step NB s e s'" and "net_ok NB s" and "box < NB"
  shows "accounts NB box s [e] s'"
  using assms(1)
proof cases
  case (step_send a n mh ph msg out n')
  then show ?thesis using accounts_send [OF assms(2)] by blast
next
  case (step_sent a n n')
  have "node_ok NB a n" using step_sent assms(2) by (simp add: net_ok_def)
  from Sent_ok [OF this] step_sent show ?thesis using accounts_silent [OF assms(2)] waiting_cong by metis
next
  case (step_interrupt a n adv b n')
  have "node_ok NB a n" using step_interrupt assms(2) by (simp add: net_ok_def)
  from interrupt_ok [OF this, of adv] step_interrupt show ?thesis using accounts_silent [OF assms(2)] waiting_cong by (metis Inr_inject Pair_inject)
next
  case (step_take a n n')
  have n: "node_ok NB a n" using step_take assms(2) by (simp add: net_ok_def)
  have "messageAvailable n \<noteq> 0" using step_take by (auto simp: PostalDelivery_take_def split: if_splits)
  from take_ok [OF n _ this] step_take show ?thesis using accounts_silent [OF assms(2)] waiting_cong by (metis Inr_inject)
next
  case (step_put a n h n')
  have n: "node_ok NB a n" using step_put assms(2) by (simp add: net_ok_def)
  from waiting_put [OF n step_put(4,5) assms(3)] step_put show ?thesis using accounts_silent [OF assms(2)] by metis
next
  case (step_receive a n bx buf p m buf' n')
  have n: "node_ok NB a n" using step_receive assms(2) by (simp add: net_ok_def)
  from waiting_receive [OF n step_receive(4) assms(3)] step_receive show ?thesis
    by (auto intro!: accounts_local [OF assms(2)] simp: sent_to_def got_from_def)
qed

lemma net_run_accounts: "net_run NB s tr s' \<Longrightarrow> net_ok NB s \<Longrightarrow> box < NB \<Longrightarrow> accounts NB box s tr s'"
proof (induction rule: net_run.induct)
  case (run_refl s)
  then show ?case by (simp add: accounts_def sent_to_def got_from_def)
next
  case (run_step s tr s1 e s2)
  then have a: "accounts NB box s tr s1" by simp
  then have "net_ok NB s1" by (simp add: accounts_def)
  from net_step_accounts [OF run_step(2) this run_step(5)] have b: "accounts NB box s1 [e] s2" .
  have ap: "sent_to c (int box) (tr @ [e]) = sent_to c (int box) tr @ sent_to c (int box) [e]"
    "got_from c (int box) (tr @ [e]) = got_from c (int box) tr @ got_from c (int box) [e]" for c
    by (simp_all add: sent_to_def got_from_def)
  show ?case unfolding accounts_def ap
  proof (intro conjI allI impI)
    show "net_ok NB s2" using b by (simp add: accounts_def)
    fix c m assume "s c = Some m"
    then obtain m1 where m1: "s1 c = Some m1" "waiting m box @ sent_to c (int box) tr = got_from c (int box) tr @ waiting m1 box"
      using a by (auto simp: accounts_def)
    then obtain m2 where "s2 c = Some m2" "waiting m1 box @ sent_to c (int box) [e] = got_from c (int box) [e] @ waiting m2 box"
      using b by (auto simp: accounts_def)
    then show "\<exists>m'. s2 c = Some m' \<and> waiting m box @ sent_to c (int box) tr @ sent_to c (int box) [e] =
        (got_from c (int box) tr @ got_from c (int box) [e]) @ waiting m' box"
      using m1(2) by (metis append.assoc)
  qed
qed

text \<open>
  C16: Mail is delivered once, in order and unchanged. In any run of a network of legal machines,
  for every mailbox of every machine: the letters that waited for it, followed by the letters
  sent to it (and not dropped by the simulated unreliability), are the letters received from it,
  followed by the letters that still wait for it at the end: in the mailbox, with the postal
  worker, in the buffer of the network device or at the socket.
\<close>

theorem mail_in_order:
  assumes "net_ok NB s" and "net_run NB s tr s'" and "s b = Some n" and "box < NB"
  shows "\<exists>n'. s' b = Some n' \<and> waiting n box @ sent_to b (int box) tr = got_from b (int box) tr @ waiting n' box"
  using net_run_accounts [OF assms(2,1,4)] assms(3) by (auto simp: accounts_def)


text \<open>A sender may name any mailbox that is not negative; one that the receiver does not have stops the receiver's kernel.\<close>

lemma unknown_mailbox_aborts:
  "int (length (boxes n)) \<le> sint (mail_to (mail_of_bytes (pbuffer n))) \<Longrightarrow> PostalDelivery_put h n = Inl Abort"
  by (simp add: PostalDelivery_put_def Let_def)

section \<open>Example: two machines\<close>

definition new_node :: "i32 \<Rightarrow> node" where
  "new_node a = interrupt.extend (sysenv.extend boot_sys (interrupt.fields IntOn [] False False Statistics_new 0 False False))
     (node.fields a \<lparr>pkt_to = 0, pkt_from = 0, pkt_length = 0\<rparr> (replicate 52 0) [] 0 (replicate 52 0) None [[], []] 1 False 0 False)"

lemma new_node_ok: "node_ok 2 a (new_node a)" "waiting (new_node a) 1 = []"
  using one_page_ok
  by (auto simp: new_node_def boot_sys_def node_ok_def post_ok_def waiting_def flow_def clock_ok_def cpu_ok_def reg_def machine_ok_def
      machine.defs sysenv.defs interrupt.defs node.defs one_page_def Machine_new_def reg_names)

text \<open>Machine 0 sends two bytes to mailbox 1 of machine 7.\<close>

definition example_net :: net where
  "example_net = [0 \<mapsto> new_node 0, 7 \<mapsto> new_node 7]"

lemma example_net_ok: "net_ok 2 example_net"
  by (simp add: example_net_def net_ok_def new_node_ok)

definition example_header :: MailHeader where
  "example_header = \<lparr>mail_to = 1, mail_from = 0, mail_length = 2\<rparr>"

lemma example_send:
  "\<exists>out n'. PostOfficeOutput_Send \<lparr>pkt_to = 7, pkt_from = 0, pkt_length = 0\<rparr> example_header [65, 66] (new_node 0) = Inr (out, n') \<and> out \<noteq> None"
proof -
  define n where "n = (new_node 0)\<lparr>sendLock := True\<rparr>"
  have n: "\<not> sendBusy n" "hostName n = 0" "chanceToWork n = 1" "pendingList n = []" "entropy n = (\<lambda>_. 0)"
    by (simp_all add: n_def new_node_def boot_sys_def machine.defs sysenv.defs interrupt.defs node.defs one_page_def)
  have l: "\<not> sendLock (new_node 0)" "hostName (new_node 0) = 0"
    by (simp_all add: new_node_def boot_sys_def machine.defs sysenv.defs interrupt.defs node.defs one_page_def)
  have s: "\<exists>ps. Schedule NetOut NetworkTime NetworkSendInt n = Inr (n\<lparr>pendingList := ps, brk_int := brk_int n + 1\<rparr>)"
    using n(4) by (auto simp: Schedule_def list_Insert_def NetworkTime_def Let_def)
  show ?thesis
    using s n l
    by (auto simp: PostOfficeOutput_Send_def example_header_def copy_to_def copy_from_def NetworkOutput_Send_def RandomNumber_def Let_def simp flip: n_def)
qed

lemma example_run:
  "\<exists>l s'. net_run 2 example_net [Sent 7 l] s' \<and> in_box 1 l \<and> snd (snd l) = [65, 66]"
proof -
  let ?ph = "\<lparr>pkt_to = 7, pkt_from = 0, pkt_length = 0\<rparr>"
  obtain out n' where o: "PostOfficeOutput_Send ?ph example_header [65, 66] (new_node 0) = Inr (out, n')" "out \<noteq> None"
    using example_send by blast
  let ?l = "(?ph\<lparr>pkt_from := 0, pkt_length := mail_length example_header + 12\<rparr>, example_header, take (unat (mail_length example_header)) [65, 66])"
  have "net_step 2 example_net (Sent 7 ?l) (transmit out (example_net(0 \<mapsto> n')))"
    by (rule step_send [OF _ _ o(1) refl]) (use o(2) in \<open>simp_all add: example_net_def example_header_def\<close>)
  from run_step [OF run_refl this] have "net_run 2 example_net [Sent 7 ?l] (transmit out (example_net(0 \<mapsto> n')))" by simp
  then show ?thesis by (intro exI [of _ ?l] exI conjI) (simp_all add: in_box_def example_header_def)
qed

theorem mail_in_order_witness:
  "\<exists>l tr s' n'. net_run 2 example_net tr s' \<and> s' 7 = Some n' \<and> snd (snd l) = [65, 66] \<and> sent_to 7 1 tr = [l] \<and> waiting n' 1 = [l]"
proof -
  obtain l s' where r: "net_run 2 example_net [Sent 7 l] s'" "in_box 1 l" "snd (snd l) = [65, 66]" using example_run by blast
  have "example_net 7 = Some (new_node 7)" by (simp add: example_net_def)
  from mail_in_order [OF example_net_ok r(1) this, of 1] obtain n' where
    "s' 7 = Some n'" "waiting (new_node 7) 1 @ sent_to 7 1 [Sent 7 l] = got_from 7 1 [Sent 7 l] @ waiting n' 1" by auto
  moreover have "sent_to 7 1 [Sent 7 l] = [l]" "got_from 7 1 [Sent 7 l] = []" using r(2) by (simp_all add: sent_to_def got_from_def)
  moreover have "waiting (new_node 7) 1 = []" by (rule new_node_ok(2))
  ultimately have "waiting n' 1 = [l]" by (simp only: append_Nil)
  then show ?thesis using r \<open>s' 7 = Some n'\<close> \<open>sent_to 7 1 [Sent 7 l] = [l]\<close> by blast
qed


end
