(* ===== verification/Network_Test.thy ===== *)
theory Network_Test
  imports Network_Post
begin

text \<open>
  \<open>Kernel::NetworkTest\<close> of \<open>threads/kernel.cc\<close>, the program that the machines 0 and 1 run to
  test the post office, on the network of \<open>Network_Post\<close>. The program is cut where it waits: for
  the network to take its message and for a letter. The theorem: in every run of the two
  programs, however the machines, their interrupts and their postal workers interleave, each
  machine shows the greeting and then the acknowledgement of the other one, and nothing else.
\<close>

section \<open>The program\<close>

text \<open>The two halves: the first message and the wait for the other's, the acknowledgement and the wait for it.\<close>

datatype half = Greet | Ack

datatype test_pc = Sending half | Taken half | Receiving half | Finished

record NetworkTest =
  pc :: test_pc
  outPktHdr :: PacketHeader
  outMailHdr :: MailHeader
  mail_buffer :: "byte list"
  shown :: "(byte list \<times> i32 \<times> i32) list"

definition farHost :: "i32 \<Rightarrow> i32" where
  "farHost host = (if host = 0 then 1 else 0)"

primrec message :: "half \<Rightarrow> byte list" where
  "message Greet = ascii ''Hello there!''"
| "message Ack = ascii ''Got it!''"

primrec box_of :: "half \<Rightarrow> int" where
  "box_of Greet = 0"
| "box_of Ack = 1"

text \<open>The start; \<open>ph\<close> and \<open>buf\<close> are the uninitialised packet header and the buffer.\<close>

definition NetworkTest_start :: "PacketHeader \<Rightarrow> byte list \<Rightarrow> i32 \<Rightarrow> NetworkTest" where
  "NetworkTest_start ph buf host =
     \<lparr>pc = (if host = 0 \<or> host = 1 then Sending Greet else Finished), outPktHdr = ph\<lparr>pkt_to := farHost host\<rparr>,
      outMailHdr = \<lparr>mail_to = 0, mail_from = 1, mail_length = of_nat (length (message Greet) + 1)\<rparr>, mail_buffer = buf, shown = []\<rparr>"

definition NetworkTest_send :: "half \<Rightarrow> NetworkTest \<Rightarrow> node \<Rightarrow> ((byte list \<times> byte list) option \<times> node) result" where
  "NetworkTest_send h p n = PostOfficeOutput_Send (outPktHdr p) (outMailHdr p) (message h @ [0]) n"

text \<open>A letter has arrived: it is shown, and after the first half the acknowledgement is addressed.\<close>

definition NetworkTest_receive :: "half \<Rightarrow> NetworkTest \<Rightarrow> node \<Rightarrow> (letter \<times> NetworkTest \<times> node) result" where
  "NetworkTest_receive h p n =
     rbind (PostOfficeInput_Receive (box_of h) (mail_buffer p) n) (\<lambda>(inPktHdr, inMailHdr, buf, n1).
     rbind (c_string buf) (\<lambda>str.
     let p1 = p\<lparr>mail_buffer := buf, shown := shown p @ [(str, pkt_from inPktHdr, mail_from inMailHdr)]\<rparr> in
     Inr ((inPktHdr, inMailHdr, take (unat (mail_length inMailHdr)) buf),
          case h of
            Greet \<Rightarrow> p1\<lparr>outPktHdr := (outPktHdr p1)\<lparr>pkt_to := pkt_from inPktHdr\<rparr>,
                        outMailHdr := (outMailHdr p1)\<lparr>mail_to := mail_from inMailHdr, mail_length := of_nat (length (message Ack) + 1)\<rparr>,
                        pc := Sending Ack\<rparr>
          | Ack \<Rightarrow> p1\<lparr>pc := Finished\<rparr>, n1)))"

section \<open>Runs of the test\<close>

type_synonym test_state = "net \<times> (i32 \<Rightarrow> NetworkTest)"

inductive test_step :: "test_state \<Rightarrow> event \<Rightarrow> test_state \<Rightarrow> bool" where
  test_send: "s a = Some n \<Longrightarrow> pc (P a) = Sending h \<Longrightarrow> NetworkTest_send h (P a) n = Inr (out, n') \<Longrightarrow>
     e = (if out \<noteq> None \<and> s (pkt_to (outPktHdr (P a))) \<noteq> None
          then Sent (pkt_to (outPktHdr (P a)))
                 ((outPktHdr (P a))\<lparr>pkt_from := a, pkt_length := mail_length (outMailHdr (P a)) + 12\<rparr>, outMailHdr (P a),
                  take (unat (mail_length (outMailHdr (P a)))) (message h @ [0]))
          else Silent) \<Longrightarrow>
     test_step (s, P) e (transmit out (s(a \<mapsto> n')), P(a := (P a)\<lparr>pc := Taken h\<rparr>))"
| test_sent: "s a = Some n \<Longrightarrow> pc (P a) = Taken h \<Longrightarrow> PostOfficeOutput_Sent n = Inr n' \<Longrightarrow>
     test_step (s, P) Silent (s(a \<mapsto> n'), P(a := (P a)\<lparr>pc := Receiving h\<rparr>))"
| test_receive: "s a = Some n \<Longrightarrow> pc (P a) = Receiving h \<Longrightarrow> NetworkTest_receive h (P a) n = Inr (l, p', n') \<Longrightarrow>
     test_step (s, P) (Got a (box_of h) l) (s(a \<mapsto> n'), P(a := p'))"
| test_interrupt: "s a = Some n \<Longrightarrow> CheckIfDue Net_CallBack adv (n\<lparr>level := IntOff\<rparr>) = Inr (b, n') \<Longrightarrow>
     test_step (s, P) Silent (s(a \<mapsto> n'), P)"
| test_take: "s a = Some n \<Longrightarrow> worker n = None \<Longrightarrow> PostalDelivery_take n = Inr n' \<Longrightarrow> test_step (s, P) Silent (s(a \<mapsto> n'), P)"
| test_put: "s a = Some n \<Longrightarrow> worker n = Some h \<Longrightarrow> PostalDelivery_put h n = Inr n' \<Longrightarrow> test_step (s, P) Silent (s(a \<mapsto> n'), P)"

inductive test_run :: "test_state \<Rightarrow> event list \<Rightarrow> test_state \<Rightarrow> bool" where
  test_refl: "test_run S [] S"
| test_next: "test_run S tr S' \<Longrightarrow> test_step S' e S'' \<Longrightarrow> test_run S (tr @ [e]) S''"

section \<open>What a run has done\<close>

text \<open>The letters of machine \<open>a\<close>.\<close>

definition test_letter :: "half \<Rightarrow> i32 \<Rightarrow> letter" where
  "test_letter h a = (\<lparr>pkt_to = farHost a, pkt_from = a, pkt_length = of_nat (length (message h) + 13)\<rparr>,
     \<lparr>mail_to = word_of_int (box_of h), mail_from = 1, mail_length = of_nat (length (message h) + 1)\<rparr>, message h @ [0])"

text \<open>Which of the calls a program has behind it.\<close>

primrec has_sent :: "half \<Rightarrow> test_pc \<Rightarrow> bool" where
  "has_sent Greet c = (c \<noteq> Sending Greet)"
| "has_sent Ack c = (c \<in> {Taken Ack, Receiving Ack, Finished})"

primrec has_got :: "half \<Rightarrow> test_pc \<Rightarrow> bool" where
  "has_got Greet c = (c \<in> {Sending Ack, Taken Ack, Receiving Ack, Finished})"
| "has_got Ack c = (c = Finished)"

definition program_ok :: "i32 \<Rightarrow> event list \<Rightarrow> NetworkTest \<Rightarrow> bool" where
  "program_ok a tr p \<longleftrightarrow>
     (\<forall>h. sent_to (farHost a) (box_of h) tr \<in> (if has_sent h (pc p) then {[], [test_letter h a]} else {[]})) \<and>
     (\<forall>h. got_from a (box_of h) tr = (if has_got h (pc p) then [test_letter h (farHost a)] else [])) \<and>
     shown p = concat (map (\<lambda>h. if has_got h (pc p) then [(message h, farHost a, 1)] else []) [Greet, Ack]) \<and>
     (\<forall>h. pc p = Sending h \<longrightarrow> pkt_to (outPktHdr p) = farHost a \<and> outMailHdr p = fst (snd (test_letter h a))) \<and>
     mail_from (outMailHdr p) = 1"

definition test_inv :: "net \<Rightarrow> event list \<Rightarrow> test_state \<Rightarrow> bool" where
  "test_inv s0 tr S \<longleftrightarrow> net_run 10 s0 tr (fst S) \<and> (\<forall>a. a \<in> {0, 1} \<longrightarrow> program_ok a tr (snd S a)) \<and>
     (\<forall>a. a \<notin> {0, 1} \<longrightarrow> pc (snd S a) = Finished)"

lemma events_append:
  "sent_to b box (tr @ [e]) = sent_to b box tr @ sent_to b box [e]" "got_from b box (tr @ [e]) = got_from b box tr @ got_from b box [e]"
  by (simp_all add: sent_to_def got_from_def)

lemma one_event [simp]:
  "sent_to b box [Silent] = []" "got_from b box [Silent] = []" "sent_to b box [Got a box' l] = []" "got_from b box [Sent a l] = []"
  "got_from b box [Got a box' l] = (if a = b \<and> box' = box then [l] else [])"
  "sent_to b box [Sent a l] = (if a = b \<and> in_box box l then [l] else [])"
  by (simp_all add: sent_to_def got_from_def)

lemma farHost [simp]: "farHost a = farHost a' \<longleftrightarrow> a = a'" if "a \<in> {0, 1}" "a' \<in> {0, 1}"
  using that by (auto simp: farHost_def)

lemma farHost_host [simp]: "farHost a \<in> {0, 1}" "a \<in> {0, 1} \<Longrightarrow> farHost (farHost a) = a"
  by (auto simp: farHost_def)

lemma box_of [simp]: "box_of h = box_of h' \<longleftrightarrow> h = h'" "0 \<le> box_of h" "box_of h < 10" "sint (word_of_int (box_of h) :: i32) = box_of h"
  by (cases h; cases h'; simp)+

lemma length_message [simp]: "length (message h) \<le> 12" "0 \<notin> set (message h)"
  by (cases h; simp add: ascii_def of_char_def)+

lemma test_letter_box [simp]: "in_box box (test_letter h a) \<longleftrightarrow> box = box_of h"
  by (auto simp: in_box_def test_letter_def)

lemma program_ok_other:
  assumes "\<And>h. sent_to (farHost a) (box_of h) [e] = []" and "\<And>h. got_from a (box_of h) [e] = []"
  shows "program_ok a (tr @ [e]) p = program_ok a tr p"
  by (simp add: program_ok_def events_append assms)

lemma test_length: "unat (of_nat (length (message h) + 1) :: i32) = length (message h) + 1"
proof -
  have "length (message h) + 1 < 2 ^ LENGTH(32)" by (rule le_less_trans [of _ 13]) (use length_message(1) [of h] in simp_all)
  then show ?thesis by (simp only: unat_of_nat mod_less)
qed

lemma sent_letter:
  assumes "pkt_to ph = farHost a" and "mh = fst (snd (test_letter h a))"
  shows "(ph\<lparr>pkt_from := a, pkt_length := mail_length mh + 12\<rparr>, mh, take (unat (mail_length mh)) (message h @ [0])) = test_letter h a"
proof -
  have "ph\<lparr>pkt_from := a, pkt_length := mail_length mh + 12\<rparr> = fst (test_letter h a)"
    using assms by (cases ph) (simp add: test_letter_def)
  moreover have "take (unat (mail_length mh)) (message h @ [0]) = message h @ [0]"
    using assms(2) test_length [of h] by (simp add: test_letter_def)
  ultimately show ?thesis using assms(2) by (simp add: test_letter_def)
qed

text \<open>The send of a program.\<close>

lemma program_sent:
  assumes p: "program_ok a tr p" and c: "pc p = Sending h" and e: "e = Silent \<or> e = Sent (farHost a) (test_letter h a)"
  shows "program_ok a (tr @ [e]) (p\<lparr>pc := Taken h\<rparr>)"
proof -
  have g: "got_from a x [e] = []" for x using e by auto
  have sh: "has_sent h' (Taken h) = (h' = h \<or> has_sent h' (pc p))" "has_got h' (Taken h) = has_got h' (pc p)" "\<not> has_sent h (pc p)" for h'
    using c by (cases h; cases h'; simp)+
  have s: "sent_to (farHost a) (box_of h') [e] \<in> (if h' = h then {[], [test_letter h a]} else {[]})" for h' using e by auto
  have "sent_to (farHost a) (box_of h') (tr @ [e]) \<in> (if has_sent h' (Taken h) then {[], [test_letter h' a]} else {[]})" for h'
  proof (cases "h' = h")
    case True
    then have "sent_to (farHost a) (box_of h') tr = []" using p sh(3) unfolding program_ok_def by (metis singletonD)
    then show ?thesis using s [of h'] True sh(1) [of h'] by (simp add: events_append)
  next
    case False
    then have "sent_to (farHost a) (box_of h') tr \<in> (if has_sent h' (pc p) then {[], [test_letter h' a]} else {[]})"
      using p unfolding program_ok_def by blast
    then show ?thesis using s [of h'] False sh(1) [of h'] by (simp add: events_append)
  qed
  then show ?thesis using p sh(2) g by (simp add: program_ok_def events_append)
qed

text \<open>The receipt of a letter.\<close>

lemma c_string_text: "0 \<notin> set xs \<Longrightarrow> take (length xs + 1) bs = xs @ [0] \<Longrightarrow> c_string bs = Inr xs"
proof (induction xs arbitrary: bs)
  case Nil
  then show ?case by (cases bs) auto
next
  case (Cons x xs)
  then show ?case by (cases bs) auto
qed

lemma program_got:
  assumes p: "program_ok a tr p" and c: "pc p = Receiving h" and a: "a \<in> {0, 1}"
    and r: "PostOfficeInput_Receive (box_of h) (mail_buffer p) n = Inr (pk, mh, buf, n')"
    and l: "(pk, mh, take (unat (mail_length mh)) buf) = test_letter h (farHost a)"
  shows "\<exists>p'. NetworkTest_receive h p n = Inr (test_letter h (farHost a), p', n') \<and> program_ok a (tr @ [Got a (box_of h) (test_letter h (farHost a))]) p'"
proof -
  have f: "pkt_from pk = farHost a" "mail_from mh = 1" "take (length (message h) + 1) buf = message h @ [0]"
    using l test_length [of h] by (auto simp: test_letter_def)
  have s: "c_string buf = Inr (message h)" by (rule c_string_text [OF _ f(3)]) simp
  let ?p1 = "p\<lparr>mail_buffer := buf, shown := shown p @ [(message h, farHost a, 1)]\<rparr>"
  define p' where "p' = (case h of
            Greet \<Rightarrow> ?p1\<lparr>outPktHdr := (outPktHdr ?p1)\<lparr>pkt_to := farHost a\<rparr>,
                        outMailHdr := (outMailHdr ?p1)\<lparr>mail_to := 1, mail_length := of_nat (length (message Ack) + 1)\<rparr>,
                        pc := Sending Ack\<rparr>
          | Ack \<Rightarrow> ?p1\<lparr>pc := Finished\<rparr>)"
  have run: "NetworkTest_receive h p n = Inr (test_letter h (farHost a), p', n')"
    using r s f(1,2) l by (simp add: NetworkTest_receive_def p'_def cong: half.case_cong)
  have g: "has_got h' (pc p') = (h' = h \<or> has_got h' (pc p))" "has_sent h' (pc p') = has_sent h' (pc p)" "\<not> has_got h (pc p)" for h'
    using c by (cases h; cases h'; simp add: p'_def)+
  have sh: "shown p' = shown p @ [(message h, farHost a, 1)]" "mail_from (outMailHdr p') = mail_from (outMailHdr p)"
    by (cases h; simp add: p'_def)+
  have sd: "pkt_to (outPktHdr p') = farHost a \<and> outMailHdr p' = fst (snd (test_letter h' a))" if "pc p' = Sending h'" for h'
    using that p by (cases h) (auto simp: p'_def test_letter_def program_ok_def)
  have "got_from a (box_of h') (tr @ [Got a (box_of h) (test_letter h (farHost a))]) =
      (if has_got h' (pc p') then [test_letter h' (farHost a)] else [])" for h'
    using p g(1,2) [of h'] g(3) by (auto simp: program_ok_def events_append)
  moreover have "shown p' = concat (map (\<lambda>h. if has_got h (pc p') then [(message h, farHost a, 1)] else []) [Greet, Ack])"
    using p g(1) [of Greet] g(1) [of Ack] g(3) c unfolding sh by (cases h) (auto simp: program_ok_def)
  moreover have "sent_to (farHost a) (box_of h') (tr @ [Got a (box_of h) (test_letter h (farHost a))]) = sent_to (farHost a) (box_of h') tr" for h'
    by (simp add: events_append)
  ultimately have "program_ok a (tr @ [Got a (box_of h) (test_letter h (farHost a))]) p'"
    using p sh(2) sd g(2) unfolding program_ok_def by auto
  then show ?thesis using run by blast
qed

section \<open>Every step keeps the invariant\<close>

lemma int_box [simp]: "int (nat (box_of h)) = box_of h"
  by simp

lemma test_invD:
  assumes "test_inv s0 tr (s, P)"
  shows "net_run 10 s0 tr s" "a \<in> {0, 1} \<Longrightarrow> program_ok a tr (P a)" "pc (P a) \<noteq> Finished \<Longrightarrow> a \<in> {0, 1}" "a \<notin> {0, 1} \<Longrightarrow> pc (P a) = Finished"
  using assms unfolding test_inv_def by auto

lemma test_invI:
  assumes "net_run 10 s0 tr s" and "\<And>a. a \<in> {0, 1} \<Longrightarrow> program_ok a tr (P a)" and "\<And>a. a \<notin> {0, 1} \<Longrightarrow> pc (P a) = Finished"
  shows "test_inv s0 tr (s, P)"
  using assms unfolding test_inv_def by simp

lemma test_silent:
  assumes "test_inv s0 tr (s, P)" and "net_step 10 s Silent s'"
  shows "test_inv s0 (tr @ [Silent]) (s', P)"
  using test_invD [OF assms(1)] run_step [OF test_invD(1) [OF assms(1)] assms(2)] by (intro test_invI) (auto simp: program_ok_other)

lemma letter_from_other:
  assumes inv: "test_inv s0 tr (s, P)" and s0: "net_ok 10 s0" "s0 a = Some n0" "waiting n0 (nat (box_of h)) = []"
    and a: "a \<in> {0, 1}" and c: "pc (P a) = Receiving h" and n: "s a = Some n"
    and r: "PostOfficeInput_Receive (box_of h) buf n = Inr (pk, mh, buf', n')"
  shows "net_run 10 s0 (tr @ [Got a (box_of h) (pk, mh, take (unat (mail_length mh)) buf')]) (s(a \<mapsto> n'))"
    and "(pk, mh, take (unat (mail_length mh)) buf') = test_letter h (farHost a)"
proof -
  let ?l = "(pk, mh, take (unat (mail_length mh)) buf')" and ?b = "farHost a"
  have run: "net_run 10 s0 tr s" using inv by (simp add: test_inv_def)
  then show run': "net_run 10 s0 (tr @ [Got a (box_of h) ?l]) (s(a \<mapsto> n'))" using step_receive [of s a n, OF n r] by (rule run_step)
  have pa: "program_ok a tr (P a)" and pb: "program_ok ?b tr (P ?b)" using test_invD(2) [OF inv] a farHost_host(1) [of a] by blast+
  obtain m where "[] @ sent_to a (box_of h) tr = (got_from a (box_of h) tr @ [?l]) @ m"
  proof -
    have "nat (box_of h) < 10" by (cases h) simp_all
    from net_run_accounts [OF run' s0(1) this] s0(2) obtain m' where
      "waiting n0 (nat (box_of h)) @ sent_to a (box_of h) (tr @ [Got a (box_of h) ?l]) =
       got_from a (box_of h) (tr @ [Got a (box_of h) ?l]) @ waiting m' (nat (box_of h))"
      unfolding accounts_def int_box by blast
    then show ?thesis using that [of "waiting m' (nat (box_of h))"] s0(3) by (simp add: events_append)
  qed
  moreover have "\<not> has_got h (pc (P a))" using c by (cases h) simp_all
  then have "got_from a (box_of h) tr = []" using pa by (simp add: program_ok_def)
  moreover have "sent_to (farHost ?b) (box_of h) tr \<in> (if has_sent h (pc (P ?b)) then {[], [test_letter h ?b]} else {[]})"
    using pb unfolding program_ok_def by blast
  then have "sent_to a (box_of h) tr \<in> {[], [test_letter h ?b]}" using farHost_host(2) [OF a] by (auto split: if_splits)
  ultimately show "?l = test_letter h ?b" by auto
qed

lemma test_step_inv:
  assumes step: "test_step S e S'" and inv: "test_inv s0 tr S" and s0: "net_ok 10 s0" "{0, 1} \<subseteq> dom s0"
    and empty: "\<And>a n h. s0 a = Some n \<Longrightarrow> waiting n (nat (box_of h)) = []"
  shows "test_inv s0 (tr @ [e]) S'"
  using step
proof cases
  case (test_send s a n P h out n')
  note D = test_invD [OF inv [unfolded test_send(1)]]
  have host: "a \<in> {0, 1}" using D(3) [of a] test_send(4) by simp
  note pr = D(2) [OF host]
  then have o: "pkt_to (outPktHdr (P a)) = farHost a" "outMailHdr (P a) = fst (snd (test_letter h a))"
    using test_send(4) by (simp_all add: program_ok_def)
  have e: "e = (if out \<noteq> None \<and> s (farHost a) \<noteq> None then Sent (farHost a) (test_letter h a) else Silent)"
    using test_send(6) sent_letter [OF o] o(1) by simp
  have "net_step 10 s e (transmit out (s(a \<mapsto> n')))"
    by (rule step_send [of s a n, OF test_send(3) _ test_send(5) [unfolded NetworkTest_send_def]])
      (use e sent_letter [OF o] o in \<open>simp_all add: test_letter_def\<close>)
  then have run: "net_run 10 s0 (tr @ [e]) (transmit out (s(a \<mapsto> n')))" by (rule run_step [OF D(1)])
  have me: "program_ok a (tr @ [e]) ((P a)\<lparr>pc := Taken h\<rparr>)" by (rule program_sent [OF pr test_send(4)]) (use e in auto)
  have you: "program_ok a' (tr @ [e]) (P a')" if "a' \<noteq> a" "a' \<in> {0, 1}" for a'
    using e host that D(2) [OF that(2)] by (subst program_ok_other) auto
  show ?thesis unfolding test_send(2) by (rule test_invI [OF run]) (use me you host D(4) in auto)
next
  case (test_sent s a n P h n')
  note D = test_invD [OF inv [unfolded test_sent(1)]]
  have host: "a \<in> {0, 1}" using D(3) [of a] test_sent(5) by simp
  have run: "net_run 10 s0 (tr @ [Silent]) (s(a \<mapsto> n'))" using step_sent [of s a n, OF test_sent(4,6)] by (rule run_step [OF D(1)])
  have "has_sent h' (Receiving h) = has_sent h' (Taken h)" "has_got h' (Receiving h) = has_got h' (Taken h)" for h'
    by (cases h; cases h'; simp)+
  then have me: "program_ok a (tr @ [Silent]) ((P a)\<lparr>pc := Receiving h\<rparr>)"
    using D(2) [OF host] test_sent(5) by (simp add: program_ok_def events_append)
  have you: "program_ok a' (tr @ [Silent]) (P a')" if "a' \<in> {0, 1}" for a'
    using D(2) [OF that] by (simp add: program_ok_other)
  show ?thesis unfolding test_sent(2,3) by (rule test_invI [OF run]) (use me you host D(4) in auto)
next
  case (test_receive s a n P h l p' n')
  note D = test_invD [OF inv [unfolded test_receive(1)]]
  have host: "a \<in> {0, 1}" using D(3) [of a] test_receive(5) by simp
  note pr = D(2) [OF host]
  obtain n0 where n0: "s0 a = Some n0" using host s0(2) by blast
  obtain pk mh buf where r: "PostOfficeInput_Receive (box_of h) (mail_buffer (P a)) n = Inr (pk, mh, buf, n')"
    using test_receive(6) by (auto simp: NetworkTest_receive_def rbind_eq_Inr Let_def)
  note lt = letter_from_other [OF inv [unfolded test_receive(1)] s0(1) n0 empty [OF n0] host test_receive(5,4) r]
  from program_got [OF pr test_receive(5) host r lt(2)]
  have l: "l = test_letter h (farHost a)" "program_ok a (tr @ [e]) p'" using test_receive(2,6) by auto
  have run: "net_run 10 s0 (tr @ [e]) (s(a \<mapsto> n'))" using lt l(1) test_receive(2) by simp
  have you: "program_ok a' (tr @ [e]) (P a')" if "a' \<noteq> a" "a' \<in> {0, 1}" for a'
    using test_receive(2) that D(2) [OF that(2)] by (subst program_ok_other) auto
  show ?thesis unfolding test_receive(3) by (rule test_invI [OF run]) (use l(2) you host D(4) in auto)
next
  case (test_interrupt s a n adv b n' P)
  then show ?thesis using test_silent [OF inv [unfolded test_interrupt(1)] step_interrupt [of s a n, OF test_interrupt(4,5)]] by simp
next
  case (test_take s a n n' P)
  then show ?thesis using test_silent [OF inv [unfolded test_take(1)] step_take [of s a n, OF test_take(4-6)]] by simp
next
  case (test_put s a n h n' P)
  then show ?thesis using test_silent [OF inv [unfolded test_put(1)] step_put [of s a n, OF test_put(4-6)]] by simp
qed

lemma test_start_inv: "test_inv s0 [] (s0, NetworkTest_start ph buf)"
proof (rule test_invI [OF run_refl])
  fix a :: i32 assume "a \<in> {0, 1}"
  then have "pc (NetworkTest_start ph buf a) = Sending Greet" by (auto simp: NetworkTest_start_def)
  moreover from this have "\<not> has_sent h (pc (NetworkTest_start ph buf a))" "\<not> has_got h (pc (NetworkTest_start ph buf a))" for h
    by (cases h; simp)+
  ultimately show "program_ok a [] (NetworkTest_start ph buf a)"
    by (simp add: program_ok_def NetworkTest_start_def test_letter_def sent_to_def got_from_def)
qed (auto simp: NetworkTest_start_def)

lemma test_run_inv:
  assumes "test_run S tr S'" and "test_inv s0 tr0 S" and s0: "net_ok 10 s0" "{0, 1} \<subseteq> dom s0"
    and empty: "\<And>a n h. s0 a = Some n \<Longrightarrow> waiting n (nat (box_of h)) = []"
  shows "test_inv s0 (tr0 @ tr) S'"
  using assms(1,2)
proof (induction rule: test_run.induct)
  case (test_next S tr S' e S'')
  then show ?case using test_step_inv [OF test_next(2) _ s0 empty, of "tr0 @ tr"] by simp
qed simp

section \<open>Properties\<close>

text \<open>
  C17: the network test works. On two machines whose mailboxes are empty at the start, in every run
  of the test on both, for all interleavings, timings and losses of packets: a machine shows
  first the greeting of the other machine, from the other's mailbox 1, then its acknowledgement,
  and nothing else; when its program has ended it has shown both; and showing a letter never
  reads past it.
\<close>

theorem NetworkTest_exchanges:
  assumes s0: "net_ok 10 s0" "{0, 1} \<subseteq> dom s0" and empty: "\<And>a n. s0 a = Some n \<Longrightarrow> waiting n 0 = [] \<and> waiting n 1 = []"
    and run: "test_run (s0, NetworkTest_start ph buf) tr (s, P)" and a: "a \<in> {0, 1}"
  shows "(\<exists>i. shown (P a) = take i [(ascii ''Hello there!'', farHost a, 1), (ascii ''Got it!'', farHost a, 1)]) \<and>
    (pc (P a) = Finished \<longrightarrow> length (shown (P a)) = 2) \<and>
    (pc (P a) = Receiving h \<and> s a = Some n \<and> PostOfficeInput_Receive (box_of h) (mail_buffer (P a)) n = Inr r \<longrightarrow>
       (\<exists>x. NetworkTest_receive h (P a) n = Inr x))"
proof -
  have e: "waiting m (nat (box_of x)) = []" if "s0 c = Some m" for c m x using empty [OF that] by (cases x) simp_all
  have inv: "test_inv s0 tr (s, P)" using test_run_inv [OF run test_start_inv s0 e] by simp
  then have p: "program_ok a tr (P a)" using a by (rule test_invD(2))
  have "\<exists>i. shown (P a) = take i [(ascii ''Hello there!'', farHost a, 1), (ascii ''Got it!'', farHost a, 1)] \<and>
      (pc (P a) = Finished \<longrightarrow> i = 2)"
  proof (cases "has_got Ack (pc (P a))")
    case True
    then show ?thesis using p by (intro exI [of _ 2]) (simp add: program_ok_def)
  next
    case False
    then have "shown (P a) = take (if has_got Greet (pc (P a)) then 1 else 0) [(ascii ''Hello there!'', farHost a, 1), (ascii ''Got it!'', farHost a, 1)]"
      using p by (simp add: program_ok_def)
    then show ?thesis using False by (intro exI conjI) simp_all
  qed
  moreover have "\<exists>x. NetworkTest_receive h (P a) n = Inr x"
    if c: "pc (P a) = Receiving h" and n: "s a = Some n" and r: "PostOfficeInput_Receive (box_of h) (mail_buffer (P a)) n = Inr r"
  proof -
    obtain n0 where n0: "s0 a = Some n0" using a s0(2) by blast
    obtain pk mh b n' where r': "r = (pk, mh, b, n')" by (cases r)
    note r = r [unfolded r']
    from program_got [OF p c a r letter_from_other(2) [OF inv s0(1) n0 e [OF n0] a c n r]] show ?thesis by blast
  qed
  ultimately show ?thesis by auto
qed

text \<open>Two fresh machines with ten mailboxes; the first message of machine 0 goes out.\<close>

definition test_net :: net where
  "test_net = [0 \<mapsto> (new_node 0)\<lparr>boxes := replicate 10 []\<rparr>, 1 \<mapsto> (new_node 1)\<lparr>boxes := replicate 10 []\<rparr>]"

lemma test_node:
  "node_ok 10 a ((new_node a)\<lparr>boxes := replicate 10 []\<rparr>)"
  "waiting ((new_node a)\<lparr>boxes := replicate 10 []\<rparr>) 0 = []" "waiting ((new_node a)\<lparr>boxes := replicate 10 []\<rparr>) 1 = []"
proof -
  have "node_ok 2 a (new_node a)" "flow (new_node a) = []" "sock (new_node a) = []" "worker (new_node a) = None" "pkt_length (inHdr (new_node a)) = 0"
    using new_node_ok(1) by (simp_all add: new_node_def flow_def boot_sys_def machine.defs sysenv.defs interrupt.defs node.defs one_page_def)
  then show "node_ok 10 a ((new_node a)\<lparr>boxes := replicate 10 []\<rparr>)"
    "waiting ((new_node a)\<lparr>boxes := replicate 10 []\<rparr>) 0 = []" "waiting ((new_node a)\<lparr>boxes := replicate 10 []\<rparr>) 1 = []"
    by (auto simp: node_ok_def post_ok_def clock_ok_def cpu_ok_def reg_def waiting_def flow_def)
qed

lemma test_net_ok:
  "net_ok 10 test_net" "{0, 1} \<subseteq> dom test_net" "test_net a = Some n \<Longrightarrow> waiting n 0 = [] \<and> waiting n 1 = []"
  using test_node by (auto simp: test_net_def net_ok_def split: if_splits)

lemma test_first_send:
  "\<exists>out n'. NetworkTest_send Greet (NetworkTest_start \<lparr>pkt_to = 9, pkt_from = 9, pkt_length = 9\<rparr> (replicate 40 0) 0)
     ((new_node 0)\<lparr>boxes := replicate 10 []\<rparr>) = Inr (out, n')"
proof -
  define n where "n = (new_node 0)\<lparr>boxes := replicate 10 [], sendLock := True\<rparr>"
  have n: "\<not> sendBusy n" "hostName n = 0" "chanceToWork n = 1" "pendingList n = []" "entropy n = (\<lambda>_. 0)"
    by (simp_all add: n_def new_node_def boot_sys_def machine.defs sysenv.defs interrupt.defs node.defs one_page_def)
  have l: "\<not> sendLock (new_node 0)" "hostName (new_node 0) = 0"
    by (simp_all add: new_node_def boot_sys_def machine.defs sysenv.defs interrupt.defs node.defs one_page_def)
  have s: "\<exists>ps. Schedule NetOut NetworkTime NetworkSendInt n = Inr (n\<lparr>pendingList := ps, brk_int := brk_int n + 1\<rparr>)"
    using n(4) by (auto simp: Schedule_def list_Insert_def NetworkTime_def Let_def)
  have m: "length (message Greet) = 12" by (simp add: ascii_def)
  show ?thesis
    using s n l m
    by (auto simp: NetworkTest_send_def NetworkTest_start_def PostOfficeOutput_Send_def copy_to_def copy_from_def NetworkOutput_Send_def
        RandomNumber_def Let_def simp del: message.simps simp flip: n_def)
qed

theorem NetworkTest_exchanges_witness:
  "\<exists>e s P. test_run (test_net, NetworkTest_start \<lparr>pkt_to = 9, pkt_from = 9, pkt_length = 9\<rparr> (replicate 40 0)) [e] (s, P) \<and>
     pc (P 0) = Taken Greet \<and> (\<exists>i. shown (P 0) = take i [(ascii ''Hello there!'', 1, 1), (ascii ''Got it!'', 1, 1)])"
proof -
  let ?P = "NetworkTest_start \<lparr>pkt_to = 9, pkt_from = 9, pkt_length = 9\<rparr> (replicate 40 0)"
  obtain out n' where o: "NetworkTest_send Greet (?P 0) ((new_node 0)\<lparr>boxes := replicate 10 []\<rparr>) = Inr (out, n')" using test_first_send by blast
  have "pc (?P 0) = Sending Greet" "test_net 0 = Some ((new_node 0)\<lparr>boxes := replicate 10 []\<rparr>)"
    by (simp_all add: NetworkTest_start_def test_net_def)
  from test_send [of test_net 0 _ ?P, OF this(2,1) o refl] obtain e where
    "test_step (test_net, ?P) e (transmit out (test_net(0 \<mapsto> n')), ?P(0 := (?P 0)\<lparr>pc := Taken Greet\<rparr>))" by blast
  from test_next [OF test_refl this] have r: "test_run (test_net, ?P) [e] (transmit out (test_net(0 \<mapsto> n')), ?P(0 := (?P 0)\<lparr>pc := Taken Greet\<rparr>))"
    by simp
  from NetworkTest_exchanges [OF test_net_ok r, where a = 0]
  have "\<exists>i. shown ((?P(0 := (?P 0)\<lparr>pc := Taken Greet\<rparr>)) 0) = take i [(ascii ''Hello there!'', 1, 1), (ascii ''Got it!'', 1, 1)]"
    by (simp add: farHost_def)
  moreover have "pc ((?P(0 := (?P 0)\<lparr>pc := Taken Greet\<rparr>)) 0) = Taken Greet" by simp
  ultimately show ?thesis using r by blast
qed

end
