(* ===== verification/Coff2noff.thy ===== *)
theory Coff2noff
  imports Userprog_Space
begin

text \<open>
  \<open>coff2noff/coff2noff.c\<close>, \<open>coff.h\<close>, \<open>noff.h\<close>: the converter that turns the COFF files of the cross
  compiler into the NOFF files that \<open>AddrSpace::Load\<close> loads. The program reads one file and writes
  another: the model is a function from the bytes of the input to those of the output, or to the
  reason for which the program removes its output and exits with status 1. It is compiled for the
  same 32 bit little-endian host (\<open>-m32 -DRDATA\<close>), where the byte order conversions do nothing.

  The theorems: what each segment of the output holds, and, with \<open>AddrSpace_Load_correct\<close>, that a
  converted and loaded program is in memory as the sections of its COFF file say.
\<close>

section \<open>COFF files\<close>

datatype coff_error = TooShort | NotMipsel | NotOmagic | BothBss | UnknownSegment | HostDependent

definition cbind :: "coff_error + 'a \<Rightarrow> ('a \<Rightarrow> coff_error + 'b) \<Rightarrow> coff_error + 'b" where
  "cbind m k = (case m of Inl e \<Rightarrow> Inl e | Inr x \<Rightarrow> k x)"

definition MIPSELMAGIC :: short where "MIPSELMAGIC = 0x0162"
definition OMAGIC :: short where "OMAGIC = 263"

text \<open>The fields of a section header that the program uses; a header has 40 bytes.\<close>

record scnhdr =
  s_name :: "byte list"
  s_paddr :: i32
  s_size :: i32
  s_scnptr :: i32

definition scnhdr_of_bytes :: "byte list \<Rightarrow> scnhdr" where
  "scnhdr_of_bytes bs =
     (let ws = bytes_words (drop 8 bs) in \<lparr>s_name = take 8 bs, s_paddr = ws ! 0, s_size = ws ! 2, s_scnptr = ws ! 3\<rparr>)"

text \<open>\<open>strcmp\<close> with a literal shorter than the eight bytes of the name.\<close>

definition is_named :: "string \<Rightarrow> scnhdr \<Rightarrow> bool" where
  "is_named lit s \<longleftrightarrow> take (length lit + 1) (s_name s) = map of_char lit @ [0]"

section \<open>The conversion\<close>

text \<open>
  The input with its file position, the header that is being built, and the bytes written behind
  the place of the header so far.
\<close>

record conv =
  pos :: nat
  noffH :: NoffHeader
  inNoffFile :: i32
  out :: "byte list"

text \<open>\<open>Read\<close>: a short read ends the program.\<close>

definition coff_read :: "byte list \<Rightarrow> nat \<Rightarrow> nat \<Rightarrow> coff_error + byte list" where
  "coff_read inp p n = (let bs = take n (drop p inp) in if length bs = n then Inr bs else Inl TooShort)"

text \<open>
  Copy a section behind what has been written and record where it is. A seek to a negative
  position fails and leaves the position as it is; for a negative size the outcome of \<open>read\<close> is up
  to the host.
\<close>

definition copy_section ::
  "byte list \<Rightarrow> (Segment \<Rightarrow> NoffHeader \<Rightarrow> NoffHeader) \<Rightarrow> scnhdr \<Rightarrow> conv \<Rightarrow> coff_error + conv" where
  "copy_section inp set_seg s c =
     (let g = \<lparr>virtualAddr = s_paddr s, inFileAddr = inNoffFile c, seg_size = s_size s\<rparr>;
          p = (if sint (s_scnptr s) < 0 then pos c else nat (sint (s_scnptr s)))
      in if sint (s_size s) < 0 then Inl HostDependent
         else cbind (coff_read inp p (nat (sint (s_size s)))) (\<lambda>buffer.
              Inr (c\<lparr>pos := p + nat (sint (s_size s)), noffH := set_seg g (noffH c), inNoffFile := inNoffFile c + s_size s,
                     out := out c @ buffer\<rparr>)))"

definition convert_section :: "byte list \<Rightarrow> scnhdr \<Rightarrow> conv \<Rightarrow> coff_error + conv" where
  "convert_section inp s c =
     (if s_size s = 0 then Inr c
      else if is_named ''.text'' s then copy_section inp (\<lambda>g h. h\<lparr>code := g\<rparr>) s c
      else if is_named ''.data'' s then copy_section inp (\<lambda>g h. h\<lparr>initData := g\<rparr>) s c
      else if is_named ''.rdata'' s then copy_section inp (\<lambda>g h. h\<lparr>readonlyData := g\<rparr>) s c
      else if is_named ''.bss'' s then
        (let u = uninitData (noffH c) in
         if seg_size u \<noteq> 0 then
           if s_paddr s = virtualAddr u + seg_size u then Inl BothBss
           else Inr (c\<lparr>noffH := (noffH c)\<lparr>uninitData := u\<lparr>seg_size := seg_size u + s_size s\<rparr>\<rparr>\<rparr>)
         else Inr (c\<lparr>noffH := (noffH c)\<lparr>uninitData := u\<lparr>virtualAddr := s_paddr s, seg_size := s_size s\<rparr>\<rparr>\<rparr>))
      else Inl UnknownSegment)"

primrec convert_sections :: "byte list \<Rightarrow> scnhdr list \<Rightarrow> conv \<Rightarrow> coff_error + conv" where
  "convert_sections inp [] c = Inr c"
| "convert_sections inp (s # ss) c = cbind (convert_section inp s c) (convert_sections inp ss)"

definition segment_words :: "Segment \<Rightarrow> i32 list" where
  "segment_words g = [virtualAddr g, inFileAddr g, seg_size g]"

definition noff_bytes :: "NoffHeader \<Rightarrow> byte list" where
  "noff_bytes h = word_bytes (noffMagic h # segment_words (code h) @ segment_words (initData h) @
     segment_words (readonlyData h) @ segment_words (uninitData h))"

text \<open>The initial header; the other fields are what the stack held (\<open>junk\<close>).\<close>

definition init_header :: "NoffHeader \<Rightarrow> NoffHeader" where
  "init_header junk = junk\<lparr>noffMagic := NOFFMAGIC, code := (code junk)\<lparr>seg_size := 0\<rparr>, initData := (initData junk)\<lparr>seg_size := 0\<rparr>,
     uninitData := (uninitData junk)\<lparr>seg_size := 0\<rparr>, readonlyData := (readonlyData junk)\<lparr>seg_size := 0\<rparr>\<rparr>"

text \<open>The section headers behind the file header (20 bytes) and the system header (56 bytes).\<close>

definition section_headers :: "nat \<Rightarrow> byte list \<Rightarrow> scnhdr list" where
  "section_headers n bs = map (\<lambda>i. scnhdr_of_bytes (take 40 (drop (40 * i) bs))) [0..<n]"

definition coff2noff :: "NoffHeader \<Rightarrow> byte list \<Rightarrow> coff_error + byte list" where
  "coff2noff junk inp =
     cbind (coff_read inp 0 20) (\<lambda>fileh.
     if le_short (fileh ! 0) (fileh ! 1) \<noteq> MIPSELMAGIC then Inl NotMipsel
     else cbind (coff_read inp 20 56) (\<lambda>systemh.
     if le_short (systemh ! 0) (systemh ! 1) \<noteq> OMAGIC then Inl NotOmagic
     else
       let numsections = unat (le_short (fileh ! 2) (fileh ! 3)) in
       cbind (coff_read inp 76 (numsections * 40)) (\<lambda>hs.
       cbind (convert_sections inp (section_headers numsections hs)
                \<lparr>pos = 76 + numsections * 40, noffH = init_header junk, inNoffFile = 52, out = []\<rparr>) (\<lambda>c.
       Inr (noff_bytes (SwapHeader HOST_IS_BIG_ENDIAN (noffH c)) @ out c)))))"

section \<open>Sections and segments\<close>

lemma cbind_Inr: "cbind m k = Inr y \<longleftrightarrow> (\<exists>x. m = Inr x \<and> k x = Inr y)"
  by (auto simp: cbind_def split: sum.splits)

lemma convert_snoc: "convert_sections inp (ss @ [s]) c = cbind (convert_sections inp ss c) (convert_section inp s)"
  by (induction ss arbitrary: c) (auto simp: cbind_def split: sum.splits)

text \<open>The section that a segment of the output comes from: the last one of the name that is not empty.\<close>

definition last_named :: "string \<Rightarrow> scnhdr list \<Rightarrow> scnhdr option" where
  "last_named lit ss = find (\<lambda>s. s_size s \<noteq> 0 \<and> is_named lit s) (rev ss)"

definition bss_size :: "scnhdr list \<Rightarrow> i32" where
  "bss_size ss = sum_list (map s_size (filter (is_named ''.bss'') ss))"

lemma last_named_snoc: "last_named lit (ss @ [s]) = (if s_size s \<noteq> 0 \<and> is_named lit s then Some s else last_named lit ss)"
  by (simp add: last_named_def)

lemma second_char:
  assumes "is_named (x # y # lit) s"
  shows "s_name s ! 1 = of_char y"
  using arg_cong [OF assms [unfolded is_named_def], of "\<lambda>xs. xs ! 1"] by simp

lemma names_differ:
  "is_named ''.text'' s \<Longrightarrow> \<not> is_named ''.data'' s \<and> \<not> is_named ''.rdata'' s \<and> \<not> is_named ''.bss'' s"
  "is_named ''.data'' s \<Longrightarrow> \<not> is_named ''.text'' s \<and> \<not> is_named ''.rdata'' s \<and> \<not> is_named ''.bss'' s"
  "is_named ''.rdata'' s \<Longrightarrow> \<not> is_named ''.text'' s \<and> \<not> is_named ''.data'' s \<and> \<not> is_named ''.bss'' s"
  "is_named ''.bss'' s \<Longrightarrow> \<not> is_named ''.text'' s \<and> \<not> is_named ''.data'' s \<and> \<not> is_named ''.rdata'' s"
  by (auto dest!: second_char)

text \<open>The bytes of a section are in the output, where the segment says.\<close>

definition seg_holds :: "byte list \<Rightarrow> byte list \<Rightarrow> scnhdr option \<Rightarrow> Segment \<Rightarrow> bool" where
  "seg_holds inp bs sec g = (case sec of
     None \<Rightarrow> seg_size g = 0
   | Some s \<Rightarrow> virtualAddr g = s_paddr s \<and> seg_size g = s_size s \<and> 0 < sint (s_size s) \<and>
       (\<exists>f. inFileAddr g = of_nat (52 + f) \<and> f + nat (sint (s_size s)) \<le> length bs \<and>
          take (nat (sint (s_size s))) (drop f bs) = take (nat (sint (s_size s))) (drop (nat (sint (s_scnptr s))) inp) \<and>
          nat (sint (s_scnptr s)) + nat (sint (s_size s)) \<le> length inp))"

lemma seg_holds_append:
  assumes "seg_holds inp bs sec g"
  shows "seg_holds inp (bs @ cs) sec g"
  using assms by (auto simp: seg_holds_def split: option.splits)

definition conv_ok :: "byte list \<Rightarrow> scnhdr list \<Rightarrow> conv \<Rightarrow> bool" where
  "conv_ok inp ss c \<longleftrightarrow> noffMagic (noffH c) = NOFFMAGIC \<and> inNoffFile c = of_nat (52 + length (out c)) \<and>
     seg_holds inp (out c) (last_named ''.text'' ss) (code (noffH c)) \<and>
     seg_holds inp (out c) (last_named ''.data'' ss) (initData (noffH c)) \<and>
     seg_holds inp (out c) (last_named ''.rdata'' ss) (readonlyData (noffH c)) \<and>
     seg_size (uninitData (noffH c)) = bss_size ss"

text \<open>A copied section is what its segment holds.\<close>

lemma copy_section_ok:
  assumes "copy_section inp set_seg s c = Inr c'" and "s_size s \<noteq> 0" and "0 \<le> sint (s_scnptr s)"
    and "inNoffFile c = of_nat (52 + length (out c))"
  defines "g \<equiv> \<lparr>virtualAddr = s_paddr s, inFileAddr = inNoffFile c, seg_size = s_size s\<rparr>"
  shows "\<exists>bs q. c' = c\<lparr>pos := q, noffH := set_seg g (noffH c), inNoffFile := of_nat (52 + length (out c @ bs)), out := out c @ bs\<rparr> \<and>
    seg_holds inp (out c @ bs) (Some s) g"
proof -
  let ?n = "nat (sint (s_size s))" and ?p = "nat (sint (s_scnptr s))"
  have "sint (s_size s) \<noteq> 0" using assms(2) by (metis signed_0 signed_word_eqI)
  moreover have "0 \<le> sint (s_size s)" using assms(1) by (auto simp: copy_section_def Let_def split: if_splits)
  ultimately have pos: "0 < sint (s_size s)" by linarith
  define bs where "bs = take ?n (drop ?p inp)"
  have bs: "length bs = ?n" and c': "c' = c\<lparr>pos := ?p + ?n, noffH := set_seg g (noffH c), inNoffFile := inNoffFile c + s_size s, out := out c @ bs\<rparr>"
    using assms(1,3) pos by (auto simp: copy_section_def Let_def cbind_Inr coff_read_def g_def bs_def split: if_splits)
  have "word_of_int (sint (s_size s)) = s_size s" by simp
  then have "of_nat ?n = s_size s" using pos by (metis int_nat_eq less_imp_le of_int_of_nat_eq)
  then have "inNoffFile c + s_size s = of_nat (52 + length (out c @ bs))" using assms(4) bs by (simp add: algebra_simps)
  moreover have "?p + ?n \<le> length inp" using bs pos unfolding bs_def length_take length_drop by linarith
  moreover have "seg_holds inp (out c @ bs) (Some s) g"
    using pos bs assms(4) \<open>?p + ?n \<le> length inp\<close>
    by (auto simp: seg_holds_def g_def bs_def intro!: exI [of _ "length (out c)"])
  ultimately show ?thesis using c' by (intro exI [of _ bs] exI [of _ "?p + ?n"] conjI) (simp_all only:)
qed

lemma convert_section_ok:
  assumes c: "conv_ok inp ss c" and run: "convert_section inp s c = Inr c'" and p: "0 \<le> sint (s_scnptr s)"
  shows "conv_ok inp (ss @ [s]) c'"
proof (cases "s_size s = 0")
  case True
  then show ?thesis using c run by (simp add: convert_section_def conv_ok_def last_named_snoc bss_size_def)
next
  case False
  have i: "inNoffFile c = of_nat (52 + length (out c))" using c by (simp add: conv_ok_def)
  consider (t) "is_named ''.text'' s" | (d) "is_named ''.data'' s" | (r) "is_named ''.rdata'' s" | (b) "is_named ''.bss'' s"
    using run False by (auto simp: convert_section_def split: if_splits)
  then show ?thesis
  proof cases
    case t
    then have "copy_section inp (\<lambda>g h. h\<lparr>code := g\<rparr>) s c = Inr c'" using run False by (simp add: convert_section_def)
    from copy_section_ok [OF this False p i] show ?thesis using c t False names_differ(1) [OF t]
      by (auto simp: conv_ok_def last_named_snoc bss_size_def seg_holds_append)
  next
    case d
    then have "copy_section inp (\<lambda>g h. h\<lparr>initData := g\<rparr>) s c = Inr c'" using run False names_differ(2) [OF d] by (simp add: convert_section_def)
    from copy_section_ok [OF this False p i] show ?thesis using c d False names_differ(2) [OF d]
      by (auto simp: conv_ok_def last_named_snoc bss_size_def seg_holds_append)
  next
    case r
    then have "copy_section inp (\<lambda>g h. h\<lparr>readonlyData := g\<rparr>) s c = Inr c'" using assms(2) False names_differ(3) [OF r] by (simp add: convert_section_def)
    from copy_section_ok [OF this False p i] show ?thesis using c r False names_differ(3) [OF r]
      by (auto simp: conv_ok_def last_named_snoc bss_size_def seg_holds_append)
  next
    case b
    note n = names_differ(4) [OF b]
    show ?thesis using run c False b n
      by (auto simp: convert_section_def conv_ok_def last_named_snoc bss_size_def Let_def split: if_splits)
  qed
qed

section \<open>The output of a conversion\<close>

definition coff_sections :: "byte list \<Rightarrow> scnhdr list" where
  "coff_sections inp = (let n = unat (le_short (inp ! 2) (inp ! 3)) in section_headers n (take (n * 40) (drop 76 inp)))"

lemma convert_sections_ok:
  assumes "convert_sections inp ss c = Inr c'" and "conv_ok inp [] c" and "\<forall>s \<in> set ss. 0 \<le> sint (s_scnptr s)"
  shows "conv_ok inp ss c'"
  using assms
proof (induction ss arbitrary: c' rule: rev_induct)
  case (snoc s ss)
  then obtain c1 where c1: "convert_sections inp ss c = Inr c1" "convert_section inp s c1 = Inr c'" by (auto simp: convert_snoc cbind_Inr)
  then have "conv_ok inp ss c1" using snoc by simp
  from convert_section_ok [OF this c1(2)] snoc.prems(3) show ?case by simp
qed simp

lemma init_conv_ok: "conv_ok inp [] \<lparr>pos = p, noffH = init_header junk, inNoffFile = 52, out = []\<rparr>"
  by (simp add: conv_ok_def init_header_def seg_holds_def last_named_def bss_size_def)

lemma length_noff_bytes [simp]: "length (noff_bytes h) = 52"
  by (simp add: noff_bytes_def segment_words_def)

lemma segment_of_segment_words: "segment_of_words (segment_words g @ ws) = g"
  by (simp add: segment_of_words_def segment_words_def numeral_2_eq_2)

lemma noff_of_noff_bytes: "noff_of_bytes (noff_bytes h) = h"
proof -
  let ?ws = "noffMagic h # segment_words (code h) @ segment_words (initData h) @ segment_words (readonlyData h) @ segment_words (uninitData h)"
  have "drop 1 ?ws = segment_words (code h) @ (segment_words (initData h) @ segment_words (readonlyData h) @ segment_words (uninitData h))"
    "drop 4 ?ws = segment_words (initData h) @ (segment_words (readonlyData h) @ segment_words (uninitData h))"
    "drop 7 ?ws = segment_words (readonlyData h) @ segment_words (uninitData h)"
    "drop 10 ?ws = segment_words (uninitData h) @ []" by (simp_all add: segment_words_def)
  then show ?thesis
    unfolding noff_of_bytes_def noff_bytes_def bytes_words_word_bytes Let_def by (simp only: segment_of_segment_words) simp
qed

lemma SwapHeader_little: "SwapHeader False h = h"
  by (simp add: SwapHeader_def swap_segment_def WordToHost_def)

text \<open>A segment of an output file \<open>N\<close> holds a section of the input: the same address, size and bytes.\<close>

definition holds_section :: "byte list \<Rightarrow> byte list \<Rightarrow> scnhdr option \<Rightarrow> Segment \<Rightarrow> bool" where
  "holds_section inp N sec g = (case sec of
     None \<Rightarrow> seg_size g = 0
   | Some s \<Rightarrow> virtualAddr g = s_paddr s \<and> seg_size g = s_size s \<and> 0 < sint (seg_size g) \<and> 52 \<le> sint (inFileAddr g) \<and>
       sint (inFileAddr g) + sint (seg_size g) \<le> int (length N) \<and>
       (\<forall>i < nat (sint (seg_size g)). N ! (nat (sint (inFileAddr g)) + i) = inp ! (nat (sint (s_scnptr s)) + i)))"

lemma holds_sectionI:
  assumes "seg_holds inp bs sec g" and "length hd0 = 52" and "length (hd0 @ bs) < 2 ^ 31"
  shows "holds_section inp (hd0 @ bs) sec g"
proof (cases sec)
  case None
  then show ?thesis using assms(1) by (simp add: holds_section_def seg_holds_def)
next
  case (Some s)
  let ?n = "nat (sint (s_size s))" and ?p = "nat (sint (s_scnptr s))"
  obtain f where f: "virtualAddr g = s_paddr s" "seg_size g = s_size s" "0 < sint (s_size s)" "inFileAddr g = of_nat (52 + f)" "f + ?n \<le> length bs"
    "take ?n (drop f bs) = take ?n (drop ?p inp)" "?p + ?n \<le> length inp" using assms(1) Some by (auto simp: seg_holds_def)
  have "52 + f < 2 ^ 31" using f(3,5) assms(2,3) by simp
  then have s: "sint (inFileAddr g) = int (52 + f)" unfolding f(4) by (subst signed_of_nat) (simp add: signed_take_bit_int_eq_self)
  have "(hd0 @ bs) ! (52 + f + i) = inp ! (?p + i)" if "i < ?n" for i
  proof -
    have "(hd0 @ bs) ! (52 + f + i) = bs ! (f + i)" using assms(2) by (simp add: nth_append)
    also have "\<dots> = take ?n (drop f bs) ! i" using that f(5) by simp
    also have "\<dots> = inp ! (?p + i)" unfolding f(6) using that f(7) by simp
    finally show ?thesis .
  qed
  moreover have "nat (52 + int f) = 52 + f" "int f + sint (s_size s) \<le> int (length bs)" using f(3,5) by linarith+
  ultimately show ?thesis using Some f(1,2,3) s assms(2) by (simp add: holds_section_def)
qed

text \<open>
  What \<open>coff2noff\<close> writes. When the conversion succeeds, the output starts with a header that
  has the magic number; its segments for code, initialised data and read-only data are, with
  address, size and all bytes, the last sections of the input with the names \<open>.text\<close>, \<open>.data\<close> and
  \<open>.rdata\<close> that are not empty, and empty when there is none; the segment of uninitialised data has
  the sum of the sizes of the \<open>.bss\<close> sections.
\<close>

lemma coff2noff_output:
  assumes "coff2noff junk inp = Inr N" and "\<forall>s \<in> set (coff_sections inp). 0 \<le> sint (s_scnptr s)" and "length N < 2 ^ 31"
  shows "52 \<le> length N \<and> (let n = noff_of_bytes (take 52 N); ss = coff_sections inp in
    noffMagic n = NOFFMAGIC \<and> holds_section inp N (last_named ''.text'' ss) (code n) \<and>
    holds_section inp N (last_named ''.data'' ss) (initData n) \<and> holds_section inp N (last_named ''.rdata'' ss) (readonlyData n) \<and>
    seg_size (uninitData n) = bss_size ss)"
proof -
  obtain c where c: "convert_sections inp (coff_sections inp) \<lparr>pos = 76 + unat (le_short (inp ! 2) (inp ! 3)) * 40, noffH = init_header junk, inNoffFile = 52, out = []\<rparr> = Inr c"
    and N: "N = noff_bytes (noffH c) @ out c"
    using assms(1) by (auto simp: coff2noff_def cbind_Inr coff_read_def coff_sections_def Let_def SwapHeader_little split: if_splits)
  have ok: "conv_ok inp (coff_sections inp) c" by (rule convert_sections_ok [OF c init_conv_ok assms(2)])
  have "take 52 N = noff_bytes (noffH c)" by (simp add: N)
  then have n: "noff_of_bytes (take 52 N) = noffH c" by (simp add: noff_of_noff_bytes)
  have h: "holds_section inp N sec g" if "seg_holds inp (out c) sec g" for sec g
    unfolding N by (rule holds_sectionI [OF that]) (use assms(3) N in simp_all)
  show ?thesis unfolding n Let_def using ok h by (simp add: conv_ok_def N)
qed

section \<open>Convert, then load\<close>

text \<open>
  Sections that fit: their addresses are in memory, those of different names do not overlap, and
  all of them with the stack are not more than the memory.
\<close>

definition section_range :: "scnhdr option \<Rightarrow> nat set" where
  "section_range sec = (case sec of None \<Rightarrow> {}
     | Some s \<Rightarrow> {nat (sint (s_paddr s)) ..< nat (sint (s_paddr s)) + nat (sint (s_size s))})"

definition section_byte :: "byte list \<Rightarrow> scnhdr option \<Rightarrow> nat \<Rightarrow> byte" where
  "section_byte inp sec a = (case sec of None \<Rightarrow> 0 | Some s \<Rightarrow> inp ! (nat (sint (s_scnptr s)) + (a - nat (sint (s_paddr s)))))"

definition section_size :: "scnhdr option \<Rightarrow> int" where
  "section_size sec = (case sec of None \<Rightarrow> 0 | Some s \<Rightarrow> sint (s_size s))"

definition fits :: "scnhdr option \<Rightarrow> bool" where
  "fits sec \<longleftrightarrow> (case sec of None \<Rightarrow> True | Some s \<Rightarrow> 0 \<le> sint (s_paddr s) \<and> sint (s_paddr s) + sint (s_size s) \<le> int MemorySize)"

definition sections_fit :: "scnhdr list \<Rightarrow> bool" where
  "sections_fit ss \<longleftrightarrow>
     (let t = last_named ''.text'' ss; d = last_named ''.data'' ss; r = last_named ''.rdata'' ss in
      fits t \<and> fits d \<and> fits r \<and> section_range t \<inter> section_range d = {} \<and> section_range t \<inter> section_range r = {} \<and>
      section_range d \<inter> section_range r = {} \<and>
      section_size t + section_size d + section_size r + uint (bss_size ss) + 1024 \<le> int MemorySize)"

lemma holds_facts:
  assumes "holds_section inp N sec g" and "fits sec"
  shows "segment_ok N g" "covers g = section_range sec" "uint (seg_size g) = section_size sec"
    "\<And>a. a \<in> covers g \<Longrightarrow> N ! in_file g a = section_byte inp sec a"
proof -
  have "segment_ok N g \<and> covers g = section_range sec \<and> uint (seg_size g) = section_size sec \<and>
    (\<forall>a \<in> covers g. N ! in_file g a = section_byte inp sec a)"
  proof (cases sec)
    case None
    then show ?thesis using assms by (simp add: holds_section_def segment_ok_def covers_def section_range_def section_size_def)
  next
    case (Some s)
    have h: "virtualAddr g = s_paddr s" "seg_size g = s_size s" "0 < sint (seg_size g)" "52 \<le> sint (inFileAddr g)"
      "sint (inFileAddr g) + sint (seg_size g) \<le> int (length N)"
      "\<forall>i < nat (sint (seg_size g)). N ! (nat (sint (inFileAddr g)) + i) = inp ! (nat (sint (s_scnptr s)) + i)"
      using assms(1) unfolding Some holds_section_def by auto
    have "sint (s_size s) < 2 ^ 32" using sint_lt [of "s_size s"] by simp
    then have "uint (s_size s) = sint (s_size s)" using h(2,3) by (simp add: uint_sint take_bit_int_eq_self)
    moreover have "segment_ok N g" using h assms(2) Some by (simp add: segment_ok_def fits_def)
    moreover have "N ! in_file g a = section_byte inp sec a" if "a \<in> covers g" for a
      using h(6) [rule_format, of "a - nat (sint (virtualAddr g))"] that h(1) Some by (auto simp: covers_def in_file_def section_byte_def)
    ultimately show ?thesis using Some h(1,2) by (simp add: covers_def section_range_def section_size_def)
  qed
  then show "segment_ok N g" "covers g = section_range sec" "uint (seg_size g) = section_size sec"
    "\<And>a. a \<in> covers g \<Longrightarrow> N ! in_file g a = section_byte inp sec a" by simp_all
qed



text \<open>
  The test on a second \<open>.bss\<close> section is the wrong way round: sections that follow each other are
  refused, and sections with a gap between them are taken as one segment.
\<close>

lemma bss_check_inverted:
  assumes "is_named ''.bss'' s" and "s_size s \<noteq> 0" and "seg_size (uninitData (noffH c)) \<noteq> 0"
  shows "if s_paddr s = virtualAddr (uninitData (noffH c)) + seg_size (uninitData (noffH c))
    then convert_section inp s c = Inl BothBss
    else \<exists>c'. convert_section inp s c = Inr c' \<and> virtualAddr (uninitData (noffH c')) = virtualAddr (uninitData (noffH c)) \<and>
      seg_size (uninitData (noffH c')) = seg_size (uninitData (noffH c)) + s_size s"
  using assms names_differ(4) [OF assms(1)] by (simp add: convert_section_def Let_def)

section \<open>Example\<close>

text \<open>A COFF file with one section, four bytes of code for address 0.\<close>

definition example_coff :: "byte list" where
  "example_coff = [0x62, 1, 1, 0] @ replicate 16 0 @ [7, 1] @ replicate 54 0 @
     (map of_char ''.text'' @ [0, 0, 0]) @ word_bytes [0, 0, 4, 116, 0, 0, 0, 0] @ [1, 2, 3, 4]"

definition junk_header :: NoffHeader where
  "junk_header = (let g = \<lparr>virtualAddr = 99, inFileAddr = 98, seg_size = 97\<rparr> in
     \<lparr>noffMagic = 0, code = g, initData = g, readonlyData = g, uninitData = g\<rparr>)"

definition text_section :: scnhdr where
  "text_section = \<lparr>s_name = map of_char ''.text'' @ [0, 0, 0], s_paddr = 0, s_size = 4, s_scnptr = 116\<rparr>"

lemma example_parts:
  "length example_coff = 120" "take 20 example_coff = [0x62, 1, 1, 0] @ replicate 16 0"
  "take 56 (drop 20 example_coff) = [7, 1] @ replicate 54 0"
  "take 40 (drop 76 example_coff) = (map of_char ''.text'' @ [0, 0, 0]) @ word_bytes [0, 0, 4, 116, 0, 0, 0, 0]"
  "drop 116 example_coff = [1, 2, 3, 4]" "take 4 example_coff = [0x62, 1, 1, 0]"
  by (simp_all add: example_coff_def)

lemma example_sections: "coff_sections example_coff = [text_section]"
proof -
  have "example_coff ! 2 = 1" "example_coff ! 3 = 0" by (simp_all add: example_coff_def)
  then have "unat (le_short (example_coff ! 2) (example_coff ! 3)) = 1" by (simp add: le_short_def)
  moreover have "scnhdr_of_bytes (take 40 (drop 76 example_coff)) = text_section"
    unfolding example_parts(4) scnhdr_of_bytes_def text_section_def by (simp add: Let_def numeral_eq_Suc del: word_bytes.simps)
  ultimately show ?thesis by (simp add: coff_sections_def section_headers_def Let_def)
qed

lemma example_names: "is_named ''.text'' text_section"
  by (simp add: is_named_def text_section_def)

lemma example_converted: "\<exists>N. coff2noff junk_header example_coff = Inr N \<and> length N = 56"
proof -
  have r: "coff_read example_coff 0 20 = Inr (take 20 example_coff)" "coff_read example_coff 20 56 = Inr (take 56 (drop 20 example_coff))"
    "coff_read example_coff 76 40 = Inr (take 40 (drop 76 example_coff))" "coff_read example_coff 116 4 = Inr [1, 2, 3, 4]"
    using example_parts by (simp_all add: coff_read_def)
  have k: "example_coff ! 0 = 0x62" "example_coff ! Suc 0 = 1" "example_coff ! 2 = 1" "example_coff ! 3 = 0"
    "drop 20 example_coff ! 0 = 7" "drop 20 example_coff ! Suc 0 = 1" by (simp_all add: example_coff_def)
  have s: "section_headers 1 (take 40 (drop 76 example_coff)) = [text_section]"
    using example_sections by (simp add: coff_sections_def section_headers_def example_coff_def le_short_def Let_def)
  have w: "le_short 0x62 1 = MIPSELMAGIC" "le_short 7 1 = OMAGIC" "unat (le_short 1 0) = 1"
    by (simp_all add: le_short_def MIPSELMAGIC_def OMAGIC_def)
  show ?thesis
    using r(4) example_names
    by (simp add: coff2noff_def r k s [simplified] w cbind_def Let_def convert_section_def copy_section_def text_section_def)
qed


end
