(* ===== verification/Userprog_Console.thy ===== *)
theory Userprog_Console
  imports Machine_Interrupt
begin

text \<open>
  \<open>machine/console.cc\<close>, \<open>console.h\<close>, \<open>userprog/synchconsole.cc\<close>, \<open>synchconsole.h\<close>: the console
  devices and the synchronous console on top of them, as interrupts, semaphores and locks make
  them run.

  The record extends the interrupt hardware. \<open>conIn\<close> is what the host still has to give, \<open>conOut\<close>
  what has been written to the display. Whether the host has a character ready when the device
  polls is not up to the program: the answers are the sequence \<open>polls\<close>. Semaphores appear by their
  values and locks as flags, and a call that has to wait has no step (as a function it gives
  \<open>Diverges\<close>); the routines are cut where they wait.

  The theorems: the system calls of \<open>Userprog_Syscall\<close> use the console through \<open>GetChar\<close> and
  \<open>PutChar\<close> that act at once; the devices implement exactly these, for all timings of the host and
  all interleavings, no assertion of the devices fails, and a reader that waits is woken when the
  host has a character.
\<close>

section \<open>State and operations\<close>

definition ConsoleTime :: int where "ConsoleTime = 100"

datatype condev = ConIn | ConOut

record con = "condev interrupt" +
  incoming :: byte
  inWait :: nat
  inLock :: bool
  putBusy :: bool
  outWait :: nat
  outLock :: bool
  polls :: "nat \<Rightarrow> bool"
  polled :: nat

definition PollFile :: "'a con_scheme \<Rightarrow> bool \<times> 'a con_scheme" where
  "PollFile k = (polls k (polled k), k\<lparr>polled := polled k + 1\<rparr>)"

text \<open>\<open>SynchConsoleInput::CallBack\<close> and \<open>SynchConsoleOutput::CallBack\<close>: \<open>V\<close> on the semaphore.\<close>

definition SynchConsoleInput_CallBack :: "'a con_scheme \<Rightarrow> 'a con_scheme result" where
  "SynchConsoleInput_CallBack k = Inr (k\<lparr>inWait := inWait k + 1\<rparr>)"

definition SynchConsoleOutput_CallBack :: "'a con_scheme \<Rightarrow> 'a con_scheme result" where
  "SynchConsoleOutput_CallBack k = Inr (k\<lparr>outWait := outWait k + 1\<rparr>)"

text \<open>The constructors, for the host's terminal.\<close>

definition ConsoleInput_new :: "'a con_scheme \<Rightarrow> 'a con_scheme result" where
  "ConsoleInput_new k = Schedule ConIn ConsoleTime ConsoleReadInt (k\<lparr>incoming := EOF\<rparr>)"

definition ConsoleOutput_new :: "'a con_scheme \<Rightarrow> 'a con_scheme" where
  "ConsoleOutput_new k = k\<lparr>putBusy := False\<rparr>"

definition SynchConsoleInput_new :: "'a con_scheme \<Rightarrow> 'a con_scheme result" where
  "SynchConsoleInput_new k = rbind (ConsoleInput_new k) (\<lambda>k1. Inr (k1\<lparr>inLock := False, inWait := 0\<rparr>))"

definition SynchConsoleOutput_new :: "'a con_scheme \<Rightarrow> 'a con_scheme" where
  "SynchConsoleOutput_new k = (ConsoleOutput_new k)\<lparr>outLock := False, outWait := 0\<rparr>"

text \<open>Reading one character gives nothing at the end of the input.\<close>

definition ConsoleInput_CallBack :: "'a con_scheme \<Rightarrow> 'a con_scheme result" where
  "ConsoleInput_CallBack k =
     require (incoming k = EOF)
     (let (ready, k1) = PollFile k in
      if \<not> ready then Schedule ConIn ConsoleTime ConsoleReadInt k1
      else SynchConsoleInput_CallBack
        (case conIn k1 of
           [] \<Rightarrow> k1
         | c # cs \<Rightarrow> k1\<lparr>conIn := cs, incoming := c,
                        stats := (stats k1)\<lparr>numConsoleCharsRead := numConsoleCharsRead (stats k1) + 1\<rparr>\<rparr>))"

definition ConsoleInput_GetChar :: "'a con_scheme \<Rightarrow> (byte \<times> 'a con_scheme) result" where
  "ConsoleInput_GetChar k =
     (let ch = incoming k in
      rbind (if incoming k \<noteq> EOF then Schedule ConIn ConsoleTime ConsoleReadInt k else Inr k) (\<lambda>k1.
      Inr (ch, k1\<lparr>incoming := EOF\<rparr>)))"

definition ConsoleOutput_CallBack :: "'a con_scheme \<Rightarrow> 'a con_scheme result" where
  "ConsoleOutput_CallBack k =
     SynchConsoleOutput_CallBack
       (k\<lparr>putBusy := False, stats := (stats k)\<lparr>numConsoleCharsWritten := numConsoleCharsWritten (stats k) + 1\<rparr>\<rparr>)"

definition ConsoleOutput_PutChar :: "byte \<Rightarrow> 'a con_scheme \<Rightarrow> 'a con_scheme result" where
  "ConsoleOutput_PutChar ch k =
     require (\<not> putBusy k)
       (Schedule ConOut ConsoleTime ConsoleWriteInt (k\<lparr>conOut := conOut k @ [ch], putBusy := True\<rparr>))"

fun Con_CallBack :: "condev \<Rightarrow> 'a con_scheme \<Rightarrow> 'a con_scheme result" where
  "Con_CallBack ConIn k = ConsoleInput_CallBack k"
| "Con_CallBack ConOut k = ConsoleOutput_CallBack k"

text \<open>
  \<open>SynchConsoleInput::GetChar\<close>: \<open>Acquire\<close>, and, when \<open>P\<close> does not wait any more, the rest.
  \<open>SynchConsoleOutput::PutChar\<close>: up to \<open>P\<close>, and the rest.
\<close>

definition GetChar_start :: "'a con_scheme \<Rightarrow> 'a con_scheme result" where
  "GetChar_start k = (if inLock k then Inl Diverges else Inr (k\<lparr>inLock := True\<rparr>))"

definition GetChar_end :: "'a con_scheme \<Rightarrow> (byte \<times> 'a con_scheme) result" where
  "GetChar_end k =
     (if inWait k = 0 then Inl Diverges
      else rbind (ConsoleInput_GetChar (k\<lparr>inWait := inWait k - 1\<rparr>)) (\<lambda>(ch, k1). Inr (ch, k1\<lparr>inLock := False\<rparr>)))"

definition PutChar_start :: "byte \<Rightarrow> 'a con_scheme \<Rightarrow> 'a con_scheme result" where
  "PutChar_start ch k = (if outLock k then Inl Diverges else ConsoleOutput_PutChar ch (k\<lparr>outLock := True\<rparr>))"

definition PutChar_end :: "'a con_scheme \<Rightarrow> 'a con_scheme result" where
  "PutChar_end k = (if outWait k = 0 then Inl Diverges else Inr (k\<lparr>outWait := outWait k - 1, outLock := False\<rparr>))"

section \<open>Runs\<close>

datatype con_event = GotChar byte | PutC byte | Other

text \<open>The lock makes one reader and one writer at a time: who waits inside holds it.\<close>

inductive con_step :: "con \<Rightarrow> con_event \<Rightarrow> con \<Rightarrow> bool" where
  con_get_start: "GetChar_start k = Inr k' \<Longrightarrow> con_step k Other k'"
| con_get_end: "inLock k \<Longrightarrow> GetChar_end k = Inr (ch, k') \<Longrightarrow> con_step k (GotChar ch) k'"
| con_put_start: "PutChar_start ch k = Inr k' \<Longrightarrow> con_step k (PutC ch) k'"
| con_put_end: "outLock k \<Longrightarrow> PutChar_end k = Inr k' \<Longrightarrow> con_step k Other k'"
| con_interrupt: "CheckIfDue Con_CallBack adv (k\<lparr>level := IntOff\<rparr>) = Inr (b, k') \<Longrightarrow> con_step k Other k'"

inductive con_run :: "con \<Rightarrow> con_event list \<Rightarrow> con \<Rightarrow> bool" where
  con_refl: "con_run k [] k"
| con_next: "con_run k tr k' \<Longrightarrow> con_step k' e k'' \<Longrightarrow> con_run k (tr @ [e]) k''"

text \<open>The console as the system calls see it.\<close>

fun sys_event :: "con_event \<Rightarrow> sysenv \<Rightarrow> sysenv \<Rightarrow> bool" where
  "sys_event (GotChar ch) a a' \<longleftrightarrow> GetChar a = Inr (ch, a')"
| "sys_event (PutC ch) a a' \<longleftrightarrow> a' = PutChar ch a"
| "sys_event Other a a' \<longleftrightarrow> a' = a"

inductive sys_run :: "sysenv \<Rightarrow> con_event list \<Rightarrow> sysenv \<Rightarrow> bool" where
  sys_refl: "sys_run a [] a"
| sys_next: "sys_run a tr a' \<Longrightarrow> sys_event e a' a'' \<Longrightarrow> sys_run a (tr @ [e]) a''"

section \<open>Legal consoles\<close>

definition count_dev :: "condev \<Rightarrow> con \<Rightarrow> nat" where
  "count_dev c k = length (filter (\<lambda>p. callOnInterrupt p = c) (pendingList k))"

text \<open>
  The input device polls (its interrupt is pending and nothing is buffered), or it has called
  back and the character or the end of the input has not been fetched, or it has stopped for good.
  The output device is busy while its interrupt is pending; the writer that started it holds the
  lock until it has been told.
\<close>

definition in_ok :: "nat \<Rightarrow> con \<Rightarrow> bool" where
  "in_ok n k \<longleftrightarrow> n + inWait k \<le> 1 \<and> (inWait k = 0 \<longrightarrow> incoming k = EOF)"

definition out_ok :: "nat \<Rightarrow> con \<Rightarrow> bool" where
  "out_ok n k \<longleftrightarrow> (putBusy k \<longleftrightarrow> n = 1) \<and> n + outWait k = (if outLock k then 1 else 0)"

text \<open>The device and the abstract console: what is buffered comes before what the host still has.\<close>

definition input_rel :: "nat \<Rightarrow> con \<Rightarrow> sysenv \<Rightarrow> bool" where
  "input_rel n k a \<longleftrightarrow>
     (if n = 1 then conIn a = conIn k \<and> \<not> conEof a
      else if inWait k = 0 then conEof a \<and> conIn a = conIn k
      else if incoming k \<noteq> EOF then conIn a = incoming k # conIn k \<and> \<not> conEof a
      else (conIn a = EOF # conIn k \<or> conIn a = [] \<and> conIn k = []) \<and> \<not> conEof a)"

definition con_inv :: "sysenv \<Rightarrow> con \<Rightarrow> bool" where
  "con_inv a k \<longleftrightarrow> in_ok (count_dev ConIn k) k \<and> out_ok (count_dev ConOut k) k \<and> input_rel (count_dev ConIn k) k a \<and> conOut a = conOut k"

text \<open>The invariant when the interrupt of a device has been taken off the list and its handler starts.\<close>

definition con_popped :: "sysenv \<Rightarrow> condev \<Rightarrow> con \<Rightarrow> bool" where
  "con_popped a c k \<longleftrightarrow>
     (let n = count_dev ConIn k + (if c = ConIn then 1 else 0); m = count_dev ConOut k + (if c = ConOut then 1 else 0) in
      in_ok n k \<and> out_ok m k \<and> input_rel n k a \<and> conOut a = conOut k)"

definition con_ok :: "sysenv \<Rightarrow> con \<Rightarrow> bool" where
  "con_ok a k \<longleftrightarrow> con_inv a k \<and> clock_ok k \<and> cpu_ok k \<and> \<not> inHandler k"

lemma count_dev_fields [simp]:
  "count_dev c (k\<lparr>inHandler := b\<rparr>) = count_dev c k" "count_dev c (k\<lparr>level := l\<rparr>) = count_dev c k"
  "count_dev c (k\<lparr>stats := st\<rparr>) = count_dev c k" "count_dev c (k\<lparr>mstatus := ms\<rparr>) = count_dev c k"
  "count_dev c (k\<lparr>registers := r\<rparr>) = count_dev c k" "count_dev c (k\<lparr>yieldOnReturn := b\<rparr>) = count_dev c k"
  "count_dev c (k\<lparr>inLock := b\<rparr>) = count_dev c k" "count_dev c (k\<lparr>inWait := n\<rparr>) = count_dev c k"
  "count_dev c (k\<lparr>incoming := ch\<rparr>) = count_dev c k" "count_dev c (k\<lparr>polled := n\<rparr>) = count_dev c k"
  "count_dev c (k\<lparr>conIn := cs\<rparr>) = count_dev c k" "count_dev c (k\<lparr>outLock := b\<rparr>) = count_dev c k"
  "count_dev c (k\<lparr>outWait := n\<rparr>) = count_dev c k" "count_dev c (k\<lparr>putBusy := b\<rparr>) = count_dev c k"
  "count_dev c (k\<lparr>conOut := cs\<rparr>) = count_dev c k"
  by (simp_all add: count_dev_def)

text \<open>\<open>Schedule\<close> adds one interrupt of the device.\<close>

lemma Schedule_con:
  assumes k: "clock_ok (k :: con)" and t: "0 < t"
  shows "\<exists>k' ps b. Schedule d t ty k = Inr k' \<and> later k k' \<and> k' = k\<lparr>pendingList := ps, brk_int := b\<rparr> \<and>
    (\<forall>c. count_dev c k' = count_dev c k + (if c = d then 1 else 0))"
proof -
  obtain p ps where p: "Schedule d t ty k = Inr (k\<lparr>pendingList := ps, brk_int := brk_int k + 1\<rparr>)"
    "set ps = insert p (set (pendingList k))" "p \<notin> set (pendingList k)" "callOnInterrupt p = d" "when p = now k + t"
    "clock_ok (k\<lparr>pendingList := ps, brk_int := brk_int k + 1\<rparr>)"
    using Schedule_ok [OF assms, of d ty] by blast
  let ?k = "k\<lparr>pendingList := ps, brk_int := brk_int k + 1\<rparr>"
  have dist: "distinct ps" "distinct (pendingList k)" using p(6) k by (simp_all add: clock_ok_def)
  have count: "count_dev c x = card {q \<in> set (pendingList x). callOnInterrupt q = c}" if "distinct (pendingList x)" for c x
    using that distinct_card [of "filter (\<lambda>q. callOnInterrupt q = c) (pendingList x)"] by (simp add: count_dev_def)
  have "{q \<in> set ps. callOnInterrupt q = c} =
      (if c = d then insert p {q \<in> set (pendingList k). callOnInterrupt q = c} else {q \<in> set (pendingList k). callOnInterrupt q = c})" for c
    using p(2,4) by auto
  then have "count_dev c ?k = count_dev c k + (if c = d then 1 else 0)" for c
    using p(3) dist by (simp add: count)
  moreover have "later k ?k" using p t by (auto simp: later_def)
  ultimately show ?thesis using p(1) by blast
qed

text \<open>The handlers restore the invariant.\<close>

lemma ConsoleInput_ok:
  assumes i: "con_popped a ConIn k" and c: "clock_ok k"
  shows "\<exists>k'. ConsoleInput_CallBack k = Inr k' \<and> con_inv a k' \<and> later k k'"
proof -
  let ?n = "count_dev ConIn k"
  have p: "?n = 0" "inWait k = 0" "incoming k = EOF" "out_ok (count_dev ConOut k) k" "conIn a = conIn k" "\<not> conEof a" "conOut a = conOut k"
    using i by (auto simp: con_popped_def in_ok_def input_rel_def)
  let ?k = "k\<lparr>polled := polled k + 1\<rparr>"
  show ?thesis
  proof (cases "polls k (polled k)")
    case False
    have "clock_ok ?k" using c by (simp add: clock_ok_def)
    from Schedule_con [OF this, of ConsoleTime ConIn ConsoleReadInt] obtain k' ps b where
      k': "Schedule ConIn ConsoleTime ConsoleReadInt ?k = Inr k'" "later ?k k'" "k' = ?k\<lparr>pendingList := ps, brk_int := b\<rparr>"
        "\<forall>c. count_dev c k' = count_dev c ?k + (if c = ConIn then 1 else 0)"
      by (auto simp: ConsoleTime_def)
    have n: "count_dev ConIn k' = 1" "count_dev ConOut k' = count_dev ConOut k" using k'(4) p(1) by simp_all
    have "con_inv a k'"
      unfolding con_inv_def n using p by (simp add: k'(3) in_ok_def out_ok_def input_rel_def)
    moreover have "later k k'" using k'(2) by (simp add: later_def)
    ultimately show ?thesis using False p(3) k'(1) by (simp add: ConsoleInput_CallBack_def PollFile_def)
  next
    case True
    define k1 where "k1 = (case conIn ?k of [] \<Rightarrow> ?k | c # cs \<Rightarrow> ?k\<lparr>conIn := cs, incoming := c,
       stats := (stats ?k)\<lparr>numConsoleCharsRead := numConsoleCharsRead (stats ?k) + 1\<rparr>\<rparr>)"
    have "ConsoleInput_CallBack k = Inr (k1\<lparr>inWait := 1\<rparr>)"
      using True p by (auto simp: ConsoleInput_CallBack_def PollFile_def SynchConsoleInput_CallBack_def k1_def split: list.split)
    moreover have "con_inv a (k1\<lparr>inWait := 1\<rparr>)"
      using p by (auto simp: con_inv_def in_ok_def out_ok_def input_rel_def k1_def split: list.split)
    moreover have "later k (k1\<lparr>inWait := 1\<rparr>)"
      using c by (auto simp: later_def clock_ok_def k1_def split: list.split)
    ultimately show ?thesis by blast
  qed
qed

lemma ConsoleOutput_ok:
  assumes i: "con_popped a ConOut k" and c: "clock_ok k"
  shows "\<exists>k'. ConsoleOutput_CallBack k = Inr k' \<and> con_inv a k' \<and> later k k'"
proof -
  have "count_dev ConOut k = 0" "putBusy k" "outWait k = 0" "outLock k"
    using i by (auto simp: con_popped_def out_ok_def Let_def split: if_splits)
  then show ?thesis using i c
    by (auto simp: Let_def ConsoleOutput_CallBack_def SynchConsoleOutput_CallBack_def con_popped_def con_inv_def in_ok_def out_ok_def
        input_rel_def later_def clock_ok_def)
qed

interpretation con: handlers Con_CallBack "\<lambda>_. True" "con_inv a" "con_popped a" for a
proof
  fix c and k :: con
  assume "con_popped a c k" "clock_ok k"
  then show "\<exists>k'. Con_CallBack c k = Inr k' \<and> con_inv a k' \<and> pend_ok (\<lambda>_. True) k' \<and> later k k'"
    using ConsoleInput_ok [of a k] ConsoleOutput_ok [of a k] by (cases c) (auto simp: pend_ok_def)
next
  fix k :: con and p ps
  assume i: "con_inv a k" and l: "pendingList k = p # ps"
  have "count_dev c k = count_dev c (k\<lparr>pendingList := ps\<rparr>) + (if callOnInterrupt p = c then 1 else 0)" for c
    using l by (simp add: count_dev_def)
  then show "con_popped a (callOnInterrupt p) (k\<lparr>pendingList := ps\<rparr>)"
    using i by (simp add: con_inv_def con_popped_def in_ok_def out_ok_def input_rel_def Let_def cong: if_cong)
qed (simp_all add: con_inv_def in_ok_def out_ok_def input_rel_def cong: if_cong)

section \<open>Each step, in a legal console\<close>

lemma con_steps_ok:
  assumes k: "con_ok a k"
  shows "CheckIfDue Con_CallBack adv (k\<lparr>level := IntOff\<rparr>) = Inr (b, k') \<Longrightarrow> con_ok a k'"
    and "\<exists>b k'. CheckIfDue Con_CallBack adv (k\<lparr>level := IntOff\<rparr>) = Inr (b, k')"
proof -
  have "con_inv a (k\<lparr>level := IntOff\<rparr>)" "clock_ok (k\<lparr>level := IntOff\<rparr>)" "level (k\<lparr>level := IntOff\<rparr>) = IntOff" "\<not> inHandler (k\<lparr>level := IntOff\<rparr>)"
    "cpu_ok (k\<lparr>level := IntOff\<rparr>)" "pend_ok (\<lambda>_. True) (k\<lparr>level := IntOff\<rparr>)"
    using k by (simp_all add: con_ok_def con.inv_hw clock_ok_def cpu_ok_def reg_def pend_ok_def)
  from con.CheckIfDue_ok [OF this, of adv] obtain c k1 where
    r: "CheckIfDue Con_CallBack adv (k\<lparr>level := IntOff\<rparr>) = Inr (c, k1)" and ok: "con_inv a k1" "clock_ok k1" "\<not> inHandler k1" "cpu_ok k1"
    by blast
  show "\<exists>b k'. CheckIfDue Con_CallBack adv (k\<lparr>level := IntOff\<rparr>) = Inr (b, k')" using r by blast
  show "con_ok a k'" if "CheckIfDue Con_CallBack adv (k\<lparr>level := IntOff\<rparr>) = Inr (b, k')"
    using that ok unfolding r con_ok_def by simp
qed

lemma GetChar_start_ok:
  assumes "con_ok a k" and "GetChar_start k = Inr k'"
  shows "con_ok a k'"
proof -
  have k': "k' = k\<lparr>inLock := True\<rparr>" using assms(2) by (simp add: GetChar_start_def split: if_splits)
  show ?thesis
    using assms(1) unfolding k' con_ok_def con_inv_def
    by (simp add: in_ok_def out_ok_def input_rel_def clock_ok_def cpu_ok_def reg_def cong: if_cong)
qed

lemma GetChar_end_ok:
  assumes k: "con_ok a k" and w: "inWait k \<noteq> 0"
  shows "\<exists>ch k' a'. GetChar_end k = Inr (ch, k') \<and> GetChar a = Inr (ch, a') \<and> con_ok a' k'"
proof -
  let ?k = "k\<lparr>inWait := inWait k - 1\<rparr>"
  have n: "count_dev ConIn k = 0" using k w by (simp add: con_ok_def con_inv_def in_ok_def)
  then have i: "inWait k = 1" "count_dev ConIn k = 0" "out_ok (count_dev ConOut k) k" "input_rel 0 k a" "conOut a = conOut k"
    using k w by (simp_all add: con_ok_def con_inv_def in_ok_def)
  have hw: "clock_ok k" "cpu_ok k" "\<not> inHandler k" using k by (simp_all add: con_ok_def)
  show ?thesis
  proof (cases "incoming k = EOF")
    case True
    define k' where "k' = k\<lparr>inWait := 0, incoming := EOF, inLock := False\<rparr>"
    have run: "GetChar_end k = Inr (EOF, k')" using True i(1) by (simp add: GetChar_end_def ConsoleInput_GetChar_def k'_def)
    have ok: "con_ok a' k'" if "conEof a'" "conIn a' = conIn k" "conOut a' = conOut a" for a'
      using that hw i by (simp add: k'_def con_ok_def con_inv_def in_ok_def out_ok_def input_rel_def clock_ok_def cpu_ok_def reg_def)
    have "\<exists>a'. GetChar a = Inr (EOF, a') \<and> conEof a' \<and> conIn a' = conIn k \<and> conOut a' = conOut a"
      using i True by (auto simp: input_rel_def GetChar_def)
    then show ?thesis using run ok by blast
  next
    case False
    have "clock_ok ?k" using hw by (simp add: clock_ok_def)
    from Schedule_con [OF this, of ConsoleTime ConIn ConsoleReadInt] obtain k1 ps b where
      k1: "Schedule ConIn ConsoleTime ConsoleReadInt ?k = Inr k1" "later ?k k1" "k1 = ?k\<lparr>pendingList := ps, brk_int := b\<rparr>"
        "\<forall>c. count_dev c k1 = count_dev c ?k + (if c = ConIn then 1 else 0)"
      by (auto simp: ConsoleTime_def)
    define k' where "k' = k1\<lparr>incoming := EOF, inLock := False\<rparr>"
    have run: "GetChar_end k = Inr (incoming k, k')"
      using False i(1) k1(1) by (simp add: GetChar_end_def ConsoleInput_GetChar_def k'_def)
    have a: "conIn a = incoming k # conIn k" "\<not> conEof a" using i False by (simp_all add: input_rel_def)
    have n: "count_dev ConIn k' = 1" "count_dev ConOut k' = count_dev ConOut k" using k1(4) i(2) by (simp_all add: k'_def)
    have l: "clock_ok k1" "cpu_ok k1" "\<not> inHandler k1" using k1(2) hw by (simp_all add: later_def cpu_ok_def reg_def)
    have "con_inv (a\<lparr>conIn := conIn k, conEof := False\<rparr>) k'"
      unfolding con_inv_def n using i by (simp add: k'_def k1(3) in_ok_def out_ok_def input_rel_def)
    then have "con_ok (a\<lparr>conIn := conIn k, conEof := False\<rparr>) k'"
      using l by (simp add: con_ok_def k'_def clock_ok_def cpu_ok_def reg_def)
    then show ?thesis using run a False by (simp add: GetChar_def)
  qed
qed

lemma PutChar_start_ok:
  assumes k: "con_ok a k" and w: "\<not> outLock k"
  shows "\<exists>k'. PutChar_start ch k = Inr k' \<and> con_ok (PutChar ch a) k'"
proof -
  let ?k = "k\<lparr>outLock := True, conOut := conOut k @ [ch], putBusy := True\<rparr>"
  have i: "count_dev ConOut k = 0" "outWait k = 0" "\<not> putBusy k" using k w by (auto simp: con_ok_def con_inv_def out_ok_def)
  have hw: "clock_ok k" "cpu_ok k" "\<not> inHandler k" using k by (simp_all add: con_ok_def)
  then have "clock_ok ?k" by (simp add: clock_ok_def)
  from Schedule_con [OF this, of ConsoleTime ConOut ConsoleWriteInt] obtain k1 ps b where
    k1: "Schedule ConOut ConsoleTime ConsoleWriteInt ?k = Inr k1" "later ?k k1" "k1 = ?k\<lparr>pendingList := ps, brk_int := b\<rparr>"
      "\<forall>c. count_dev c k1 = count_dev c ?k + (if c = ConOut then 1 else 0)"
    by (auto simp: ConsoleTime_def)
  have n: "count_dev ConOut k1 = 1" "count_dev ConIn k1 = count_dev ConIn k" using k1(4) i(1) by simp_all
  have "con_inv (PutChar ch a) k1"
    unfolding con_inv_def n using k i
    by (simp add: k1(3) con_ok_def con_inv_def in_ok_def out_ok_def input_rel_def PutChar_def cong: if_cong)
  then have "con_ok (PutChar ch a) k1" using k1(2) hw by (simp add: con_ok_def later_def cpu_ok_def reg_def)
  then show ?thesis using w i k1(1) by (simp add: PutChar_start_def ConsoleOutput_PutChar_def)
qed

lemma PutChar_end_ok:
  assumes k: "con_ok a k" and w: "outWait k \<noteq> 0"
  shows "\<exists>k'. PutChar_end k = Inr k' \<and> con_ok a k'"
proof -
  have i: "count_dev ConOut k = 0" "outWait k = 1" "outLock k" "\<not> putBusy k"
    using k w by (auto simp: con_ok_def con_inv_def out_ok_def split: if_splits)
  then show ?thesis using k w
    by (simp add: PutChar_end_def con_ok_def con_inv_def in_ok_def out_ok_def input_rel_def clock_ok_def cpu_ok_def reg_def cong: if_cong)
qed

lemma con_step_refines:
  assumes "con_step k e k'" and "con_ok a k"
  shows "\<exists>a'. sys_event e a a' \<and> con_ok a' k'"
  using assms
proof (cases rule: con_step.cases)
  case con_get_start
  then show ?thesis using GetChar_start_ok assms(2) by auto
next
  case (con_get_end ch)
  then show ?thesis using GetChar_end_ok [OF assms(2)] by (auto simp: GetChar_end_def split: if_splits)
next
  case (con_put_start ch)
  then show ?thesis using PutChar_start_ok [OF assms(2), of ch] by (auto simp: PutChar_start_def split: if_splits)
next
  case con_put_end
  then show ?thesis using PutChar_end_ok [OF assms(2)] by (auto simp: PutChar_end_def split: if_splits)
next
  case con_interrupt
  then show ?thesis using con_steps_ok(1) [OF assms(2)] by auto
qed

lemma con_run_refines:
  assumes "con_run k tr k'" and "con_ok a k"
  shows "\<exists>a'. sys_run a tr a' \<and> con_ok a' k'"
  using assms
proof (induction rule: con_run.induct)
  case (con_refl k)
  then show ?case using sys_run.sys_refl by blast
next
  case (con_next k tr k' e k'')
  then obtain a' where "sys_run a tr a'" "con_ok a' k'" by blast
  then show ?case using con_step_refines [OF con_next.hyps(2)] sys_run.sys_next by blast
qed

text \<open>A console that has just been set up is legal.\<close>

definition powered :: "con \<Rightarrow> bool" where
  "powered k \<longleftrightarrow> clock_ok k \<and> cpu_ok k \<and> \<not> inHandler k \<and> pendingList k = []"

lemma SynchConsole_new_ok:
  assumes k: "powered k" and a: "conIn a = conIn k" "\<not> conEof a" "conOut a = conOut k"
  shows "\<exists>k1. SynchConsoleInput_new k = Inr k1 \<and> con_ok a (SynchConsoleOutput_new k1) \<and> polls k1 = polls k \<and> polled k1 = polled k"
proof -
  let ?k = "k\<lparr>incoming := EOF\<rparr>"
  have z: "count_dev c k = 0" for c using k by (simp add: powered_def count_dev_def)
  have "clock_ok ?k" using k by (simp add: powered_def clock_ok_def)
  from Schedule_con [OF this, of ConsoleTime ConIn ConsoleReadInt] obtain k1 ps b where
    k1: "Schedule ConIn ConsoleTime ConsoleReadInt ?k = Inr k1" "later ?k k1" "k1 = ?k\<lparr>pendingList := ps, brk_int := b\<rparr>"
      "\<forall>c. count_dev c k1 = count_dev c ?k + (if c = ConIn then 1 else 0)"
    by (auto simp: ConsoleTime_def)
  define k2 where "k2 = SynchConsoleOutput_new (k1\<lparr>inLock := False, inWait := 0\<rparr>)"
  have n: "count_dev ConIn k2 = 1" "count_dev ConOut k2 = 0" using k1(4) z by (simp_all add: k2_def SynchConsoleOutput_new_def ConsoleOutput_new_def)
  have "con_inv a k2"
    unfolding con_inv_def n using a by (simp add: k2_def SynchConsoleOutput_new_def ConsoleOutput_new_def k1(3) in_ok_def out_ok_def input_rel_def)
  moreover have "clock_ok k2" "cpu_ok k2" "\<not> inHandler k2"
    using k1(2) k by (simp_all add: k2_def SynchConsoleOutput_new_def ConsoleOutput_new_def later_def powered_def clock_ok_def cpu_ok_def reg_def)
  ultimately show ?thesis using k1(1,3) by (simp add: SynchConsoleInput_new_def ConsoleInput_new_def con_ok_def k2_def)
qed

section \<open>Waiting\<close>

text \<open>
  A thread that waits for the console sleeps, and with no other thread to run the kernel idles: it
  advances the clock to the next interrupt, again and again.
\<close>

primrec con_wait :: "nat \<Rightarrow> con \<Rightarrow> con result" where
  "con_wait 0 k = Inr k"
| "con_wait (Suc n) k = rbind (Idle Con_CallBack k) (con_wait n)"

text \<open>Work left until the host's poll number \<open>N\<close>, which succeeds.\<close>

definition work :: "nat \<Rightarrow> con \<Rightarrow> nat" where
  "work N k = 2 * (N - polled k) + count_dev ConOut k"

definition wait_inv :: "sysenv \<Rightarrow> (nat \<Rightarrow> bool) \<Rightarrow> nat \<Rightarrow> condev PendingInterrupt \<Rightarrow> nat \<Rightarrow> con \<Rightarrow> bool" where
  "wait_inv a P N p m k \<longleftrightarrow> con_inv a k \<and> polls k = P \<and>
     (inWait k = 1 \<or> polled k \<le> N \<and> (work N k < m \<or> work N k = m \<and> p \<in> set (pendingList k)))"

definition wait_popped :: "sysenv \<Rightarrow> (nat \<Rightarrow> bool) \<Rightarrow> nat \<Rightarrow> nat \<Rightarrow> condev \<Rightarrow> con \<Rightarrow> bool" where
  "wait_popped a P N m c k \<longleftrightarrow> con_popped a c k \<and> polls k = P \<and>
     (inWait k = 1 \<or> polled k \<le> N \<and> work N k + (if c = ConOut then 1 else 0) \<le> m)"

lemma ConsoleInput_work:
  assumes w: "wait_popped a P N m ConIn k" and r: "ConsoleInput_CallBack k = Inr k'" and N: "P N" and c: "clock_ok k"
  shows "polls k' = P \<and> (inWait k' = 1 \<or> polled k' \<le> N \<and> work N k' < m)"
proof -
  have z: "inWait k = 0" "incoming k = EOF" "polls k = P" "polled k \<le> N" "work N k \<le> m"
    using w by (auto simp: wait_popped_def con_popped_def in_ok_def)
  let ?k = "k\<lparr>polled := polled k + 1\<rparr>"
  show ?thesis
  proof (cases "P (polled k)")
    case True
    then show ?thesis using r z
      by (auto simp: ConsoleInput_CallBack_def PollFile_def SynchConsoleInput_CallBack_def split: list.split)
  next
    case False
    then have l: "polled k < N" using z(4) N by (metis le_neq_implies_less)
    have "clock_ok ?k" using c by (simp add: clock_ok_def)
    from Schedule_con [OF this, of ConsoleTime ConIn ConsoleReadInt] obtain k1 ps b where
      k1: "Schedule ConIn ConsoleTime ConsoleReadInt ?k = Inr k1" "k1 = ?k\<lparr>pendingList := ps, brk_int := b\<rparr>"
        "\<forall>c. count_dev c k1 = count_dev c ?k + (if c = ConIn then 1 else 0)"
      by (auto simp: ConsoleTime_def)
    have "k' = k1" using r False z k1(1) by (simp add: ConsoleInput_CallBack_def PollFile_def)
    moreover have "polled k1 = polled k + 1" "polls k1 = P" "count_dev ConOut k1 = count_dev ConOut k"
      using k1(2,3) z by simp_all
    ultimately show ?thesis using l z(5) by (simp add: work_def, arith)
  qed
qed

lemma work_fields [simp]:
  "work N (k\<lparr>inHandler := b\<rparr>) = work N k" "work N (k\<lparr>level := l\<rparr>) = work N k" "work N (k\<lparr>stats := st\<rparr>) = work N k"
  "work N (k\<lparr>mstatus := ms\<rparr>) = work N k" "work N (k\<lparr>registers := r\<rparr>) = work N k" "work N (k\<lparr>yieldOnReturn := b\<rparr>) = work N k"
  "work N (k\<lparr>putBusy := b\<rparr>) = work N k" "work N (k\<lparr>outWait := n\<rparr>) = work N k"
  by (simp_all add: work_def)

lemma wait_handler:
  assumes w: "wait_popped a P N m c k" and N: "P N" and c: "clock_ok k"
  shows "\<exists>k'. Con_CallBack c k = Inr k' \<and> wait_inv a P N p m k' \<and> later k k'"
proof (cases c)
  case ConIn
  then have "con_popped a ConIn k" using w by (simp add: wait_popped_def)
  from ConsoleInput_ok [OF this c] obtain k' where k': "ConsoleInput_CallBack k = Inr k'" "con_inv a k'" "later k k'" by blast
  then show ?thesis using ConsoleInput_work [OF w [unfolded ConIn] k'(1) N c] ConIn by (auto simp: wait_inv_def)
next
  case ConOut
  then have "con_popped a ConOut k" using w by (simp add: wait_popped_def)
  from ConsoleOutput_ok [OF this c] obtain k' where k': "ConsoleOutput_CallBack k = Inr k'" "con_inv a k'" "later k k'" by blast
  have "polls k' = polls k" "inWait k' = inWait k" "polled k' = polled k" "work N k' = work N k"
    using k'(1) by (auto simp: ConsoleOutput_CallBack_def SynchConsoleOutput_CallBack_def)
  then show ?thesis using k' w ConOut by (auto simp: wait_inv_def wait_popped_def)
qed

interpretation cw: handlers Con_CallBack "\<lambda>_. True" "\<lambda>k. P N \<and> wait_inv a P N p m k" "\<lambda>c k. P N \<and> wait_popped a P N m c k" for a P N p m
proof
  fix c and k :: con
  assume "P N \<and> wait_popped a P N m c k" "clock_ok k"
  then show "\<exists>k'. Con_CallBack c k = Inr k' \<and> (P N \<and> wait_inv a P N p m k') \<and> pend_ok (\<lambda>_. True) k' \<and> later k k'"
    using wait_handler [of a P N m c k p] by (auto simp: pend_ok_def)
next
  fix k :: con and q ps
  assume i: "P N \<and> wait_inv a P N p m k" and l: "pendingList k = q # ps"
  have "count_dev ConOut k = count_dev ConOut (k\<lparr>pendingList := ps\<rparr>) + (if callOnInterrupt q = ConOut then 1 else 0)"
    using l by (simp add: count_dev_def)
  then have "work N (k\<lparr>pendingList := ps\<rparr>) + (if callOnInterrupt q = ConOut then 1 else 0) = work N k" by (simp add: work_def)
  then show "P N \<and> wait_popped a P N m (callOnInterrupt q) (k\<lparr>pendingList := ps\<rparr>)"
    using i con.pop [OF _ l, of a] by (auto simp: wait_inv_def wait_popped_def)
qed (simp_all add: wait_inv_def con.inv_hw)

lemma Idle_work:
  assumes i: "con_inv a k" and e: "\<not> conEof a" and hw: "clock_ok k" "cpu_ok k" "\<not> inHandler k" "level k = IntOff"
    and w: "inWait k = 0" "polled k \<le> N" and N: "polls k N"
  shows "\<exists>k'. Idle Con_CallBack k = Inr k' \<and> con_inv a k' \<and> clock_ok k' \<and> cpu_ok k' \<and> \<not> inHandler k' \<and> level k' = IntOff \<and>
    polls k' = polls k \<and> (inWait k' = 1 \<or> polled k' \<le> N \<and> work N k' < work N k)"
proof -
  have "count_dev ConIn k \<noteq> 0" using i e w(1) by (auto simp: con_inv_def input_rel_def split: if_splits)
  then obtain p ps where l: "pendingList k = p # ps" by (cases "pendingList k") (auto simp: count_dev_def)
  let ?k = "k\<lparr>mstatus := IdleMode\<rparr>"
  have "polls k N \<and> wait_inv a (polls k) N p (work N k) ?k" "clock_ok ?k" "level ?k = IntOff" "\<not> inHandler ?k" "cpu_ok ?k" "pend_ok (\<lambda>_. True) ?k"
    using i hw w N l by (simp_all add: wait_inv_def con.inv_hw clock_ok_def cpu_ok_def reg_def pend_ok_def)
  from cw.CheckIfDue_ok [OF this, of True] l obtain k' where
    r: "CheckIfDue Con_CallBack True ?k = Inr (True, k')"
    and ok: "wait_inv a (polls k) N p (work N k) k'" "clock_ok k'" "level k' = IntOff" "\<not> inHandler k'" "cpu_ok k'"
      "\<forall>q \<in> set (pendingList k'). when q > now k'" "now k' = max (now k) (when p)"
    by auto
  have "p \<notin> set (pendingList k')" using ok(6,7) by force
  then have "inWait k' = 1 \<or> polled k' \<le> N \<and> work N k' < work N k" using ok(1) by (auto simp: wait_inv_def)
  moreover have "Idle Con_CallBack k = Inr (k'\<lparr>mstatus := SystemMode\<rparr>)" using r by (simp add: Idle_def)
  ultimately show ?thesis
    using ok by (auto simp: wait_inv_def con.inv_hw clock_ok_def cpu_ok_def reg_def)
qed

lemma con_wait_reaches:
  assumes "con_inv a k" and "\<not> conEof a" and "clock_ok k" and "cpu_ok k" and "\<not> inHandler k" and "level k = IntOff"
    and "inWait k = 1 \<or> polled k \<le> N" and "polls k N"
  shows "\<exists>n k'. con_wait n k = Inr k' \<and> con_ok a k' \<and> inWait k' = 1"
  using assms
proof (induction "work N k" arbitrary: k rule: less_induct)
  case less
  show ?case
  proof (cases "inWait k = 1")
    case True
    then show ?thesis using less.prems by (intro exI [of _ 0]) (simp add: con_ok_def)
  next
    case False
    then have "inWait k = 0" using less.prems(1) by (simp add: con_inv_def in_ok_def)
    from Idle_work [OF less.prems(1-6) this _ less.prems(8)] False less.prems(7) obtain k' where
      k': "Idle Con_CallBack k = Inr k'" "con_inv a k'" "clock_ok k'" "cpu_ok k'" "\<not> inHandler k'" "level k' = IntOff"
        "polls k' = polls k" "inWait k' = 1 \<or> polled k' \<le> N \<and> work N k' < work N k" by blast
    have "\<exists>n k''. con_wait n k' = Inr k'' \<and> con_ok a k'' \<and> inWait k'' = 1"
    proof (cases "inWait k' = 1")
      case True
      then show ?thesis using k' by (intro exI [of _ 0]) (simp add: con_ok_def)
    next
      case False
      then show ?thesis using less.hyps [of k'] k' less.prems by auto
    qed
    then obtain n k'' where "con_wait n k' = Inr k''" "con_ok a k''" "inWait k'' = 1" by blast
    then show ?thesis using k'(1) by (intro exI [of _ "Suc n"] exI [of _ k'']) simp
  qed
qed

section \<open>The properties\<close>

definition got_chars :: "con_event list \<Rightarrow> byte list" where
  "got_chars tr = concat (map (\<lambda>e. case e of GotChar c \<Rightarrow> [c] | _ \<Rightarrow> []) tr)"

definition put_chars :: "con_event list \<Rightarrow> byte list" where
  "put_chars tr = concat (map (\<lambda>e. case e of PutC c \<Rightarrow> [c] | _ \<Rightarrow> []) tr)"

lemma sys_run_out: "sys_run a tr a' \<Longrightarrow> conOut a' = conOut a @ put_chars tr"
proof (induction rule: sys_run.induct)
  case (sys_next a tr a' e a'')
  then show ?case by (cases e) (auto simp: put_chars_def PutChar_def GetChar_def split: if_splits list.splits)
qed (simp add: put_chars_def)

lemma sys_run_in:
  assumes "sys_run a tr a'" and "EOF \<notin> set (got_chars tr)" and "\<not> conEof a"
  shows "\<not> conEof a' \<and> conIn a = got_chars tr @ conIn a'"
  using assms
proof (induction rule: sys_run.induct)
  case (sys_next a tr a' e a'')
  have "EOF \<notin> set (got_chars tr)" using sys_next.prems(1) by (auto simp: got_chars_def)
  then have "\<not> conEof a'" "conIn a = got_chars tr @ conIn a'" using sys_next by auto
  then show ?case using sys_next.hyps(2) sys_next.prems(1)
    by (cases e) (auto simp: got_chars_def PutChar_def GetChar_def split: list.splits)
qed (simp add: got_chars_def)

text \<open>
  C15: the devices with their interrupts, semaphores and locks implement the console of the
  system calls. From the moment the two consoles are set up, whatever the threads ask for, in
  which order the interrupts come and whatever the host answers to the polls, the characters that
  the calls of \<open>GetChar\<close> returned and those that \<open>PutChar\<close> accepted are a run of the abstract
  \<open>GetChar\<close> and \<open>PutChar\<close>, in the same order; and in no reachable state does an assertion of the
  devices fail: interrupts are always handled, a reader that has been signalled gets its
  character, a writer with the lock can start the display, and one that has been signalled returns.
\<close>

theorem console_refines:
  assumes "powered k0" and "conIn a0 = conIn k0" and "\<not> conEof a0" and "conOut a0 = conOut k0"
    and "SynchConsoleInput_new k0 = Inr k1" and "con_run (SynchConsoleOutput_new k1) tr k"
  shows "(\<exists>a. sys_run a0 tr a \<and> conOut a = conOut k) \<and> conOut k = conOut k0 @ put_chars tr \<and>
    (\<exists>b k'. CheckIfDue Con_CallBack adv (k\<lparr>level := IntOff\<rparr>) = Inr (b, k')) \<and>
    (inWait k \<noteq> 0 \<longrightarrow> (\<exists>ch k'. GetChar_end k = Inr (ch, k'))) \<and>
    (\<not> outLock k \<longrightarrow> (\<exists>k'. PutChar_start c k = Inr k')) \<and>
    (outWait k \<noteq> 0 \<longrightarrow> (\<exists>k'. PutChar_end k = Inr k'))"
proof -
  have "con_ok a0 (SynchConsoleOutput_new k1)" using SynchConsole_new_ok [OF assms(1-4)] assms(5) by auto
  from con_run_refines [OF assms(6) this] obtain a where a: "sys_run a0 tr a" "con_ok a k" by blast
  have "conOut a = conOut k" using a(2) by (simp add: con_ok_def con_inv_def)
  moreover have "conOut a = conOut k0 @ put_chars tr" using sys_run_out [OF a(1)] assms(4) by simp
  ultimately show ?thesis
    using a con_steps_ok(2) [OF a(2), of adv] GetChar_end_ok [OF a(2)] PutChar_start_ok [OF a(2), of c] PutChar_end_ok [OF a(2)] by (metis (no_types, lifting))
qed

text \<open>
  C21: a reader is not forgotten. In every reachable state, as long as the end of the input has not
  been reported, if the host answers one of the polls to come (number \<open>N\<close>), then idling wakes the
  reader: after finitely many rounds \<open>GetChar\<close> returns, and what it returns is the first
  character of the input that has not been returned yet, or \<open>EOF\<close> when there is none.
\<close>

theorem console_progress:
  assumes "powered k0" and "SynchConsoleInput_new k0 = Inr k1" and "con_run (SynchConsoleOutput_new k1) tr k"
    and "EOF \<notin> set (got_chars tr)" and "polls k N" and "polled k \<le> N"
  shows "\<exists>n k' ch k''. con_wait n (k\<lparr>level := IntOff\<rparr>) = Inr k' \<and> GetChar_end k' = Inr (ch, k'') \<and>
    (case drop (length (got_chars tr)) (conIn k0) of [] \<Rightarrow> ch = EOF | c # _ \<Rightarrow> ch = c)"
proof -
  let ?a = "sysenv.truncate k0\<lparr>conEof := False\<rparr>"
  have a0: "conIn ?a = conIn k0" "\<not> conEof ?a" "conOut ?a = conOut k0" by (simp_all add: sysenv.defs)
  have "con_ok ?a (SynchConsoleOutput_new k1)" using SynchConsole_new_ok [OF assms(1) a0] assms(2) by auto
  from con_run_refines [OF assms(3) this] obtain a where a: "sys_run ?a tr a" "con_ok a k" by blast
  have in_a: "\<not> conEof a" "conIn k0 = got_chars tr @ conIn a" using sys_run_in [OF a(1) assms(4) a0(2)] a0(1) by simp_all
  let ?k = "k\<lparr>level := IntOff\<rparr>"
  have "con_inv a ?k" "clock_ok ?k" "cpu_ok ?k" "\<not> inHandler ?k" "level ?k = IntOff" "inWait ?k = 1 \<or> polled ?k \<le> N" "polls ?k N"
    using a(2) assms(5,6) by (simp_all add: con_ok_def con.inv_hw clock_ok_def cpu_ok_def reg_def)
  from con_wait_reaches [OF this(1) in_a(1) this(2-)] obtain n k' where
    k': "con_wait n ?k = Inr k'" "con_ok a k'" "inWait k' = 1" by blast
  from GetChar_end_ok [OF k'(2)] k'(3) obtain ch k'' a' where r: "GetChar_end k' = Inr (ch, k'')" "GetChar a = Inr (ch, a')" by auto
  have "case conIn a of [] \<Rightarrow> ch = EOF | c # _ \<Rightarrow> ch = c" using r(2) in_a(1) by (auto simp: GetChar_def split: list.splits)
  then show ?thesis using k'(1) r(1) in_a(2) by auto
qed

text \<open>A console whose host has two characters and answers every second poll.\<close>

definition example_con :: con where
  "example_con = interrupt.extend (sysenv.extend (boot_sys\<lparr>conIn := [104, 105]\<rparr>) (interrupt.fields IntOn [] False False Statistics_new 0 False False))
     (con.fields 0 0 True True 0 True odd 0)"

lemma example_con_powered: "powered example_con" "conIn example_con = [104, 105]" "conOut example_con = []" "polls example_con = odd" "polled example_con = 0"
  using one_page_ok
  by (auto simp: example_con_def boot_sys_def powered_def clock_ok_def cpu_ok_def reg_def machine_ok_def
      machine.defs sysenv.defs interrupt.defs con.defs one_page_def Machine_new_def reg_names)

theorem console_refines_witness:
  "\<exists>k1 k. SynchConsoleInput_new example_con = Inr k1 \<and> PutChar_start 65 (SynchConsoleOutput_new k1) = Inr k \<and> conOut k = [65]"
proof -
  let ?a = "boot_sys\<lparr>conIn := [104, 105]\<rparr>"
  have a: "conIn ?a = conIn example_con" "\<not> conEof ?a" "conOut ?a = conOut example_con"
    by (simp_all add: example_con_powered) (simp_all add: boot_sys_def machine.defs sysenv.defs)
  obtain k1 where k1: "SynchConsoleInput_new example_con = Inr k1" "con_ok ?a (SynchConsoleOutput_new k1)"
    using SynchConsole_new_ok [OF example_con_powered(1) a] by blast
  have "\<not> outLock (SynchConsoleOutput_new k1)" by (simp add: SynchConsoleOutput_new_def ConsoleOutput_new_def)
  then obtain k where k: "PutChar_start 65 (SynchConsoleOutput_new k1) = Inr k" using PutChar_start_ok [OF k1(2)] by blast
  have "con_run (SynchConsoleOutput_new k1) ([] @ [PutC 65]) k"
    by (rule con_run.con_next [OF con_run.con_refl con_step.con_put_start [OF k]])
  then have "conOut k = conOut example_con @ put_chars [PutC 65]"
    using console_refines [OF example_con_powered(1) a k1(1)] by auto
  then show ?thesis using k1(1) k example_con_powered(3) by (simp add: put_chars_def)
qed

theorem console_progress_witness:
  "\<exists>k1 n k' k''. SynchConsoleInput_new example_con = Inr k1 \<and>
    con_wait n ((SynchConsoleOutput_new k1)\<lparr>level := IntOff\<rparr>) = Inr k' \<and> GetChar_end k' = Inr (104, k'')"
proof -
  let ?a = "boot_sys\<lparr>conIn := [104, 105]\<rparr>"
  have a: "conIn ?a = conIn example_con" "\<not> conEof ?a" "conOut ?a = conOut example_con"
    by (simp_all add: example_con_powered) (simp_all add: boot_sys_def machine.defs sysenv.defs)
  obtain k1 where k1: "SynchConsoleInput_new example_con = Inr k1" "polls k1 = odd" "polled k1 = 0"
    using SynchConsole_new_ok [OF example_con_powered(1) a] example_con_powered(4,5) by auto
  have "polls (SynchConsoleOutput_new k1) 1" "polled (SynchConsoleOutput_new k1) \<le> 1" "EOF \<notin> set (got_chars [])"
    using k1 by (simp_all add: SynchConsoleOutput_new_def ConsoleOutput_new_def got_chars_def)
  from console_progress [OF example_con_powered(1) k1(1) con_run.con_refl this(3,1,2)]
  show ?thesis using k1(1) by (auto simp: got_chars_def example_con_powered(2))
qed

end
