(* ===== verification/Userprog_Line.thy ===== *)
theory Userprog_Line
  imports Userprog_Syscall
begin

text \<open>
  \<open>SynchConsoleInput::Read\<close> and \<open>SynchConsoleOutput::Write\<close> of \<open>userprog/synchconsole.cc\<close>: a line
  read from the keyboard, a buffer written to the display. Both start with \<open>P\<close> through a pointer to
  a semaphore (\<open>RLineBlock\<close>, \<open>WLineBlock\<close>) that no code initialises; the semaphore is an argument
  here, its value, or nothing for a pointer to no object. The theorems say what the routines do
  once there is a semaphore, and what they do in the build.
\<close>

section \<open>Operations\<close>

text \<open>\<open>P\<close> on a semaphore that no other thread uses, and \<open>V\<close>.\<close>

definition line_P :: "nat option \<Rightarrow> nat result" where
  "line_P sem = (case sem of None \<Rightarrow> Inl WildAccess | Some v \<Rightarrow> if v = 0 then Inl Diverges else Inr (v - 1))"

text \<open>A character that is not \<open>EOF\<close>: the inner loop.\<close>

function Read_char :: "'a sysenv_scheme \<Rightarrow> (byte \<times> 'a sysenv_scheme) result" where
  "Read_char m = rbind (GetChar m) (\<lambda>(ch, m1). if ch = EOF then Read_char m1 else Inr (ch, m1))"
  by auto
termination by (relation "measure input_left") (auto dest: GetChar_less)

declare Read_char.simps [simp del]

text \<open>The loop over the line; the first argument is \<open>numBytes - loop\<close>, \<open>ch\<close> the last character read.\<close>

primrec Read_line :: "nat \<Rightarrow> byte \<Rightarrow> int \<Rightarrow> byte list \<Rightarrow> 'a sysenv_scheme \<Rightarrow> (byte \<times> int \<times> byte list \<times> 'a sysenv_scheme) result" where
  "Read_line 0 ch i into m = Inr (ch, i, into, m)"
| "Read_line (Suc left) ch i into m =
     rbind (Read_char m) (\<lambda>(ch1, m1).
     if ch1 = 10 \<or> ch1 = 1 then Inr (ch1, i, into, m1)
     else rbind (arr_set into i ch1) (\<lambda>into1. Read_line left ch1 (i + 1) into1 m1))"

text \<open>\<open>ch0\<close> is the value of the uninitialised variable \<open>ch\<close>.\<close>

definition SynchConsoleInput_ReadLine ::
  "nat option \<Rightarrow> byte \<Rightarrow> byte list \<Rightarrow> int \<Rightarrow> 'a sysenv_scheme \<Rightarrow> (int \<times> byte list \<times> nat \<times> 'a sysenv_scheme) result" where
  "SynchConsoleInput_ReadLine RLineBlock ch0 into numBytes m =
     rbind (for_upto numBytes (\<lambda>i buf. arr_set buf i 0) into) (\<lambda>buf.
     rbind (line_P RLineBlock) (\<lambda>v.
     rbind (Read_line (nat numBytes) ch0 0 buf m) (\<lambda>(ch, i, buf1, m1).
     Inr (if ch = 1 then -1 else i, buf1, v + 1, m1))))"

definition SynchConsoleOutput_Write :: "nat option \<Rightarrow> byte list \<Rightarrow> int \<Rightarrow> 'a sysenv_scheme \<Rightarrow> (int \<times> nat \<times> 'a sysenv_scheme) result" where
  "SynchConsoleOutput_Write WLineBlock from numBytes m =
     rbind (line_P WLineBlock) (\<lambda>v.
     rbind (for_upto numBytes (\<lambda>i m1. rbind (arr_get from i) (\<lambda>c. Inr (PutChar c m1))) m) (\<lambda>m1.
     Inr (numBytes, v + 1, m1)))"

section \<open>Properties\<close>

lemma Read_char_feed: "c \<noteq> EOF \<Longrightarrow> Read_char (feed (c # cs) m) = Inr (c, feed cs m)"
  by (subst Read_char.simps) simp

text \<open>Characters of a line, and the rest of the buffer.\<close>

lemma Read_line_chars:
  assumes "set line \<inter> {10, 1, EOF} = {}" and "length line \<le> left" and "left + i \<le> length into"
  shows "Read_line left ch (int i) into (feed (line @ rest) m) =
    Read_line (left - length line) (if line = [] then ch else last line) (int (i + length line))
      (take i into @ line @ drop (i + length line) into) (feed rest m)"
  using assms
proof (induction line arbitrary: left ch i into)
  case (Cons c line)
  then obtain left' where l: "left = Suc left'" by (cases left) auto
  have i: "i < length into" using Cons.prems l by simp
  have c: "c \<notin> {10, 1, EOF}" using Cons.prems by auto
  have "Read_line left ch (int i) into (feed ((c # line) @ rest) m) = Read_line left' c (int (Suc i)) (into[i := c]) (feed (line @ rest) m)"
    using c i Read_char_feed [of c "line @ rest" m] by (simp add: l arr_set_def ac_simps)
  also have "\<dots> = Read_line (left' - length line) (if line = [] then c else last line) (int (Suc i + length line))
      (take (Suc i) (into[i := c]) @ line @ drop (Suc i + length line) (into[i := c])) (feed rest m)"
    by (rule Cons.IH) (use Cons.prems l in auto)
  also have "take (Suc i) (into[i := c]) @ line @ drop (Suc i + length line) (into[i := c]) =
      take i into @ (c # line) @ drop (i + length (c # line)) into"
    using i by (simp add: take_Suc_conv_app_nth drop_update_cancel)
  finally show ?case by (simp add: l)
qed simp

lemma zero_fill_eq:
  assumes "0 \<le> n" and "n \<le> int (length into)"
  shows "for_upto n (\<lambda>i buf. arr_set buf i 0) into = Inr (replicate (nat n) (0 :: byte) @ drop (nat n) into)"
proof -
  have "\<exists>b. for_upto n (\<lambda>i buf. arr_set buf i 0) into = Inr b \<and> b = replicate (nat n) 0 @ drop (nat n) into"
  proof (rule for_upto_rule [where P = "\<lambda>i b. b = replicate (nat i) 0 @ drop (nat i) into"])
    fix i b assume i: "0 \<le> i" "i < n" "b = replicate (nat i) 0 @ drop (nat i) into"
    have "drop (nat i) into = into ! nat i # drop (Suc (nat i)) into" using i(1,2) assms(2) by (intro Cons_nth_drop_Suc [symmetric]) linarith
    then have "b[nat i := 0] = replicate (nat (i + 1)) 0 @ drop (nat (i + 1)) into"
      using i by (simp add: list_update_append nat_add_distrib replicate_append_same [symmetric])
    then show "\<exists>b'. arr_set b i 0 = Inr b' \<and> b' = replicate (nat (i + 1)) 0 @ drop (nat (i + 1)) into"
      using i assms(2) by (simp add: arr_set_def)
  qed (use assms in simp_all)
  then show ?thesis by simp
qed

text \<open>
  Reading a line of at most \<open>numBytes\<close> characters, with a semaphore that is free: the buffer gets
  the characters in front of the newline and zeros behind them, the newline is consumed, and the
  result is the number of characters, or -1 when the line ends with control-A; a line that
  fills the buffer is not read further. The semaphore is free again. In the build, where the
  pointer is never set, the call faults, as the read of the console in the system calls does.
\<close>

theorem ReadLine_correct:
  assumes "0 \<le> numBytes" and "numBytes \<le> int (length into)" and line: "set line \<inter> {10, 1, EOF} = {}"
  shows "(int (length line) < numBytes \<and> t \<in> {10, 1} \<longrightarrow>
      SynchConsoleInput_ReadLine (Some (Suc v)) ch0 into numBytes (feed (line @ t # rest) m) =
        Inr (if t = 1 then -1 else int (length line), line @ replicate (nat numBytes - length line) 0 @ drop (nat numBytes) into, Suc v, feed rest m)) \<and>
    (int (length line) = numBytes \<and> line \<noteq> [] \<longrightarrow>
      SynchConsoleInput_ReadLine (Some (Suc v)) ch0 into numBytes (feed (line @ rest) m) =
        Inr (numBytes, line @ drop (nat numBytes) into, Suc v, feed rest m)) \<and>
    SynchConsoleInput_ReadLine (Some 0) ch0 into numBytes m = Inl Diverges \<and>
    SynchConsoleInput_ReadLine None ch0 into numBytes m = Inl WildAccess \<and> SynchConsoleInput_Read into numBytes m = Inl WildAccess"
proof -
  let ?n = "nat numBytes" and ?b = "replicate (nat numBytes) 0 @ drop (nat numBytes) into"
  note z = zero_fill_eq [OF assms(1,2)]
  have run: "SynchConsoleInput_ReadLine (Some (Suc v)) ch0 into numBytes m1 =
      rbind (Read_line ?n ch0 0 ?b m1) (\<lambda>(ch, i, buf, m2). Inr (if ch = 1 then -1 else i, buf, Suc v, m2))" for m1 :: "'a sysenv_scheme"
    by (simp add: SynchConsoleInput_ReadLine_def z line_P_def)
  have rd: "Read_line ?n ch0 0 ?b (feed (line @ r) m) =
      Read_line (?n - length line) (if line = [] then ch0 else last line) (int (length line)) (line @ drop (length line) ?b) (feed r m)"
    if "length line \<le> ?n" for r
    using Read_line_chars [OF line that, of 0 ?b ch0 r m] assms(1,2) by simp
  have short: "SynchConsoleInput_ReadLine (Some (Suc v)) ch0 into numBytes (feed (line @ t # rest) m) =
        Inr (if t = 1 then -1 else int (length line), line @ replicate (?n - length line) 0 @ drop ?n into, Suc v, feed rest m)"
    if l: "int (length line) < numBytes" and t: "t \<in> {10, 1}"
  proof -
    have "t \<noteq> EOF" using t by (auto simp: EOF_def)
    moreover obtain k where "?n - length line = Suc k" using l by (cases "?n - length line") auto
    moreover have "length line \<le> ?n" using l by simp
    ultimately show ?thesis using t rd [of "t # rest"] Read_char_feed [of t rest m] by (auto simp: run)
  qed
  have full: "SynchConsoleInput_ReadLine (Some (Suc v)) ch0 into numBytes (feed (line @ rest) m) = Inr (numBytes, line @ drop ?n into, Suc v, feed rest m)"
    if l: "int (length line) = numBytes" and ne: "line \<noteq> []"
  proof -
    have "last line \<noteq> 1" using line last_in_set [OF ne] by auto
    moreover have "?n = length line" using l by simp
    ultimately show ?thesis using rd [of rest] l ne by (simp add: run)
  qed
  have "SynchConsoleInput_ReadLine (Some 0) ch0 into numBytes m = Inl Diverges" "SynchConsoleInput_ReadLine None ch0 into numBytes m = Inl WildAccess"
    by (simp_all add: SynchConsoleInput_ReadLine_def z line_P_def)
  then show ?thesis using short full by (simp add: SynchConsoleInput_Read_def)
qed

theorem ReadLine_correct_witness:
  "SynchConsoleInput_ReadLine (Some 1) 7 [9, 9, 9, 9, 9] 4 (feed [104, 105, 10, 106] boot_sys) =
     Inr (2, [104, 105, 0, 0, 9], 1, feed [106] boot_sys)"
proof -
  have "replicate 2 (0 :: byte) = [0, 0]" by (simp add: numeral_2_eq_2)
  then show ?thesis using ReadLine_correct [of 4 "[9, 9, 9, 9, 9]" "[104, 105]" 10 0 7 "[106]" boot_sys] by (simp add: EOF_def)
qed

text \<open>\<open>Write\<close> shows the bytes in order, when there is a semaphore and the buffer is long enough.\<close>

theorem Write_correct:
  assumes "0 \<le> numBytes" and "numBytes \<le> int (length from)"
  shows "SynchConsoleOutput_Write (Some (Suc v)) from numBytes m = Inr (numBytes, Suc v, m\<lparr>conOut := conOut m @ take (nat numBytes) from\<rparr>) \<and>
    SynchConsoleOutput_Write None from numBytes m = Inl WildAccess"
proof -
  have "\<exists>m'. for_upto numBytes (\<lambda>i m1. rbind (arr_get from i) (\<lambda>c. Inr (PutChar c m1))) m = Inr m' \<and>
      m' = m\<lparr>conOut := conOut m @ take (nat numBytes) from\<rparr>"
  proof (rule for_upto_rule [where P = "\<lambda>i m'. m' = m\<lparr>conOut := conOut m @ take (nat i) from\<rparr>"])
    fix i m' assume i: "0 \<le> i" "i < numBytes" "m' = m\<lparr>conOut := conOut m @ take (nat i) from\<rparr>"
    then have "take (nat (i + 1)) from = take (nat i) from @ [from ! nat i]"
      using assms(2) by (simp add: nat_add_distrib take_Suc_conv_app_nth)
    then show "\<exists>m''. rbind (arr_get from i) (\<lambda>c. Inr (PutChar c m')) = Inr m'' \<and> m'' = m\<lparr>conOut := conOut m @ take (nat (i + 1)) from\<rparr>"
      using i assms(2) by (simp add: PutChar_def)
  qed (use assms in simp_all)
  then show ?thesis by (auto simp: SynchConsoleOutput_Write_def line_P_def)
qed

theorem Write_correct_witness:
  "SynchConsoleOutput_Write (Some 1) [104, 105, 106] 2 boot_sys = Inr (2, 1, boot_sys\<lparr>conOut := conOut boot_sys @ [104, 105]\<rparr>)"
  using Write_correct [of 2 "[104, 105, 106]" 0 boot_sys] by (simp add: numeral_eq_Suc)

end
