(* ===== verification/Machine_Debugger.thy ===== *)
theory Machine_Debugger
  imports Threads_Options
begin

text \<open>
  \<open>Machine::Debugger\<close> of \<open>machine/machine.cc\<close>, which \<open>Machine::Run\<close> calls in single-step mode: it
  reads commands from the host's standard input until one says how to go on. The stream \<open>cin\<close> is
  modelled as far as the debugger uses it: the characters to come, and whether a read has failed
  or met the end of the input, after which all reads fail. What the debugger prints is left out.
\<close>

section \<open>Standard input\<close>

record istream =
  chars :: "byte list"
  bad :: bool

text \<open>
  \<open>get(buf, 80)\<close>: up to 79 characters in front of a newline, as a string. Reading no character at all
  makes the stream fail, and so does meeting the end of the input.
\<close>

definition get_line :: "istream \<Rightarrow> byte list \<times> istream" where
  "get_line s =
     (if bad s then ([], s)
      else let line = takeWhile (\<lambda>c. c \<noteq> 10) (take 79 (chars s)); rest = drop (length line) (chars s) in
           (takeWhile (\<lambda>c. c \<noteq> 0) line, s\<lparr>chars := rest, bad := (line = [] \<or> length line < 79 \<and> rest = [])\<rparr>))"

text \<open>\<open>get()\<close>: one character, or \<open>EOF\<close>.\<close>

definition get_char :: "istream \<Rightarrow> byte \<times> istream" where
  "get_char s =
     (if bad s then (EOF, s)
      else case chars s of [] \<Rightarrow> (EOF, s\<lparr>bad := True\<rparr>) | c # cs \<Rightarrow> (c, s\<lparr>chars := cs\<rparr>))"

text \<open>\<open>sscanf\<close> with \<open>%d\<close>: a number, if there is one after white space and a sign.\<close>

definition scan_int :: "byte list \<Rightarrow> int option" where
  "scan_int str =
     (let s = dropWhile isspace str;
          ds = (case s of [] \<Rightarrow> [] | c # cs \<Rightarrow> if c = 45 \<or> c = 43 then cs else s)
      in if ds \<noteq> [] \<and> is_digit (hd ds) then Some (atoi str) else None)"

section \<open>The debugger\<close>

record stepping =
  singleStep :: bool
  runUntilTime :: int

lemma get_less:
  assumes "get_line s = (buf, s1)" and "buf \<noteq> []" and "get_char s1 = (c, s2)"
  shows "length (chars s2) < length (chars s)"
proof -
  let ?line = "takeWhile (\<lambda>c. c \<noteq> 10) (take 79 (chars s))"
  have b: "\<not> bad s" "buf = takeWhile (\<lambda>c. c \<noteq> 0) ?line" "chars s1 = drop (length ?line) (chars s)"
    using assms(1,2) by (auto simp: get_line_def Let_def split: if_splits)
  have "?line \<noteq> []" using assms(2) b(2) by auto
  moreover have "chars s \<noteq> []" using calculation by auto
  ultimately have "length (chars s1) < length (chars s)" by (simp add: b(3))
  moreover have "length (chars s2) \<le> length (chars s1)" using assms(3) by (auto simp: get_char_def split: if_splits list.splits)
  ultimately show ?thesis by simp
qed

function Debugger :: "stepping \<Rightarrow> istream \<Rightarrow> stepping \<times> istream" where
  "Debugger d s =
     (let (buf, s1) = get_line s; (_, s2) = get_char s1 in
      case scan_int buf of
        Some num \<Rightarrow> (d\<lparr>runUntilTime := num\<rparr>, s2)
      | None \<Rightarrow>
          let d1 = d\<lparr>runUntilTime := 0\<rparr> in
          if buf = [] then (d1, s2)
          else if hd buf = 99 then (d1\<lparr>singleStep := False\<rparr>, s2)
          else Debugger d1 s2)"
  by auto
termination by (relation "measure (\<lambda>(d, s). length (chars s))") (auto, metis get_less)

declare Debugger.simps [simp del]

text \<open>The last statement of the loop of \<open>Machine::Run\<close>, at time \<open>t\<close>.\<close>

definition Run_check :: "int \<Rightarrow> stepping \<Rightarrow> istream \<Rightarrow> stepping \<times> istream" where
  "Run_check t d s = (if singleStep d \<and> runUntilTime d \<le> t then Debugger d s else (d, s))"

section \<open>Properties\<close>

lemma Debugger_bad: "bad s \<Longrightarrow> Debugger d s = (d\<lparr>runUntilTime := 0\<rparr>, s)"
  by (subst Debugger.simps) (simp add: get_line_def get_char_def scan_int_def)

text \<open>A command on a line of its own, with fewer than 79 characters.\<close>

lemma get_command:
  assumes "\<not> bad s" and "chars s = cmd @ 10 # rest" and "cmd \<noteq> []" and "length cmd < 79" and "10 \<notin> set cmd" "0 \<notin> set cmd"
  shows "get_line s = (cmd, s\<lparr>chars := 10 # rest\<rparr>)" and "get_char (s\<lparr>chars := 10 # rest\<rparr>) = (10, s\<lparr>chars := rest\<rparr>)"
proof -
  obtain k where k: "79 - length cmd = Suc k" using assms(4) by (cases "79 - length cmd") auto
  have "takeWhile (\<lambda>c. c \<noteq> 10) (cmd @ xs) = cmd @ takeWhile (\<lambda>c. c \<noteq> 10) xs" for xs
    by (rule takeWhile_append2) (use assms(5) in auto)
  then have "takeWhile (\<lambda>c. c \<noteq> 10) (take 79 (cmd @ 10 # rest)) = cmd" using k by simp
  moreover have "takeWhile (\<lambda>c. c \<noteq> 0) cmd = cmd" using assms(6) by (auto simp: takeWhile_eq_all_conv)
  ultimately show "get_line s = (cmd, s\<lparr>chars := 10 # rest\<rparr>)" using assms(1-3) by (cases s) (simp add: get_line_def Let_def)
  show "get_char (s\<lparr>chars := 10 # rest\<rparr>) = (10, s\<lparr>chars := rest\<rparr>)" using assms(1) by (simp add: get_char_def)
qed

text \<open>
  C39: every call of the debugger returns, and the commands do what its help says but one: a number lets
  the program run to that time, \<open>c\<close> ends single-stepping, any other word is skipped and the next
  command read. An empty line, meant to execute one instruction, makes the stream fail: from
  then on every call of the debugger returns at once without reading, whatever is typed, and
  the program runs on without a stop.
\<close>

theorem Debugger_commands:
  assumes "\<not> bad s"
  shows "(cmd \<noteq> [] \<and> length cmd < 79 \<and> 10 \<notin> set cmd \<and> 0 \<notin> set cmd \<and> chars s = cmd @ 10 # rest \<longrightarrow>
      Debugger d s =
        (case scan_int cmd of Some num \<Rightarrow> (d\<lparr>runUntilTime := num\<rparr>, s\<lparr>chars := rest\<rparr>)
         | None \<Rightarrow> if hd cmd = 99 then (d\<lparr>runUntilTime := 0, singleStep := False\<rparr>, s\<lparr>chars := rest\<rparr>)
                   else Debugger (d\<lparr>runUntilTime := 0\<rparr>) (s\<lparr>chars := rest\<rparr>))) \<and>
    (chars s = 10 # rest \<longrightarrow>
      (\<exists>s'. Debugger d s = (d\<lparr>runUntilTime := 0\<rparr>, s') \<and> chars s' = 10 # rest \<and>
        (\<forall>d' t. Run_check t d' s' = (if singleStep d' \<and> runUntilTime d' \<le> t then d'\<lparr>runUntilTime := 0\<rparr> else d', s'))))"
proof -
  have "Debugger d s =
        (case scan_int cmd of Some num \<Rightarrow> (d\<lparr>runUntilTime := num\<rparr>, s\<lparr>chars := rest\<rparr>)
         | None \<Rightarrow> if hd cmd = 99 then (d\<lparr>runUntilTime := 0, singleStep := False\<rparr>, s\<lparr>chars := rest\<rparr>)
                   else Debugger (d\<lparr>runUntilTime := 0\<rparr>) (s\<lparr>chars := rest\<rparr>))"
    if c: "cmd \<noteq> []" "length cmd < 79" "10 \<notin> set cmd" "0 \<notin> set cmd" "chars s = cmd @ 10 # rest"
    using get_command [OF assms c(5,1,2,3,4)] c(1) by (subst Debugger.simps) (simp add: Let_def cong: option.case_cong)
  moreover have "Debugger d s = (d\<lparr>runUntilTime := 0\<rparr>, s\<lparr>bad := True\<rparr>)" if "chars s = 10 # rest"
    using that assms by (subst Debugger.simps) (simp add: get_line_def get_char_def scan_int_def Let_def)
  ultimately show ?thesis by (auto simp: Run_check_def Debugger_bad)
qed

theorem Debugger_commands_witness:
  "\<exists>s'. Debugger \<lparr>singleStep = True, runUntilTime = 0\<rparr> \<lparr>chars = [10, 99, 10], bad = False\<rparr> = (\<lparr>singleStep = True, runUntilTime = 0\<rparr>, s') \<and>
     chars s' = [10, 99, 10] \<and> Run_check 20 \<lparr>singleStep = True, runUntilTime = 0\<rparr> s' = (\<lparr>singleStep = True, runUntilTime = 0\<rparr>, s')"
  using Debugger_commands [of "\<lparr>chars = [10, 99, 10], bad = False\<rparr>" "[99]" "[99, 10]" "\<lparr>singleStep = True, runUntilTime = 0\<rparr>"] by auto

end
