(* ===== verification/Spec2Isabelle.thy ===== *)
theory Spec2Isabelle
  imports Lib_Hash Threads_Boot Threads_Semaphore Threads_Main Filesys_SynchDisk Network_Test Coff2noff Userprog_Console Userprog_Line Machine_Debugger
begin

text \<open>
  A verification library for NachOS 4.0 (\<open>NachOS-4.0/code\<close>), a teaching kernel that runs inside a
  simulator of a workstation, and for \<open>coff2noff\<close>, the converter of user programs.

  \<^bold>\<open>The program.\<close> The workstation (\<open>machine/\<close>) has a MIPS processor with registers, memory, a page
  table or a TLB; an interrupt controller with simulated time; a timer, a disk, a console and a
  network device. The kernel (\<open>threads/\<close>, \<open>userprog/\<close>, \<open>filesys/\<close>, \<open>network/\<close>) runs as C++ on the host:
  threads with a round-robin scheduler, semaphores, locks and condition variables; address spaces
  and system calls of user programs; a file system, on the simulated disk or, in this build, on
  the host's files; a post office on the network. \<open>lib/\<close> holds lists, hash tables, bitmaps and the
  calls to the host. The processor calls the kernel at an exception; devices call it back from the
  interrupt controller; the kernel calls the devices and asks the scheduler to switch threads.

  \<^bold>\<open>Common conventions.\<close> A method \<open>Class::Method\<close> is the function \<open>Class_Method\<close> (or just \<open>Method\<close> where
  that is unambiguous) from the old state to a \<open>result\<close>: \<open>Inr\<close> the new state, or \<open>Inl\<close> a fault. The
  faults are \<open>Abort\<close> (a failed \<open>ASSERT\<close>), \<open>Halt\<close> (the machine is switched off), \<open>WildAccess\<close> (an access
  outside an array or through a null pointer), \<open>ArithTrap\<close> (the host's division traps) and \<open>Diverges\<close>
  (the call never returns). Classes are records with the fields of the source; the machine, the
  system environment, the interrupt hardware, the kernel, a machine on the network and the console are
  records that extend one another, so that operations of a lower layer apply to all of them.
  Integers are 32 bit words where the code computes on them with wrap-around (registers, bit maps,
  file headers, byte order), and \<open>int\<close> where the values are bounded by the asserted conditions;
  simulated time is an unbounded \<open>int\<close>. Uninitialised memory is an argument. The build is that of
  \<open>build.linux\<close>: 32 bits, little-endian, \<open>FILESYS_STUB\<close>, \<open>RDATA\<close>, \<open>SIM_FIX\<close>, no TLB; the real file
  system, which the build leaves out, is modelled beside the stub.
\<close>

text \<open>
  \<^bold>\<open>The theories, and the code they model.\<close>

  \<^item> \<open>Nachos_Prelude\<close>: results, \<open>ASSERT\<close>, bounds-checked arrays, counted loops, byte order,
    the macros of \<open>lib/utility.h\<close>.
  \<^item> \<open>Lib_Bitmap\<close> (\<open>lib/bitmap\<close>): refinement to the set of marked bits; \<open>FindAndSet\<close> gives the least
    clear bit.
  \<^item> \<open>Lib_List\<close> (\<open>lib/list\<close>): linked lists in a store of cells, refined to sequences; sorted
    insertion; the self tests pass. The other theories use lists through this refinement.
  \<^item> \<open>Lib_Hash\<close> (\<open>lib/hash\<close>): the hash table with its growth is a finite map.
  \<^item> \<open>Machine_Memory\<close> (\<open>machine/machine\<close>, \<open>translate\<close>): address translation is total and stays in the
    frames of the page table; what is written is read back, and only there.
  \<^item> \<open>Machine_Mips\<close> (\<open>machine/mipssim\<close>): decoding and every instruction. An instruction either completes or
    leaves the registers as they were and raises one exception; multiplication, division, overflow and
    unaligned accesses are those of the architecture.
  \<^item> \<open>Userprog_Syscall\<close> (\<open>userprog/exception.cc\<close>, \<open>ksyscall.h\<close>, the stub file system, the file calls
    of \<open>lib/sysdep.cc\<close>): the handler never damages the kernel, whatever the registers hold,
    apart from the faults it names; the calls on files, numbers and strings do what they promise.
  \<^item> \<open>Userprog_Space\<close> (\<open>userprog/addrspace\<close>, \<open>noff.h\<close>): loading a program and its address space.
  \<^item> \<open>Machine_Interrupt\<close> (\<open>machine/interrupt\<close>, \<open>stats\<close>, \<open>timer\<close>, \<open>threads/alarm\<close>): simulated time,
    pending interrupts in order of time, and the interface of devices.
  \<^item> \<open>Threads_Kernel\<close>, \<open>Threads_Invariant\<close> (\<open>threads/thread\<close>, \<open>scheduler\<close>, \<open>synch\<close>, \<open>synchlist\<close>,
    \<open>Machine::Run\<close>): the multiprogrammed kernel as a step function on stacks of frames; its
    invariant, no assertion fails in any interleaving, no thread is lost, round-robin order,
    progress of a sleeping processor.
  \<^item> \<open>Threads_Lock\<close> (the constructors of \<open>threads/synch\<close> and \<open>synchlist\<close>): mutual exclusion of locks in every
    interleaving, by counting what the threads' frames owe to the lock's semaphore.
  \<^item> \<open>Threads_Semaphore\<close> (\<open>threads/synch\<close> again): no wakeup is lost, so the processor idles only when every
    semaphore that a thread waits for is zero.
  \<^item> \<open>Filesys_File\<close>, \<open>Filesys_Dir\<close>, \<open>Filesys_System\<close> (\<open>filesys/filehdr\<close>, \<open>openfile\<close>, \<open>pbitmap\<close>,
    \<open>directory\<close>, \<open>filesys\<close>): files on the disk are byte arrays, the directory is a finite map, and
    \<open>Create\<close>, \<open>Open\<close> and \<open>Remove\<close> keep the disk consistent (no sector used twice, the map of free
    sectors exact) and do to the set of files what their names say.
  \<^item> \<open>Machine_Disk\<close> (\<open>machine/disk\<close>): the device is an array of sectors, with the timing of seeks,
    rotation and the track buffer.
  \<^item> \<open>Filesys_SynchDisk\<close> (\<open>filesys/synchdisk\<close>): with lock, semaphore and interrupt, the device is the array of
    sectors that \<open>Filesys_File\<close> reads and writes.
  \<^item> \<open>Userprog_Console\<close> (\<open>machine/console\<close>, \<open>userprog/synchconsole\<close>): the devices implement the
    \<open>GetChar\<close> and \<open>PutChar\<close> that \<open>Userprog_Syscall\<close> uses; a waiting reader is served.
  \<^item> \<open>Network_Post\<close> (\<open>machine/network\<close>, \<open>network/post\<close>): any number of machines; mail arrives once, in
    order and unchanged.
  \<^item> \<open>Network_Test\<close> (\<open>Kernel::NetworkTest\<close>): the test program on two machines of such a network; each shows
    the greeting and the acknowledgement of the other, in every interleaving.
  \<^item> \<open>Userprog_Line\<close> (\<open>Read\<close> and \<open>Write\<close> of \<open>userprog/synchconsole\<close>): lines read and buffers shown, given the
    semaphores that the build never creates.
  \<^item> \<open>Threads_Options\<close> (\<open>lib/debug\<close>, \<open>lib/libtest\<close>, the command line in \<open>threads/main.cc\<close> and
    \<open>kernel.cc\<close>, \<open>Kernel::ConsoleTest\<close>): both readers of the command line invert its grammar; the library
    tests pass; the console test ends and echoes its input.
  \<^item> \<open>Threads_Boot\<close> (\<open>Kernel::Initialize\<close>, the end of \<open>main\<close>): every start gives a legal kernel; a user program is
    started at address 0.
  \<^item> \<open>Filesys_Copy\<close>, \<open>Threads_Main\<close> (\<open>Copy\<close>, \<open>Print\<close> and the file commands of \<open>threads/main.cc\<close>): a UNIX file
    copied to the disk in one run of Nachos is printed in the next, byte for byte.
  \<^item> \<open>Machine_Debugger\<close> (\<open>Machine::Debugger\<close>): the commands of the single-step debugger, and the empty line
    after which it never stops again.
  \<^item> \<open>Coff2noff\<close> (\<open>coff2noff/coff2noff.c\<close>): a converted program is loaded as its COFF file says.
\<close>

text \<open>
  \<^bold>\<open>Interfaces.\<close> Where one part relies on another, the contract is a locale, its consequences are proved once
  inside it, and it is interpreted on the definitions of the part that provides it: \<open>alloc_map\<close> (free
  maps, on \<open>Bitmap\<close>), \<open>comparison\<close> and \<open>testable_list\<close> (sorted lists and the self tests, on \<open>List\<close>,
  \<open>SortedList\<close> and \<open>PendingCompare\<close>), \<open>keyed_table\<close> (on \<open>HashTable\<close>), \<open>name_table\<close> (on
  \<open>Directory\<close>), \<open>trap_handler\<close> (what the processor needs of the kernel, on \<open>ExceptionHandler\<close>),
  \<open>handlers\<close> and its special case \<open>devices\<close> (what the interrupt hardware needs of the interrupt
  handlers, on those of the kernel, of the console, of the disk and of the network).

  \<^bold>\<open>Loops and fuel.\<close> Loops are structural or counted where the code counts. \<open>handle_due\<close>, the loop of
  \<open>CheckIfDue\<close>, gets the number of pending interrupts plus one: handlers schedule only for the
  future, so at most the interrupts pending at the start are handled. Loops over list cells get the number
  of cells of the list plus one. The loop of \<open>ReadNum\<close> that skips blanks, the one of \<open>ReadString\<close> and the console
  test are bounded by the characters left on the console, the loops of \<open>Copy\<close> and \<open>Print\<close> by the bytes of the
  file not yet read, the debugger by the characters on standard input. Loops without an end (\<open>Machine::Run\<close>, idling,
  \<open>PostalDelivery\<close>) are step functions or relations, and their progress is proved as such.

  \<^bold>\<open>Not modelled.\<close> Text written to the host's terminal (\<open>DEBUG\<close>, \<open>Print\<close> of the
  classes, \<open>DumpState\<close>); destructors that only free memory; the assembly of \<open>switch.S\<close>, whose effect is the change
  of the current thread; stack overflow checks; signals, delays and socket set-up of \<open>sysdep.cc\<close>;
  \<open>Kernel::ThreadSelfTest\<close> beyond the library tests, and \<open>SynchList::Apply\<close>, whose argument is any function;
  the threads and interrupts of the devices inside \<open>Kernel::Initialize\<close>, which are started in the theories of
  the devices, each with its own interrupt hardware; the programs under \<open>test/\<close>; the vendored headers of the
  cross-compiler. A system call runs in one step of the kernel: it does not interleave with other
  threads while it waits for the console.
\<close>

end
